(* ===== verification/Prelude.thy ===== *)
theory Prelude
  imports Main "HOL-Library.Word"
begin

unbundle bit_operations_syntax

text \<open>
  Shared ground of the development: the result type of fallible code with its
  sequencing and loop combinators, 32-bit wrap-around on natural numbers, the
  little-endian byte representation of integers, and bit strings packed into bytes
  from the most significant bit downwards.
\<close>

section \<open>Results of code that may throw or run into undefined behaviour\<close>

text \<open>
  \<open>RuntimeError\<close> is \<^verbatim>\<open>std::runtime_error\<close> with its message, \<open>InvalidArgument\<close> and
  \<open>OutOfRange\<close> are the exceptions of the \<^verbatim>\<open>std::sto*\<close> functions, \<open>Undefined\<close> is a
  step without a defined meaning in C++ (an access outside an object, a signed
  overflow, a division by zero).
\<close>

datatype exn = RuntimeError string | InvalidArgument | OutOfRange | Undefined

type_synonym 'a res = "exn + 'a"

named_theorems res_simps \<open>evaluation of sequenced results\<close>
named_theorems buf_intros \<open>what the statements that write to a result string append\<close>
named_theorems acc_simps \<open>values of the accessors of an array in a known layout\<close>

definition ebind :: "'a res \<Rightarrow> ('a \<Rightarrow> 'b res) \<Rightarrow> 'b res" where
  "ebind m f = (case m of Inl e \<Rightarrow> Inl e | Inr x \<Rightarrow> f x)"

lemma ebind_simps [simp, res_simps]:
  "ebind (Inl e) f = Inl e"
  "ebind (Inr x) f = f x"
  by (simp_all add: ebind_def)

lemma ebind_assoc: "ebind (ebind m f) g = ebind m (\<lambda>x. ebind (f x) g)"
  by (simp add: ebind_def split: sum.split)

lemma ebind_eq_Inr_iff: "ebind m f = Inr y \<longleftrightarrow> (\<exists>x. m = Inr x \<and> f x = Inr y)"
  by (simp add: ebind_def split: sum.split)

lemma ebind_cong [fundef_cong]:
  "m = m' \<Longrightarrow> (\<And>x. m' = Inr x \<Longrightarrow> f x = f' x) \<Longrightarrow> ebind m f = ebind m' f'"
  by (simp add: ebind_def split: sum.split)

text \<open>The body of a \<^verbatim>\<open>for\<close> loop run for each index in turn, with the loop state threaded.\<close>

fun mfold :: "('i \<Rightarrow> 's \<Rightarrow> 's res) \<Rightarrow> 'i list \<Rightarrow> 's \<Rightarrow> 's res" where
  "mfold f [] s = Inr s"
| "mfold f (i # is) s = ebind (f i s) (mfold f is)"

text \<open>A sequence of statements, each acting on the same state.\<close>

fun steps :: "('s \<Rightarrow> 's res) list \<Rightarrow> 's \<Rightarrow> 's res" where
  "steps [] s = Inr s"
| "steps (f # fs) s = ebind (f s) (steps fs)"

lemma mfold_append: "mfold f (is @ js) s = ebind (mfold f is s) (mfold f js)"
  by (induction "is" arbitrary: s) (simp_all add: ebind_def split: sum.split)

lemma steps_append: "steps (fs @ gs) s = ebind (steps fs s) (steps gs)"
  by (induction fs arbitrary: s) (simp_all add: ebind_def split: sum.split)

text \<open>
  The loop rule: when the body takes the \<open>i\<close>-th loop state to the next one, the loop
  returns the last one.
\<close>

lemma mfold_upt:
  assumes "a \<le> b" and "\<And>i. a \<le> i \<Longrightarrow> i < b \<Longrightarrow> f i (S i) = Inr (S (Suc i))"
  shows "mfold f [a..<b] (S a) = Inr (S b)"
  using assms
proof (induction "b - a" arbitrary: a)
  case 0
  then show ?case by simp
next
  case (Suc n)
  then have "a < b" by simp
  then have "mfold f [a..<b] (S a) = mfold f [Suc a..<b] (S (Suc a))"
    using Suc.prems by (simp add: upt_conv_Cons)
  also have "\<dots> = Inr (S b)"
    using Suc.hyps(1)[of "Suc a"] Suc.hyps(2) Suc.prems \<open>a < b\<close> by simp
  finally show ?case .
qed

lemma mfold_upt0:
  assumes "s = S 0" and "\<And>i. i < n \<Longrightarrow> f i (S i) = Inr (S (Suc i))" and "t = S n"
  shows "mfold f [0..<n] s = Inr t"
  using mfold_upt[of 0 n f S] assms by simp

lemma mfold_cong [fundef_cong]:
  "is = js \<Longrightarrow> s = t \<Longrightarrow> (\<And>i u. i \<in> set js \<Longrightarrow> f i u = g i u) \<Longrightarrow> mfold f is s = mfold g js t"
proof (induction js arbitrary: "is" s t)
  case (Cons j js)
  then show ?case by (auto intro!: ebind_cong)
qed simp

text \<open>Mapping a fallible function over a list, left to right.\<close>

fun mmap :: "('a \<Rightarrow> 'b res) \<Rightarrow> 'a list \<Rightarrow> 'b list res" where
  "mmap f [] = Inr []"
| "mmap f (x # xs) = ebind (f x) (\<lambda>y. ebind (mmap f xs) (\<lambda>ys. Inr (y # ys)))"

lemma rev_upt_map: "rev [1..<d + 1] = map (\<lambda>k. d - k) [0..<d]"
  by (rule nth_equalityI) (simp_all add: rev_nth del: upt_Suc)

lemma mfold_map: "mfold f (map g is) s = mfold (\<lambda>i. f (g i)) is s"
  by (induction "is" arbitrary: s) (simp_all add: ebind_def split: sum.split)

lemma mmap_append: "mmap f (xs @ ys) = ebind (mmap f xs) (\<lambda>us. ebind (mmap f ys) (\<lambda>vs. Inr (us @ vs)))"
  by (induction xs) (simp_all add: ebind_assoc, simp add: ebind_def split: sum.split)

lemma mmap_map: "mmap f (map g xs) = mmap (\<lambda>x. f (g x)) xs"
  by (induction xs) simp_all

lemma mmap_cong [fundef_cong]:
  "xs = ys \<Longrightarrow> (\<And>x. x \<in> set ys \<Longrightarrow> f x = g x) \<Longrightarrow> mmap f xs = mmap g ys"
  by (induction ys arbitrary: xs) (auto intro!: ebind_cong)

lemma mmap_InrD: "mmap f xs = Inr ys \<Longrightarrow> length ys = length xs \<and> (\<forall>i < length xs. f (xs ! i) = Inr (ys ! i))"
proof (induction xs arbitrary: ys)
  case (Cons x xs)
  then obtain y zs where "f x = Inr y" "mmap f xs = Inr zs" "ys = y # zs"
    by (auto simp: ebind_eq_Inr_iff)
  with Cons.IH[of zs] show ?case by (auto simp: nth_Cons split: nat.split)
qed simp

lemma mmap_InlD:
  "mmap f xs = Inl e \<Longrightarrow> \<exists>i < length xs. f (xs ! i) = Inl e \<and> (\<forall>j < i. \<exists>z. f (xs ! j) = Inr z)"
proof (induction xs)
  case (Cons x xs)
  show ?case
  proof (cases "f x")
    case (Inl e')
    then show ?thesis using Cons.prems by (intro exI[of _ 0]) simp
  next
    case (Inr y)
    then have "mmap f xs = Inl e" using Cons.prems by (cases "mmap f xs") simp_all
    then obtain i where "i < length xs" "f (xs ! i) = Inl e" "\<forall>j < i. \<exists>z. f (xs ! j) = Inr z"
      using Cons.IH by blast
    then show ?thesis using Inr by (intro exI[of _ "Suc i"]) (auto simp: less_Suc_eq_0_disj)
  qed
qed simp

lemma mmap_nth: "mmap (\<lambda>k. f (xs ! k)) [0..<length xs] = mmap f xs"
  using mmap_map[of f "\<lambda>k. xs ! k" "[0..<length xs]"] by (simp add: map_nth)

lemma mmap_Inr: "(\<And>x. x \<in> set xs \<Longrightarrow> f x = Inr (g x)) \<Longrightarrow> mmap f xs = Inr (map g xs)"
  by (induction xs) simp_all

text \<open>A loop that returns \<^verbatim>\<open>true\<close> at the first index where its test succeeds.\<close>

fun mexists :: "('i \<Rightarrow> bool res) \<Rightarrow> 'i list \<Rightarrow> bool res" where
  "mexists f [] = Inr False"
| "mexists f (i # is) = ebind (f i) (\<lambda>b. if b then Inr True else mexists f is)"

lemma mexists_Inr:
  "(\<And>i. i \<in> set is \<Longrightarrow> f i = Inr (p i)) \<Longrightarrow> mexists f is = Inr (\<exists>i \<in> set is. p i)"
  by (induction "is") auto

section \<open>Unsigned 32-bit arithmetic on natural numbers\<close>

definition u32 :: "nat \<Rightarrow> nat" where
  "u32 n = n mod 4294967296"

lemma u32_id [simp]: "n < 4294967296 \<Longrightarrow> u32 n = n"
  by (simp add: u32_def)

lemma u32_less [simp]: "u32 n < 4294967296"
  by (simp add: u32_def)

text \<open>Subtraction of \<^verbatim>\<open>uint32_t\<close> wraps below zero.\<close>

definition u32_sub :: "nat \<Rightarrow> nat \<Rightarrow> nat" where
  "u32_sub a b = (if b \<le> a then a - b else a + 4294967296 - b)"

lemma u32_sub_le [simp]: "b \<le> a \<Longrightarrow> u32_sub a b = a - b"
  by (simp add: u32_sub_def)

text \<open>The value of an \<^verbatim>\<open>int32_t\<close> (or, with \<open>n = 64\<close>, \<^verbatim>\<open>int64_t\<close>) with a given bit pattern, and back.\<close>

definition to_signed :: "nat \<Rightarrow> nat \<Rightarrow> int" where
  "to_signed n x = (if x < 2 ^ (n - 1) then int x else int x - 2 ^ n)"

definition of_signed :: "nat \<Rightarrow> int \<Rightarrow> nat" where
  "of_signed n i = nat (i mod 2 ^ n)"

definition in_signed :: "nat \<Rightarrow> int \<Rightarrow> bool" where
  "in_signed n i \<longleftrightarrow> - (2 ^ (n - 1)) \<le> i \<and> i < 2 ^ (n - 1)"

lemma of_signed_less: "of_signed n i < 2 ^ n"
proof -
  have "i mod 2 ^ n < 2 ^ n" by simp
  then have "nat (i mod 2 ^ n) < nat (2 ^ n)" by (subst nat_less_eq_zless) simp_all
  then show ?thesis by (simp add: of_signed_def nat_power_eq)
qed

lemma to_signed_of_signed:
  assumes "0 < n" and "in_signed n i"
  shows "to_signed n (of_signed n i) = i"
proof -
  have two: "(2::int) ^ n = 2 * 2 ^ (n - 1)" using assms(1) by (cases n) simp_all
  show ?thesis
  proof (cases "0 \<le> i")
    case True
    then have "i mod 2 ^ n = i" using assms(2) two by (simp add: in_signed_def)
    then have "of_signed n i = nat i" by (simp add: of_signed_def)
    moreover have "nat i < 2 ^ (n - 1)"
      using True assms(2) by (simp add: in_signed_def nat_less_iff)
    ultimately show ?thesis using True by (simp add: to_signed_def)
  next
    case False
    have m: "i mod 2 ^ n = i + 2 ^ n"
    proof -
      have "(i + 2 ^ n) mod 2 ^ n = i + 2 ^ n"
        using False assms(2) two by (intro mod_pos_pos_trivial) (simp_all add: in_signed_def)
      then show ?thesis by simp
    qed
    have ge: "0 \<le> i + 2 ^ n" using assms(2) two by (simp add: in_signed_def)
    have "of_signed n i = nat (i + 2 ^ n)" by (simp add: of_signed_def m)
    moreover have "\<not> nat (i + 2 ^ n) < 2 ^ (n - 1)"
    proof
      assume "nat (i + 2 ^ n) < 2 ^ (n - 1)"
      then have "i + 2 ^ n < 2 ^ (n - 1)" using ge by (simp add: nat_less_iff)
      then show False using assms(2) two by (simp add: in_signed_def)
    qed
    ultimately show ?thesis using ge by (simp add: to_signed_def)
  qed
qed

end
