(* ===== verification/Byte_Buffer.thy ===== *)
theory Byte_Buffer
  imports Prelude
begin

text \<open>
  Byte memory as the array code sees it. A \<^verbatim>\<open>std::string\<close> that holds an array is a list
  of bytes followed by its terminating zero, a pointer into it is an offset, and a load
  outside of it is \<open>Undefined\<close>. A result string is a zero-filled list of bytes
  (\<^verbatim>\<open>std::string::resize\<close>) together with the position of the write pointer \<^verbatim>\<open>buffer\<close>;
  a write outside of it is \<open>Undefined\<close>.
\<close>

section \<open>Integers as little-endian bytes\<close>

type_synonym byte = "8 word"
type_synonym bytes = "byte list"

fun le_bytes :: "nat \<Rightarrow> nat \<Rightarrow> bytes" where
  "le_bytes 0 x = []"
| "le_bytes (Suc n) x = of_nat x # le_bytes n (x div 256)"

fun le_val :: "bytes \<Rightarrow> nat" where
  "le_val [] = 0"
| "le_val (b # bs) = unat b + 256 * le_val bs"

lemma le_bytes_4: "le_bytes 4 x = [of_nat x, of_nat (x div 256), of_nat (x div 256 div 256),
    of_nat (x div 256 div 256 div 256)]"
proof -
  have "(4 :: nat) = Suc (Suc (Suc (Suc 0)))" by simp
  then show ?thesis by (simp only: le_bytes.simps)
qed

lemma length_le_bytes [simp]: "length (le_bytes n x) = n"
  by (induction n arbitrary: x) simp_all

lemma unat_of_nat_byte: "unat (of_nat x :: byte) = x mod 256"
  by (simp add: unat_of_nat)

lemma unat_byte_less: "unat (b :: byte) < 256"
proof -
  have "unat b < 2 ^ LENGTH(8)" by (rule unsigned_less)
  then show ?thesis by simp
qed

lemma le_val_le_bytes: "le_val (le_bytes n x) = x mod 256 ^ n"
proof (induction n arbitrary: x)
  case (Suc n)
  have "le_val (le_bytes (Suc n) x) = x mod 256 + 256 * ((x div 256) mod 256 ^ n)"
    by (simp add: Suc unat_of_nat_byte)
  also have "\<dots> = x mod (256 * 256 ^ n)"
    by (metis add.commute mod_mult2_eq)
  finally show ?case by simp
qed simp

lemma le_val_le_bytes_id [simp]: "x < 256 ^ n \<Longrightarrow> le_val (le_bytes n x) = x"
  by (simp add: le_val_le_bytes)

lemma le_bytes_le_val: "le_bytes (length bs) (le_val bs) = bs"
proof (induction bs)
  case (Cons b bs)
  have "unat b < 256" by (rule unat_byte_less)
  then have "(unat b + 256 * le_val bs) div 256 = le_val bs" by simp
  moreover have "(of_nat (unat b + 256 * le_val bs) :: byte) = b"
  proof -
    have "(of_nat 256 :: byte) = 0" by simp
    then have "(of_nat (256 * le_val bs) :: byte) = 0" by (metis mult_zero_left of_nat_mult)
    then show ?thesis by simp
  qed
  ultimately show ?case using Cons by simp
qed simp

lemma le_val_less: "le_val bs < 256 ^ length bs"
proof (induction bs)
  case (Cons b bs)
  have "unat b < 256" by (rule unat_byte_less)
  with Cons show ?case by simp
qed simp

section \<open>Loads\<close>

definition load :: "bytes \<Rightarrow> nat \<Rightarrow> nat \<Rightarrow> bytes res" where
  "load m p n =
     (if p + n \<le> length m + 1 then Inr (take n (drop p (m @ [0]))) else Inl Undefined)"

definition ld8 :: "bytes \<Rightarrow> nat \<Rightarrow> byte res" where
  "ld8 m p = (if p \<le> length m then Inr ((m @ [0]) ! p) else Inl Undefined)"

definition ldn :: "nat \<Rightarrow> bytes \<Rightarrow> nat \<Rightarrow> nat res" where
  "ldn n m p = ebind (load m p n) (\<lambda>bs. Inr (le_val bs))"

abbreviation ld32 :: "bytes \<Rightarrow> nat \<Rightarrow> nat res" where
  "ld32 \<equiv> ldn 4"

lemma load_mid: "load (pre @ mid @ post) (length pre) (length mid) = Inr mid"
  by (simp add: load_def)

lemma load_mid':
  "m = pre @ mid @ post \<Longrightarrow> p = length pre \<Longrightarrow> n = length mid \<Longrightarrow> load m p n = Inr mid"
  by (simp add: load_def)

lemma load_length: "load m p n = Inr bs \<Longrightarrow> length bs = n"
  by (auto simp: load_def split: if_splits)

lemma ld8_nth: "p < length m \<Longrightarrow> ld8 m p = Inr (m ! p)"
  by (simp add: ld8_def nth_append)

lemma ld8_end: "ld8 m (length m) = Inr 0"
  by (simp add: ld8_def)

text \<open>Arrays of equally long chunks: \<open>concat\<close> and indexing commute.\<close>

definition chunked :: "nat \<Rightarrow> 'a list list \<Rightarrow> bool" where
  "chunked w xss \<longleftrightarrow> (\<forall>xs \<in> set xss. length xs = w)"

lemma chunked_simps [simp]:
  "chunked w []"
  "chunked w (xs # xss) \<longleftrightarrow> length xs = w \<and> chunked w xss"
  "chunked w (xss @ yss) \<longleftrightarrow> chunked w xss \<and> chunked w yss"
  by (auto simp: chunked_def)

lemma chunked_le_bytes [simp]: "chunked w (map (le_bytes w) xs)"
  by (simp add: chunked_def)

lemma chunked_take [simp]: "chunked w xss \<Longrightarrow> chunked w (take n xss)"
  by (auto simp: chunked_def dest: in_set_takeD)

lemma chunked_drop [simp]: "chunked w xss \<Longrightarrow> chunked w (drop n xss)"
  by (auto simp: chunked_def dest: in_set_dropD)

lemma length_concat_chunked: "chunked w xss \<Longrightarrow> length (concat xss) = w * length xss"
  by (induction xss) simp_all

lemma take_concat_chunked: "chunked w xss \<Longrightarrow> take (w * n) (concat xss) = concat (take n xss)"
proof (induction xss arbitrary: n)
  case (Cons xs xss)
  then show ?case by (cases n) simp_all
qed simp

lemma drop_concat_chunked: "chunked w xss \<Longrightarrow> drop (w * n) (concat xss) = concat (drop n xss)"
proof (induction xss arbitrary: n)
  case (Cons xs xss)
  then show ?case by (cases n) simp_all
qed simp

lemma load_chunks:
  assumes "m = pre @ concat xss @ post" and "chunked w xss" and "i + n \<le> length xss"
    and "p = length pre + w * i" and "k = w * n"
  shows "load m p k = Inr (concat (take n (drop i xss)))"
proof -
  have "concat xss = concat (take i xss) @ concat (take n (drop i xss)) @ concat (drop (i + n) xss)"
    by (metis append_take_drop_id concat_append drop_drop add.commute)
  moreover have "length (concat (take i xss)) = w * i"
    using assms by (subst length_concat_chunked[of w]) simp_all
  moreover have "length (concat (take n (drop i xss))) = w * n"
    using assms by (subst length_concat_chunked[of w]) simp_all
  ultimately show ?thesis
    using assms
    by (intro load_mid'[where pre = "pre @ concat (take i xss)" and post = "concat (drop (i + n) xss) @ post"])
      simp_all
qed

lemma load_chunk:
  assumes "m = pre @ concat xss @ post" and "chunked w xss" and "i < length xss"
    and "p = length pre + w * i"
  shows "load m p w = Inr (xss ! i)"
  using load_chunks[OF assms(1,2), of i 1 p w] assms
  by (simp add: take_Suc_conv_app_nth hd_drop_conv_nth take_Suc)

lemma ldn_block:
  assumes "m = pre @ concat (map (le_bytes n) xs) @ post" and "i < length xs"
    and "p = length pre + n * i" and "xs ! i < 256 ^ n"
  shows "ldn n m p = Inr (xs ! i)"
  using load_chunk[of m pre "map (le_bytes n) xs" post n i p] assms by (simp add: ldn_def)

section \<open>Writes through the buffer pointer\<close>

type_synonym wbuf = "bytes \<times> nat"

definition newBuffer :: "nat \<Rightarrow> wbuf" where
  "newBuffer n = (replicate n 0, 0)"

definition writeToBuffer :: "bytes \<Rightarrow> wbuf \<Rightarrow> wbuf res" where
  "writeToBuffer bs w = (case w of (b, c) \<Rightarrow>
     if c + length bs \<le> length b
     then Inr (take c b @ bs @ drop (c + length bs) b, c + length bs)
     else Inl Undefined)"

text \<open>\<^verbatim>\<open>writeToBuffer\<close> with a source pointer into an array: \<open>n\<close> bytes from offset \<open>p\<close>.\<close>

definition copyToBuffer :: "bytes \<Rightarrow> nat \<Rightarrow> nat \<Rightarrow> wbuf \<Rightarrow> wbuf res" where
  "copyToBuffer m p n w = ebind (load m p n) (\<lambda>bs. writeToBuffer bs w)"

text \<open>\<^verbatim>\<open>buffer += n\<close>, \<^verbatim>\<open>buffer -= 1\<close> and \<^verbatim>\<open>*buffer |= (1 << k)\<close>.\<close>

definition advance :: "nat \<Rightarrow> wbuf \<Rightarrow> wbuf res" where
  "advance n w = Inr (fst w, snd w + n)"

definition retreat :: "wbuf \<Rightarrow> wbuf res" where
  "retreat w = (if snd w = 0 then Inl Undefined else Inr (fst w, snd w - 1))"

definition orBit :: "nat \<Rightarrow> wbuf \<Rightarrow> wbuf res" where
  "orBit k w = (case w of (b, c) \<Rightarrow>
     if c < length b then Inr (b[c := b ! c OR push_bit k 1], c) else Inl Undefined)"

text \<open>
  \<open>filled xs n\<close> is a buffer of which the first \<open>length xs\<close> bytes are written, with \<open>n\<close>
  zero bytes still free behind the write pointer.
\<close>

definition filled :: "bytes \<Rightarrow> nat \<Rightarrow> wbuf" where
  "filled xs n = (xs @ replicate n 0, length xs)"

lemma newBuffer_filled: "newBuffer n = filled [] n"
  by (simp add: newBuffer_def filled_def)

lemma fst_filled_0 [simp]: "fst (filled xs 0) = xs"
  by (simp add: filled_def)

lemma fst_filled: "fst (filled xs n) = xs @ replicate n 0"
  by (simp add: filled_def)

text \<open>
  A statement that appends \<open>ys\<close>: where there is room it writes exactly these bytes at the
  write pointer. Statements in sequence append the concatenation, so a result string is
  the concatenation of its sections whenever its size was computed as the total length.
\<close>

definition appends :: "(wbuf \<Rightarrow> wbuf res) \<Rightarrow> bytes \<Rightarrow> bool" where
  "appends f ys \<longleftrightarrow>
     (\<forall>xs n. length ys \<le> n \<longrightarrow> f (filled xs n) = Inr (filled (xs @ ys) (n - length ys)))"

lemma appendsI:
  "(\<And>xs n. length ys \<le> n \<Longrightarrow> f (filled xs n) = Inr (filled (xs @ ys) (n - length ys))) \<Longrightarrow> appends f ys"
  by (simp add: appends_def)

lemma appendsD:
  "appends f ys \<Longrightarrow> length ys \<le> n \<Longrightarrow> f (filled xs n) = Inr (filled (xs @ ys) (n - length ys))"
  by (simp add: appends_def)

lemma appends_writeToBuffer [buf_intros]: "appends (writeToBuffer ys) ys"
  by (rule appendsI) (simp add: writeToBuffer_def filled_def)

lemma appends_copyToBuffer:
  assumes "load m p k = Inr ys"
  shows "appends (copyToBuffer m p k) ys"
  using appendsD[OF appends_writeToBuffer, of ys]
  by (intro appendsI) (simp add: copyToBuffer_def assms)

lemma appends_advance [buf_intros]: "appends (advance k) (replicate k 0)"
  by (rule appendsI) (simp add: advance_def filled_def flip: replicate_add)

lemma appends_skip [buf_intros]: "appends Inr []"
  by (rule appendsI) simp

lemma appends_bind:
  assumes "appends f xs" and "appends g ys"
  shows "appends (\<lambda>w. ebind (f w) g) (xs @ ys)"
proof (rule appendsI)
  fix zs n assume "length (xs @ ys) \<le> n"
  then show "ebind (f (filled zs n)) g = Inr (filled (zs @ xs @ ys) (n - length (xs @ ys)))"
    using appendsD[OF assms(1), of n zs] appendsD[OF assms(2), of "n - length xs" "zs @ xs"] by simp
qed

lemma appends_steps:
  assumes "list_all2 appends fs yss"
  shows "appends (steps fs) (concat yss)"
  using assms
proof (induction fs yss rule: list_all2_induct)
  case Nil
  then show ?case by (rule appendsI) simp
next
  case (Cons f fs ys yss)
  have "steps (f # fs) = (\<lambda>w. ebind (f w) (steps fs))" by (simp add: fun_eq_iff)
  with Cons show ?case by (simp add: appends_bind)
qed

lemma appends_mfold:
  assumes "\<And>i. i \<in> set is \<Longrightarrow> appends (f i) (g i)"
  shows "appends (mfold f is) (concat (map g is))"
  using assms
proof (induction "is")
  case Nil
  then show ?case by (intro appendsI) simp
next
  case (Cons i "is")
  have "mfold f (i # is) = (\<lambda>w. ebind (f i w) (mfold f is))" by (simp add: fun_eq_iff)
  with Cons show ?case by (simp add: appends_bind)
qed

text \<open>
  A loop that writes in every round and moves pointers: \<open>p k\<close> are the pointers before round
  \<open>k\<close>. In the second rule a round computes what it writes and may fail.
\<close>

lemma mfold_pair_appends:
  assumes step: "\<And>k xs n. k < d \<Longrightarrow> length (g k) \<le> n \<Longrightarrow>
      f k (filled xs n, p k) = Inr (filled (xs @ g k) (n - length (g k)), p (Suc k))"
    and room: "length (concat (map g [0..<d])) \<le> n"
  shows "mfold f [0..<d] (filled xs n, p 0) =
    Inr (filled (xs @ concat (map g [0..<d])) (n - length (concat (map g [0..<d]))), p d)"
proof -
  let ?c = "\<lambda>k. concat (map g [0..<k])"
  show ?thesis
  proof (rule mfold_upt0[where S = "\<lambda>k. (filled (xs @ ?c k) (n - length (?c k)), p k)"])
    fix k assume k: "k < d"
    have "?c d = ?c k @ concat (map g [k..<d])"
      using k upt_add_eq_append[of 0 k "d - k"] by simp
    then have "length (?c k) + length (g k) \<le> n"
      using room k by (simp add: upt_conv_Cons)
    then show "f k (filled (xs @ ?c k) (n - length (?c k)), p k) =
        Inr (filled (xs @ ?c (Suc k)) (n - length (?c (Suc k))), p (Suc k))"
      using step[OF k, of "n - length (?c k)"] by simp
  qed simp_all
qed

lemma mfold_pair_mmap:
  assumes step: "\<And>k ys m. k < d \<Longrightarrow> sz \<le> m \<Longrightarrow>
      f k (filled ys m, p k) = ebind (h k) (\<lambda>z. Inr (filled (ys @ z) (m - sz), p (Suc k)))"
    and room: "d * sz \<le> n"
  shows "mfold f [0..<d] (filled xs n, p 0) =
    ebind (mmap h [0..<d]) (\<lambda>zs. Inr (filled (xs @ concat zs) (n - d * sz), p d))"
  using assms
proof (induction d)
  case (Suc d)
  have IH: "mfold f [0..<d] (filled xs n, p 0) =
    ebind (mmap h [0..<d]) (\<lambda>zs. Inr (filled (xs @ concat zs) (n - d * sz), p d))"
    using Suc.prems by (intro Suc.IH) simp_all
  have "f d (filled ys (n - d * sz), p d) = ebind (h d) (\<lambda>z. Inr (filled (ys @ z) (n - Suc d * sz), p (Suc d)))" for ys
    using Suc.prems(1)[of d "n - d * sz" ys] Suc.prems(2) by (simp add: diff_diff_eq add.commute)
  then show ?case
    unfolding upt_Suc_append[OF le0] mfold_append IH mmap_append by (simp add: ebind_assoc)
qed simp

lemma mfold_mmap:
  assumes step: "\<And>k ys m. k < d \<Longrightarrow> sz \<le> m \<Longrightarrow>
      f k (filled ys m) = ebind (h k) (\<lambda>z. Inr (filled (ys @ z) (m - sz)))"
    and room: "d * sz \<le> n"
  shows "mfold f [0..<d] (filled xs n) =
    ebind (mmap h [0..<d]) (\<lambda>zs. Inr (filled (xs @ concat zs) (n - d * sz)))"
  using assms
proof (induction d)
  case (Suc d)
  have IH: "mfold f [0..<d] (filled xs n) =
    ebind (mmap h [0..<d]) (\<lambda>zs. Inr (filled (xs @ concat zs) (n - d * sz)))"
    using Suc.prems by (intro Suc.IH) simp_all
  have "f d (filled ys (n - d * sz)) = ebind (h d) (\<lambda>z. Inr (filled (ys @ z) (n - Suc d * sz)))" for ys
    using Suc.prems(1)[of d "n - d * sz" ys] Suc.prems(2) by (simp add: diff_diff_eq add.commute)
  then show ?case
    unfolding upt_Suc_append[OF le0] mfold_append IH mmap_append by (simp add: ebind_assoc)
qed simp

end
