(* ===== verification/Null_Bits.thy ===== *)
theory Null_Bits
  imports Complex_Main Byte_Buffer
begin

text \<open>
  The NULL bitstring of an array: one bit per element position, eight to a byte, the
  first position in the most significant bit (\<^verbatim>\<open>lib/runtime/Array/ArrayNullHandling.cpp\<close>).
  \<open>pack\<close> is the intended content of the section; the lemmas show what the code's
  byte-wise reads and \<^verbatim>\<open>|=\<close> writes do to it.
\<close>

section \<open>Number of bytes\<close>

text \<open>
  \<^verbatim>\<open>std::ceil((double) size / 8)\<close>: the quotient of a 32-bit number by 8 is exact in a
  \<^verbatim>\<open>double\<close>, so this is the integer ceiling.
\<close>

definition getNullBytes :: "nat \<Rightarrow> nat" where
  "getNullBytes n = (n + 7) div 8"

lemma getNullBytes_ceiling: "int (getNullBytes n) = \<lceil>rat_of_nat n / 8\<rceil>"
proof -
  define q where "q = (n + 7) div 8"
  have b: "8 * q \<le> n + 7" "n + 7 < 8 * q + 8"
    unfolding q_def by presburger+
  have "\<lceil>rat_of_nat n / 8\<rceil> = int q"
  proof (rule ceiling_unique)
    have "n < 8 * q + 1" using b by simp
    then have "rat_of_nat n < rat_of_nat (8 * q + 1)" by (simp only: of_nat_less_iff)
    have "n \<le> 8 * q" using b by simp
    then have "rat_of_nat n \<le> rat_of_nat (8 * q)" by (simp only: of_nat_le_iff)
    then show "rat_of_nat n / 8 \<le> of_int (int q)" by simp
    have "8 * q < n + 8" using b by simp
    then have "rat_of_nat (8 * q) < rat_of_nat (n + 8)" by (simp only: of_nat_less_iff)
    then show "of_int (int q) - 1 < rat_of_nat n / 8" by simp
  qed
  then show ?thesis by (simp add: getNullBytes_def q_def)
qed

lemma getNullBytes_simps [simp]:
  "getNullBytes 0 = 0"
  "getNullBytes (n + 8) = Suc (getNullBytes n)"
  "getNullBytes (8 + n) = Suc (getNullBytes n)"
  by (simp_all add: getNullBytes_def)

lemma getNullBytes_eq: "getNullBytes n = n div 8 + (if n mod 8 = 0 then 0 else 1)"
proof -
  have "n + 7 = (n mod 8 + 7) + n div 8 * 8" by simp
  then have "(n + 7) div 8 = ((n mod 8 + 7) + n div 8 * 8) div 8" by (rule arg_cong)
  also have "\<dots> = n div 8 + (n mod 8 + 7) div 8" by (rule div_mult_self1) simp
  also have "(n mod 8 + 7) div 8 = (if n mod 8 = 0 then 0 else 1)"
    using mod_less_divisor[of 8 n] by (auto intro!: div_nat_eqI)
  finally show ?thesis by (simp add: getNullBytes_def)
qed

lemma getNullBytes_Suc:
  "getNullBytes (Suc n) = (if n mod 8 = 0 then Suc (getNullBytes n) else getNullBytes n)"
  using getNullBytes_simps(1) by (simp add: getNullBytes_eq[of n]) (simp add: getNullBytes_def)

lemma getNullBytes_mono: "m \<le> n \<Longrightarrow> getNullBytes m \<le> getNullBytes n"
  by (simp add: getNullBytes_def div_le_mono)

lemma div8_less_getNullBytes:
  assumes "i < n"
  shows "i div 8 < getNullBytes n"
proof -
  have "i div 8 < (i + 8) div 8" by simp
  also have "\<dots> \<le> (n + 7) div 8" using assms by (intro div_le_mono) simp
  finally show ?thesis by (simp add: getNullBytes_def)
qed

section \<open>Packed bits\<close>

definition byte_of :: "bool list \<Rightarrow> byte" where
  "byte_of bs = horner_sum of_bool 2 (rev (take 8 (bs @ replicate 8 False)))"

fun pack :: "bool list \<Rightarrow> bytes" where
  "pack [] = []"
| "pack (b # bs) = byte_of (take 8 (b # bs)) # pack (drop 8 (b # bs))"

lemma bit_byte_of: "i < 8 \<Longrightarrow> bit (byte_of bs) (7 - i) \<longleftrightarrow> i < length bs \<and> bs ! i"
proof -
  assume i: "i < 8"
  define xs where "xs = take 8 (bs @ replicate 8 False)"
  have len: "length xs = 8" by (simp add: xs_def)
  have "rev xs ! (7 - i) = xs ! i" using i len by (simp add: rev_nth)
  moreover have "xs ! i \<longleftrightarrow> i < length bs \<and> bs ! i"
    using i by (auto simp: xs_def nth_append)
  moreover have "byte_of bs = horner_sum of_bool 2 (rev xs)" by (simp only: byte_of_def xs_def)
  moreover have "7 - i < 8" by arith
  ultimately show ?thesis using len by (simp add: bit_horner_sum_bit_word_iff)
qed

lemma byte_eqI:
  fixes x y :: byte
  assumes "\<And>i. i < 8 \<Longrightarrow> bit x (7 - i) = bit y (7 - i)"
  shows "x = y"
proof (rule bit_word_eqI)
  fix n assume "n < LENGTH(8)"
  then have "7 - (7 - n) = n" and "7 - n < 8" by simp_all
  then show "bit x n = bit y n" using assms[of "7 - n"] by simp
qed

lemma length_pack [simp]: "length (pack bs) = getNullBytes (length bs)"
proof (induction bs rule: pack.induct)
  case (2 b bs)
  show ?case
  proof (cases "length bs < 7")
    case True
    then have "getNullBytes (Suc (length bs)) = 1" by (simp add: getNullBytes_def)
    with True show ?thesis by simp
  next
    case False
    then obtain k where k: "length bs = k + 7" by (metis le_add_diff_inverse2 not_less)
    have "getNullBytes (Suc (length bs)) = Suc (getNullBytes k)"
      using getNullBytes_simps(2)[of k] by (simp add: k)
    with 2 show ?thesis by (simp add: k)
  qed
qed simp

lemma pack_nth:
  "j < getNullBytes (length bs) \<Longrightarrow> pack bs ! j = byte_of (take 8 (drop (8 * j) bs))"
proof (induction bs arbitrary: j rule: pack.induct)
  case (2 b bs)
  show ?case
  proof (cases j)
    case (Suc k)
    have "k < getNullBytes (length (drop 8 (b # bs)))"
      using 2(2) Suc unfolding getNullBytes_def by (simp; presburger)
    moreover have "drop (8 * j) (b # bs) = drop (8 * k) (drop 8 (b # bs))"
      using Suc by (simp only: drop_drop mult_Suc_right add.commute)
    ultimately show ?thesis using 2(1) Suc by simp
  qed simp
qed simp

text \<open>What \<^verbatim>\<open>1 & (nulls[i / 8] >> (8 - i % 8 - 1))\<close> reads.\<close>

lemma bit_pack:
  assumes "i < 8 * getNullBytes (length bs)"
  shows "bit (pack bs ! (i div 8)) (7 - i mod 8) \<longleftrightarrow> i < length bs \<and> bs ! i"
proof -
  have lt: "i div 8 < getNullBytes (length bs)" using assms by presburger
  have i: "8 * (i div 8) + i mod 8 = i" by simp
  have "bit (pack bs ! (i div 8)) (7 - i mod 8) \<longleftrightarrow>
    i mod 8 < length (take 8 (drop (8 * (i div 8)) bs)) \<and> take 8 (drop (8 * (i div 8)) bs) ! (i mod 8)"
    using lt by (simp add: pack_nth bit_byte_of)
  also have "\<dots> \<longleftrightarrow> i < length bs \<and> bs ! i"
  proof (cases "i < length bs")
    case True
    then have "i mod 8 < length bs - 8 * (i div 8)" using i by linarith
    with True show ?thesis by (simp add: i)
  next
    case False
    then have "\<not> i mod 8 < length bs - 8 * (i div 8)" using i by linarith
    with False show ?thesis by simp
  qed
  finally show ?thesis .
qed

lemma pack_eqI:
  assumes "length xs = getNullBytes (length bs)"
    and "\<And>i. i < 8 * getNullBytes (length bs) \<Longrightarrow>
           bit (xs ! (i div 8)) (7 - i mod 8) \<longleftrightarrow> i < length bs \<and> bs ! i"
  shows "xs = pack bs"
proof (rule nth_equalityI)
  show "length xs = length (pack bs)" using assms(1) by simp
  fix j assume "j < length xs"
  then have j: "j < getNullBytes (length bs)" using assms(1) by simp
  show "xs ! j = pack bs ! j"
  proof (rule byte_eqI)
    fix k :: nat assume k: "k < 8"
    have "8 * j + k < 8 * getNullBytes (length bs)" using j k by linarith
    moreover have "(8 * j + k) div 8 = j" "(8 * j + k) mod 8 = k" using k by simp_all
    ultimately show "bit (xs ! j) (7 - k) = bit (pack bs ! j) (7 - k)"
      using assms(2)[of "8 * j + k"] bit_pack[of "8 * j + k" bs] by metis
  qed
qed

lemma pack_append_False:
  "pack (bs @ [False]) = pack bs @ (if length bs mod 8 = 0 then [0] else [])"
proof (rule pack_eqI [symmetric])
  show "length (pack bs @ (if length bs mod 8 = 0 then [0] else [])) =
    getNullBytes (length (bs @ [False]))"
    by (simp add: getNullBytes_Suc)
  fix i assume i: "i < 8 * getNullBytes (length (bs @ [False]))"
  show "bit ((pack bs @ (if length bs mod 8 = 0 then [0] else [])) ! (i div 8)) (7 - i mod 8) =
    (i < length (bs @ [False]) \<and> (bs @ [False]) ! i)"
  proof (cases "i < 8 * getNullBytes (length bs)")
    case True
    then have "i div 8 < length (pack bs)" by (simp; presburger)
    then show ?thesis using bit_pack[OF True] by (auto simp: nth_append less_Suc_eq)
  next
    case False
    with i have eight: "length bs mod 8 = 0" by (auto simp: getNullBytes_Suc split: if_splits)
    then have "8 * getNullBytes (length bs) = length bs"
      unfolding getNullBytes_def by presburger
    with False have "length bs \<le> i" by simp
    moreover have "i div 8 = length (pack bs)"
      using False i eight by (simp add: getNullBytes_Suc; presburger)
    ultimately show ?thesis using eight by (auto simp: nth_append)
  qed
qed

lemma pack_append_True:
  "pack (bs @ [True]) =
   (pack (bs @ [False]))[length bs div 8 :=
      pack (bs @ [False]) ! (length bs div 8) OR push_bit (7 - length bs mod 8) 1]"
proof (rule pack_eqI [symmetric])
  fix i assume i: "i < 8 * getNullBytes (length (bs @ [True]))"
  let ?q = "length bs div 8" and ?p = "pack (bs @ [False])"
  have len: "i div 8 < length ?p" using i by (simp; presburger)
  have b: "bit (?p ! (i div 8)) (7 - i mod 8) \<longleftrightarrow> i < length bs \<and> bs ! i"
    using bit_pack[of i "bs @ [False]"] i by (auto simp: nth_append less_Suc_eq)
  show "bit (?p[?q := ?p ! ?q OR push_bit (7 - length bs mod 8) 1] ! (i div 8)) (7 - i mod 8) =
    (i < length (bs @ [True]) \<and> (bs @ [True]) ! i)"
  proof (cases "i div 8 = ?q")
    case True
    have "7 - i mod 8 = 7 - length bs mod 8 \<longleftrightarrow> i mod 8 = length bs mod 8"
      using mod_less_divisor[of 8 i] mod_less_divisor[of 8 "length bs"] by linarith
    also have "\<dots> \<longleftrightarrow> i = length bs" using True by (metis div_mult_mod_eq)
    finally have "bit (push_bit (7 - length bs mod 8) 1 :: byte) (7 - i mod 8) \<longleftrightarrow> i = length bs"
      by (auto simp: bit_simps)
    then show ?thesis using b len True by (auto simp: bit_or_iff nth_append)
  next
    case False
    then have "i \<noteq> length bs" by auto
    then show ?thesis using b False by (auto simp: nth_append)
  qed
qed simp

lemma pack_replicate_False: "pack (replicate n False) = replicate (getNullBytes n) 0"
  by (rule pack_eqI [symmetric]) (auto simp: less_mult_imp_div_less mult.commute)

end
