(* ===== verification/Std_Strings.thy ===== *)
theory Std_Strings
  imports Byte_Buffer
begin

text \<open>
  What the array code uses of the C++ string library: the bytes of a \<^verbatim>\<open>std::string\<close>,
  \<^verbatim>\<open>isspace\<close> and \<^verbatim>\<open>isdigit\<close>, \<^verbatim>\<open>std::to_string\<close> on integers and the integer parsers
  \<^verbatim>\<open>std::stoi\<close> and \<^verbatim>\<open>std::stol\<close> (leading blanks, an optional sign, the longest run of
  digits, the rest ignored).
\<close>

section \<open>Strings as bytes\<close>

definition bytes_of :: "string \<Rightarrow> bytes" where
  "bytes_of s = map (\<lambda>c. of_nat (of_char c)) s"

definition string_of :: "bytes \<Rightarrow> string" where
  "string_of bs = map (\<lambda>b. char_of (unat b)) bs"

lemma of_char_less_256: "(of_char c :: nat) < 256"
  using nat_of_char_less_256 by blast

lemma string_of_bytes_of [simp]: "string_of (bytes_of s) = s"
  by (induction s) (simp_all add: bytes_of_def string_of_def unat_of_nat of_char_less_256)

lemma bytes_of_string_of [simp]: "bytes_of (string_of bs) = bs"
proof (induction bs)
  case (Cons b bs)
  then show ?case using unat_byte_less[of b] by (simp add: bytes_of_def string_of_def)
qed (simp add: bytes_of_def string_of_def)

lemma length_bytes_of [simp]: "length (bytes_of s) = length s"
  by (simp add: bytes_of_def)

lemma length_string_of [simp]: "length (string_of s) = length s"
  by (simp add: string_of_def)

lemma bytes_of_append [simp]: "bytes_of (s @ t) = bytes_of s @ bytes_of t"
  by (simp add: bytes_of_def)

lemma bytes_of_inj: "bytes_of s = bytes_of t \<Longrightarrow> s = t"
  by (metis string_of_bytes_of)

section \<open>Character classes\<close>

definition isspace :: "char \<Rightarrow> bool" where
  "isspace c \<longleftrightarrow> c \<in> {CHR '' '', CHR 0x09, CHR 0x0A, CHR 0x0B, CHR 0x0C, CHR 0x0D}"

definition isdigit :: "char \<Rightarrow> bool" where
  "isdigit c \<longleftrightarrow> 48 \<le> (of_char c :: nat) \<and> (of_char c :: nat) \<le> 57"

definition digit_val :: "char \<Rightarrow> nat" where
  "digit_val c = of_char c - 48"

definition digit_char :: "nat \<Rightarrow> char" where
  "digit_char n = char_of (48 + n)"

lemma of_char_digit_char [simp]: "n < 10 \<Longrightarrow> (of_char (digit_char n) :: nat) = 48 + n"
  by (simp add: digit_char_def)

lemma isdigit_digit_char [simp]: "n < 10 \<Longrightarrow> isdigit (digit_char n)"
  by (simp add: isdigit_def)

lemma digit_val_digit_char [simp]: "n < 10 \<Longrightarrow> digit_val (digit_char n) = n"
  by (simp add: digit_val_def)

lemma isdigit_not_isspace: "isdigit c \<Longrightarrow> \<not> isspace c"
  by (auto simp: isdigit_def isspace_def)

lemma isdigit_cases:
  "isdigit c \<Longrightarrow> c \<noteq> CHR ''-'' \<and> c \<noteq> CHR ''+'' \<and> c \<noteq> CHR ''\"'' \<and> c \<noteq> CHR '','' \<and>
     c \<noteq> CHR ''{'' \<and> c \<noteq> CHR ''}'' \<and> c \<noteq> CHR ''n'' \<and> c \<noteq> CHR ''N'' \<and> c \<noteq> CHR 0x5C \<and>
     c \<noteq> CHR '' '' \<and> c \<noteq> CHR ''['' \<and> c \<noteq> CHR '':'' \<and> c \<noteq> CHR '']'' \<and> c \<noteq> CHR ''=''"
  by (auto simp: isdigit_def)

section \<open>Printing integers\<close>

fun show_nat :: "nat \<Rightarrow> string" where
  "show_nat n = (if n < 10 then [digit_char n] else show_nat (n div 10) @ [digit_char (n mod 10)])"

declare show_nat.simps [simp del]

definition show_int :: "int \<Rightarrow> string" where
  "show_int i = (if i < 0 then CHR ''-'' # show_nat (nat (- i)) else show_nat (nat i))"

lemma show_nat_nonempty: "show_nat n \<noteq> []"
  by (subst show_nat.simps) simp

lemma show_nat_digits: "c \<in> set (show_nat n) \<Longrightarrow> isdigit c"
proof (induction n rule: show_nat.induct)
  case (1 n)
  then show ?case by (cases "n < 10") (auto simp: show_nat.simps[of n])
qed

section \<open>Parsing integers\<close>

fun digits_val :: "nat \<Rightarrow> string \<Rightarrow> nat" where
  "digits_val acc [] = acc"
| "digits_val acc (c # cs) = digits_val (10 * acc + digit_val c) cs"

definition sto_int :: "nat \<Rightarrow> string \<Rightarrow> int res" where
  "sto_int bits s =
     (let t = dropWhile isspace s;
          neg = (t \<noteq> [] \<and> hd t = CHR ''-'');
          u = (if t \<noteq> [] \<and> (hd t = CHR ''-'' \<or> hd t = CHR ''+'') then tl t else t);
          ds = takeWhile isdigit u;
          v = (if neg then - int (digits_val 0 ds) else int (digits_val 0 ds))
      in if ds = [] then Inl InvalidArgument
         else if in_signed bits v then Inr v else Inl OutOfRange)"

lemma digits_val_append: "digits_val acc (cs @ [c]) = 10 * digits_val acc cs + digit_val c"
  by (induction cs arbitrary: acc) simp_all

lemma digits_val_show_nat: "digits_val 0 (show_nat n) = n"
proof (induction n rule: show_nat.induct)
  case (1 n)
  then show ?case
    by (cases "n < 10") (simp_all add: show_nat.simps[of n] digits_val_append)
qed

lemma takeWhile_show_nat: "takeWhile isdigit (show_nat n) = show_nat n"
  by (simp add: takeWhile_eq_all_conv show_nat_digits)

text \<open>\<^verbatim>\<open>std::stoi\<close> and \<^verbatim>\<open>std::stol\<close> read back what \<^verbatim>\<open>std::to_string\<close> printed.\<close>

lemma sto_int_show_int:
  assumes "in_signed bits i"
  shows "sto_int bits (show_int i) = Inr i"
proof (cases "i < 0")
  case True
  then have "dropWhile isspace (show_int i) = CHR ''-'' # show_nat (nat (- i))"
    by (simp add: show_int_def isspace_def)
  with True assms show ?thesis
    by (simp add: sto_int_def Let_def takeWhile_show_nat digits_val_show_nat show_nat_nonempty)
next
  case False
  obtain c cs where c: "show_nat (nat i) = c # cs"
    using show_nat_nonempty by (metis list.exhaust)
  then have d: "isdigit c" using show_nat_digits[of c "nat i"] by simp
  then have "dropWhile isspace (show_int i) = show_nat (nat i)"
    using False c isdigit_not_isspace by (simp add: show_int_def)
  moreover have "takeWhile isdigit (c # cs) = c # cs" using takeWhile_show_nat[of "nat i"] c by simp
  moreover have "digits_val 0 (c # cs) = nat i" using digits_val_show_nat[of "nat i"] c by simp
  ultimately show ?thesis
    using False assms isdigit_cases[OF d] c by (simp only: sto_int_def Let_def) simp
qed

end
