(* ===== verification/Array_Object.thy ===== *)
theory Array_Object
  imports Null_Bits Std_Strings
begin

text \<open>
  The class \<^verbatim>\<open>runtime::Array\<close>: its element types, its object (a view into the bytes of a
  string, every pointer an offset), its constructors, and the accessors of
  \<^verbatim>\<open>ArrayWidthHandling.cpp\<close>, \<^verbatim>\<open>ArrayNullHandling.cpp\<close> and \<^verbatim>\<open>ArrayElementHandling.cpp\<close>.
  Every load is checked: reading outside of the string is \<open>Undefined\<close>.
\<close>

section \<open>Element types\<close>

datatype ArrayType = INTEGER32 | INTEGER64 | BFLOAT | FLOAT | DOUBLE | STRING

fun type_id :: "ArrayType \<Rightarrow> nat" where
  "type_id INTEGER32 = 0"
| "type_id INTEGER64 = 1"
| "type_id BFLOAT = 2"
| "type_id FLOAT = 3"
| "type_id DOUBLE = 4"
| "type_id STRING = 5"

text \<open>The \<^verbatim>\<open>switch\<close> over a type number: \<open>None\<close> is its \<^verbatim>\<open>default\<close>.\<close>

definition type_of :: "nat \<Rightarrow> ArrayType option" where
  "type_of t = find (\<lambda>T. type_id T = t) [INTEGER32, INTEGER64, BFLOAT, FLOAT, DOUBLE, STRING]"

definition getTypeId :: "int \<Rightarrow> nat res" where
  "getTypeId t =
     (case (if t < 0 then None else type_of (nat t)) of
        Some T \<Rightarrow> Inr (type_id T)
      | None \<Rightarrow> Inl (RuntimeError ''Type-Cast-Operation: Given array type is not supported with arrays''))"

definition isNumericType :: "nat \<Rightarrow> bool" where
  "isNumericType t = (case type_of t of
      Some INTEGER32 \<Rightarrow> True | Some INTEGER64 \<Rightarrow> True | Some FLOAT \<Rightarrow> True
    | Some DOUBLE \<Rightarrow> True | Some BFLOAT \<Rightarrow> True | _ \<Rightarrow> False)"

definition isFloatingPointType :: "nat \<Rightarrow> bool" where
  "isFloatingPointType t = (case type_of t of
      Some FLOAT \<Rightarrow> True | Some DOUBLE \<Rightarrow> True | Some BFLOAT \<Rightarrow> True | _ \<Rightarrow> False)"

fun elem_size :: "ArrayType \<Rightarrow> nat" where
  "elem_size INTEGER32 = 4"
| "elem_size INTEGER64 = 8"
| "elem_size BFLOAT = 2"
| "elem_size FLOAT = 4"
| "elem_size DOUBLE = 8"
| "elem_size STRING = 4"

definition getTypeSize :: "nat \<Rightarrow> nat res" where
  "getTypeSize t = (case type_of t of
      Some T \<Rightarrow> Inr (elem_size T)
    | None \<Rightarrow> Inl (RuntimeError ''Type-Size-Operation: Given array type is not supported in arrays''))"

lemma type_of_type_id [simp]: "type_of (type_id T) = Some T"
  by (cases T) (simp_all add: type_of_def)

lemma type_of_SomeD: "type_of t = Some T \<Longrightarrow> t = type_id T"
  by (auto simp: type_of_def split: if_splits)

lemma type_id_less: "type_id T < 6"
  by (cases T) simp_all

lemma type_id_inj [simp]: "type_id S = type_id T \<longleftrightarrow> S = T"
  by (metis option.inject type_of_type_id)

declare type_id.simps [simp del]

lemma elem_size_pos [simp]: "0 < elem_size T"
  by (cases T) simp_all

lemma getTypeId_type_id [simp]: "getTypeId (int (type_id T)) = Inr (type_id T)"
  by (simp add: getTypeId_def)

lemma getTypeSize_type_id [simp]: "getTypeSize (type_id T) = Inr (elem_size T)"
  by (simp add: getTypeSize_def)

lemma isNumericType_type_id [simp]: "isNumericType (type_id T) \<longleftrightarrow> T \<noteq> STRING"
  by (cases T) (simp_all add: isNumericType_def)

lemma isFloatingPointType_type_id [simp]:
  "isFloatingPointType (type_id T) \<longleftrightarrow> T \<in> {BFLOAT, FLOAT, DOUBLE}"
  by (cases T) (simp_all add: isFloatingPointType_def)

section \<open>The object\<close>

text \<open>
  \<open>amem\<close> is the string the object was made from; \<open>indices\<close>, \<open>dimensionWidthMap\<close>,
  \<open>widths\<close>, \<open>elements\<close>, \<open>nulls\<close> and \<open>strings\<close> are the pointer members as offsets into it.
\<close>

record array_obj =
  amem :: bytes
  atype :: nat
  dimensions :: nat
  asize :: nat
  indices :: nat
  dimensionWidthMap :: nat
  widths :: nat
  elements :: nat
  nulls :: nat
  strings :: nat

definition ARRAYHEADER :: bytes where
  "ARRAYHEADER = bytes_of ''array''"

lemma length_ARRAYHEADER [simp]: "length ARRAYHEADER = 5"
  by (simp add: ARRAYHEADER_def)

text \<open>\<^verbatim>\<open>this->indices[i]\<close>, \<^verbatim>\<open>this->dimensionWidthMap[i]\<close> and \<^verbatim>\<open>this->widths[i]\<close>.\<close>

definition index_at :: "array_obj \<Rightarrow> nat \<Rightarrow> nat res" where
  "index_at a i = ld32 (amem a) (indices a + 4 * i)"

definition dwm_at :: "array_obj \<Rightarrow> nat \<Rightarrow> nat res" where
  "dwm_at a i = ld32 (amem a) (dimensionWidthMap a + 4 * i)"

definition width_at :: "array_obj \<Rightarrow> nat \<Rightarrow> nat res" where
  "width_at a i = ld32 (amem a) (widths a + 4 * i)"

section \<open>Width entries\<close>

definition getWidthSize :: "array_obj \<Rightarrow> nat res" where
  "getWidthSize a =
     mfold (\<lambda>i result. ebind (dwm_at a i) (\<lambda>k. Inr (u32 (result + k)))) [0..<dimensions a] 0"

definition getWidthSizeDim :: "array_obj \<Rightarrow> nat \<Rightarrow> nat res" where
  "getWidthSizeDim a dimension =
     (if dimension > dimensions a \<or> dimension = 0
      then Inl (RuntimeError ''Requested dimension does not exist'')
      else dwm_at a (dimension - 1))"

definition getFirstWidth :: "array_obj \<Rightarrow> nat \<Rightarrow> nat res" where
  "getFirstWidth a dimension =
     (if dimension > dimensions a \<or> dimension = 0
      then Inl (RuntimeError ''Requested dimension does not exist'')
      else mfold (\<lambda>i width. ebind (dwm_at a i) (\<lambda>k. Inr (width + 4 * k)))
             [0..<dimension - 1] (widths a))"

fun offset_loop :: "array_obj \<Rightarrow> nat \<Rightarrow> nat \<Rightarrow> nat list \<Rightarrow> nat \<Rightarrow> nat res" where
  "offset_loop a entries width [] offset =
     Inl (RuntimeError ''Requested width does not exist'')"
| "offset_loop a entries width (i # is) offset =
     (if entries + 4 * i = width then Inr offset
      else ebind (ld32 (amem a) (entries + 4 * i))
        (\<lambda>k. offset_loop a entries width is (u32 (offset + k))))"

definition getOffset :: "array_obj \<Rightarrow> nat \<Rightarrow> nat res" where
  "getOffset a width =
     ebind (getFirstWidth a (dimensions a)) (\<lambda>entries.
     ebind (dwm_at a (dimensions a - 1)) (\<lambda>limit.
     offset_loop a entries width [0..<limit] 0))"

fun child_loop :: "array_obj \<Rightarrow> nat \<Rightarrow> nat \<Rightarrow> nat \<Rightarrow> nat list \<Rightarrow> nat \<Rightarrow> nat option res" where
  "child_loop a entries len width [] ignore = Inr None"
| "child_loop a entries len width (i # is) ignore =
     (if width = entries + 4 * i then Inr (Some (entries + 4 * u32 (len + ignore)))
      else ebind (ld32 (amem a) (entries + 4 * i))
        (\<lambda>k. child_loop a entries len width is (u32 (ignore + k))))"

definition getChildWidth :: "array_obj \<Rightarrow> nat \<Rightarrow> nat \<Rightarrow> nat option res" where
  "getChildWidth a width dimension =
     (if dimension > dimensions a \<or> dimension = 0
      then Inl (RuntimeError ''Requested dimension does not exist'')
      else ebind (ld32 (amem a) width) (\<lambda>w0.
        if w0 = 0 then Inr None
        else ebind (getFirstWidth a dimension) (\<lambda>entries.
          ebind (dwm_at a (dimension - 1)) (\<lambda>len.
          child_loop a entries len width [0..<len + 1] 0))))"

text \<open>\<^verbatim>\<open>equalWidths\<close> against the width entries of another array, at offset \<open>q\<close> of \<open>m\<close>.\<close>

definition equalWidths :: "array_obj \<Rightarrow> bytes \<Rightarrow> nat \<Rightarrow> bool res" where
  "equalWidths a m q =
     ebind (getWidthSize a) (\<lambda>n.
     ebind (mexists (\<lambda>i. ebind (width_at a i) (\<lambda>x. ebind (ld32 m (q + 4 * i)) (\<lambda>y. Inr (x \<noteq> y))))
              [0..<n])
       (\<lambda>differ. Inr (\<not> differ)))"

definition isSymmetric :: "array_obj \<Rightarrow> bool res" where
  "isSymmetric a =
     ebind (mexists (\<lambda>i.
       ebind (getWidthSizeDim a i) (\<lambda>n.
       ebind (getFirstWidth a i) (\<lambda>entries.
       ebind (ld32 (amem a) entries) (\<lambda>width.
       mexists (\<lambda>j. ebind (ld32 (amem a) (entries + 4 * j)) (\<lambda>e. Inr (e \<noteq> width))) [0..<n]))))
       [1..<dimensions a + 1])
       (\<lambda>differ. Inr (\<not> differ))"

definition hasEmptyValue :: "array_obj \<Rightarrow> bool res" where
  "hasEmptyValue a =
     ebind (getWidthSize a) (\<lambda>n.
     mexists (\<lambda>i. ebind (width_at a i) (\<lambda>w. Inr (w = 0))) [0..<n])"

definition getDimensionSize :: "array_obj \<Rightarrow> nat \<Rightarrow> nat res" where
  "getDimensionSize a dimension =
     (if dimension > dimensions a \<or> dimension = 0
      then Inl (RuntimeError ''Requested array dimension does not exist'')
      else
        ebind (dwm_at a (dimension - 1)) (\<lambda>len.
        ebind (getFirstWidth a dimension) (\<lambda>entries.
        mfold (\<lambda>i result. ebind (ld32 (amem a) (entries + 4 * i))
                 (\<lambda>e. Inr (if e > result then e else result))) [0..<len] 0)))"

section \<open>Sizes\<close>

definition getSize :: "array_obj \<Rightarrow> bool \<Rightarrow> nat res" where
  "getSize a withNulls =
     (if withNulls then
        ebind (getFirstWidth a (dimensions a)) (\<lambda>start.
        ebind (dwm_at a (dimensions a - 1)) (\<lambda>limit.
        mfold (\<lambda>i result. ebind (ld32 (amem a) (start + 4 * i)) (\<lambda>k. Inr (u32 (result + k))))
          [0..<limit] 0))
      else Inr (asize a))"

definition isEmpty :: "array_obj \<Rightarrow> bool res" where
  "isEmpty a = ebind (getSize a True) (\<lambda>n. Inr (n = 0))"

section \<open>Construction\<close>

text \<open>
  \<^verbatim>\<open>initArray\<close> runs with \<^verbatim>\<open>type\<close> already set and \<open>p\<close> behind the type byte; \<open>getSize(true)\<close>
  is called on the object as it is at that point.
\<close>

definition initArray :: "bytes \<Rightarrow> nat \<Rightarrow> nat \<Rightarrow> array_obj res" where
  "initArray m t p =
     ebind (ld32 m p) (\<lambda>dims.
     ebind (ld32 m (p + 4)) (\<lambda>sz.
     let idx = p + 8; dwm = idx + 4 * dims; wid = dwm + 4 * dims in
     ebind (mfold (\<lambda>i data. ebind (ld32 m (dwm + 4 * i)) (\<lambda>k. Inr (data + 4 * k))) [0..<dims] wid)
       (\<lambda>elems.
     ebind (getTypeSize t) (\<lambda>ts.
     let nul = elems + sz * ts;
         a = \<lparr>amem = m, atype = t, dimensions = dims, asize = sz, indices = idx,
              dimensionWidthMap = dwm, widths = wid, elements = elems, nulls = nul, strings = 0\<rparr>
     in ebind (getSize a True) (\<lambda>n. Inr (a\<lparr>strings := nul + getNullBytes n\<rparr>))))))"

definition mkArray :: "bytes \<Rightarrow> int \<Rightarrow> array_obj res" where
  "mkArray array t =
     (if array = [] then Inl (RuntimeError ''Array is empty'')
      else ebind (load array 0 (length ARRAYHEADER)) (\<lambda>header.
        if header \<noteq> ARRAYHEADER then Inl (RuntimeError ''Array is not processable'')
        else ebind (getTypeId t) (\<lambda>typeId. initArray array typeId (length ARRAYHEADER + 1))))"

text \<open>The constructor without a type argument takes the type from the byte behind the header.\<close>

definition mkArrayUntyped :: "bytes \<Rightarrow> array_obj res" where
  "mkArrayUntyped array =
     (if array = [] then Inl (RuntimeError ''Array is empty'')
      else ebind (load array 0 (length ARRAYHEADER)) (\<lambda>header.
        if header \<noteq> ARRAYHEADER then Inl (RuntimeError ''Array is not processable'')
        else ebind (ld8 array (length ARRAYHEADER))
          (\<lambda>t. initArray array (unat t) (length ARRAYHEADER + 1))))"

section \<open>NULL bits\<close>

definition isNull :: "array_obj \<Rightarrow> nat \<Rightarrow> bool res" where
  "isNull a position =
     ebind (getSize a True) (\<lambda>n.
     if n \<le> position then Inl (RuntimeError ''Array-Element does not exist'')
     else
       let element = position div 8; index = position mod 8; shift = 8 - index - 1 in
       ebind (ld8 (amem a) (nulls a + element)) (\<lambda>b. Inr (bit b shift)))"

definition countNulls :: "array_obj \<Rightarrow> nat \<Rightarrow> nat res" where
  "countNulls a position =
     ebind (getSize a True) (\<lambda>n.
     if n \<le> position then Inl (RuntimeError ''Array-Element does not exist'')
     else mfold (\<lambda>i result. ebind (isNull a i) (\<lambda>b. Inr (if b then u32 (result + 1) else result)))
            [0..<position] 0)"

definition hasNullValue :: "array_obj \<Rightarrow> bool res" where
  "hasNullValue a = ebind (getSize a True) (\<lambda>n. mexists (isNull a) [0..<n])"

text \<open>\<^verbatim>\<open>copyNulls(buffer, std::vector<bool>&)\<close>.\<close>

definition copyNullsVec :: "bool list \<Rightarrow> wbuf \<Rightarrow> wbuf res" where
  "copyNullsVec ns w =
     ebind (mfold (\<lambda>i w.
         ebind (if i \<noteq> 0 \<and> i mod 8 = 0 then advance 1 w else Inr w) (\<lambda>w.
         if ns ! i then orBit (8 - i mod 8 - 1) w else Inr w)) [0..<length ns] w)
       (advance 1)"

text \<open>\<^verbatim>\<open>copyNulls(buffer, nulls, size, position)\<close>, the source bits at offset \<open>p\<close> of \<open>m\<close>.\<close>

definition copyNulls :: "bytes \<Rightarrow> nat \<Rightarrow> nat \<Rightarrow> nat \<Rightarrow> wbuf \<Rightarrow> wbuf res" where
  "copyNulls m p sz position w =
     (if position = 0 then copyToBuffer m p (getNullBytes sz) w
      else
        ebind (mfold (\<lambda>i (w, p, position).
            let p = (if i \<noteq> 0 \<and> i mod 8 = 0 then p + 1 else p) in
            ebind (ld8 m p) (\<lambda>b.
            ebind (if bit b (8 - i mod 8 - 1) then orBit (8 - position mod 8 - 1) w else Inr w) (\<lambda>w.
            let position = u32 (position + 1) in
            ebind (if position mod 8 = 0 then advance 1 w else Inr w) (\<lambda>w.
            Inr (w, p, position))))) [0..<sz] (w, p, position))
          (\<lambda>(w, _, _). advance 1 w))"

section \<open>Elements\<close>

definition getElementPosition :: "array_obj \<Rightarrow> nat \<Rightarrow> nat res" where
  "getElementPosition a position =
     ebind (getSize a True) (\<lambda>n.
     if n \<le> position then Inl (RuntimeError ''Requested array element does not exist'')
     else ebind (countNulls a position) (\<lambda>k. Inr (u32_sub position k)))"

text \<open>\<^verbatim>\<open>reinterpret_cast<uint32_t*>(this->elements)[i]\<close>: the length of the \<open>i\<close>-th string.\<close>

definition length_at :: "array_obj \<Rightarrow> nat \<Rightarrow> nat res" where
  "length_at a i = ld32 (amem a) (elements a + 4 * i)"

definition getStringLength :: "array_obj \<Rightarrow> nat res" where
  "getStringLength a =
     (if atype a \<noteq> type_id STRING then Inr 0
      else mfold (\<lambda>i result. ebind (length_at a i) (\<lambda>k. Inr (u32 (result + k)))) [0..<asize a] 0)"

definition getStringLengthAt :: "array_obj \<Rightarrow> nat \<Rightarrow> nat res" where
  "getStringLengthAt a position =
     (if asize a \<le> position then Inl (RuntimeError ''Requested array element does not exist'')
      else if atype a \<noteq> type_id STRING then Inr 0
      else length_at a position)"

definition copyElements :: "array_obj \<Rightarrow> wbuf \<Rightarrow> wbuf res" where
  "copyElements a w =
     (if asize a = 0 then Inr w
      else case type_of (atype a) of
        Some T \<Rightarrow> copyToBuffer (amem a) (elements a) (elem_size T * asize a) w
      | None \<Rightarrow> Inl (RuntimeError ''Copy-Operation: Given array type is not supported in arrays''))"

definition copyElement :: "array_obj \<Rightarrow> nat \<Rightarrow> wbuf \<Rightarrow> wbuf res" where
  "copyElement a position w =
     (if asize a \<le> position then Inl (RuntimeError ''Requested array element does not exist'')
      else case type_of (atype a) of
        Some T \<Rightarrow> copyToBuffer (amem a) (elements a + elem_size T * position) (elem_size T) w
      | None \<Rightarrow> Inl (RuntimeError ''Copy-Operation: Given array type is not supported in arrays''))"

definition copyStrings :: "array_obj \<Rightarrow> wbuf \<Rightarrow> wbuf res" where
  "copyStrings a w =
     (if atype a \<noteq> type_id STRING then Inr w
      else ebind (getStringLength a) (\<lambda>n. copyToBuffer (amem a) (strings a) n w))"

text \<open>The offset of the \<open>position\<close>-th string: the sum of the lengths before it.\<close>

definition string_offset :: "array_obj \<Rightarrow> nat \<Rightarrow> nat res" where
  "string_offset a position =
     mfold (\<lambda>i offset. ebind (length_at a i) (\<lambda>k. Inr (u32 (offset + k)))) [0..<position] 0"

definition copyString :: "array_obj \<Rightarrow> nat \<Rightarrow> wbuf \<Rightarrow> wbuf res" where
  "copyString a position w =
     (if asize a \<le> position then Inl (RuntimeError ''Requested array element does not exist'')
      else
        ebind (string_offset a position) (\<lambda>offset.
        ebind (length_at a position) (\<lambda>n.
        copyToBuffer (amem a) (strings a + offset) n w)))"

section \<open>The size of a result string\<close>

definition getStringSize :: "nat \<Rightarrow> nat \<Rightarrow> nat \<Rightarrow> nat \<Rightarrow> nat \<Rightarrow> nat \<Rightarrow> nat res" where
  "getStringSize dims sz wids nullSize stringSize t =
     (let result = length ARRAYHEADER + 1;
          result = result + ((4 * 2) + (dims * 4) + (dims * 4) + (wids * 4)) in
      ebind (getTypeSize t) (\<lambda>ts.
      Inr (result + sz * ts + nullSize + stringSize)))"

text \<open>\<^verbatim>\<open>toVarLen32\<close>: the bytes a \<^verbatim>\<open>VarLen32\<close> of 32-bit length made from the string denotes.\<close>

definition toVarLen32 :: "bytes \<Rightarrow> bytes" where
  "toVarLen32 s = take (u32 (length s)) s"

lemma toVarLen32_id [simp]: "length s < 4294967296 \<Longrightarrow> toVarLen32 s = s"
  by (simp add: toVarLen32_def)

end
