(* ===== verification/Array_Layout.thy ===== *)
theory Array_Layout
  imports Array_Object
begin

text \<open>
  The array processable format: the abstract content of an array (\<open>flat\<close>), its bytes
  (\<open>encode\<close>), when it is well formed (\<open>wf_flat\<close>), and what every accessor of
  \<^verbatim>\<open>runtime::Array\<close> returns on a well-formed array. The accessor lemmas are proved once
  from the laws of the locale \<open>array_layout\<close> and interpreted on the encoded arrays.
\<close>

section \<open>Content and bytes\<close>

text \<open>
  \<open>fidx\<close> holds the start indices as unsigned bit patterns, \<open>felems\<close> the bytes of each
  stored element (for strings: of its 32-bit length), \<open>fnulls\<close> one flag per position,
  \<open>fstr\<close> the characters of all strings.
\<close>

record flat =
  fty :: ArrayType
  fidx :: "nat list"
  fdwm :: "nat list"
  fwidths :: "nat list"
  felems :: "bytes list"
  fnulls :: "bool list"
  fstr :: bytes

definition u32s :: "nat list \<Rightarrow> bytes" where
  "u32s xs = concat (map (le_bytes 4) xs)"

definition encode :: "flat \<Rightarrow> bytes" where
  "encode F =
     ARRAYHEADER @ [of_nat (type_id (fty F))] @
     le_bytes 4 (length (fdwm F)) @ le_bytes 4 (length (felems F)) @
     u32s (fidx F) @ u32s (fdwm F) @ u32s (fwidths F) @
     concat (felems F) @ pack (fnulls F) @ fstr F"

text \<open>The width entries of one dimension (counted from 0).\<close>

definition lvl_start :: "flat \<Rightarrow> nat \<Rightarrow> nat" where
  "lvl_start F k = sum_list (take k (fdwm F))"

definition level :: "flat \<Rightarrow> nat \<Rightarrow> nat list" where
  "level F k = take (fdwm F ! k) (drop (lvl_start F k) (fwidths F))"

definition small :: "nat list \<Rightarrow> bool" where
  "small xs \<longleftrightarrow> (\<forall>x \<in> set xs. x < 4294967296)"

definition wf_flat :: "flat \<Rightarrow> bool" where
  "wf_flat F \<longleftrightarrow>
     fdwm F \<noteq> [] \<and> length (fidx F) = length (fdwm F) \<and>
     small (fidx F) \<and> small (fdwm F) \<and> small (fwidths F) \<and>
     fdwm F ! 0 = 1 \<and>
     sum_list (fdwm F) = length (fwidths F) \<and>
     (\<forall>k < length (fdwm F) - 1. sum_list (level F k) = fdwm F ! Suc k) \<and>
     sum_list (level F (length (fdwm F) - 1)) = length (fnulls F) \<and>
     length (filter Not (fnulls F)) = length (felems F) \<and>
     chunked (elem_size (fty F)) (felems F) \<and>
     (if fty F = STRING then sum_list (map le_val (felems F)) = length (fstr F) else fstr F = []) \<and>
     length (fnulls F) < 4294967295 \<and>
     length (encode F) < 4294967296"

definition obj_of :: "flat \<Rightarrow> array_obj" where
  "obj_of F =
     (let d = length (fdwm F); n = length (felems F);
          wid = 14 + 8 * d; ele = wid + 4 * length (fwidths F); nul = ele + n * elem_size (fty F)
      in \<lparr>amem = encode F, atype = type_id (fty F), dimensions = d, asize = n,
          indices = 14, dimensionWidthMap = 14 + 4 * d, widths = wid, elements = ele,
          nulls = nul, strings = nul + getNullBytes (length (fnulls F))\<rparr>)"

lemma length_u32s [simp]: "length (u32s xs) = 4 * length xs"
  unfolding u32s_def by (subst length_concat_chunked[of 4]) simp_all

lemma u32s_simps [simp]:
  "u32s [] = []"
  "u32s (x # xs) = le_bytes 4 x @ u32s xs"
  "u32s (xs @ ys) = u32s xs @ u32s ys"
  by (simp_all add: u32s_def)

lemma length_encode:
  assumes "chunked (elem_size (fty F)) (felems F)"
  shows "length (encode F) =
    14 + 4 * length (fidx F) + 4 * length (fdwm F) + 4 * length (fwidths F) +
    elem_size (fty F) * length (felems F) + getNullBytes (length (fnulls F)) + length (fstr F)"
  using length_concat_chunked[OF assms] by (simp add: encode_def)

text \<open>The characters of the \<open>i\<close>-th string.\<close>

definition str_at :: "flat \<Rightarrow> nat \<Rightarrow> bytes" where
  "str_at F i = take (le_val (felems F ! i)) (drop (sum_list (take i (map le_val (felems F)))) (fstr F))"

section \<open>Well-formedness facts\<close>

named_theorems wf_facts \<open>consequences of well-formedness\<close>

lemma wf_dims [wf_facts]: "wf_flat F \<Longrightarrow> 0 < length (fdwm F)"
  "wf_flat F \<Longrightarrow> length (fidx F) = length (fdwm F)"
  "wf_flat F \<Longrightarrow> fdwm F ! 0 = 1"
  by (simp_all add: wf_flat_def)

lemma wf_chunked [wf_facts]: "wf_flat F \<Longrightarrow> chunked (elem_size (fty F)) (felems F)"
  by (simp add: wf_flat_def)

lemma wf_sum_dwm [wf_facts]: "wf_flat F \<Longrightarrow> sum_list (fdwm F) = length (fwidths F)"
  by (simp add: wf_flat_def)

lemma wf_bounds [wf_facts]:
  assumes "wf_flat F"
  shows "length (fnulls F) < 4294967295" "length (fwidths F) < 4294967296"
    "length (felems F) < 4294967296" "length (fdwm F) < 4294967296"
    "length (fstr F) < 4294967296" "length (encode F) < 4294967296"
    "small (fidx F)" "small (fdwm F)" "small (fwidths F)"
proof -
  have len: "length (encode F) < 4294967296" and "length (fidx F) = length (fdwm F)"
    and c: "chunked (elem_size (fty F)) (felems F)"
    using assms by (simp_all add: wf_flat_def)
  then show "length (fwidths F) < 4294967296" "length (fdwm F) < 4294967296"
    "length (fstr F) < 4294967296" "length (encode F) < 4294967296"
    by (simp_all add: length_encode)
  have "1 * length (felems F) \<le> elem_size (fty F) * length (felems F)"
    by (rule mult_le_mono1) (use elem_size_pos[of "fty F"] in linarith)
  then show "length (felems F) < 4294967296" using len length_encode[OF c] by linarith
qed (use assms in \<open>simp_all add: wf_flat_def\<close>)

lemma smallD: "small xs \<Longrightarrow> i < length xs \<Longrightarrow> xs ! i < 4294967296"
  by (simp add: small_def)

lemma sum_take_le: "sum_list (take i xs) \<le> sum_list (xs :: nat list)"
  by (metis append_take_drop_id le_add1 sum_list_append)

lemma sum_take_Suc: "i < length xs \<Longrightarrow> sum_list (take (Suc i) xs) = sum_list (take i xs) + (xs ! i :: nat)"
  by (simp add: take_Suc_conv_app_nth)

lemma lvl_start_Suc: "k < length (fdwm F) \<Longrightarrow> lvl_start F (Suc k) = lvl_start F k + fdwm F ! k"
  by (simp add: lvl_start_def sum_take_Suc)

lemma lvl_start_0 [simp]: "lvl_start F 0 = 0"
  by (simp add: lvl_start_def)

lemma lvl_end_le:
  assumes "wf_flat F" and "k < length (fdwm F)"
  shows "lvl_start F k + fdwm F ! k \<le> length (fwidths F)"
  using sum_take_le[of "Suc k" "fdwm F"] assms
  by (simp add: lvl_start_def sum_take_Suc wf_sum_dwm[symmetric])

lemma length_level:
  assumes "wf_flat F" and "k < length (fdwm F)"
  shows "length (level F k) = fdwm F ! k"
  using lvl_end_le[OF assms] by (simp add: level_def)

lemma level_nth:
  assumes "wf_flat F" and "k < length (fdwm F)" and "j < fdwm F ! k"
  shows "level F k ! j = fwidths F ! (lvl_start F k + j)"
  using lvl_end_le[OF assms(1,2)] assms(3) by (simp add: level_def)

lemma wf_level_sum:
  "wf_flat F \<Longrightarrow> Suc k < length (fdwm F) \<Longrightarrow> sum_list (level F k) = fdwm F ! Suc k"
  "wf_flat F \<Longrightarrow> sum_list (level F (length (fdwm F) - 1)) = length (fnulls F)"
  by (simp_all add: wf_flat_def)

lemma wf_count: "wf_flat F \<Longrightarrow> length (filter Not (fnulls F)) = length (felems F)"
  by (simp add: wf_flat_def)

lemma wf_strings:
  "wf_flat F \<Longrightarrow> fty F = STRING \<Longrightarrow> sum_list (map le_val (felems F)) = length (fstr F)"
  "wf_flat F \<Longrightarrow> fty F \<noteq> STRING \<Longrightarrow> fstr F = []"
  by (simp_all add: wf_flat_def split: if_splits)

lemma wf_widths_nonempty: "wf_flat F \<Longrightarrow> fwidths F \<noteq> []"
proof -
  assume wf: "wf_flat F"
  have "0 < length (fdwm F)" "fdwm F ! 0 = 1" using wf_dims[OF wf] by simp_all
  then have "1 \<le> sum_list (fdwm F)" by (cases "fdwm F") simp_all
  then show ?thesis using wf_sum_dwm[OF wf] by auto
qed

lemma level_0: "wf_flat F \<Longrightarrow> level F 0 = [fwidths F ! 0]"
  using wf_widths_nonempty[of F] wf_dims(3)[of F] by (cases "fwidths F") (simp_all add: level_def)

section \<open>Replacing the last dimension\<close>

text \<open>
  Operations on elements change the width entries of the last dimension only:
  \<open>upper F\<close> are the entries above it, \<open>lowest F\<close> its own.
\<close>

definition last_start :: "flat \<Rightarrow> nat" where
  "last_start F = lvl_start F (length (fdwm F) - 1)"

definition lowest :: "flat \<Rightarrow> nat list" where
  "lowest F = level F (length (fdwm F) - 1)"

text \<open>The result fits the 32-bit counters of the format.\<close>

definition fits :: "flat \<Rightarrow> bool" where
  "fits F \<longleftrightarrow> length (encode F) < 4294967296 \<and> length (fnulls F) < 4294967295"

lemma fitsD: "fits F \<Longrightarrow> length (encode F) < 4294967296" "fits F \<Longrightarrow> length (fnulls F) < 4294967295"
  by (simp_all add: fits_def)

lemma last_start_eq: "wf_flat F \<Longrightarrow> last_start F + last (fdwm F) = length (fwidths F)"
proof -
  assume wf: "wf_flat F"
  have "fdwm F = butlast (fdwm F) @ [last (fdwm F)]" using wf_dims(1)[OF wf] by simp
  then have "sum_list (fdwm F) = sum_list (butlast (fdwm F)) + last (fdwm F)"
    by (metis sum_list_append sum_list_simps add_0_right)
  moreover have "last_start F = sum_list (butlast (fdwm F))"
    by (simp add: last_start_def lvl_start_def butlast_conv_take)
  ultimately show ?thesis using wf_sum_dwm[OF wf] by simp
qed

lemma last_fdwm: "wf_flat F \<Longrightarrow> last (fdwm F) = fdwm F ! (length (fdwm F) - 1)"
  using wf_dims(1)[of F] by (simp add: last_conv_nth)

lemma lowest_eq: "wf_flat F \<Longrightarrow> lowest F = drop (last_start F) (fwidths F)"
  using last_start_eq[of F] last_fdwm[of F] by (simp add: lowest_def level_def last_start_def)

lemma length_lowest: "wf_flat F \<Longrightarrow> length (lowest F) = last (fdwm F)"
  using last_start_eq[of F] by (simp add: lowest_eq)

lemma widths_split: "wf_flat F \<Longrightarrow> fwidths F = take (last_start F) (fwidths F) @ lowest F"
  by (simp add: lowest_eq)

lemma sum_lowest: "wf_flat F \<Longrightarrow> sum_list (lowest F) = length (fnulls F)"
  unfolding lowest_def by (rule wf_level_sum(2))

lemma member_le_sum: "(x :: nat) \<in> set xs \<Longrightarrow> x \<le> sum_list xs"
  by (induction xs) auto

lemma lvl_start_mono: "i \<le> j \<Longrightarrow> lvl_start F i \<le> lvl_start F j"
proof -
  assume "i \<le> j"
  then have "take i (fdwm F) = take i (take j (fdwm F))" by (simp add: min_def)
  then show ?thesis unfolding lvl_start_def by (metis sum_take_le)
qed

lemma take_drop_prefix:
  "b + a \<le> l \<Longrightarrow> l \<le> length W \<Longrightarrow> take a (drop b (take l W @ L)) = take a (drop b W)"
  by (rule nth_equalityI) (auto simp: nth_append)

lemma wf_replace_last:
  assumes wf: "wf_flat F"
    and same: "fty F' = fty F" "fidx F' = fidx F" "fdwm F' = fdwm F"
    and wid: "fwidths F' = take (last_start F) (fwidths F) @ L" "length L = last (fdwm F)"
    and sum: "sum_list L = length (fnulls F')"
    and cnt: "length (filter Not (fnulls F')) = length (felems F')"
    and ch: "chunked (elem_size (fty F)) (felems F')"
    and str: "if fty F = STRING then sum_list (map le_val (felems F')) = length (fstr F') else fstr F' = []"
    and fit: "fits F'"
  shows "wf_flat F'"
proof -
  let ?k = "length (fdwm F) - 1"
  have k: "?k < length (fdwm F)" using wf_dims(1)[OF wf] by simp
  have le: "last_start F \<le> length (fwidths F)" using last_start_eq[OF wf] by simp
  have start: "lvl_start F' i = lvl_start F i" for i by (simp add: lvl_start_def same)
  have lev: "level F' i = level F i" if "i < ?k" for i
  proof -
    have "lvl_start F i + fdwm F ! i = lvl_start F (Suc i)"
      using that k by (intro lvl_start_Suc[symmetric]) simp
    also have "\<dots> \<le> last_start F" unfolding last_start_def using that by (intro lvl_start_mono) simp
    finally show ?thesis
      unfolding level_def start same wid(1) using le by (intro take_drop_prefix) simp_all
  qed
  have low: "level F' ?k = L"
    using le wid(2) last_fdwm[OF wf] by (simp add: level_def start same wid(1) last_start_def)
  have "small (take (last_start F) (fwidths F))"
    using wf_bounds(9)[OF wf] by (auto simp: small_def dest: in_set_takeD)
  moreover have "small L"
    using member_le_sum[of _ L] sum fitsD(2)[OF fit] by (force simp: small_def)
  ultimately have "small (fwidths F')" by (auto simp: small_def wid(1))
  moreover have "sum_list (fdwm F') = length (fwidths F')"
    using wf_sum_dwm[OF wf] last_start_eq[OF wf] le wid same by simp
  moreover have "\<forall>i < length (fdwm F') - 1. sum_list (level F' i) = fdwm F' ! Suc i"
    using lev wf same by (simp add: wf_flat_def)
  moreover have "sum_list (level F' (length (fdwm F') - 1)) = length (fnulls F')"
    using low sum same by simp
  ultimately show ?thesis
    using wf cnt ch str fitsD[OF fit] by (simp add: wf_flat_def same)
qed

section \<open>What the parts of an array hold\<close>

text \<open>
  The interface between the byte format and everything that reads arrays: under the
  invariant, the sections of the memory an object points to hold the abstract content.
\<close>

locale array_layout =
  fixes obj :: "flat \<Rightarrow> array_obj" and inv :: "flat \<Rightarrow> bool"
  assumes inv_wf: "inv F \<Longrightarrow> wf_flat F"
    and obj_type: "inv F \<Longrightarrow> atype (obj F) = type_id (fty F)"
    and obj_dims: "inv F \<Longrightarrow> dimensions (obj F) = length (fdwm F)"
    and obj_size: "inv F \<Longrightarrow> asize (obj F) = length (felems F)"
    and load_indices: "inv F \<Longrightarrow> i + n \<le> length (fidx F) \<Longrightarrow>
      load (amem (obj F)) (indices (obj F) + 4 * i) (4 * n) = Inr (u32s (take n (drop i (fidx F))))"
    and load_dwm: "inv F \<Longrightarrow> i + n \<le> length (fdwm F) \<Longrightarrow>
      load (amem (obj F)) (dimensionWidthMap (obj F) + 4 * i) (4 * n) =
        Inr (u32s (take n (drop i (fdwm F))))"
    and load_widths: "inv F \<Longrightarrow> i + n \<le> length (fwidths F) \<Longrightarrow>
      load (amem (obj F)) (widths (obj F) + 4 * i) (4 * n) =
        Inr (u32s (take n (drop i (fwidths F))))"
    and load_elements: "inv F \<Longrightarrow> i + n \<le> length (felems F) \<Longrightarrow>
      load (amem (obj F)) (elements (obj F) + elem_size (fty F) * i) (elem_size (fty F) * n) =
        Inr (concat (take n (drop i (felems F))))"
    and load_nulls: "inv F \<Longrightarrow> i + n \<le> getNullBytes (length (fnulls F)) \<Longrightarrow>
      load (amem (obj F)) (nulls (obj F) + i) n = Inr (take n (drop i (pack (fnulls F))))"
    and load_strings: "inv F \<Longrightarrow> i + n \<le> length (fstr F) \<Longrightarrow>
      load (amem (obj F)) (strings (obj F) + i) n = Inr (take n (drop i (fstr F)))"
begin

lemma ld_of_load:
  assumes "load m p 4 = Inr (u32s [x])" and "x < 4294967296"
  shows "ld32 m p = Inr x"
  using assms by (simp add: ldn_def)

lemma index_at_obj [acc_simps]:
  assumes "inv F" and "i < length (fidx F)"
  shows "index_at (obj F) i = Inr (fidx F ! i)"
  using load_indices[of F i 1] assms smallD[OF wf_bounds(7)[OF inv_wf]]
  unfolding index_at_def by (intro ld_of_load) (simp_all add: take_Suc hd_drop_conv_nth)

lemma dwm_at_obj [acc_simps]:
  assumes "inv F" and "i < length (fdwm F)"
  shows "dwm_at (obj F) i = Inr (fdwm F ! i)"
  using load_dwm[of F i 1] assms smallD[OF wf_bounds(8)[OF inv_wf]]
  unfolding dwm_at_def by (intro ld_of_load) (simp_all add: take_Suc hd_drop_conv_nth)

lemma width_at_obj [acc_simps]:
  assumes "inv F" and "i < length (fwidths F)"
  shows "width_at (obj F) i = Inr (fwidths F ! i)"
  using load_widths[of F i 1] assms smallD[OF wf_bounds(9)[OF inv_wf]]
  unfolding width_at_def by (intro ld_of_load) (simp_all add: take_Suc hd_drop_conv_nth)

lemma ld_width:
  assumes "inv F" and "k < length (fdwm F)" and "j < fdwm F ! k"
  shows "ld32 (amem (obj F)) (widths (obj F) + 4 * lvl_start F k + 4 * j) = Inr (level F k ! j)"
proof -
  have "lvl_start F k + j < length (fwidths F)"
    using lvl_end_le[OF inv_wf[OF assms(1)] assms(2)] assms(3) by simp
  from width_at_obj[OF assms(1) this] show ?thesis
    using level_nth[OF inv_wf[OF assms(1)] assms(2,3)] by (simp add: width_at_def add.assoc algebra_simps)
qed

lemma getWidthSize_obj [acc_simps]:
  assumes "inv F"
  shows "getWidthSize (obj F) = Inr (length (fwidths F))"
  unfolding getWidthSize_def
proof (rule mfold_upt0[where S = "\<lambda>i. sum_list (take i (fdwm F))"])
  fix i assume "i < dimensions (obj F)"
  then have i: "i < length (fdwm F)" using obj_dims[OF assms] by simp
  have "sum_list (take (Suc i) (fdwm F)) < 4294967296"
    using sum_take_le[of "Suc i" "fdwm F"] wf_bounds(2)[OF inv_wf[OF assms]] wf_sum_dwm[OF inv_wf[OF assms]]
    by linarith
  then show "ebind (dwm_at (obj F) i) (\<lambda>k. Inr (u32 (sum_list (take i (fdwm F)) + k))) =
      Inr (sum_list (take (Suc i) (fdwm F)))"
    using i assms by (simp add: dwm_at_obj sum_take_Suc)
qed (use assms in \<open>simp_all add: obj_dims wf_sum_dwm inv_wf\<close>)

lemma getWidthSizeDim_obj [acc_simps]:
  assumes "inv F"
  shows "getWidthSizeDim (obj F) n =
    (if n > length (fdwm F) \<or> n = 0 then Inl (RuntimeError ''Requested dimension does not exist'')
     else Inr (fdwm F ! (n - 1)))"
  using assms by (auto simp: getWidthSizeDim_def obj_dims intro: dwm_at_obj)

lemma getFirstWidth_obj [acc_simps]:
  assumes "inv F"
  shows "getFirstWidth (obj F) n =
    (if n > length (fdwm F) \<or> n = 0 then Inl (RuntimeError ''Requested dimension does not exist'')
     else Inr (widths (obj F) + 4 * lvl_start F (n - 1)))"
proof (cases "n > length (fdwm F) \<or> n = 0")
  case False
  have "mfold (\<lambda>i width. ebind (dwm_at (obj F) i) (\<lambda>k. Inr (width + 4 * k))) [0..<n - 1]
      (widths (obj F)) = Inr (widths (obj F) + 4 * lvl_start F (n - 1))"
  proof (rule mfold_upt0[where S = "\<lambda>i. widths (obj F) + 4 * lvl_start F i"])
    fix i assume "i < n - 1"
    with False have "i < length (fdwm F)" by linarith
    then show "ebind (dwm_at (obj F) i) (\<lambda>k. Inr (widths (obj F) + 4 * lvl_start F i + 4 * k)) =
        Inr (widths (obj F) + 4 * lvl_start F (Suc i))"
      using assms by (simp add: dwm_at_obj lvl_start_Suc)
  qed simp_all
  with False show ?thesis using assms by (simp add: getFirstWidth_def obj_dims)
qed (use assms in \<open>auto simp: getFirstWidth_def obj_dims\<close>)

text \<open>Summing the width entries of a dimension, as \<^verbatim>\<open>getSize\<close> and \<^verbatim>\<open>getOffset\<close> do.\<close>

lemma sum_level_loop:
  assumes "inv F" and "k < length (fdwm F)" and "n \<le> fdwm F ! k"
    and "sum_list (level F k) < 4294967296"
  shows "mfold (\<lambda>i result. ebind (ld32 (amem (obj F)) (widths (obj F) + 4 * lvl_start F k + 4 * i))
      (\<lambda>w. Inr (u32 (result + w)))) [0..<n] 0 = Inr (sum_list (take n (level F k)))"
proof (rule mfold_upt0[where S = "\<lambda>i. sum_list (take i (level F k))"])
  fix i assume "i < n"
  then have i: "i < fdwm F ! k" "i < length (level F k)"
    using assms(3) length_level[OF inv_wf[OF assms(1)] assms(2)] by simp_all
  have "sum_list (take (Suc i) (level F k)) < 4294967296"
    using sum_take_le[of "Suc i" "level F k"] assms(4) by linarith
  then show "ebind (ld32 (amem (obj F)) (widths (obj F) + 4 * lvl_start F k + 4 * i))
      (\<lambda>w. Inr (u32 (sum_list (take i (level F k)) + w))) = Inr (sum_list (take (Suc i) (level F k)))"
    using i ld_width[OF assms(1,2) i(1)] by (simp add: sum_take_Suc)
qed simp_all

lemma getSize_obj [acc_simps]:
  assumes "inv F"
  shows "getSize (obj F) b = Inr (if b then length (fnulls F) else length (felems F))"
proof (cases b)
  case True
  let ?k = "length (fdwm F) - 1"
  have wf: "wf_flat F" by (rule inv_wf[OF assms])
  have k: "?k < length (fdwm F)" using wf_dims(1)[OF wf] by simp
  have s: "sum_list (level F ?k) = length (fnulls F)" by (rule wf_level_sum(2)[OF wf])
  show ?thesis
    using True assms k s wf_dims(1)[OF wf] sum_level_loop[OF assms k order_refl] wf_bounds(1)[OF wf] length_level[OF wf k]
    by (simp add: getSize_def obj_dims getFirstWidth_obj dwm_at_obj)
qed (use assms in \<open>simp add: getSize_def obj_size\<close>)

lemma isEmpty_obj [acc_simps]: "inv F \<Longrightarrow> isEmpty (obj F) = Inr (fnulls F = [])"
  by (simp add: isEmpty_def getSize_obj)

lemma ld8_of_load:
  assumes "load m p 1 = Inr [b]"
  shows "ld8 m p = Inr b"
proof -
  define z where "z = m @ [0]"
  have "p < length z" and "take 1 (drop p z) = [b]"
    using assms by (simp_all add: load_def z_def split: if_splits)
  then have "z ! p = b" by (simp add: take_Suc hd_drop_conv_nth)
  then show ?thesis using \<open>p < length z\<close> by (simp add: ld8_def z_def)
qed

lemma ld8_nulls:
  assumes "inv F" and "i < getNullBytes (length (fnulls F))"
  shows "ld8 (amem (obj F)) (nulls (obj F) + i) = Inr (pack (fnulls F) ! i)"
  using load_nulls[of F i 1] assms by (intro ld8_of_load) (simp add: take_Suc hd_drop_conv_nth)

lemma isNull_obj [acc_simps]:
  assumes "inv F"
  shows "isNull (obj F) i =
    (if length (fnulls F) \<le> i then Inl (RuntimeError ''Array-Element does not exist'')
     else Inr (fnulls F ! i))"
proof (cases "length (fnulls F) \<le> i")
  case False
  then have "i div 8 < getNullBytes (length (fnulls F))" by (simp add: div8_less_getNullBytes)
  moreover from this have "i < 8 * getNullBytes (length (fnulls F))" by linarith
  ultimately show ?thesis
    using False assms bit_pack[of i "fnulls F"]
    by (simp add: isNull_def getSize_obj ld8_nulls)
qed (use assms in \<open>simp add: isNull_def getSize_obj\<close>)

lemma countNulls_obj [acc_simps]:
  assumes "inv F"
  shows "countNulls (obj F) i =
    (if length (fnulls F) \<le> i then Inl (RuntimeError ''Array-Element does not exist'')
     else Inr (length (filter id (take i (fnulls F)))))"
proof (cases "length (fnulls F) \<le> i")
  case False
  have "mfold (\<lambda>j result. ebind (isNull (obj F) j) (\<lambda>b. Inr (if b then u32 (result + 1) else result)))
      [0..<i] 0 = Inr (length (filter id (take i (fnulls F))))"
  proof (rule mfold_upt0[where S = "\<lambda>j. length (filter id (take j (fnulls F)))"])
    fix j assume "j < i"
    then have j: "j < length (fnulls F)" using False by simp
    have "length (filter id (take j (fnulls F))) \<le> length (take j (fnulls F))"
      by (rule length_filter_le)
    then have "length (filter id (take j (fnulls F))) + 1 < 4294967296"
      using j wf_bounds(1)[OF inv_wf[OF assms]] by simp
    then show "ebind (isNull (obj F) j)
        (\<lambda>b. Inr (if b then u32 (length (filter id (take j (fnulls F))) + 1)
                  else length (filter id (take j (fnulls F))))) =
        Inr (length (filter id (take (Suc j) (fnulls F))))"
      using j assms by (simp add: isNull_obj take_Suc_conv_app_nth)
  qed simp_all
  with False show ?thesis using assms by (simp add: countNulls_def getSize_obj)
qed (use assms in \<open>simp add: countNulls_def getSize_obj\<close>)

lemma getElementPosition_obj [acc_simps]:
  assumes "inv F"
  shows "getElementPosition (obj F) i =
    (if length (fnulls F) \<le> i then Inl (RuntimeError ''Requested array element does not exist'')
     else Inr (length (filter Not (take i (fnulls F)))))"
proof (cases "length (fnulls F) \<le> i")
  case False
  have "length (filter id (take i (fnulls F))) + length (filter Not (take i (fnulls F))) = i"
    using sum_length_filter_compl[of id "take i (fnulls F)"] False by simp
  then show ?thesis
    using False assms by (simp add: getElementPosition_def getSize_obj countNulls_obj)
qed (use assms in \<open>simp add: getElementPosition_def getSize_obj\<close>)

lemma hasNullValue_obj [acc_simps]: "inv F \<Longrightarrow> hasNullValue (obj F) = Inr (True \<in> set (fnulls F))"
proof -
  assume F: "inv F"
  have "mexists (isNull (obj F)) [0..<length (fnulls F)] =
      Inr (\<exists>i \<in> set [0..<length (fnulls F)]. fnulls F ! i)"
    by (rule mexists_Inr) (simp add: isNull_obj F)
  moreover have "(\<exists>i \<in> set [0..<length (fnulls F)]. fnulls F ! i) \<longleftrightarrow> True \<in> set (fnulls F)"
    by (auto simp: in_set_conv_nth)
  ultimately show ?thesis by (simp add: hasNullValue_def getSize_obj F)
qed

lemma hasEmptyValue_obj [acc_simps]: "inv F \<Longrightarrow> hasEmptyValue (obj F) = Inr (0 \<in> set (fwidths F))"
proof -
  assume F: "inv F"
  have "mexists (\<lambda>i. ebind (width_at (obj F) i) (\<lambda>w. Inr (w = 0))) [0..<length (fwidths F)] =
      Inr (\<exists>i \<in> set [0..<length (fwidths F)]. fwidths F ! i = 0)"
    by (rule mexists_Inr) (simp add: width_at_obj F)
  moreover have "(\<exists>i \<in> set [0..<length (fwidths F)]. fwidths F ! i = 0) \<longleftrightarrow> 0 \<in> set (fwidths F)"
    by (auto simp: in_set_conv_nth)
  ultimately show ?thesis by (simp add: hasEmptyValue_def getWidthSize_obj F)
qed

text \<open>The position of the first element below a width entry of the last dimension.\<close>

lemma getOffset_obj [acc_simps]:
  assumes "inv F" and "k = length (fdwm F) - 1" and "j < fdwm F ! k"
  shows "getOffset (obj F) (widths (obj F) + 4 * lvl_start F k + 4 * j) =
    Inr (sum_list (take j (level F k)))"
proof -
  have wf: "wf_flat F" by (rule inv_wf[OF assms(1)])
  have k: "k < length (fdwm F)" using wf_dims(1)[OF wf] assms(2) by simp
  have total: "sum_list (level F k) < 4294967296"
    using wf_level_sum(2)[OF wf] wf_bounds(1)[OF wf] assms(2) by simp
  let ?e = "widths (obj F) + 4 * lvl_start F k"
  have loop: "offset_loop (obj F) ?e (?e + 4 * j) [i..<fdwm F ! k] (sum_list (take i (level F k))) =
      Inr (sum_list (take j (level F k)))" if "i \<le> j" for i
    using that
  proof (induction "j - i" arbitrary: i)
    case 0
    then show ?case using assms(3) by (simp add: upt_conv_Cons)
  next
    case (Suc n)
    then have i: "i < j" "i < fdwm F ! k" using assms(3) by simp_all
    have "sum_list (take (Suc i) (level F k)) < 4294967296"
      using sum_take_le[of "Suc i" "level F k"] total by linarith
    then have "offset_loop (obj F) ?e (?e + 4 * j) [i..<fdwm F ! k] (sum_list (take i (level F k))) =
        offset_loop (obj F) ?e (?e + 4 * j) [Suc i..<fdwm F ! k] (sum_list (take (Suc i) (level F k)))"
      using i ld_width[OF assms(1) k i(2)] length_level[OF wf k]
      by (simp add: upt_conv_Cons sum_take_Suc)
    also have "\<dots> = Inr (sum_list (take j (level F k)))"
      using Suc.hyps i by (intro Suc.hyps(1)) simp_all
    finally show ?case .
  qed
  have "length (fdwm F) - Suc 0 < length (fdwm F)" using k by simp
  then show ?thesis
    using loop[of 0] k assms wf_dims(1)[OF wf]
    by (simp add: getOffset_def obj_dims getFirstWidth_obj dwm_at_obj)
qed

text \<open>The first child of a width entry: behind its dimension, past the children of the entries before it.\<close>

lemma getChildWidth_obj [acc_simps]:
  assumes "inv F" and "Suc k < length (fdwm F)" and "j < fdwm F ! k"
  shows "getChildWidth (obj F) (widths (obj F) + 4 * lvl_start F k + 4 * j) (Suc k) =
    Inr (if level F k ! j = 0 then None
         else Some (widths (obj F) + 4 * lvl_start F (Suc k) + 4 * sum_list (take j (level F k))))"
proof -
  have wf: "wf_flat F" by (rule inv_wf[OF assms(1)])
  have k: "k < length (fdwm F)" using assms(2) by simp
  let ?e = "widths (obj F) + 4 * lvl_start F k" and ?n = "fdwm F ! k"
  have total: "?n + sum_list (level F k) < 4294967296"
  proof -
    have "lvl_start F (Suc k) + fdwm F ! Suc k \<le> length (fwidths F)" by (rule lvl_end_le[OF wf assms(2)])
    then show ?thesis
      using wf_level_sum(1)[OF wf assms(2)] wf_bounds(2)[OF wf] lvl_start_Suc[OF k] by simp
  qed
  have loop: "child_loop (obj F) ?e ?n (?e + 4 * j) [i..<Suc ?n] (sum_list (take i (level F k))) =
      Inr (Some (?e + 4 * (?n + sum_list (take j (level F k)))))" if "i \<le> j" for i
    using that
  proof (induction "j - i" arbitrary: i)
    case 0
    have "?n + sum_list (take j (level F k)) < 4294967296"
      using total sum_take_le[of j "level F k"] by linarith
    then show ?case using 0 assms(3) by (simp add: upt_conv_Cons del: upt_Suc)
  next
    case (Suc n)
    then have i: "i < j" "i < ?n" using assms(3) by simp_all
    have "sum_list (take (Suc i) (level F k)) < 4294967296"
      using sum_take_le[of "Suc i" "level F k"] total by linarith
    then have "child_loop (obj F) ?e ?n (?e + 4 * j) [i..<Suc ?n] (sum_list (take i (level F k))) =
        child_loop (obj F) ?e ?n (?e + 4 * j) [Suc i..<Suc ?n] (sum_list (take (Suc i) (level F k)))"
      using i ld_width[OF assms(1) k i(2)] length_level[OF wf k]
      by (simp add: upt_conv_Cons sum_take_Suc del: upt_Suc)
    also have "\<dots> = Inr (Some (?e + 4 * (?n + sum_list (take j (level F k)))))"
      using Suc.hyps i by (intro Suc.hyps(1)) simp_all
    finally show ?case .
  qed
  show ?thesis
    using loop[of 0] k assms ld_width[OF assms(1) k assms(3)]
    by (simp add: getChildWidth_def obj_dims getFirstWidth_obj dwm_at_obj lvl_start_Suc
        algebra_simps del: upt_Suc)
qed

text \<open>Strings: the lengths are the elements, the characters follow one another.\<close>

lemma length_at_obj [acc_simps]:
  assumes "inv F" and "fty F = STRING" and "i < length (felems F)"
  shows "length_at (obj F) i = Inr (le_val (felems F ! i))"
  using load_elements[of F i 1] assms
  by (simp add: length_at_def ldn_def take_Suc hd_drop_conv_nth)

lemma sum_lengths_loop:
  assumes "inv F" and "fty F = STRING" and "n \<le> length (felems F)"
  shows "mfold (\<lambda>i result. ebind (length_at (obj F) i) (\<lambda>k. Inr (u32 (result + k)))) [0..<n] 0 =
    Inr (sum_list (take n (map le_val (felems F))))"
proof (rule mfold_upt0[where S = "\<lambda>i. sum_list (take i (map le_val (felems F)))"])
  fix i assume "i < n"
  then have i: "i < length (felems F)" using assms(3) by simp
  have "sum_list (take (Suc i) (map le_val (felems F))) < 4294967296"
    using sum_take_le[of "Suc i" "map le_val (felems F)"] wf_strings(1)[OF inv_wf[OF assms(1)] assms(2)]
      wf_bounds(5)[OF inv_wf[OF assms(1)]] by linarith
  then show "ebind (length_at (obj F) i) (\<lambda>k. Inr (u32 (sum_list (take i (map le_val (felems F))) + k))) =
      Inr (sum_list (take (Suc i) (map le_val (felems F))))"
    using i assms by (simp add: length_at_obj sum_take_Suc)
qed simp_all

lemma getStringLength_obj [acc_simps]:
  assumes "inv F"
  shows "getStringLength (obj F) = Inr (length (fstr F))"
  using assms wf_strings[OF inv_wf[OF assms]] sum_lengths_loop[OF assms _ order_refl]
  by (cases "fty F = STRING") (simp_all add: getStringLength_def obj_type obj_size)

lemma getStringLengthAt_obj [acc_simps]:
  assumes "inv F" and "i < length (felems F)"
  shows "getStringLengthAt (obj F) i = Inr (if fty F = STRING then le_val (felems F ! i) else 0)"
  using assms length_at_obj[OF assms(1) _ assms(2)]
  by (simp add: getStringLengthAt_def obj_type obj_size)

lemma str_at_fits:
  assumes "inv F" and "fty F = STRING" and "i < length (felems F)"
  shows "sum_list (take i (map le_val (felems F))) + le_val (felems F ! i) \<le> length (fstr F)"
  using sum_take_le[of "Suc i" "map le_val (felems F)"] wf_strings(1)[OF inv_wf[OF assms(1)] assms(2)]
    assms(3) by (simp add: sum_take_Suc)

lemma load_string_obj:
  assumes "inv F" and "fty F = STRING" and "i < length (felems F)"
  shows "load (amem (obj F)) (strings (obj F) + sum_list (take i (map le_val (felems F))))
      (le_val (felems F ! i)) = Inr (str_at F i)"
  unfolding str_at_def using load_strings[OF assms(1) str_at_fits[OF assms]] .

lemma string_offset_obj [acc_simps]:
  assumes "inv F" and "fty F = STRING" and "i \<le> length (felems F)"
  shows "string_offset (obj F) i = Inr (sum_list (take i (map le_val (felems F))))"
  unfolding string_offset_def by (rule sum_lengths_loop[OF assms])

subsection \<open>Copying into a result\<close>

lemma copyElements_obj [buf_intros]:
  assumes "inv F"
  shows "appends (copyElements (obj F)) (concat (felems F))"
proof (cases "felems F = []")
  case True
  then show ?thesis using assms by (intro appendsI) (simp add: copyElements_def obj_size)
next
  case False
  have "appends (copyToBuffer (amem (obj F)) (elements (obj F)) (elem_size (fty F) * length (felems F)))
      (concat (felems F))"
    using load_elements[of F 0 "length (felems F)"] assms by (intro appends_copyToBuffer) simp
  moreover have "copyElements (obj F) =
      copyToBuffer (amem (obj F)) (elements (obj F)) (elem_size (fty F) * length (felems F))"
    using False assms by (simp add: fun_eq_iff copyElements_def obj_size obj_type)
  ultimately show ?thesis by simp
qed

lemma copyElement_obj [buf_intros]:
  assumes "inv F" and "i < length (felems F)"
  shows "appends (copyElement (obj F) i) (felems F ! i)"
proof -
  have "appends (copyToBuffer (amem (obj F)) (elements (obj F) + elem_size (fty F) * i) (elem_size (fty F)))
      (felems F ! i)"
    using load_elements[of F i 1] assms
    by (intro appends_copyToBuffer) (simp add: take_Suc hd_drop_conv_nth)
  moreover have "copyElement (obj F) i =
      copyToBuffer (amem (obj F)) (elements (obj F) + elem_size (fty F) * i) (elem_size (fty F))"
    using assms by (simp add: fun_eq_iff copyElement_def obj_size obj_type)
  ultimately show ?thesis by simp
qed

lemma copyStrings_obj [buf_intros]:
  assumes "inv F"
  shows "appends (copyStrings (obj F)) (fstr F)"
proof (cases "fty F = STRING")
  case True
  have "appends (copyToBuffer (amem (obj F)) (strings (obj F)) (length (fstr F))) (fstr F)"
    using load_strings[of F 0 "length (fstr F)"] assms by (intro appends_copyToBuffer) simp
  moreover have "copyStrings (obj F) = copyToBuffer (amem (obj F)) (strings (obj F)) (length (fstr F))"
    using True assms by (simp add: fun_eq_iff copyStrings_def obj_type getStringLength_obj)
  ultimately show ?thesis by simp
next
  case False
  then have "fstr F = []" by (rule wf_strings(2)[OF inv_wf[OF assms]])
  then show ?thesis using False assms by (intro appendsI) (simp add: copyStrings_def obj_type)
qed

lemma copyString_obj [buf_intros]:
  assumes "inv F" and "fty F = STRING" and "i < length (felems F)"
  shows "appends (copyString (obj F) i) (str_at F i)"
proof -
  have "copyString (obj F) i = copyToBuffer (amem (obj F))
      (strings (obj F) + sum_list (take i (map le_val (felems F)))) (le_val (felems F ! i))"
    using assms by (simp add: fun_eq_iff copyString_def obj_size string_offset_obj length_at_obj)
  then show ?thesis using load_string_obj[OF assms] by (simp add: appends_copyToBuffer)
qed

lemma copyNulls_0: "copyNulls m p sz 0 = copyToBuffer m p (getNullBytes sz)"
  by (simp add: fun_eq_iff copyNulls_def)

lemma copyNulls_obj [buf_intros]:
  assumes "inv F"
  shows "appends (copyNulls (amem (obj F)) (nulls (obj F)) (length (fnulls F)) 0) (pack (fnulls F))"
  using assms load_nulls[of F 0 "getNullBytes (length (fnulls F))"]
  by (simp add: copyNulls_0 appends_copyToBuffer)

lemma copy_indices [buf_intros]:
  assumes "inv F"
  shows "appends (copyToBuffer (amem (obj F)) (indices (obj F)) (4 * length (fdwm F))) (u32s (fidx F))"
  using assms load_indices[of F 0 "length (fdwm F)"] wf_dims(2)[OF inv_wf[OF assms(1)]]
  by (intro appends_copyToBuffer) simp_all

lemma copy_dwm [buf_intros]:
  assumes "inv F"
  shows "appends (copyToBuffer (amem (obj F)) (dimensionWidthMap (obj F)) (4 * length (fdwm F)))
    (u32s (fdwm F))"
  using assms load_dwm[of F 0 "length (fdwm F)"] by (intro appends_copyToBuffer) simp_all

lemma copy_widths_part [buf_intros]:
  assumes "inv F" and "i + k \<le> length (fwidths F)"
  shows "appends (copyToBuffer (amem (obj F)) (widths (obj F) + 4 * i) (4 * k))
    (u32s (take k (drop i (fwidths F))))"
  using assms load_widths[of F i k] by (intro appends_copyToBuffer) simp_all

lemma copy_widths [buf_intros]:
  assumes "inv F" and "k \<le> length (fwidths F)"
  shows "appends (copyToBuffer (amem (obj F)) (widths (obj F)) (4 * k)) (u32s (take k (fwidths F)))"
  using copy_widths_part[of F 0 k] assms by simp

end

section \<open>Encoded arrays have this layout\<close>

lemma encode_sections:
  defines "h \<equiv> \<lambda>F. ARRAYHEADER @ [of_nat (type_id (fty F))] @
     le_bytes 4 (length (fdwm F)) @ le_bytes 4 (length (felems F))"
  shows encode_header: "encode F = h F @ u32s (fidx F) @ u32s (fdwm F) @ u32s (fwidths F) @
      concat (felems F) @ pack (fnulls F) @ fstr F"
    and length_header: "length (h F) = 14"
  by (simp_all add: h_def encode_def)

lemma load_block:
  assumes "m = pre @ u32s xs @ post" and "i + n \<le> length xs" and "p = length pre"
  shows "load m (p + 4 * i) (4 * n) = Inr (u32s (take n (drop i xs)))"
  using load_chunks[of m pre "map (le_bytes 4) xs" post 4 i n "p + 4 * i" "4 * n"] assms
  by (simp add: u32s_def drop_map take_map)

lemma load_part:
  assumes "m = pre @ xs @ post" and "i + n \<le> length xs" and "p = length pre"
  shows "load m (p + i) n = Inr (take n (drop i xs))"
proof -
  have "xs = take i xs @ take n (drop i xs) @ drop (i + n) xs"
    by (metis append_take_drop_id drop_drop add.commute)
  then have "m = (pre @ take i xs) @ take n (drop i xs) @ (drop (i + n) xs @ post)"
    using assms(1) by (metis append.assoc)
  then show ?thesis by (rule load_mid') (use assms in simp_all)
qed

interpretation enc: array_layout obj_of wf_flat
proof unfold_locales
  fix F i n
  assume wf: "wf_flat F"
  obtain h where h: "length h = 14" and enc: "encode F = h @ u32s (fidx F) @ u32s (fdwm F) @
      u32s (fwidths F) @ concat (felems F) @ pack (fnulls F) @ fstr F"
    using encode_header[of F] length_header[of F] by blast
  note len = wf_dims(2)[OF wf] length_concat_chunked[OF wf_chunked[OF wf]]
  show "load (amem (obj_of F)) (indices (obj_of F) + 4 * i) (4 * n) = Inr (u32s (take n (drop i (fidx F))))"
    if "i + n \<le> length (fidx F)"
    using h enc that by (intro load_block[of _ h]) (simp_all add: obj_of_def Let_def)
  show "load (amem (obj_of F)) (dimensionWidthMap (obj_of F) + 4 * i) (4 * n) =
      Inr (u32s (take n (drop i (fdwm F))))"
    if "i + n \<le> length (fdwm F)"
    using h enc len that by (intro load_block[of _ "h @ u32s (fidx F)"]) (simp_all add: obj_of_def Let_def)
  show "load (amem (obj_of F)) (widths (obj_of F) + 4 * i) (4 * n) =
      Inr (u32s (take n (drop i (fwidths F))))"
    if "i + n \<le> length (fwidths F)"
    using h enc len that
    by (intro load_block[of _ "h @ u32s (fidx F) @ u32s (fdwm F)"]) (simp_all add: obj_of_def Let_def)
  show "load (amem (obj_of F)) (elements (obj_of F) + elem_size (fty F) * i) (elem_size (fty F) * n) =
      Inr (concat (take n (drop i (felems F))))"
    if "i + n \<le> length (felems F)"
    using h enc len that
    by (intro load_chunks[where pre = "h @ u32s (fidx F) @ u32s (fdwm F) @ u32s (fwidths F)",
          OF _ wf_chunked[OF wf] _ _ refl]) (simp_all add: obj_of_def Let_def)
  show "load (amem (obj_of F)) (nulls (obj_of F) + i) n = Inr (take n (drop i (pack (fnulls F))))"
    if "i + n \<le> getNullBytes (length (fnulls F))"
    using h enc len that
    by (intro load_part[of _ "h @ u32s (fidx F) @ u32s (fdwm F) @ u32s (fwidths F) @ concat (felems F)"])
      (simp_all add: obj_of_def Let_def)
  show "load (amem (obj_of F)) (strings (obj_of F) + i) n = Inr (take n (drop i (fstr F)))"
    if "i + n \<le> length (fstr F)"
    using h enc len that
    by (intro load_part[of _ "h @ u32s (fidx F) @ u32s (fdwm F) @ u32s (fwidths F) @ concat (felems F) @
          pack (fnulls F)" _ "[]"]) (simp_all add: obj_of_def Let_def)
qed (simp_all add: obj_of_def Let_def)

section \<open>Constructing an object from an encoded array\<close>

lemma dwm_at_strings [simp]: "dwm_at (a\<lparr>strings := s\<rparr>) = dwm_at a"
  by (simp add: dwm_at_def fun_eq_iff)

lemma getFirstWidth_strings [simp]: "getFirstWidth (a\<lparr>strings := s\<rparr>) = getFirstWidth a"
  by (simp add: getFirstWidth_def fun_eq_iff)

lemma getSize_strings [simp]: "getSize (a\<lparr>strings := s\<rparr>) = getSize a"
  by (simp add: getSize_def fun_eq_iff)

lemma ld_header:
  assumes "wf_flat F"
  shows "ld32 (encode F) 6 = Inr (length (fdwm F))"
    and "ld32 (encode F) 10 = Inr (length (felems F))"
    and "load (encode F) 0 5 = Inr ARRAYHEADER"
    and "ld8 (encode F) 5 = Inr (of_nat (type_id (fty F)))"
proof -
  let ?r = "u32s (fidx F) @ u32s (fdwm F) @ u32s (fwidths F) @ concat (felems F) @ pack (fnulls F) @ fstr F"
  have "load (encode F) 6 4 = Inr (le_bytes 4 (length (fdwm F)))"
    by (rule load_mid'[where pre = "ARRAYHEADER @ [of_nat (type_id (fty F))]"]) (simp_all add: encode_def)
  then show "ld32 (encode F) 6 = Inr (length (fdwm F))"
    using wf_bounds(4)[OF assms] by (simp add: ldn_def)
  have "load (encode F) 10 4 = Inr (le_bytes 4 (length (felems F)))"
    by (rule load_mid'[where pre = "ARRAYHEADER @ [of_nat (type_id (fty F))] @ le_bytes 4 (length (fdwm F))"
          and post = ?r]) (simp_all add: encode_def)
  then show "ld32 (encode F) 10 = Inr (length (felems F))"
    using wf_bounds(3)[OF assms] by (simp add: ldn_def)
  show "load (encode F) 0 5 = Inr ARRAYHEADER"
    by (rule load_mid'[where pre = "[]"]) (simp_all add: encode_def)
  show "ld8 (encode F) 5 = Inr (of_nat (type_id (fty F)))"
    by (simp add: ld8_def encode_def nth_append)
qed

lemma initArray_encode:
  assumes wf: "wf_flat F"
  shows "initArray (encode F) (type_id (fty F)) 6 = Inr (obj_of F)"
proof -
  let ?d = "length (fdwm F)"
  let ?wid = "14 + 8 * ?d"
  have amem: "amem (obj_of F) = encode F" "dimensionWidthMap (obj_of F) = 14 + 4 * ?d"
    by (simp_all add: obj_of_def Let_def)
  have loop: "mfold (\<lambda>i data. ebind (ld32 (encode F) (14 + 4 * ?d + 4 * i)) (\<lambda>k. Inr (data + 4 * k)))
      [0..<?d] ?wid = Inr (?wid + 4 * length (fwidths F))"
  proof (rule mfold_upt0[where S = "\<lambda>i. ?wid + 4 * lvl_start F i"])
    fix i assume "i < ?d"
    then show "ebind (ld32 (encode F) (14 + 4 * ?d + 4 * i)) (\<lambda>k. Inr (?wid + 4 * lvl_start F i + 4 * k)) =
        Inr (?wid + 4 * lvl_start F (Suc i))"
      using enc.dwm_at_obj[OF wf, of i] by (simp add: dwm_at_def amem lvl_start_Suc)
  qed (simp_all add: lvl_start_def wf_sum_dwm[OF wf])
  have wid: "6 + 8 + 4 * ?d + 4 * ?d = ?wid" by simp
  have obj: "obj_of F = (obj_of F)\<lparr>strings := 0\<rparr>\<lparr>strings := nulls (obj_of F) +
      getNullBytes (length (fnulls F))\<rparr>"
    by (simp add: obj_of_def Let_def)
  have "getSize ((obj_of F)\<lparr>strings := 0\<rparr>) True = Inr (length (fnulls F))"
    by (simp add: enc.getSize_obj[OF wf])
  moreover have "(obj_of F)\<lparr>strings := 0\<rparr> =
    \<lparr>amem = encode F, atype = type_id (fty F), dimensions = ?d, asize = length (felems F),
     indices = 14, dimensionWidthMap = 14 + 4 * ?d, widths = ?wid,
     elements = ?wid + 4 * length (fwidths F),
     nulls = ?wid + 4 * length (fwidths F) + length (felems F) * elem_size (fty F), strings = 0\<rparr>"
    by (simp add: obj_of_def Let_def)
  ultimately show ?thesis
    using loop ld_header(1,2)[OF wf] unfolding initArray_def
    by (simp add: Let_def obj_of_def add.commute[of 14 "8 * length (fdwm F)"])
qed

lemma mkArray_encode [acc_simps]:
  assumes "wf_flat F"
  shows "mkArray (encode F) (int (type_id (fty F))) = Inr (obj_of F)"
proof -
  have "encode F \<noteq> []" by (simp add: encode_def)
  then show ?thesis using assms by (simp add: mkArray_def ld_header initArray_encode)
qed

lemma mkArrayUntyped_encode [acc_simps]:
  assumes "wf_flat F"
  shows "mkArrayUntyped (encode F) = Inr (obj_of F)"
proof -
  have "encode F \<noteq> []" by (simp add: encode_def)
  moreover have "type_id (fty F) mod 256 = type_id (fty F)" using type_id_less[of "fty F"] by simp
  ultimately show ?thesis
    using assms by (simp add: mkArrayUntyped_def ld_header initArray_encode unat_of_nat_byte)
qed

section \<open>Writing the NULL bits of a vector\<close>

text \<open>
  The loop of \<^verbatim>\<open>copyNulls(buffer, std::vector<bool>&)\<close> in the middle: the bits of the first
  \<open>i\<close> flags are in place and the write pointer stands on the last byte it touched.
\<close>

lemma orBit_pack:
  assumes "length bs div 8 = q"
  shows "orBit (8 - length bs mod 8 - 1) (pre @ pack (bs @ [False]) @ post, length pre + q) =
    Inr (pre @ pack (bs @ [True]) @ post, length pre + q)"
proof -
  have q: "q < length (pack (bs @ [False]))"
    using div8_less_getNullBytes[of "length bs" "Suc (length bs)"] assms by simp
  then have "(pre @ pack (bs @ [False]) @ post) ! (length pre + q) = pack (bs @ [False]) ! q"
    by (simp add: nth_append)
  moreover have "(pre @ pack (bs @ [False]) @ post)[length pre + q := x] =
      pre @ (pack (bs @ [False]))[q := x] @ post" for x
    using q by (simp add: list_update_append)
  ultimately show ?thesis
    using q assms pack_append_True[of bs] by (simp add: orBit_def)
qed

definition nulls_loop_at :: "bytes \<Rightarrow> nat \<Rightarrow> bool list \<Rightarrow> nat \<Rightarrow> wbuf" where
  "nulls_loop_at xs n ns i =
     (xs @ pack (take i ns) @ replicate (n - getNullBytes i) 0, length xs + (i - 1) div 8)"

lemma nulls_loop_step:
  assumes "i < length ns" and "getNullBytes (length ns) \<le> n"
  shows "ebind (if i \<noteq> 0 \<and> i mod 8 = 0 then advance 1 (nulls_loop_at xs n ns i)
      else Inr (nulls_loop_at xs n ns i))
      (\<lambda>w. if ns ! i then orBit (8 - i mod 8 - 1) w else Inr w) = Inr (nulls_loop_at xs n ns (Suc i))"
proof -
  let ?bs = "take i ns"
  have len: "length ?bs = i" "min (length ns) i = i" using assms(1) by simp_all
  have fits: "getNullBytes (Suc i) \<le> n"
    using getNullBytes_mono[of "Suc i" "length ns"] assms by simp
  have pos: "(if i \<noteq> 0 \<and> i mod 8 = 0 then advance 1 (nulls_loop_at xs n ns i)
      else Inr (nulls_loop_at xs n ns i)) =
    Inr (xs @ pack ?bs @ replicate (n - getNullBytes i) 0, length xs + i div 8)"
  proof (cases "i \<noteq> 0 \<and> i mod 8 = 0")
    case True
    then have "Suc ((i - 1) div 8) = i div 8" by (cases i) (simp_all add: div_Suc)
    with True show ?thesis by (simp add: nulls_loop_at_def advance_def)
  next
    case False
    then have "(i - 1) div 8 = i div 8" by (cases i) (simp_all add: div_Suc)
    with False show ?thesis by (auto simp: nulls_loop_at_def)
  qed
  have room: "pack ?bs @ replicate (n - getNullBytes i) 0 =
      pack (?bs @ [False]) @ replicate (n - getNullBytes (Suc i)) 0"
  proof (cases "i mod 8 = 0")
    case True
    then have "n - getNullBytes i = Suc (n - getNullBytes (Suc i))"
      using fits by (simp add: getNullBytes_Suc)
    with True show ?thesis by (simp add: pack_append_False len)
  qed (simp add: pack_append_False len getNullBytes_Suc)
  have next_bits: "take (Suc i) ns = ?bs @ [ns ! i]" using assms(1) by (rule take_Suc_conv_app_nth)
  show ?thesis
  proof (cases "ns ! i")
    case True
    with orBit_pack[of ?bs "i div 8" xs "replicate (n - getNullBytes (Suc i)) 0"] len next_bits
    show ?thesis by (simp only: pos room ebind_simps if_True) (simp add: nulls_loop_at_def)
  next
    case False
    with next_bits show ?thesis by (simp only: pos room ebind_simps if_False) (simp add: nulls_loop_at_def)
  qed
qed

lemma copyNullsVec_appends [buf_intros]:
  assumes "ns \<noteq> []"
  shows "appends (copyNullsVec ns) (pack ns)"
proof (rule appendsI)
  fix xs :: bytes and n assume n: "length (pack ns) \<le> n"
  have "mfold (\<lambda>i w. ebind (if i \<noteq> 0 \<and> i mod 8 = 0 then advance 1 w else Inr w)
      (\<lambda>w. if ns ! i then orBit (8 - i mod 8 - 1) w else Inr w)) [0..<length ns]
      (filled xs n) = Inr (nulls_loop_at xs n ns (length ns))"
    by (rule mfold_upt0[where S = "nulls_loop_at xs n ns"])
      (use n nulls_loop_step in \<open>simp_all add: nulls_loop_at_def filled_def\<close>)
  moreover have "Suc ((length ns - 1) div 8) = getNullBytes (length ns)"
    using assms by (cases ns) (simp_all add: getNullBytes_def)
  ultimately show "copyNullsVec ns (filled xs n) = Inr (filled (xs @ pack ns) (n - length (pack ns)))"
    by (simp add: copyNullsVec_def nulls_loop_at_def advance_def filled_def)
qed

text \<open>Without any flag the pointer still moves on by one byte.\<close>

lemma copyNullsVec_Nil: "copyNullsVec [] w = Inr (fst w, snd w + 1)"
  by (simp add: copyNullsVec_def advance_def)

end
