(* ===== verification/Array_Append.thy ===== *)
theory Array_Append
  imports Array_Layout
begin

text \<open>
  Building arrays: \<^verbatim>\<open>createEmptyArray\<close> and \<^verbatim>\<open>increment\<close> (\<^verbatim>\<open>Array.cpp\<close>), and the append
  operations of \<^verbatim>\<open>ArrayAppend.cpp\<close> and \<^verbatim>\<open>Array.tpp\<close>. Each operation computes the size of
  its result, zero-fills a string of that size and writes the sections in order.
\<close>

section \<open>Writing integers, finishing a result\<close>

definition put8 :: "nat \<Rightarrow> wbuf \<Rightarrow> wbuf res" where
  "put8 v = writeToBuffer [of_nat v]"

definition put32 :: "nat \<Rightarrow> wbuf \<Rightarrow> wbuf res" where
  "put32 v = writeToBuffer (le_bytes 4 v)"

definition finish :: "wbuf \<Rightarrow> bytes res" where
  "finish w = Inr (toVarLen32 (fst w))"

definition build :: "nat \<Rightarrow> (wbuf \<Rightarrow> wbuf res) list \<Rightarrow> bytes res" where
  "build n ws = ebind (steps ws (newBuffer n)) finish"

lemma appends_put8 [buf_intros]: "appends (put8 v) [of_nat v]"
  unfolding put8_def by (rule appends_writeToBuffer)

lemma appends_put32 [buf_intros]: "appends (put32 v) (le_bytes 4 v)"
  unfolding put32_def by (rule appends_writeToBuffer)

text \<open>
  A result string is the concatenation of its sections when its size was computed right
  and fits the 32-bit length of a \<^verbatim>\<open>VarLen32\<close>.
\<close>

lemma build_appends:
  assumes "list_all2 appends ws yss" and "concat yss = out" and "n = length out"
    and "length out < 4294967296"
  shows "build n ws = Inr out"
  using appendsD[OF appends_steps[OF assms(1)], of n "[]"] assms(2-4)
  by (simp add: build_def newBuffer_filled finish_def)

text \<open>What no step writes stays zero.\<close>

lemma build_appends_zeros:
  assumes "list_all2 appends ws yss" and "n = length (concat yss) + z" and "n < 4294967296"
  shows "build n ws = Inr (concat yss @ replicate z 0)"
  using appendsD[OF appends_steps[OF assms(1)], of n "[]"] assms(2,3)
  by (simp add: build_def newBuffer_filled finish_def filled_def)

text \<open>A step that fails ends the construction with its error.\<close>

lemma build_fails:
  assumes "list_all2 appends ws yss" and "length (concat yss) \<le> n"
    and "f (filled (concat yss) (n - length (concat yss))) = Inl e"
  shows "build n (ws @ f # ws') = Inl e"
  using appendsD[OF appends_steps[OF assms(1)], of n "[]"] assms(2,3)
  by (simp add: build_def newBuffer_filled steps_append)

section \<open>Empty arrays and a further outer dimension\<close>

definition createEmptyArray :: "int \<Rightarrow> bytes res" where
  "createEmptyArray t =
     ebind (getTypeId t) (\<lambda>typeId.
     ebind (getStringSize 1 0 1 0 0 typeId) (\<lambda>n.
     build n [
       writeToBuffer ARRAYHEADER,
       put8 typeId,
       put32 1,
       put32 0,
       put32 1,
       put32 1,
       put32 0]))"

definition increment :: "array_obj \<Rightarrow> bytes res" where
  "increment a =
     ebind (getTypeId (int (atype a))) (\<lambda>typeId.
     let dimension = u32 (dimensions a + 1) in
     ebind (getSize a True) (\<lambda>totalElements.
     ebind (getStringLength a) (\<lambda>stringLengths.
     ebind (getWidthSize a) (\<lambda>widthSize.
     ebind (getStringSize dimension (asize a) (u32 (widthSize + 1)) (getNullBytes totalElements)
              stringLengths (atype a)) (\<lambda>n.
     build n [
       writeToBuffer ARRAYHEADER,
       put8 typeId,
       put32 dimension,
       put32 (asize a),
       put32 1,
       copyToBuffer (amem a) (indices a) (4 * dimensions a),
       put32 1,
       copyToBuffer (amem a) (dimensionWidthMap a) (4 * dimensions a),
       put32 1,
       copyToBuffer (amem a) (widths a) (4 * widthSize),
       copyElements a,
       copyNulls (amem a) (nulls a) totalElements 0,
       copyStrings a])))))"

section \<open>Appending one element\<close>

text \<open>
  \<^verbatim>\<open>appendElement<TYPE>\<close> for the numeric types: \<open>value\<close> is the bytes of the value. The NULL
  bits are copied as \<open>nullBytes\<close> raw bytes.
\<close>

definition appendElement :: "array_obj \<Rightarrow> bytes \<Rightarrow> bytes res" where
  "appendElement a value =
     (let numberElements = u32 (asize a + 1) in
     ebind (getSize a True) (\<lambda>totalElements.
     let nullBytes = getNullBytes (u32 (totalElements + 1)) in
     ebind (getWidthSize a) (\<lambda>widthSize.
     ebind (width_at a (u32_sub widthSize 1)) (\<lambda>w.
     let lastWidth = u32 (w + 1) in
     ebind (getStringSize (dimensions a) numberElements widthSize nullBytes 0 (atype a)) (\<lambda>n.
     build n [
       writeToBuffer ARRAYHEADER,
       put8 (atype a),
       put32 (dimensions a),
       put32 numberElements,
       copyToBuffer (amem a) (indices a) (4 * dimensions a),
       copyToBuffer (amem a) (dimensionWidthMap a) (4 * dimensions a),
       copyToBuffer (amem a) (widths a) (4 * u32_sub widthSize 1),
       put32 lastWidth,
       copyElements a,
       writeToBuffer value,
       copyToBuffer (amem a) (nulls a) nullBytes])))))"

definition appendElementFront :: "array_obj \<Rightarrow> bytes \<Rightarrow> bytes res" where
  "appendElementFront a value =
     (let numberElements = u32 (asize a + 1) in
     ebind (getSize a True) (\<lambda>totalElements.
     let nullBytes = getNullBytes (u32 (totalElements + 1)) in
     ebind (getWidthSize a) (\<lambda>widthSize.
     ebind (getWidthSizeDim a (dimensions a)) (\<lambda>lastWidthSize.
     ebind (width_at a (u32_sub widthSize lastWidthSize)) (\<lambda>w.
     let changedWidth = u32 (w + 1) in
     ebind (getStringSize (dimensions a) numberElements widthSize nullBytes 0 (atype a)) (\<lambda>n.
     build n [
       writeToBuffer ARRAYHEADER,
       put8 (atype a),
       put32 (dimensions a),
       put32 numberElements,
       copyToBuffer (amem a) (indices a) (4 * dimensions a),
       copyToBuffer (amem a) (dimensionWidthMap a) (4 * dimensions a),
       copyToBuffer (amem a) (widths a) (4 * u32_sub widthSize lastWidthSize),
       put32 changedWidth,
       copyToBuffer (amem a) (widths a + 4 * (widthSize - lastWidthSize + 1)) (4 * u32_sub lastWidthSize 1),
       writeToBuffer value,
       copyElements a,
       copyToBuffer (amem a) (nulls a) nullBytes]))))))"

text \<open>The specialisations for \<^verbatim>\<open>std::string\<close>.\<close>

definition appendElementString :: "array_obj \<Rightarrow> bytes \<Rightarrow> bytes res" where
  "appendElementString a value =
     (let numberElements = u32 (asize a + 1) in
     ebind (getSize a True) (\<lambda>total.
     let totalElements = u32 (total + 1) in
     ebind (getWidthSize a) (\<lambda>widthSize.
     ebind (width_at a (u32_sub widthSize 1)) (\<lambda>w.
     let lastWidth = u32 (w + 1); len = u32 (length value) in
     ebind (getStringLength a) (\<lambda>strs.
     let stringLengths = u32 (strs + len) in
     ebind (getStringSize (dimensions a) numberElements widthSize (getNullBytes totalElements)
              stringLengths (atype a)) (\<lambda>n.
     build n [
       writeToBuffer ARRAYHEADER,
       put8 (atype a),
       put32 (dimensions a),
       put32 numberElements,
       copyToBuffer (amem a) (indices a) (4 * dimensions a),
       copyToBuffer (amem a) (dimensionWidthMap a) (4 * dimensions a),
       copyToBuffer (amem a) (widths a) (4 * u32_sub widthSize 1),
       put32 lastWidth,
       copyElements a,
       put32 len,
       copyNulls (amem a) (nulls a) totalElements 0,
       copyStrings a,
       writeToBuffer (take len value)]))))))"

definition appendElementFrontString :: "array_obj \<Rightarrow> bytes \<Rightarrow> bytes res" where
  "appendElementFrontString a value =
     (let numberElements = u32 (asize a + 1) in
     ebind (getSize a True) (\<lambda>total.
     let totalElements = u32 (total + 1) in
     ebind (getWidthSize a) (\<lambda>widthSize.
     ebind (getWidthSizeDim a (dimensions a)) (\<lambda>lastWidthSize.
     ebind (width_at a (u32_sub widthSize lastWidthSize)) (\<lambda>w.
     let changedWidth = u32 (w + 1); len = u32 (length value) in
     ebind (getStringLength a) (\<lambda>strs.
     let stringLengths = u32 (strs + len) in
     ebind (getStringSize (dimensions a) numberElements widthSize (getNullBytes totalElements)
              stringLengths (atype a)) (\<lambda>n.
     build n [
       writeToBuffer ARRAYHEADER,
       put8 (atype a),
       put32 (dimensions a),
       put32 numberElements,
       copyToBuffer (amem a) (indices a) (4 * dimensions a),
       copyToBuffer (amem a) (dimensionWidthMap a) (4 * dimensions a),
       copyToBuffer (amem a) (widths a) (4 * u32_sub widthSize lastWidthSize),
       put32 changedWidth,
       copyToBuffer (amem a) (widths a + 4 * (widthSize - lastWidthSize + 1)) (4 * u32_sub lastWidthSize 1),
       put32 len,
       copyElements a,
       copyNulls (amem a) (nulls a) totalElements 0,
       writeToBuffer (take len value),
       copyStrings a])))))))"

section \<open>Appending NULL\<close>

text \<open>The NULL bits of the result: the old ones, then the bit of the new position \<open>k\<close>.\<close>

definition appendNullBit :: "array_obj \<Rightarrow> nat \<Rightarrow> nat \<Rightarrow> wbuf \<Rightarrow> wbuf res" where
  "appendNullBit a k nullBytes =
     steps [
       (\<lambda>w. if k \<noteq> 0 then copyToBuffer (amem a) (nulls a) nullBytes w else Inr w),
       (\<lambda>w. if k mod 8 \<noteq> 0 then retreat w else Inr w),
       orBit (8 - k mod 8 - 1),
       advance 1]"

definition appendNull :: "array_obj \<Rightarrow> bytes res" where
  "appendNull a =
     ebind (getSize a True) (\<lambda>total.
     let totalElements = u32 (total + 1); nullBytes = getNullBytes totalElements in
     ebind (getWidthSize a) (\<lambda>widthSize.
     ebind (getStringLength a) (\<lambda>stringLengths.
     ebind (width_at a (u32_sub widthSize 1)) (\<lambda>w.
     let lastWidth = u32 (w + 1) in
     ebind (getStringSize (dimensions a) (asize a) widthSize nullBytes stringLengths (atype a)) (\<lambda>n.
     build n [
       writeToBuffer ARRAYHEADER,
       put8 (atype a),
       put32 (dimensions a),
       put32 (asize a),
       copyToBuffer (amem a) (indices a) (4 * dimensions a),
       copyToBuffer (amem a) (dimensionWidthMap a) (4 * dimensions a),
       copyToBuffer (amem a) (widths a) (4 * u32_sub widthSize 1),
       put32 lastWidth,
       copyElements a,
       appendNullBit a (u32_sub totalElements 1) nullBytes,
       copyStrings a])))))"

section \<open>Appending an array\<close>

text \<open>
  The two loops over the dimensions, \<open>i\<close> running from \<open>leftDimension\<close> down to 1 with the
  loop variables \<open>leftIdx\<close> and \<open>rightIdx\<close>.
\<close>

definition append_width_sizes :: "array_obj \<Rightarrow> array_obj \<Rightarrow> wbuf \<Rightarrow> wbuf res" where
  "append_width_sizes a b w =
     (let leftDimension = dimensions a; rightDimension = dimensions b in
     ebind (mfold (\<lambda>i (w, leftIdx, rightIdx).
         ebind (getWidthSizeDim a leftIdx) (\<lambda>sz.
         if rightDimension = i \<and> rightDimension = leftDimension
         then ebind (put32 sz w) (\<lambda>w. Inr (w, leftIdx + 1, rightIdx + 1))
         else if rightDimension < i
         then ebind (put32 sz w) (\<lambda>w. Inr (w, leftIdx + 1, rightIdx))
         else ebind (getWidthSizeDim b rightIdx) (\<lambda>r.
              ebind (put32 (u32 (sz + r)) w) (\<lambda>w. Inr (w, leftIdx + 1, rightIdx + 1)))))
       (rev [1..<leftDimension + 1]) (w, 1, 1))
     (\<lambda>(w, _, _). Inr w))"

definition append_widths :: "array_obj \<Rightarrow> array_obj \<Rightarrow> wbuf \<Rightarrow> wbuf res" where
  "append_widths a b w =
     (let leftDimension = dimensions a; rightDimension = dimensions b in
     ebind (mfold (\<lambda>i (w, leftIdx, rightIdx).
         ebind (getFirstWidth a leftIdx) (\<lambda>leftWidths.
         ebind (getFirstWidth b rightIdx) (\<lambda>rightWidths.
         ebind (getWidthSizeDim a leftIdx) (\<lambda>leftWidthSize.
         ebind (getWidthSizeDim b rightIdx) (\<lambda>rightWidthSize.
         if rightDimension = i \<and> rightDimension = leftDimension
         then ebind (ld32 (amem a) leftWidths) (\<lambda>l. ebind (ld32 (amem b) rightWidths) (\<lambda>r.
              ebind (put32 (u32 (l + r)) w) (\<lambda>w. Inr (w, leftIdx + 1, rightIdx + 1))))
         else if rightDimension + 1 = i
         then ebind (copyToBuffer (amem a) leftWidths (4 * u32_sub leftWidthSize 1) w) (\<lambda>w.
              ebind (ld32 (amem a) (leftWidths + 4 * u32_sub leftWidthSize 1)) (\<lambda>l.
              ebind (put32 (u32 (l + 1)) w) (\<lambda>w. Inr (w, leftIdx + 1, rightIdx))))
         else if rightDimension + 1 < i
         then ebind (copyToBuffer (amem a) leftWidths (4 * leftWidthSize) w)
                (\<lambda>w. Inr (w, leftIdx + 1, rightIdx))
         else ebind (copyToBuffer (amem a) leftWidths (4 * leftWidthSize) w) (\<lambda>w.
              ebind (copyToBuffer (amem b) rightWidths (4 * rightWidthSize) w)
                (\<lambda>w. Inr (w, leftIdx + 1, rightIdx + 1))))))))
       (rev [1..<leftDimension + 1]) (w, 1, 1))
     (\<lambda>(w, _, _). Inr w))"

definition appendArray :: "array_obj \<Rightarrow> array_obj \<Rightarrow> bytes res" where
  "appendArray a b =
     (if atype a \<noteq> atype b then Inl (RuntimeError ''Array-Append: Arrays have different types'')
      else if dimensions a < dimensions b
      then Inl (RuntimeError ''Array-Append: Right array has more dimensions than left array'')
      else
        ebind (getSize a False) (\<lambda>leftElements.
        ebind (getSize a True) (\<lambda>leftTotalElements.
        ebind (getSize b False) (\<lambda>rightElements.
        ebind (getSize b True) (\<lambda>rightTotalElements.
        ebind (getStringLength a) (\<lambda>leftStringLength.
        ebind (getStringLength b) (\<lambda>rightStringLength.
        ebind (getWidthSize a) (\<lambda>lw.
        ebind (getWidthSize b) (\<lambda>rw.
        let widthSize = (if dimensions a = dimensions b then u32_sub (u32 (lw + rw)) 1 else u32 (lw + rw)) in
        ebind (getStringSize (dimensions a) (u32 (leftElements + rightElements)) widthSize
                 (getNullBytes (u32 (leftTotalElements + rightTotalElements)))
                 (u32 (leftStringLength + rightStringLength)) (atype a)) (\<lambda>n.
        build n [
          writeToBuffer ARRAYHEADER,
          put8 (atype a),
          put32 (dimensions a),
          put32 (u32 (leftElements + rightElements)),
          copyToBuffer (amem a) (indices a) (4 * dimensions a),
          append_width_sizes a b,
          append_widths a b,
          copyElements a,
          copyElements b,
          copyNulls (amem a) (nulls a) leftTotalElements 0,
          (\<lambda>w. if leftTotalElements mod 8 \<noteq> 0 then retreat w else Inr w),
          copyNulls (amem b) (nulls b) rightTotalElements leftTotalElements,
          copyStrings a,
          copyStrings b]))))))))))"

section \<open>The typed entry points\<close>

text \<open>
  \<^verbatim>\<open>append<TYPE>\<close> and \<^verbatim>\<open>appendFront<TYPE>\<close>: one guard per type, then the element is appended.
  \<open>type_name\<close> is how the message calls the type.
\<close>

fun type_name :: "ArrayType \<Rightarrow> string" where
  "type_name INTEGER32 = ''integer (32-bit)''"
| "type_name INTEGER64 = ''integer (64-bit)''"
| "type_name BFLOAT = ''bfloat''"
| "type_name FLOAT = ''float''"
| "type_name DOUBLE = ''double''"
| "type_name STRING = ''string''"

definition appendValue :: "ArrayType \<Rightarrow> array_obj \<Rightarrow> bytes \<Rightarrow> bytes res" where
  "appendValue T a toAppend =
     (if atype a \<noteq> type_id T
      then Inl (RuntimeError (''Array-Append: Array elements are not of type '' @ type_name T))
      else if T = STRING then appendElementString a toAppend
      else appendElement a toAppend)"

definition appendFrontValue :: "ArrayType \<Rightarrow> array_obj \<Rightarrow> bytes \<Rightarrow> bytes res" where
  "appendFrontValue T a toAppend =
     (if atype a \<noteq> type_id T
      then Inl (RuntimeError (''Array-Append: Array elements are not of type '' @ type_name T))
      else if T = STRING then appendElementFrontString a toAppend
      else appendElementFront a toAppend)"

end
