(* ===== verification/Array_Content.thy ===== *)
theory Array_Content
  imports Array_Layout
begin

text \<open>
  What an array holds, apart from its bytes: the sequence of its values with their NULLs
  (\<open>items\<close>). The operations on arrays are specified against this sequence.
\<close>

section \<open>Values at positions\<close>

text \<open>Stored values are placed at the positions that are not NULL.\<close>

fun place :: "bool list \<Rightarrow> 'a list \<Rightarrow> 'a option list" where
  "place [] vs = []"
| "place (True # ns) vs = None # place ns vs"
| "place (False # ns) [] = []"
| "place (False # ns) (v # vs) = Some v # place ns vs"

fun split_lens :: "nat list \<Rightarrow> 'a list \<Rightarrow> 'a list list" where
  "split_lens [] xs = []"
| "split_lens (n # ns) xs = take n xs # split_lens ns (drop n xs)"

definition strs :: "flat \<Rightarrow> bytes list" where
  "strs F = split_lens (map le_val (felems F)) (fstr F)"

definition items :: "flat \<Rightarrow> bytes option list" where
  "items F = place (fnulls F) (if fty F = STRING then strs F else felems F)"

lemma place_append:
  "length (filter Not ns) = length vs \<Longrightarrow> place (ns @ ms) (vs @ ws) = place ns vs @ place ms ws"
  by (induction ns vs rule: place.induct) simp_all

lemma length_place: "length (filter Not ns) = length vs \<Longrightarrow> length (place ns vs) = length ns"
  by (induction ns vs rule: place.induct) simp_all

lemma place_all: "length vs = n \<Longrightarrow> place (replicate n False) vs = map Some vs"
  by (induction vs arbitrary: n) auto

lemma place_nth:
  "length (filter Not ns) = length vs \<Longrightarrow> i < length ns \<Longrightarrow>
    place ns vs ! i = (if ns ! i then None else Some (vs ! length (filter Not (take i ns))))"
  by (induction ns vs arbitrary: i rule: place.induct) (auto simp: nth_Cons split: nat.split)

lemma length_split_lens [simp]: "length (split_lens ns xs) = length ns"
  by (induction ns arbitrary: xs) simp_all

lemma split_lens_append:
  "sum_list ns = length xs \<Longrightarrow> split_lens (ns @ ms) (xs @ ys) = split_lens ns xs @ split_lens ms ys"
  by (induction ns arbitrary: xs) simp_all

lemma split_lens_nth:
  "i < length ns \<Longrightarrow> split_lens ns xs ! i = take (ns ! i) (drop (sum_list (take i ns)) xs)"
  by (induction ns arbitrary: i xs) (auto simp: nth_Cons add.commute split: nat.split)

lemma length_strs [simp]: "length (strs F) = length (felems F)"
  by (simp add: strs_def)

lemma strs_nth: "i < length (felems F) \<Longrightarrow> strs F ! i = str_at F i"
  by (simp add: strs_def str_at_def split_lens_nth take_map)

lemma length_items: "wf_flat F \<Longrightarrow> length (items F) = length (fnulls F)"
  unfolding items_def by (rule length_place) (simp add: wf_count)

text \<open>An item is \<open>None\<close> where the NULL bit is set, else the stored value of its element position.\<close>

definition elem_pos :: "flat \<Rightarrow> nat \<Rightarrow> nat" where
  "elem_pos F i = length (filter Not (take i (fnulls F)))"

lemma items_nth:
  "wf_flat F \<Longrightarrow> i < length (fnulls F) \<Longrightarrow> items F ! i =
    (if fnulls F ! i then None
     else Some (if fty F = STRING then strs F ! elem_pos F i else felems F ! elem_pos F i))"
  unfolding items_def elem_pos_def by (subst place_nth) (simp_all add: wf_count)

lemma elem_pos_less:
  assumes "wf_flat F" and "i < length (fnulls F)" and "\<not> fnulls F ! i"
  shows "elem_pos F i < length (felems F)"
proof -
  have "length (filter Not (take i (fnulls F) @ fnulls F ! i # drop (Suc i) (fnulls F))) =
      elem_pos F i + Suc (length (filter Not (drop (Suc i) (fnulls F))))"
    using assms(3) by (simp add: elem_pos_def)
  then have "length (filter Not (fnulls F)) = elem_pos F i + Suc (length (filter Not (drop (Suc i) (fnulls F))))"
    unfolding id_take_nth_drop[OF assms(2), symmetric] .
  then show ?thesis using wf_count[OF assms(1)] by simp
qed

section \<open>Arrays given by their dimensions\<close>

text \<open>\<open>ls\<close> lists the width entries of every dimension, outermost first.\<close>

lemma level_concat:
  assumes "fdwm F = map length ls" and "fwidths F = concat ls" and k: "k < length ls"
  shows "level F k = ls ! k"
proof -
  have "concat ls = concat (take k ls) @ ls ! k @ concat (drop (Suc k) ls)"
    by (metis concat.simps(2) concat_append id_take_nth_drop k)
  moreover have "lvl_start F k = length (concat (take k ls))"
    by (simp add: lvl_start_def assms(1) length_concat take_map)
  ultimately show ?thesis using assms by (simp add: level_def)
qed

definition chain :: "nat list list \<Rightarrow> nat \<Rightarrow> bool" where
  "chain ls n \<longleftrightarrow> ls \<noteq> [] \<and> length (ls ! 0) = 1 \<and>
     (\<forall>k < length ls - 1. sum_list (ls ! k) = length (ls ! Suc k)) \<and> sum_list (last ls) = n"

lemma wf_of_chain:
  assumes lv: "fdwm F = map length ls" "fwidths F = concat ls" and ch: "chain ls (length (fnulls F))"
    and idx: "length (fidx F) = length ls" "small (fidx F)"
    and el: "chunked (elem_size (fty F)) (felems F)" "length (filter Not (fnulls F)) = length (felems F)"
    and str: "if fty F = STRING then sum_list (map le_val (felems F)) = length (fstr F) else fstr F = []"
    and fit: "fits F"
  shows "wf_flat F"
proof -
  have ne: "0 < length ls" using ch by (simp add: chain_def)
  have len: "length (fwidths F) < 4294967296"
    using length_encode[OF el(1)] fitsD(1)[OF fit] by linarith
  have row: "length (ls ! k) < 4294967296" if "k < length ls" for k
  proof -
    have "length (ls ! k) \<le> sum_list (map length ls)"
      using that by (intro member_le_sum) simp
    then show ?thesis using len lv by (simp add: length_concat)
  qed
  have sums: "sum_list (ls ! k) < 4294967296" if "k < length ls" for k
  proof (cases "Suc k < length ls")
    case True
    then show ?thesis using ch row[of "Suc k"] by (simp add: chain_def)
  next
    case False
    then have "k = length ls - 1" using that by simp
    then have "ls ! k = last ls" using ne by (simp add: last_conv_nth)
    then show ?thesis using ch fitsD(2)[OF fit] by (simp add: chain_def)
  qed
  have "small (fdwm F)" using row by (auto simp: small_def lv in_set_conv_nth)
  moreover have "small (fwidths F)"
    unfolding small_def lv(2)
  proof
    fix x assume "x \<in> set (concat ls)"
    then obtain l where "l \<in> set ls" "x \<in> set l" by auto
    then obtain k where "k < length ls" "x \<in> set (ls ! k)" by (metis in_set_conv_nth)
    then show "x < 4294967296" using member_le_sum[of x "ls ! k"] sums[of k] by linarith
  qed
  moreover have "fdwm F ! 0 = 1" "sum_list (fdwm F) = length (fwidths F)"
    using ch ne by (simp_all add: chain_def lv length_concat)
  moreover have "\<forall>k < length (fdwm F) - 1. sum_list (level F k) = fdwm F ! Suc k"
    using ch by (simp add: chain_def lv level_concat[OF lv])
  moreover have "sum_list (level F (length (fdwm F) - 1)) = length (fnulls F)"
    using ch ne level_concat[OF lv, of "length ls - 1"] last_conv_nth[of ls] by (auto simp: chain_def lv)
  ultimately show ?thesis
    using ne idx el str fitsD[OF fit] by (simp add: wf_flat_def lv)
qed

definition levels :: "flat \<Rightarrow> nat list list" where
  "levels F = map (level F) [0..<length (fdwm F)]"

lemma nth_levels: "k < length (fdwm F) \<Longrightarrow> levels F ! k = level F k"
  by (simp add: levels_def)

lemma length_levels [simp]: "length (levels F) = length (fdwm F)"
  by (simp add: levels_def)

lemma wf_levels:
  assumes wf: "wf_flat F"
  shows "fdwm F = map length (levels F)" and "fwidths F = concat (levels F)"
    and "chain (levels F) (length (fnulls F))"
proof -
  show fd: "fdwm F = map length (levels F)"
    by (rule nth_equalityI) (simp_all add: nth_levels length_level[OF wf])
  have "take (lvl_start F k) (fwidths F) = concat (map (level F) [0..<k])" if "k \<le> length (fdwm F)" for k
    using that
  proof (induction k)
    case (Suc k)
    then show ?case
      using lvl_start_Suc[of k F] by (simp add: take_add level_def)
  qed simp
  from this[OF order_refl] show "fwidths F = concat (levels F)"
    using wf_sum_dwm[OF wf] by (simp add: levels_def lvl_start_def)
  show "chain (levels F) (length (fnulls F))"
    using wf wf_dims[OF wf] length_level[OF wf, of 0]
    by (auto simp: chain_def wf_flat_def nth_levels length_level[OF wf] last_conv_nth
        simp flip: length_greater_0_conv)
qed

section \<open>Sample arrays\<close>

text \<open>\<open>{{1, NULL}, {3}}\<close>, \<open>{5, 6}\<close> and \<open>{"ab", "c"}\<close>, used by the concrete instances.\<close>

definition sample_nested :: flat where
  "sample_nested = \<lparr>fty = INTEGER32, fidx = [1, 1], fdwm = [1, 2], fwidths = [2, 2, 1],
     felems = [le_bytes 4 1, le_bytes 4 3], fnulls = [False, True, False], fstr = []\<rparr>"

definition sample_ints :: flat where
  "sample_ints = \<lparr>fty = INTEGER32, fidx = [1], fdwm = [1], fwidths = [2],
     felems = [le_bytes 4 5, le_bytes 4 6], fnulls = [False, False], fstr = []\<rparr>"

definition sample_strings :: flat where
  "sample_strings = \<lparr>fty = STRING, fidx = [1], fdwm = [1], fwidths = [2],
     felems = [le_bytes 4 2, le_bytes 4 1], fnulls = [False, False], fstr = [97, 98, 99]\<rparr>"

lemma wf_samples: "wf_flat sample_nested" "wf_flat sample_ints" "wf_flat sample_strings"
  by (simp_all add: wf_flat_def small_def level_def lvl_start_def encode_def nth_Cons less_Suc_eq
      numeral_2_eq_2 getNullBytes_eq
      sample_nested_def sample_ints_def sample_strings_def)

lemma sample_nested_shape:
  "fty sample_nested = INTEGER32" "length (felems sample_nested) = 2" "length (fnulls sample_nested) = 3"
  by (simp_all add: sample_nested_def)

lemma sample_ints_shape:
  "fty sample_ints = INTEGER32" "felems sample_ints = [[5, 0, 0, 0], [6, 0, 0, 0]]"
  "fnulls sample_ints = [False, False]" "fwidths sample_ints = [2]" "fdwm sample_ints = [1]"
  by (simp_all add: sample_ints_def le_bytes_4)

end
