(* ===== verification/Append_Correct.thy ===== *)
theory Append_Correct
  imports Array_Append Array_Content
begin

text \<open>
  What the append operations do to the content of an array, and that the code of
  \<open>Array_Append\<close> does it: from the bytes of a well-formed array it builds exactly the bytes
  of the extended one, without leaving a buffer. The last section holds the inputs where
  it does not.
\<close>

section \<open>Effects on the content\<close>

definition inc_last :: "nat list \<Rightarrow> nat list" where
  "inc_last xs = butlast xs @ [last xs + 1]"

definition app_elem :: "flat \<Rightarrow> bytes \<Rightarrow> flat" where
  "app_elem F v = F\<lparr>fwidths := inc_last (fwidths F), felems := felems F @ [v],
     fnulls := fnulls F @ [False]\<rparr>"

definition app_str :: "flat \<Rightarrow> bytes \<Rightarrow> flat" where
  "app_str F s = F\<lparr>fwidths := inc_last (fwidths F), felems := felems F @ [le_bytes 4 (length s)],
     fnulls := fnulls F @ [False], fstr := fstr F @ s\<rparr>"

definition app_null :: "flat \<Rightarrow> flat" where
  "app_null F = F\<lparr>fwidths := inc_last (fwidths F), fnulls := fnulls F @ [True]\<rparr>"

text \<open>The width entry that \<^verbatim>\<open>appendElementFront\<close> increments is the first one of the last dimension.\<close>

definition inc_at :: "nat \<Rightarrow> nat list \<Rightarrow> nat list" where
  "inc_at i xs = xs[i := xs ! i + 1]"

definition app_front :: "flat \<Rightarrow> bytes \<Rightarrow> flat" where
  "app_front F v = F\<lparr>fwidths := inc_at (last_start F) (fwidths F), felems := v # felems F,
     fnulls := False # fnulls F\<rparr>"

definition empty_flat :: "ArrayType \<Rightarrow> flat" where
  "empty_flat T = \<lparr>fty = T, fidx = [1], fdwm = [1], fwidths = [0], felems = [], fnulls = [], fstr = []\<rparr>"

definition wrap_flat :: "flat \<Rightarrow> flat" where
  "wrap_flat F = F\<lparr>fidx := 1 # fidx F, fdwm := 1 # fdwm F, fwidths := 1 # fwidths F\<rparr>"

section \<open>Width entries\<close>

lemma length_inc_last: "xs \<noteq> [] \<Longrightarrow> length (inc_last xs) = length xs"
  by (simp add: inc_last_def)


lemma width_last:
  assumes "wf_flat F"
  shows "width_at (obj_of F) (length (fwidths F) - 1) = Inr (last (fwidths F))"
  using enc.width_at_obj[OF assms, of "length (fwidths F) - 1"] wf_widths_nonempty[OF assms]
  by (simp add: last_conv_nth)

lemma copy_widths_butlast [buf_intros]:
  assumes "wf_flat F"
  shows "appends (copyToBuffer (amem (obj_of F)) (widths (obj_of F)) (4 * (length (fwidths F) - 1)))
    (u32s (butlast (fwidths F)))"
  using enc.copy_widths[OF assms, of "length (fwidths F) - 1"] by (simp add: butlast_conv_take)

lemma copy_all_widths [buf_intros]:
  assumes "wf_flat F"
  shows "appends (copyToBuffer (amem (obj_of F)) (widths (obj_of F)) (4 * length (fwidths F)))
    (u32s (fwidths F))"
  using enc.copy_widths[OF assms order_refl] by simp

lemma last_width_less:
  assumes "wf_flat F" and "last (fdwm F) \<noteq> 0"
  shows "last (fwidths F) \<le> length (fnulls F)"
proof -
  have "lowest F \<noteq> []" using length_lowest[OF assms(1)] assms(2) by auto
  then have "last (fwidths F) = last (lowest F)" by (metis assms(1) last_append widths_split)
  also have "\<dots> \<le> sum_list (lowest F)" using \<open>lowest F \<noteq> []\<close> by (intro member_le_sum) simp
  finally show ?thesis by (simp add: sum_lowest assms(1))
qed

lemma inc_last_widths:
  assumes wf: "wf_flat F" and ne: "last (fdwm F) \<noteq> 0"
  obtains L where "inc_last (fwidths F) = take (last_start F) (fwidths F) @ L"
    and "length L = last (fdwm F)" and "sum_list L = Suc (length (fnulls F))"
proof -
  have low: "lowest F \<noteq> []" using length_lowest[OF wf] ne by auto
  then have "lowest F = butlast (lowest F) @ [last (lowest F)]" by simp
  then have s: "sum_list (butlast (lowest F)) + last (lowest F) = length (fnulls F)"
    using sum_lowest[OF wf] by (metis add_0_right sum_list_append sum_list_simps)
  show ?thesis
  proof (rule that[of "inc_last (lowest F)"])
    have "last (fwidths F) = last (lowest F)"
      using low by (metis last_append wf widths_split)
    moreover have "butlast (fwidths F) = take (last_start F) (fwidths F) @ butlast (lowest F)"
      using low by (metis butlast_append wf widths_split)
    ultimately show "inc_last (fwidths F) = take (last_start F) (fwidths F) @ inc_last (lowest F)"
      by (simp add: inc_last_def)
    show "length (inc_last (lowest F)) = last (fdwm F)"
      using low length_lowest[OF wf] by (simp add: length_inc_last)
    show "sum_list (inc_last (lowest F)) = Suc (length (fnulls F))"
      using s by (simp add: inc_last_def)
  qed
qed

section \<open>NULL bits of one more position\<close>

text \<open>
  Behind the NULL bits of an array without strings stands the terminating zero of the
  string, so one byte more than the section holds may be copied.
\<close>

lemma nulls_prefix:
  assumes wf: "wf_flat F"
  obtains h where "amem (obj_of F) = h @ pack (fnulls F) @ fstr F" and "length h = nulls (obj_of F)"
  using encode_header[of F] length_header[of F] wf_dims(2)[OF wf]
    length_concat_chunked[OF wf_chunked[OF wf]]
  by (intro that[of "(ARRAYHEADER @ [of_nat (type_id (fty F))] @
     le_bytes 4 (length (fdwm F)) @ le_bytes 4 (length (felems F))) @
     u32s (fidx F) @ u32s (fdwm F) @ u32s (fwidths F) @ concat (felems F)"])
    (simp_all add: obj_of_def Let_def)

lemma load_nulls_Suc:
  assumes wf: "wf_flat F" and "fstr F = [] \<or> length (fnulls F) mod 8 \<noteq> 0"
  shows "load (amem (obj_of F)) (nulls (obj_of F)) (getNullBytes (Suc (length (fnulls F)))) =
    Inr (pack (fnulls F @ [False]))"
proof -
  obtain h where "amem (obj_of F) = h @ pack (fnulls F) @ fstr F" and "length h = nulls (obj_of F)"
    by (rule nulls_prefix[OF wf])
  then show ?thesis
    using assms(2) by (auto simp: load_def getNullBytes_Suc pack_append_False)
qed

text \<open>The last step of every such proof: the sections written make up the encoded result.\<close>

lemma build_encode:
  assumes "list_all2 appends ws yss" and "concat yss = encode F" and "fits F"
    and "chunked (elem_size (fty F)) (felems F)"
    and "n = 14 + 4 * length (fidx F) + 4 * length (fdwm F) + 4 * length (fwidths F) +
      elem_size (fty F) * length (felems F) + getNullBytes (length (fnulls F)) + length (fstr F)"
  shows "build n ws = Inr (encode F)"
  using build_appends[OF assms(1,2)] assms(5) fitsD(1)[OF assms(3)] length_encode[OF assms(4)] by simp

section \<open>The operations build the bytes of the result\<close>

lemma wf_app_elem:
  assumes wf: "wf_flat F" and ty: "fty F \<noteq> STRING" and "last (fdwm F) \<noteq> 0"
    and "length v = elem_size (fty F)" and "fits (app_elem F v)"
  shows "wf_flat (app_elem F v)"
proof -
  obtain L where L: "inc_last (fwidths F) = take (last_start F) (fwidths F) @ L"
    "length L = last (fdwm F)" "sum_list L = Suc (length (fnulls F))"
    by (rule inc_last_widths[OF wf assms(3)])
  show ?thesis
    by (rule wf_replace_last[OF wf, of _ L])
      (use L assms wf_count[OF wf] wf_chunked[OF wf] wf_strings(2)[OF wf ty] in \<open>simp_all add: app_elem_def\<close>)
qed

lemma appendElement_refines:
  assumes wf: "wf_flat F" and ty: "fty F \<noteq> STRING" and ne: "last (fdwm F) \<noteq> 0"
    and v: "length v = elem_size (fty F)" and fit: "fits (app_elem F v)"
  shows "appendElement (obj_of F) v = Inr (encode (app_elem F v))"
proof -
  have w: "fwidths F \<noteq> []" by (rule wf_widths_nonempty[OF wf])
  have ch: "chunked (elem_size (fty F)) (felems F @ [v])"
    using wf_chunked[OF wf] v by simp
  have total: "length (fnulls F) < 4294967295" using fitsD(2)[OF fit] by (simp add: app_elem_def)
  have lt: "length (felems F) < 4294967295" "last (fwidths F) < 4294967295"
    using wf_count[OF wf] length_filter_le[of Not "fnulls F"] total last_width_less[OF wf ne] by simp_all
  note [simp] = wf lt total width_last[OF wf, simplified] copy_widths_butlast[OF wf, simplified]
    enc.obj_dims enc.obj_type enc.obj_size
  show ?thesis
    using w wf_bounds(2)[OF wf]
    by (simp add: appendElement_def acc_simps Let_def getStringSize_def Suc_leI)
      (rule build_encode[where yss = "[ARRAYHEADER, [of_nat (type_id (fty F))],
          le_bytes 4 (length (fdwm F)), le_bytes 4 (Suc (length (felems F))),
          u32s (fidx F), u32s (fdwm F), u32s (butlast (fwidths F)), le_bytes 4 (Suc (last (fwidths F))),
          concat (felems F), v, pack (fnulls F @ [False])]" and F = "app_elem F v", OF _ _ fit];
        simp add: buf_intros appends_copyToBuffer[OF load_nulls_Suc] wf_strings(2)[OF wf ty] v
          encode_def app_elem_def inc_last_def length_inc_last wf_dims wf_chunked)
qed

text \<open>Strings: the length goes to the elements, the characters behind the others.\<close>

lemma wf_app_str:
  assumes wf: "wf_flat F" and ty: "fty F = STRING" and "last (fdwm F) \<noteq> 0"
    and fit: "fits (app_str F s)"
  shows "wf_flat (app_str F s)"
proof -
  obtain L where L: "inc_last (fwidths F) = take (last_start F) (fwidths F) @ L"
    "length L = last (fdwm F)" "sum_list L = Suc (length (fnulls F))"
    by (rule inc_last_widths[OF wf assms(3)])
  have "chunked (elem_size (fty (app_str F s))) (felems (app_str F s))"
    using wf_chunked[OF wf] by (simp add: app_str_def ty)
  from length_encode[OF this] fitsD(1)[OF fit] have "length s < 4294967296"
    by (simp add: app_str_def)
  then show ?thesis
    by (intro wf_replace_last[OF wf, of _ L])
      (use L assms wf_count[OF wf] wf_chunked[OF wf] wf_strings(1)[OF wf ty] in \<open>simp_all add: app_str_def\<close>)
qed

lemma copyNulls_Suc [buf_intros]:
  assumes "wf_flat F" and "fstr F = [] \<or> length (fnulls F) mod 8 \<noteq> 0"
  shows "appends (copyNulls (amem (obj_of F)) (nulls (obj_of F)) (Suc (length (fnulls F))) 0)
    (pack (fnulls F @ [False]))"
  using load_nulls_Suc[OF assms] by (simp add: enc.copyNulls_0 appends_copyToBuffer)

lemma appendElementString_refines:
  assumes wf: "wf_flat F" and ty: "fty F = STRING" and ne: "last (fdwm F) \<noteq> 0"
    and pad: "fstr F = [] \<or> length (fnulls F) mod 8 \<noteq> 0" and fit: "fits (app_str F s)"
  shows "appendElementString (obj_of F) s = Inr (encode (app_str F s))"
proof -
  have w: "fwidths F \<noteq> []" by (rule wf_widths_nonempty[OF wf])
  have ch: "chunked (elem_size (fty (app_str F s))) (felems (app_str F s))"
    using wf_chunked[OF wf] by (simp add: app_str_def ty)
  have str: "length (fstr F) + length s < 4294967296" "length s < 4294967296"
    using length_encode[OF ch] fitsD(1)[OF fit] by (simp_all add: app_str_def)
  have total: "length (fnulls F) < 4294967295" using fitsD(2)[OF fit] by (simp add: app_str_def)
  have lt: "length (felems F) < 4294967295" "last (fwidths F) < 4294967295"
    using wf_count[OF wf] length_filter_le[of Not "fnulls F"] total last_width_less[OF wf ne] by simp_all
  note [simp] = wf lt total str width_last[OF wf, simplified] copy_widths_butlast[OF wf, simplified]
    enc.obj_dims enc.obj_type enc.obj_size
  show ?thesis
    using w wf_bounds(2)[OF wf]
    by (simp add: appendElementString_def acc_simps Let_def getStringSize_def Suc_leI)
      (rule build_encode[where yss = "[ARRAYHEADER, [of_nat (type_id (fty F))],
          le_bytes 4 (length (fdwm F)), le_bytes 4 (Suc (length (felems F))),
          u32s (fidx F), u32s (fdwm F), u32s (butlast (fwidths F)), le_bytes 4 (Suc (last (fwidths F))),
          concat (felems F), le_bytes 4 (length s), pack (fnulls F @ [False]), fstr F, s]"
          and F = "app_str F s", OF _ _ fit];
        simp add: buf_intros copyNulls_Suc[OF wf pad] ty encode_def app_str_def inc_last_def length_inc_last
          wf_dims wf_chunked[OF wf, simplified ty elem_size.simps])
qed

text \<open>
  NULL: right after the copied bits the pointer steps back to the byte that holds the new
  position, unless there is none yet.
\<close>

lemma wf_app_null:
  assumes wf: "wf_flat F" and "last (fdwm F) \<noteq> 0" and "fits (app_null F)"
  shows "wf_flat (app_null F)"
proof -
  obtain L where L: "inc_last (fwidths F) = take (last_start F) (fwidths F) @ L"
    "length L = last (fdwm F)" "sum_list L = Suc (length (fnulls F))"
    by (rule inc_last_widths[OF wf assms(2)])
  show ?thesis
    by (rule wf_replace_last[OF wf, of _ L])
      (use L assms wf_count[OF wf] wf_chunked[OF wf] wf_strings[OF wf] in \<open>simp_all add: app_null_def\<close>)
qed

lemma appendNullBit_appends:
  assumes ld: "load (amem a) (nulls a) (getNullBytes (Suc (length bs))) = Inr (pack (bs @ [False]))"
    and k: "length bs mod 8 \<noteq> 0 \<or> bs = []"
  shows "appends (appendNullBit a (length bs) (getNullBytes (Suc (length bs)))) (pack (bs @ [True]))"
proof (rule appendsI)
  fix xs :: bytes and n assume n: "length (pack (bs @ [True])) \<le> n"
  let ?k = "length bs"
  let ?N = "getNullBytes (Suc ?k)"
  have one: "1 \<le> ?N" using div8_less_getNullBytes[of ?k "Suc ?k"] by linarith
  have q: "?k div 8 = ?N - 1"
    using k by (auto simp: getNullBytes_Suc) (auto simp: getNullBytes_eq)
  let ?st = "(xs @ pack (bs @ [False]) @ replicate (n - ?N) 0, length xs + (?N - 1))"
  have copied: "ebind (if ?k \<noteq> 0 then copyToBuffer (amem a) (nulls a) ?N (filled xs n) else Inr (filled xs n))
      (\<lambda>w. if ?k mod 8 \<noteq> 0 then retreat w else Inr w) = Inr ?st"
  proof (cases "bs = []")
    case True
    moreover obtain n' where "n = Suc n'" using n True by (cases n) (simp_all add: getNullBytes_def)
    ultimately show ?thesis using pack_append_False[of "[]"]
      by (simp add: filled_def getNullBytes_def)
  next
    case False
    have "copyToBuffer (amem a) (nulls a) ?N (filled xs n) =
        Inr (filled (xs @ pack (bs @ [False])) (n - ?N))"
      using appendsD[OF appends_copyToBuffer[OF ld], of n xs] n by simp
    then show ?thesis using False k one by (auto simp: filled_def retreat_def)
  qed
  have "orBit (8 - ?k mod 8 - 1) ?st =
      Inr (xs @ pack (bs @ [True]) @ replicate (n - ?N) 0, length xs + (?N - 1))"
    using orBit_pack[of bs "?N - 1" xs "replicate (n - ?N) 0"] q by simp
  then show "appendNullBit a ?k ?N (filled xs n) =
      Inr (filled (xs @ pack (bs @ [True])) (n - length (pack (bs @ [True]))))"
    unfolding appendNullBit_def steps.simps ebind_assoc[symmetric] copied
    using one by (simp add: advance_def filled_def)
qed

lemma appendNull_refines:
  assumes wf: "wf_flat F" and ne: "last (fdwm F) \<noteq> 0"
    and pos: "length (fnulls F) mod 8 \<noteq> 0 \<or> fnulls F = []" and fit: "fits (app_null F)"
  shows "appendNull (obj_of F) = Inr (encode (app_null F))"
proof -
  have w: "fwidths F \<noteq> []" by (rule wf_widths_nonempty[OF wf])
  have total: "length (fnulls F) < 4294967295" using fitsD(2)[OF fit] by (simp add: app_null_def)
  have lt: "length (felems F) < 4294967296" "last (fwidths F) < 4294967295"
    using wf_bounds(3)[OF wf] total last_width_less[OF wf ne] by simp_all
  have "fnulls F = [] \<Longrightarrow> fstr F = []"
    using wf_count[OF wf] wf_strings[OF wf] by (cases "fty F = STRING") auto
  then have ld: "load (amem (obj_of F)) (nulls (obj_of F)) (getNullBytes (Suc (length (fnulls F)))) =
      Inr (pack (fnulls F @ [False]))"
    using pos by (intro load_nulls_Suc[OF wf]) auto
  note [simp] = wf lt total width_last[OF wf, simplified] copy_widths_butlast[OF wf, simplified]
    enc.obj_dims enc.obj_type enc.obj_size
  show ?thesis
    using w wf_bounds(2)[OF wf]
    by (simp add: appendNull_def acc_simps Let_def getStringSize_def Suc_leI)
      (rule build_encode[where yss = "[ARRAYHEADER, [of_nat (type_id (fty F))],
          le_bytes 4 (length (fdwm F)), le_bytes 4 (length (felems F)),
          u32s (fidx F), u32s (fdwm F), u32s (butlast (fwidths F)), le_bytes 4 (Suc (last (fwidths F))),
          concat (felems F), pack (fnulls F @ [True]), fstr F]" and F = "app_null F", OF _ _ fit];
        simp add: buf_intros appendNullBit_appends[OF ld pos]
          encode_def app_null_def inc_last_def length_inc_last wf_dims wf_chunked)
qed

text \<open>
  Appending at the front: the first entry of the last dimension grows. The code copies the
  NULL bits where they were (\<open>front_result\<close>), so this is the array with the new element in
  front (\<open>app_front\<close>) when the array holds no NULL.
\<close>

lemma no_nulls_shift: "True \<notin> set ns \<Longrightarrow> False # ns = ns @ [False]"
proof -
  assume "True \<notin> set ns"
  then have "ns = replicate (length ns) False" by (induction ns) auto
  then show ?thesis by (metis replicate_append_same)
qed

lemma inc_at_widths:
  assumes wf: "wf_flat F" and ne: "last (fdwm F) \<noteq> 0"
  shows "last_start F < length (fwidths F)"
    and "fwidths F ! last_start F \<le> length (fnulls F)"
    and "inc_at (last_start F) (fwidths F) = take (last_start F) (fwidths F) @ inc_at 0 (lowest F)"
    and "sum_list (inc_at 0 (lowest F)) = Suc (length (fnulls F))"
proof -
  obtain x xs where low: "lowest F = x # xs" using length_lowest[OF wf] ne by (cases "lowest F") auto
  show lt: "last_start F < length (fwidths F)" using last_start_eq[OF wf] ne by simp
  have x: "x = fwidths F ! last_start F"
    using low lowest_eq[OF wf] lt by (metis hd_drop_conv_nth list.sel(1))
  show "fwidths F ! last_start F \<le> length (fnulls F)"
    using sum_lowest[OF wf] low x by simp
  show "sum_list (inc_at 0 (lowest F)) = Suc (length (fnulls F))"
    using sum_lowest[OF wf] low by (simp add: inc_at_def)
  have "fwidths F = take (last_start F) (fwidths F) @ x # xs"
    using widths_split[OF wf] low by simp
  then show "inc_at (last_start F) (fwidths F) = take (last_start F) (fwidths F) @ inc_at 0 (lowest F)"
    using lt x low by (simp add: inc_at_def upd_conv_take_nth_drop) (metis append_eq_conv_conj
      drop_Suc drop_tl length_take list.sel(3) min.absorb2 order_less_imp_le)
qed

lemma wf_app_front:
  assumes wf: "wf_flat F" and ty: "fty F \<noteq> STRING" and ne: "last (fdwm F) \<noteq> 0"
    and v: "length v = elem_size (fty F)" and fit: "fits (app_front F v)"
  shows "wf_flat (app_front F v)"
  by (rule wf_replace_last[OF wf, of _ "inc_at 0 (lowest F)"])
    (use inc_at_widths[OF wf ne] length_lowest[OF wf] v fit wf_count[OF wf] wf_chunked[OF wf]
      wf_strings(2)[OF wf ty] ty in \<open>simp_all add: app_front_def, simp_all add: inc_at_def\<close>)

definition front_result :: "flat \<Rightarrow> bytes \<Rightarrow> flat" where
  "front_result F v = (app_front F v)\<lparr>fnulls := fnulls F @ [False]\<rparr>"

lemma front_result_eq: "True \<notin> set (fnulls F) \<Longrightarrow> front_result F v = app_front F v"
  by (simp add: front_result_def app_front_def no_nulls_shift[symmetric])

lemma appendElementFront_refines:
  assumes wf: "wf_flat F" and ty: "fty F \<noteq> STRING" and ne: "last (fdwm F) \<noteq> 0"
    and v: "length v = elem_size (fty F)" and fit: "fits (app_front F v)"
  shows "appendElementFront (obj_of F) v = Inr (encode (front_result F v))"
proof -
  let ?s = "last_start F" and ?k = "last (fdwm F)"
  note w = inc_at_widths[OF wf ne]
  have fit': "fits (front_result F v)"
    using fit by (simp add: fits_def encode_def front_result_def app_front_def del: pack.simps)
  have dims: "0 < length (fdwm F)" by (rule wf_dims(1)[OF wf])
  have k: "fdwm F ! (length (fdwm F) - Suc 0) = ?k" using last_fdwm[OF wf] by simp
  have s: "length (fwidths F) - ?k = ?s" "?k \<le> length (fwidths F)" using last_start_eq[OF wf] by simp_all
  have rest: "Suc ?s + (?k - 1) = length (fwidths F)" using last_start_eq[OF wf] ne by simp
  have total: "length (fnulls F) < 4294967295" using fitsD(2)[OF fit] by (simp add: app_front_def)
  have lt: "length (felems F) < 4294967295" "fwidths F ! ?s < 4294967295"
    using wf_count[OF wf] length_filter_le[of Not "fnulls F"] total w(2) by simp_all
  have wat: "width_at (obj_of F) ?s = Inr (fwidths F ! ?s)" by (rule enc.width_at_obj[OF wf w(1)])
  have before: "appends (copyToBuffer (amem (obj_of F)) (widths (obj_of F)) (4 * ?s))
      (u32s (take ?s (fwidths F)))"
    using w(1) by (intro enc.copy_widths[OF wf]) simp
  have behind: "appends (copyToBuffer (amem (obj_of F)) (widths (obj_of F) + (4 + 4 * ?s)) (4 * (?k - Suc 0)))
      (u32s (drop (Suc ?s) (fwidths F)))"
    using enc.copy_widths_part[OF wf, of "Suc ?s" "?k - 1"] rest by simp
  have nulls: "appends (copyToBuffer (amem (obj_of F)) (nulls (obj_of F)) (getNullBytes (Suc (length (fnulls F)))))
      (pack (fnulls F @ [False]))"
    using wf_strings(2)[OF wf ty]
    by (intro appends_copyToBuffer load_nulls_Suc[OF wf]) simp
  note [simp] = wf lt total enc.obj_dims enc.obj_type enc.obj_size
  show ?thesis
    using w(1) wf_bounds(2)[OF wf] dims ne
    by (simp add: appendElementFront_def acc_simps Let_def getStringSize_def Suc_leI k s wat)
      (rule build_encode[where yss = "[ARRAYHEADER, [of_nat (type_id (fty F))],
          le_bytes 4 (length (fdwm F)), le_bytes 4 (Suc (length (felems F))),
          u32s (fidx F), u32s (fdwm F), u32s (take ?s (fwidths F)), le_bytes 4 (Suc (fwidths F ! ?s)),
          u32s (drop (Suc ?s) (fwidths F)), v, concat (felems F), pack (fnulls F @ [False])]"
          and F = "front_result F v", OF _ _ fit'];
        simp add: buf_intros nulls wf_strings(2)[OF wf ty] v before behind
          encode_def front_result_def app_front_def inc_at_def upd_conv_take_nth_drop wf_dims wf_chunked
          del: pack.simps)
qed

text \<open>Empty arrays, and an array wrapped into one more dimension.\<close>

lemma wf_empty_flat: "wf_flat (empty_flat T)"
  by (simp add: wf_flat_def empty_flat_def small_def level_def encode_def)

lemma createEmptyArray_refines: "createEmptyArray (int (type_id T)) = Inr (encode (empty_flat T))"
  by (simp add: createEmptyArray_def getStringSize_def Let_def)
    (rule build_encode[where yss = "[ARRAYHEADER, [of_nat (type_id T)], le_bytes 4 1, le_bytes 4 0,
        le_bytes 4 1, le_bytes 4 1, le_bytes 4 0]"];
      simp add: buf_intros encode_def empty_flat_def fits_def)

lemma level_wrap:
  "level (wrap_flat F) 0 = [1]"
  "level (wrap_flat F) (Suc k) = level F k"
  by (simp_all add: level_def wrap_flat_def lvl_start_def)

lemma wf_wrap_flat:
  assumes wf: "wf_flat F" and fit: "fits (wrap_flat F)"
  shows "wf_flat (wrap_flat F)"
proof -
  have "sum_list (level (wrap_flat F) k) = fdwm (wrap_flat F) ! Suc k"
    if "k < length (fdwm F)" for k
    using that wf by (cases k) (simp_all add: level_wrap, simp_all add: wf_flat_def wrap_flat_def)
  moreover have "sum_list (level (wrap_flat F) (length (fdwm F))) = length (fnulls F)"
    using wf by (cases "length (fdwm F)") (simp_all add: level_wrap, simp_all add: wf_flat_def)
  ultimately show ?thesis
    using wf fitsD[OF fit] by (cases "fty F = STRING") (simp_all add: wf_flat_def, simp_all add: wrap_flat_def small_def)
qed

lemma increment_refines:
  assumes wf: "wf_flat F" and fit: "fits (wrap_flat F)"
  shows "increment (obj_of F) = Inr (encode (wrap_flat F))"
proof -
  have ch: "chunked (elem_size (fty (wrap_flat F))) (felems (wrap_flat F))"
    using wf_chunked[OF wf] by (simp add: wrap_flat_def)
  have lt: "length (fdwm F) < 4294967295" "length (fwidths F) < 4294967295"
    using length_encode[OF ch] fitsD(1)[OF fit] by (simp_all add: wrap_flat_def)
  note [simp] = wf lt copy_all_widths[OF wf] enc.obj_dims enc.obj_type enc.obj_size
  show ?thesis
    by (simp add: increment_def acc_simps Let_def getStringSize_def)
      (rule build_encode[where yss = "[ARRAYHEADER, [of_nat (type_id (fty F))],
          le_bytes 4 (Suc (length (fdwm F))), le_bytes 4 (length (felems F)), le_bytes 4 1,
          u32s (fidx F), le_bytes 4 1, u32s (fdwm F), le_bytes 4 1, u32s (fwidths F),
          concat (felems F), pack (fnulls F), fstr F]" and F = "wrap_flat F", OF _ _ fit];
        simp add: buf_intros encode_def wrap_flat_def wf_dims wf_chunked)
qed

section \<open>The sequence of values grows by one\<close>

lemma items_app_elem:
  "wf_flat F \<Longrightarrow> fty F \<noteq> STRING \<Longrightarrow> items (app_elem F v) = items F @ [Some v]"
  by (simp add: items_def app_elem_def place_append wf_count)

lemma items_app_null: "wf_flat F \<Longrightarrow> items (app_null F) = items F @ [None]"
  using place_append[of "fnulls F" "strs F" "[True]" "[]"] place_append[of "fnulls F" "felems F" "[True]" "[]"]
  by (cases "fty F = STRING") (simp_all add: items_def app_null_def wf_count, simp_all add: strs_def)

lemma items_app_front:
  "wf_flat F \<Longrightarrow> fty F \<noteq> STRING \<Longrightarrow> items (app_front F v) = Some v # items F"
  by (simp add: items_def app_front_def)

lemma items_app_str:
  assumes wf: "wf_flat F" and ty: "fty F = STRING" and s: "length s < 4294967296"
  shows "items (app_str F s) = items F @ [Some s]"
proof -
  have "strs (app_str F s) = strs F @ [s]"
    using wf_strings(1)[OF wf ty] s by (simp add: strs_def app_str_def split_lens_append)
  then show ?thesis
    using ty wf_count[OF wf] by (simp add: items_def app_str_def place_append strs_def)
qed

lemma items_empty [simp]: "items (empty_flat T) = []"
  by (simp add: items_def empty_flat_def strs_def)

lemma items_wrap [simp]: "items (wrap_flat F) = items F"
  by (simp add: items_def wrap_flat_def strs_def)

section \<open>Properties\<close>









text \<open>With a NULL in the array the NULL bits stay where they were: put in front of
  \<open>{1, NULL, 3}\<close> (here in two rows), 7 takes the place of 1, and 1 the place behind the NULL.\<close>
theorem append_front_nulls:
  "\<exists>F'. appendElementFront (obj_of sample_nested) [7, 0, 0, 0] = Inr (encode F') \<and>
    items sample_nested = [Some [1, 0, 0, 0], None, Some [3, 0, 0, 0]] \<and>
    items F' = [Some [7, 0, 0, 0], None, Some [1, 0, 0, 0], Some [3, 0, 0, 0]]"
proof -
  have "appendElementFront (obj_of sample_nested) [7, 0, 0, 0] =
      Inr (encode (front_result sample_nested [7, 0, 0, 0]))"
    by (rule appendElementFront_refines[OF wf_samples(1)])
      (simp_all add: sample_nested_def app_front_def inc_at_def last_start_def lvl_start_def fits_def encode_def)
  then show ?thesis
    by (intro exI[of _ "front_result sample_nested [7, 0, 0, 0]"])
      (simp add: front_result_def app_front_def sample_nested_def items_def le_bytes_4)
qed

text \<open>\<^verbatim>\<open>createEmptyArray\<close> builds a well-formed array without values for each of the six type
  numbers and refuses any other.\<close>
theorem create_empty:
  "(\<exists>F. createEmptyArray t = Inr (encode F) \<and> wf_flat F \<and> items F = [] \<and> int (type_id (fty F)) = t)
   \<or> (t \<notin> {0, 1, 2, 3, 4, 5} \<and> createEmptyArray t =
        Inl (RuntimeError ''Type-Cast-Operation: Given array type is not supported with arrays''))"
proof (cases "\<exists>T. t = int (type_id T)")
  case True
  then obtain T where "t = int (type_id T)" by blast
  then show ?thesis
    using createEmptyArray_refines[of T] wf_empty_flat[of T]
    by (intro disjI1 exI[of _ "empty_flat T"]) (simp add: items_empty, simp add: empty_flat_def)
next
  case False
  have ids: "type_id INTEGER32 = 0" "type_id INTEGER64 = 1" "type_id BFLOAT = 2" "type_id FLOAT = 3"
    "type_id DOUBLE = 4" "type_id STRING = 5" by (simp_all add: type_id.simps)
  have "t \<noteq> int (type_id T)" for T using False by blast
  from this[of INTEGER32] this[of INTEGER64] this[of BFLOAT] this[of FLOAT] this[of DOUBLE] this[of STRING]
  have "t \<notin> {0, 1, 2, 3, 4, 5}" by (simp add: ids)
  moreover have "0 \<le> t \<Longrightarrow> type_of (nat t) = None"
    using False by (metis nat_0_le not_None_eq type_of_SomeD)
  ultimately show ?thesis by (simp add: createEmptyArray_def getTypeId_def)
qed

text \<open>\<^verbatim>\<open>increment\<close> puts the same values under one more dimension with a single entry.\<close>
theorem increment_wraps:
  assumes "wf_flat F" and "fits (wrap_flat F)"
  shows "\<exists>F'. increment (obj_of F) = Inr (encode F') \<and> wf_flat F' \<and> items F' = items F \<and>
    level F' 0 = [1] \<and> (\<forall>k. level F' (Suc k) = level F k)"
  using increment_refines[OF assms] wf_wrap_flat[OF assms] level_wrap[of F] items_wrap[of F] by blast

theorem increment_wraps_witness:
  "\<exists>F'. increment (obj_of sample_ints) = Inr (encode F') \<and> items F' = items sample_ints \<and>
    level F' 0 = [1]"
  using increment_wraps[of sample_ints] wf_samples(2)
  by (auto simp: sample_ints_def wrap_flat_def fits_def encode_def)

end
