(* ===== verification/Append_Array.thy ===== *)
theory Append_Array
  imports Append_Correct
begin

text \<open>
  Appending an array to an array (\<^verbatim>\<open>append(Array\&)\<close>): the width entries of both dimension by
  dimension, the elements, the NULL bits of the right array shifted to their new position,
  the strings.
\<close>

section \<open>The appended content\<close>
text \<open>
  \<open>k\<close> counts the dimensions of the left array from 0; the right array has \<open>o\<close> dimensions
  fewer. Below the common dimension the width entries of both follow one another; where the
  right array hangs into the left one, an entry grows.
\<close>

definition app_dwm :: "flat \<Rightarrow> flat \<Rightarrow> nat \<Rightarrow> nat" where
  "app_dwm F G k =
     (let o' = length (fdwm F) - length (fdwm G) in
      if k < o' \<or> (o' = 0 \<and> k = 0) then fdwm F ! k else fdwm F ! k + fdwm G ! (k - o'))"

definition app_level :: "flat \<Rightarrow> flat \<Rightarrow> nat \<Rightarrow> nat list" where
  "app_level F G k =
     (let o' = length (fdwm F) - length (fdwm G) in
      if o' = 0 \<and> k = 0 then [hd (level F 0) + hd (level G 0)]
      else if Suc k = o' then inc_last (level F k)
      else if Suc k < o' then level F k
      else level F k @ level G (k - o'))"

definition app_array :: "flat \<Rightarrow> flat \<Rightarrow> flat" where
  "app_array F G = F\<lparr>
     fdwm := map (app_dwm F G) [0..<length (fdwm F)],
     fwidths := concat (map (app_level F G) [0..<length (fdwm F)]),
     felems := felems F @ felems G,
     fnulls := fnulls F @ fnulls G,
     fstr := fstr F @ fstr G\<rparr>"

text \<open>The loops over the dimensions as folds over \<open>k = leftDimension - i\<close>.\<close>

definition right_idx :: "flat \<Rightarrow> flat \<Rightarrow> nat \<Rightarrow> nat" where
  "right_idx F G k = Suc (k - (length (fdwm F) - length (fdwm G)))"


lemma append_width_sizes_appends:
  assumes F: "wf_flat F" and G: "wf_flat G" and dims: "length (fdwm G) \<le> length (fdwm F)"
    and small: "\<And>k. k < length (fdwm F) \<Longrightarrow> app_dwm F G k < 4294967296"
  shows "appends (append_width_sizes (obj_of F) (obj_of G)) (u32s (map (app_dwm F G) [0..<length (fdwm F)]))"
proof (rule appendsI)
  fix xs :: bytes and n
  assume n: "length (u32s (map (app_dwm F G) [0..<length (fdwm F)])) \<le> n"
  let ?d = "length (fdwm F)" and ?e = "length (fdwm G)"
  let ?g = "\<lambda>k. le_bytes 4 (app_dwm F G k)"
  have u: "u32s (map (app_dwm F G) [0..<?d]) = concat (map ?g [0..<?d])"
    by (simp add: u32s_def comp_def)
  have put: "put32 v (filled ys m) = Inr (filled (ys @ le_bytes 4 v) (m - 4))" if "4 \<le> m" for v ys m
    using appendsD[OF appends_put32, of v m ys] that by simp
  define f where "f = (\<lambda>i (w, leftIdx, rightIdx).
         ebind (getWidthSizeDim (obj_of F) leftIdx) (\<lambda>sz.
         if ?e = i \<and> ?e = ?d
         then ebind (put32 sz w) (\<lambda>w. Inr (w, leftIdx + 1, rightIdx + 1))
         else if ?e < i
         then ebind (put32 sz w) (\<lambda>w. Inr (w, leftIdx + 1, rightIdx))
         else ebind (getWidthSizeDim (obj_of G) rightIdx) (\<lambda>r.
              ebind (put32 (u32 (sz + r)) w) (\<lambda>w. Inr (w, leftIdx + 1, rightIdx + 1)))))"
  have "mfold (\<lambda>k. f (?d - k)) [0..<?d] (filled xs n, Suc 0, right_idx F G 0) =
    Inr (filled (xs @ concat (map ?g [0..<?d])) (n - length (concat (map ?g [0..<?d]))), Suc ?d, right_idx F G ?d)"
  proof (rule mfold_pair_appends[where g = ?g and p = "\<lambda>k. (Suc k, right_idx F G k)"])
    fix k ys m
    assume k: "k < ?d" and m: "length (?g k) \<le> m"
    show "f (?d - k) (filled ys m, Suc k, right_idx F G k) =
        Inr (filled (ys @ ?g k) (m - length (?g k)), Suc (Suc k), right_idx F G (Suc k))"
      using k m small[OF k] dims F G wf_dims(1)[OF G]
      by (auto simp: f_def enc.getWidthSizeDim_obj put app_dwm_def right_idx_def Let_def split: if_splits)
  qed (use n u in simp)
  then show "append_width_sizes (obj_of F) (obj_of G) (filled xs n) =
      Inr (filled (xs @ u32s (map (app_dwm F G) [0..<?d])) (n - length (u32s (map (app_dwm F G) [0..<?d]))))"
    unfolding append_width_sizes_def Let_def rev_upt_map mfold_map enc.obj_dims[OF F] enc.obj_dims[OF G] u
    by (simp add: f_def right_idx_def)
qed


section \<open>The width entries\<close>

lemma put32_filled: "4 \<le> m \<Longrightarrow> put32 v (filled ys m) = Inr (filled (ys @ le_bytes 4 v) (m - 4))"
  using appendsD[OF appends_put32, of v m ys] by simp

lemma copy_level:
  assumes "wf_flat F" and "k < length (fdwm F)" and "n \<le> fdwm F ! k" and "4 * n \<le> m"
  shows "copyToBuffer (amem (obj_of F)) (widths (obj_of F) + 4 * lvl_start F k) (4 * n) (filled ys m) =
    Inr (filled (ys @ u32s (take n (level F k))) (m - 4 * n))"
proof -
  have "lvl_start F k + n \<le> length (fwidths F)" using lvl_end_le[OF assms(1,2)] assms(3) by simp
  moreover have "take n (drop (lvl_start F k) (fwidths F)) = take n (level F k)"
    using assms(3) by (simp add: level_def min_def)
  ultimately show ?thesis
    using appendsD[OF enc.copy_widths_part[OF assms(1), of "lvl_start F k" n], of m ys] assms(3,4)
      length_level[OF assms(1,2)] by simp
qed

lemma level_butlast_last:
  assumes "wf_flat F" and "k < length (fdwm F)" and "fdwm F ! k \<noteq> 0"
  shows "u32s (inc_last (level F k)) =
    u32s (take (fdwm F ! k - 1) (level F k)) @ le_bytes 4 (Suc (level F k ! (fdwm F ! k - 1)))"
  using length_level[OF assms(1,2)] assms(3)
  by (cases "level F k = []") (simp_all add: inc_last_def butlast_conv_take last_conv_nth)

text \<open>
  Two arrays can be appended: the right one hangs into a non-empty dimension of the left one.
\<close>

definition appendable :: "flat \<Rightarrow> flat \<Rightarrow> bool" where
  "appendable F G \<longleftrightarrow> fty F = fty G \<and> length (fdwm G) \<le> length (fdwm F) \<and>
     (length (fdwm G) < length (fdwm F) \<longrightarrow> fdwm F ! (length (fdwm F) - length (fdwm G) - 1) \<noteq> 0)"

lemma hd_level: "wf_flat F \<Longrightarrow> hd (level F 0) = level F 0 ! 0"
  by (simp add: level_0)

lemma sum_level_less:
  assumes "wf_flat F" and "k < length (fdwm F)"
  shows "sum_list (level F k) < 4294967296"
proof (cases "Suc k < length (fdwm F)")
  case True
  then show ?thesis using wf_level_sum(1)[OF assms(1) True] smallD[OF wf_bounds(8)[OF assms(1)] True] by simp
next
  case False
  then have "k = length (fdwm F) - 1" using assms(2) by simp
  then show ?thesis using wf_level_sum(2)[OF assms(1)] wf_bounds(1)[OF assms(1)] by simp
qed

lemma append_widths_step:
  assumes F: "wf_flat F" and G: "wf_flat G" and ap: "appendable F G" and k: "k < length (fdwm F)"
    and small: "small (app_level F G k)" and m: "length (u32s (app_level F G k)) \<le> m"
  shows "(\<lambda>(w, leftIdx, rightIdx).
         ebind (getFirstWidth (obj_of F) leftIdx) (\<lambda>leftWidths.
         ebind (getFirstWidth (obj_of G) rightIdx) (\<lambda>rightWidths.
         ebind (getWidthSizeDim (obj_of F) leftIdx) (\<lambda>leftWidthSize.
         ebind (getWidthSizeDim (obj_of G) rightIdx) (\<lambda>rightWidthSize.
         if length (fdwm G) = length (fdwm F) - k \<and> length (fdwm G) = length (fdwm F)
         then ebind (ld32 (amem (obj_of F)) leftWidths) (\<lambda>l. ebind (ld32 (amem (obj_of G)) rightWidths) (\<lambda>r.
              ebind (put32 (u32 (l + r)) w) (\<lambda>w. Inr (w, leftIdx + 1, rightIdx + 1))))
         else if length (fdwm G) + 1 = length (fdwm F) - k
         then ebind (copyToBuffer (amem (obj_of F)) leftWidths (4 * u32_sub leftWidthSize 1) w) (\<lambda>w.
              ebind (ld32 (amem (obj_of F)) (leftWidths + 4 * u32_sub leftWidthSize 1)) (\<lambda>l.
              ebind (put32 (u32 (l + 1)) w) (\<lambda>w. Inr (w, leftIdx + 1, rightIdx))))
         else if length (fdwm G) + 1 < length (fdwm F) - k
         then ebind (copyToBuffer (amem (obj_of F)) leftWidths (4 * leftWidthSize) w)
                (\<lambda>w. Inr (w, leftIdx + 1, rightIdx))
         else ebind (copyToBuffer (amem (obj_of F)) leftWidths (4 * leftWidthSize) w) (\<lambda>w.
              ebind (copyToBuffer (amem (obj_of G)) rightWidths (4 * rightWidthSize) w)
                (\<lambda>w. Inr (w, leftIdx + 1, rightIdx + 1))))))))
      (filled xs m, Suc k, right_idx F G k) =
    Inr (filled (xs @ u32s (app_level F G k)) (m - length (u32s (app_level F G k))),
      Suc (Suc k), right_idx F G (Suc k))"
    (is "?step (filled xs m, Suc k, right_idx F G k) = ?res")
proof -
  let ?d = "length (fdwm F)" and ?e = "length (fdwm G)"
  have dims: "0 < ?e" "?e \<le> ?d" using wf_dims(1)[OF G] ap by (simp_all add: appendable_def)
  note lens = length_level[OF F k]
  consider "?e = ?d" "k = 0" | "?e + 1 = ?d - k" | "?e + 1 < ?d - k"
    | "?d - k \<le> ?e" "?e \<noteq> ?d \<or> k \<noteq> 0" by linarith
  then show ?thesis
  proof cases
    case 1
    then show ?thesis
      using k m small F G enc.ld_width[OF F, of 0 0] enc.ld_width[OF G, of 0 0] dims
        wf_dims(3)[OF F] wf_dims(3)[OF G]
      by (simp add: enc.getFirstWidth_obj enc.getWidthSizeDim_obj right_idx_def app_level_def hd_level
          put32_filled small_def)
  next
    case 2
    then have k': "k = ?d - ?e - 1" and ne: "fdwm F ! k \<noteq> 0"
      using dims ap by (auto simp: appendable_def)
    have "fdwm F ! k < 4294967296" using smallD[OF wf_bounds(8)[OF F] k] .
    moreover have lv: "app_level F G k = inc_last (level F k)"
      using 2 dims by (auto simp: app_level_def Let_def)
    moreover have "length (level F k) = fdwm F ! k" by (rule lens)
    moreover have "Suc (level F k ! (fdwm F ! k - 1)) < 4294967296"
      using small lv lens ne by (cases "level F k = []") (auto simp: small_def inc_last_def last_conv_nth)
    moreover obtain n where "fdwm F ! k = Suc n" using ne by (cases "fdwm F ! k") auto
    ultimately show ?thesis
      using k m 2 F G dims enc.ld_width[OF F k, of n] level_butlast_last[OF F k ne]
      by (simp add: enc.getFirstWidth_obj enc.getWidthSizeDim_obj right_idx_def put32_filled
          copy_level length_inc_last)
  next
    case 3
    then have "app_level F G k = level F k"
      by (auto simp: app_level_def Let_def)
    then show ?thesis
      using k m 3 F G dims lens
      by (auto simp: enc.getFirstWidth_obj enc.getWidthSizeDim_obj right_idx_def copy_level)
  next
    case 4
    have e: "k - (?d - ?e) < ?e" using k 4 dims by linarith
    have "app_level F G k = level F k @ level G (k - (?d - ?e))"
      using 4 dims by (auto simp: app_level_def Let_def)
    then show ?thesis
      using k m 4 F G dims lens e length_level[OF G e]
      by (auto simp: enc.getFirstWidth_obj enc.getWidthSizeDim_obj right_idx_def copy_level Suc_diff_le)
  qed
qed

lemma append_widths_appends:
  assumes F: "wf_flat F" and G: "wf_flat G" and ap: "appendable F G"
    and small: "\<And>k. k < length (fdwm F) \<Longrightarrow> small (app_level F G k)"
  shows "appends (append_widths (obj_of F) (obj_of G))
    (u32s (concat (map (app_level F G) [0..<length (fdwm F)])))"
proof (rule appendsI)
  fix xs :: bytes and n
  let ?d = "length (fdwm F)"
  let ?g = "\<lambda>k. u32s (app_level F G k)"
  have u: "u32s (concat (map (app_level F G) [0..<i])) = concat (map ?g [0..<i])" for i
    by (induction i) simp_all
  assume n: "length (u32s (concat (map (app_level F G) [0..<?d]))) \<le> n"
  have loop: "mfold f [0..<?d] (filled xs n, 1, 1) =
    Inr (filled (xs @ concat (map ?g [0..<?d])) (n - length (concat (map ?g [0..<?d]))), Suc ?d, right_idx F G ?d)"
    if "\<And>k ys m. k < ?d \<Longrightarrow> length (?g k) \<le> m \<Longrightarrow> f k (filled ys m, Suc k, right_idx F G k) =
       Inr (filled (ys @ ?g k) (m - length (?g k)), Suc (Suc k), right_idx F G (Suc k))" for f
    using mfold_pair_appends[where f = f and g = ?g and p = "\<lambda>k. (Suc k, right_idx F G k)"
        and d = ?d and xs = xs and n = n] that n u
    by (simp add: right_idx_def)
  show "append_widths (obj_of F) (obj_of G) (filled xs n) =
      Inr (filled (xs @ u32s (concat (map (app_level F G) [0..<?d])))
        (n - length (u32s (concat (map (app_level F G) [0..<?d])))))"
    unfolding append_widths_def Let_def rev_upt_map mfold_map enc.obj_dims[OF F] enc.obj_dims[OF G] u
    by (subst loop) (use append_widths_step[OF F G ap] small in \<open>simp_all\<close>)
qed

section \<open>The NULL bits\<close>

text \<open>A buffer whose bytes from \<open>length xs\<close> on hold the bits \<open>bs\<close>, the pointer \<open>c\<close> bytes behind.\<close>

definition bits_at :: "bytes \<Rightarrow> nat \<Rightarrow> bool list \<Rightarrow> nat \<Rightarrow> wbuf" where
  "bits_at xs n bs c = (xs @ pack bs @ replicate (n - getNullBytes (length bs)) 0, length xs + c)"

lemma bits_at_push:
  assumes "getNullBytes (Suc (length bs)) \<le> n"
  shows "(if b then orBit (8 - length bs mod 8 - 1) (bits_at xs n bs (length bs div 8))
      else Inr (bits_at xs n bs (length bs div 8))) = Inr (bits_at xs n (bs @ [b]) (length bs div 8))"
proof -
  have "pack bs @ replicate (n - getNullBytes (length bs)) 0 =
      pack (bs @ [False]) @ replicate (n - getNullBytes (Suc (length bs))) 0"
    using assms by (auto simp: pack_append_False getNullBytes_Suc Suc_diff_Suc simp flip: replicate_Suc)
  then have "bits_at xs n bs c = (xs @ pack (bs @ [False]) @ replicate (n - getNullBytes (Suc (length bs))) 0,
      length xs + c)" for c
    by (simp add: bits_at_def)
  then show ?thesis
    using orBit_pack[of bs "length bs div 8" xs] by (simp add: bits_at_def)
qed

text \<open>The loop of \<^verbatim>\<open>copyNulls\<close> at a position that is not 0.\<close>

lemma copyNulls_behind:
  assumes G: "wf_flat G" and p: "0 < length bs" and n: "getNullBytes (length bs + length (fnulls G)) \<le> n"
    and lt: "length bs + length (fnulls G) < 4294967296"
  shows "copyNulls (amem (obj_of G)) (nulls (obj_of G)) (length (fnulls G)) (length bs)
      (bits_at xs n bs (length bs div 8)) =
    Inr (bits_at xs n (bs @ fnulls G) (Suc ((length bs + length (fnulls G)) div 8)))"
proof -
  let ?ns = "fnulls G" and ?l = "length bs"
  define S where "S i = (bits_at xs n (bs @ take i ?ns) ((?l + i) div 8), nulls (obj_of G) + (i - 1) div 8, ?l + i)" for i
  have step: "(\<lambda>(w, p, position).
            let p = (if i \<noteq> 0 \<and> i mod 8 = 0 then p + 1 else p) in
            ebind (ld8 (amem (obj_of G)) p) (\<lambda>b.
            ebind (if bit b (8 - i mod 8 - 1) then orBit (8 - position mod 8 - 1) w else Inr w) (\<lambda>w.
            let position = u32 (position + 1) in
            ebind (if position mod 8 = 0 then advance 1 w else Inr w) (\<lambda>w.
            Inr (w, p, position))))) (S i) = Inr (S (Suc i))" if i: "i < length ?ns" for i
  proof -
    let ?bs = "bs @ take i ?ns"
    have len: "length ?bs = ?l + i" using i by simp
    have src: "(if i \<noteq> 0 \<and> i mod 8 = 0 then nulls (obj_of G) + (i - 1) div 8 + 1
        else nulls (obj_of G) + (i - 1) div 8) = nulls (obj_of G) + i div 8"
      by (cases i) (auto simp: div_Suc)
    have rd: "ld8 (amem (obj_of G)) (nulls (obj_of G) + i div 8) = Inr (pack ?ns ! (i div 8))"
      by (rule enc.ld8_nulls[OF G div8_less_getNullBytes[OF i]])
    have "i < 8 * getNullBytes (length ?ns)" using div8_less_getNullBytes[OF i] by linarith
    then have bit: "bit (pack ?ns ! (i div 8)) (8 - i mod 8 - 1) = ?ns ! i"
      using bit_pack[of i ?ns] i by simp
    have "getNullBytes (Suc (length ?bs)) \<le> n"
      using n i getNullBytes_mono[of "Suc (?l + i)" "?l + length ?ns"] len by simp
    from bits_at_push[OF this, of "?ns ! i" xs]
    have push: "(if ?ns ! i then orBit (8 - (?l + i) mod 8 - 1) (bits_at xs n ?bs ((?l + i) div 8))
        else Inr (bits_at xs n ?bs ((?l + i) div 8))) = Inr (bits_at xs n (bs @ take (Suc i) ?ns) ((?l + i) div 8))"
      unfolding len using i by (simp add: take_Suc_conv_app_nth)
    have adv: "(if Suc (?l + i) mod 8 = 0 then advance 1 (bits_at xs n cs ((?l + i) div 8))
        else Inr (bits_at xs n cs ((?l + i) div 8))) = Inr (bits_at xs n cs (Suc (?l + i) div 8))" for cs
      by (auto simp: bits_at_def advance_def div_Suc)
    have "Suc (?l + i) < 4294967296" using lt i by simp
    then show ?thesis
      unfolding S_def prod.case Let_def src rd ebind_simps bit push using adv
      by simp
  qed
  have "mfold (\<lambda>i (w, p, position).
            let p = (if i \<noteq> 0 \<and> i mod 8 = 0 then p + 1 else p) in
            ebind (ld8 (amem (obj_of G)) p) (\<lambda>b.
            ebind (if bit b (8 - i mod 8 - 1) then orBit (8 - position mod 8 - 1) w else Inr w) (\<lambda>w.
            let position = u32 (position + 1) in
            ebind (if position mod 8 = 0 then advance 1 w else Inr w) (\<lambda>w.
            Inr (w, p, position))))) [0..<length ?ns]
      (bits_at xs n bs (?l div 8), nulls (obj_of G), ?l) = Inr (S (length ?ns))"
    by (rule mfold_upt0[where S = S], simp add: S_def, rule step, simp_all)
  then show ?thesis using p by (simp add: copyNulls_def S_def advance_def bits_at_def)
qed

definition append_nulls :: "flat \<Rightarrow> flat \<Rightarrow> wbuf \<Rightarrow> wbuf res" where
  "append_nulls F G = steps [
     copyNulls (amem (obj_of F)) (nulls (obj_of F)) (length (fnulls F)) 0,
     (\<lambda>w. if length (fnulls F) mod 8 \<noteq> 0 then retreat w else Inr w),
     copyNulls (amem (obj_of G)) (nulls (obj_of G)) (length (fnulls G)) (length (fnulls F))]"

lemma append_nulls_result:
  assumes F: "wf_flat F" and G: "wf_flat G"
    and n: "getNullBytes (length (fnulls F) + length (fnulls G)) \<le> n"
    and lt: "length (fnulls F) + length (fnulls G) < 4294967296"
  shows "append_nulls F G (filled xs n) =
    Inr (bits_at xs n (fnulls F @ fnulls G)
      (if fnulls F = [] then getNullBytes (length (fnulls G))
       else Suc ((length (fnulls F) + length (fnulls G)) div 8)))"
proof (cases "fnulls F = []")
  case True
  have "copyNulls (amem (obj_of F)) (nulls (obj_of F)) 0 0 (filled xs n) = Inr (filled xs n)"
    using appendsD[OF enc.copyNulls_obj[OF F], of n xs] True by simp
  then show ?thesis
    using True n appendsD[OF enc.copyNulls_obj[OF G], of n xs]
    by (simp add: append_nulls_def bits_at_def filled_def)
next
  case False
  let ?l = "length (fnulls F)"
  have le: "getNullBytes ?l \<le> n"
    using n getNullBytes_mono[of ?l "?l + length (fnulls G)"] by simp
  have "0 < ?l" using False by simp
  then have rewind: "(if ?l mod 8 \<noteq> 0 then retreat (filled (xs @ pack (fnulls F)) (n - getNullBytes ?l))
      else Inr (filled (xs @ pack (fnulls F)) (n - getNullBytes ?l))) = Inr (bits_at xs n (fnulls F) (?l div 8))"
    by (auto simp: retreat_def filled_def bits_at_def getNullBytes_eq)
  have "copyNulls (amem (obj_of F)) (nulls (obj_of F)) ?l 0 (filled xs n) =
      Inr (filled (xs @ pack (fnulls F)) (n - getNullBytes ?l))"
    using appendsD[OF enc.copyNulls_obj[OF F], of n xs] le by simp
  then show ?thesis
    unfolding append_nulls_def steps.simps
    using rewind copyNulls_behind[OF G \<open>0 < ?l\<close> n lt] False by simp
qed

section \<open>The result\<close>

lemma sum_level:
  assumes F: "wf_flat F" and k: "k < length (fdwm F)"
  shows "sum_list (level F k) = (if Suc k < length (fdwm F) then fdwm F ! Suc k else length (fnulls F))"
proof (cases "Suc k < length (fdwm F)")
  case False
  with k have "k = length (fdwm F) - 1" by simp
  with False wf_level_sum(2)[OF F] show ?thesis by simp
qed (simp add: wf_level_sum(1)[OF F])

lemma level_grows:
  assumes F: "wf_flat F" and ap: "appendable F G" and k: "Suc k = length (fdwm F) - length (fdwm G)"
  shows "level F k \<noteq> []"
proof -
  have "k < length (fdwm F)" and "length (fdwm F) - length (fdwm G) - 1 = k" using k by linarith+
  moreover from this have "fdwm F ! k \<noteq> 0" using ap k by (auto simp: appendable_def)
  ultimately show ?thesis using length_level[OF F] by force
qed

lemma length_app_level:
  assumes F: "wf_flat F" and G: "wf_flat G" and ap: "appendable F G" and k: "k < length (fdwm F)"
  shows "length (app_level F G k) = app_dwm F G k"
proof -
  have "length (fdwm G) \<le> length (fdwm F)" "0 < length (fdwm G)"
    using ap wf_dims(1)[OF G] by (simp_all add: appendable_def)
  then have k': "\<not> k < length (fdwm F) - length (fdwm G) \<Longrightarrow>
      k - (length (fdwm F) - length (fdwm G)) < length (fdwm G)"
    using k by linarith
  note ne = level_grows[OF F ap, of k]
  show ?thesis
    using k k' ne length_level[OF F k] length_level[OF G, of "k - (length (fdwm F) - length (fdwm G))"]
      wf_dims(3)[OF F]
    by (auto simp: app_level_def app_dwm_def Let_def length_inc_last)
qed

lemma sum_inc_last: "xs \<noteq> [] \<Longrightarrow> sum_list (inc_last xs) = Suc (sum_list xs)"
  by (cases xs rule: rev_cases) (simp_all add: inc_last_def)

lemma sum_app_level:
  assumes F: "wf_flat F" and G: "wf_flat G" and ap: "appendable F G" and k: "k < length (fdwm F)"
  shows "sum_list (app_level F G k) =
    (if Suc k < length (fdwm F) then app_dwm F G (Suc k) else length (fnulls F) + length (fnulls G))"
proof -
  let ?o = "length (fdwm F) - length (fdwm G)"
  have dims: "length (fdwm G) \<le> length (fdwm F)" "0 < length (fdwm G)"
    using ap wf_dims(1)[OF G] by (simp_all add: appendable_def)
  note sF = sum_level[OF F k] and sG = sum_level[OF G]
  note ne = level_grows[OF F ap, of k]
  consider "?o = 0" "k = 0" | "Suc k = ?o" | "Suc k < ?o" | "?o \<le> k" "?o \<noteq> 0 \<or> k \<noteq> 0" by linarith
  then show ?thesis
  proof cases
    case 1
    then have "sum_list (app_level F G k) = sum_list (level F 0) + sum_list (level G 0)"
      by (simp add: app_level_def level_0[OF F] level_0[OF G])
    then show ?thesis using 1 sF sG[of 0] dims by (auto simp: app_dwm_def)
  next
    case 2
    then have "sum_list (app_level F G k) = Suc (sum_list (level F k))"
      using sum_inc_last[OF ne] by (auto simp: app_level_def Let_def)
    moreover have "Suc k < length (fdwm F)" using 2 dims by linarith
    ultimately show ?thesis using 2 sF wf_dims(3)[OF G] by (auto simp: app_dwm_def Let_def)
  next
    case 3
    then have "app_level F G k = level F k" by (auto simp: app_level_def Let_def)
    then show ?thesis using 3 sF by (auto simp: app_dwm_def Let_def)
  next
    case 4
    have e: "k - ?o < length (fdwm G)" and s: "Suc k - ?o = Suc (k - ?o)"
      using 4 k dims by linarith+
    have "app_level F G k = level F k @ level G (k - ?o)"
      using 4 by (auto simp: app_level_def Let_def)
    moreover have "Suc (k - ?o) < length (fdwm G) \<longleftrightarrow> Suc k < length (fdwm F)"
      using 4 dims by linarith
    ultimately show ?thesis using 4 sF sG[OF e] s by (auto simp: app_dwm_def Let_def)
  qed
qed

lemma wf_app_array:
  assumes F: "wf_flat F" and G: "wf_flat G" and ap: "appendable F G" and fit: "fits (app_array F G)"
  shows "wf_flat (app_array F G)"
proof -
  let ?ls = "map (app_level F G) [0..<length (fdwm F)]" and ?d = "length (fdwm F)"
  have d: "0 < ?d" by (rule wf_dims(1)[OF F])
  have hd1: "app_dwm F G 0 = 1"
    using wf_dims(3)[OF F] ap by (auto simp: app_dwm_def Let_def appendable_def)
  have "chain ?ls (length (fnulls (app_array F G)))"
    using d hd1 sum_app_level[OF F G ap] length_app_level[OF F G ap]
    by (auto simp: chain_def app_array_def last_conv_nth)
  then show ?thesis
  proof (rule wf_of_chain[rotated 2])
    show "chunked (elem_size (fty (app_array F G))) (felems (app_array F G))"
      using wf_chunked[OF F] wf_chunked[OF G] ap by (simp add: app_array_def appendable_def)
    show "length (filter Not (fnulls (app_array F G))) = length (felems (app_array F G))"
      using wf_count[OF F] wf_count[OF G] by (simp add: app_array_def)
    show "if fty (app_array F G) = STRING
      then sum_list (map le_val (felems (app_array F G))) = length (fstr (app_array F G))
      else fstr (app_array F G) = []"
      using wf_strings[OF F] wf_strings[OF G] ap by (simp add: app_array_def appendable_def)
    show "fdwm (app_array F G) = map length ?ls"
      using length_app_level[OF F G ap] by (simp add: app_array_def)
  qed (use wf_bounds(7)[OF F] wf_dims(2)[OF F] fit in \<open>simp_all add: app_array_def\<close>)
qed

lemma items_app_array:
  assumes F: "wf_flat F" and G: "wf_flat G" and ty: "fty F = fty G"
  shows "items (app_array F G) = items F @ items G"
proof -
  have "strs (app_array F G) = strs F @ strs G" if "fty F = STRING"
    using wf_strings(1)[OF F that] by (simp add: strs_def app_array_def split_lens_append)
  then show ?thesis
    using wf_count[OF F] ty by (simp add: items_def app_array_def place_append)
qed

text \<open>A result whose NULL bits come from two arrays.\<close>

lemma build_two_nulls:
  assumes F: "wf_flat F" and G: "wf_flat G"
    and pre: "list_all2 appends ws yss" and suf: "list_all2 appends ws' zss"
    and out: "concat yss @ pack (fnulls F @ fnulls G) @ concat zss = out"
    and len: "n = length out" "n < 4294967296"
    and tot: "length (fnulls F) + length (fnulls G) < 4294967296"
    and tail: "(fnulls F = [] \<or> (length (fnulls F) + length (fnulls G)) mod 8 \<noteq> 0) \<or>
      concat zss = [] \<and> (\<forall>w. steps ws' w = Inr w)"
  shows "build n (ws @ [
     copyNulls (amem (obj_of F)) (nulls (obj_of F)) (length (fnulls F)) 0,
     (\<lambda>w. if length (fnulls F) mod 8 \<noteq> 0 then retreat w else Inr w),
     copyNulls (amem (obj_of G)) (nulls (obj_of G)) (length (fnulls G)) (length (fnulls F))] @ ws') = Inr out"
proof -
  let ?A = "concat yss" and ?t = "length (fnulls F) + length (fnulls G)"
  let ?N = "getNullBytes ?t" and ?bs = "fnulls F @ fnulls G"
  let ?c = "if fnulls F = [] then getNullBytes (length (fnulls G)) else Suc (?t div 8)"
  have n: "n = length ?A + ?N + length (concat zss)" using out len(1) by auto
  have A: "steps ws (newBuffer n) = Inr (filled ?A (n - length ?A))"
    using appendsD[OF appends_steps[OF pre], of n "[]"] n by (simp add: newBuffer_filled)
  have B: "append_nulls F G (filled ?A (n - length ?A)) = Inr (bits_at ?A (n - length ?A) ?bs ?c)"
    using append_nulls_result[OF F G _ tot] n by simp
  have C: "\<exists>p. steps ws' (bits_at ?A (n - length ?A) ?bs ?c) = Inr (out, p)"
  proof (cases "fnulls F = [] \<or> ?t mod 8 \<noteq> 0")
    case True
    then have "bits_at ?A (n - length ?A) ?bs ?c = filled (?A @ pack ?bs) (length (concat zss))"
      using n by (auto simp: bits_at_def filled_def getNullBytes_eq)
    then show ?thesis
      using appendsD[OF appends_steps[OF suf], of "length (concat zss)" "?A @ pack ?bs"] out
      by (simp add: filled_def)
  next
    case False
    then have z: "concat zss = []" and s: "\<And>w. steps ws' w = Inr w" using tail by blast+
    show ?thesis using n out unfolding z s by (simp add: bits_at_def)
  qed
  have "steps (ws @ [
     copyNulls (amem (obj_of F)) (nulls (obj_of F)) (length (fnulls F)) 0,
     (\<lambda>w. if length (fnulls F) mod 8 \<noteq> 0 then retreat w else Inr w),
     copyNulls (amem (obj_of G)) (nulls (obj_of G)) (length (fnulls G)) (length (fnulls F))] @ ws')
     (newBuffer n) = steps ws' (bits_at ?A (n - length ?A) ?bs ?c)"
    unfolding steps_append A ebind_simps append_nulls_def[symmetric] B ..
  then show ?thesis using C len by (auto simp: build_def finish_def)
qed

lemma sum_app_dwm:
  assumes F: "wf_flat F" and G: "wf_flat G" and le: "length (fdwm G) \<le> length (fdwm F)"
  shows "sum_list (map (app_dwm F G) [0..<length (fdwm F)]) +
      (if length (fdwm F) = length (fdwm G) then 1 else 0) = length (fwidths F) + length (fwidths G)"
proof -
  let ?d = "length (fdwm F)" and ?o = "length (fdwm F) - length (fdwm G)"
  let ?one = "\<lambda>k. if ?o = 0 \<and> k = 0 then 1 else 0 :: nat"
  let ?right = "\<lambda>k. if k < ?o then 0 else fdwm G ! (k - ?o)"
  have d: "0 < ?d" by (rule wf_dims(1)[OF F])
  have "map ?one [0..<?d] = (if ?o = 0 then 1 else 0) # replicate (?d - 1) 0"
    using d by (intro nth_equalityI) (auto simp: nth_Cons split: nat.split)
  then have one: "sum_list (map ?one [0..<?d]) = (if ?d = length (fdwm G) then 1 else 0)"
    using le by (simp add: sum_list_replicate)
  have "map ?right [0..<?d] = replicate ?o 0 @ fdwm G"
    using le by (intro nth_equalityI) (auto simp: nth_append)
  then have right: "sum_list (map ?right [0..<?d]) = sum_list (fdwm G)"
    by (simp add: sum_list_replicate)
  have "sum_list (map (app_dwm F G) [0..<?d]) + sum_list (map ?one [0..<?d]) =
      sum_list (map (\<lambda>k. app_dwm F G k + ?one k) [0..<?d])"
    by (rule sum_list_addf[symmetric])
  also have "\<dots> = sum_list (map (\<lambda>k. fdwm F ! k + ?right k) [0..<?d])"
    using wf_dims(3)[OF G] by (intro arg_cong[where f = sum_list] map_cong) (auto simp: app_dwm_def)
  also have "\<dots> = sum_list (fdwm F) + sum_list (fdwm G)"
    unfolding sum_list_addf right map_nth ..
  finally show ?thesis
    unfolding one wf_sum_dwm[OF F] wf_sum_dwm[OF G] .
qed

text \<open>
  The pointer ends one byte too far behind the NULL bits when they fill their last byte
  (and the left array is not empty), which matters only when strings follow.
\<close>

lemma appendArray_refines:
  assumes F: "wf_flat F" and G: "wf_flat G" and ap: "appendable F G" and fit: "fits (app_array F G)"
    and str: "fty F = STRING \<Longrightarrow> fnulls F = [] \<or> (length (fnulls F) + length (fnulls G)) mod 8 \<noteq> 0"
  shows "appendArray (obj_of F) (obj_of G) = Inr (encode (app_array F G))"
proof -
  let ?R = "app_array F G" and ?d = "length (fdwm F)"
  have R: "wf_flat ?R" by (rule wf_app_array[OF F G ap fit])
  have ty: "fty G = fty F" and le: "length (fdwm G) \<le> ?d" using ap by (simp_all add: appendable_def)
  have small_dwm: "app_dwm F G k < 4294967296" if "k < ?d" for k
    using smallD[OF wf_bounds(8)[OF R], of k] that by (simp add: app_array_def)
  have small_lv: "small (app_level F G k)" if "k < ?d" for k
    using wf_bounds(9)[OF R] that by (auto simp: small_def app_array_def)
  note len = length_encode[OF wf_chunked[OF R]]
  have tot: "length (fnulls F) + length (fnulls G) < 4294967295"
    and fe: "length (felems F) + length (felems G) < 4294967296"
    and fs: "length (fstr F) + length (fstr G) < 4294967296"
    using wf_bounds[OF R] by (simp_all add: app_array_def)
  have wsum: "length (fwidths ?R) + (if ?d = length (fdwm G) then 1 else 0) =
      length (fwidths F) + length (fwidths G)"
    using sum_app_dwm[OF F G le] wf_sum_dwm[OF R] by (simp add: app_array_def)
  have wlt: "length (fwidths ?R) < 4294967296" by (rule wf_bounds(2)[OF R])
  have lw: "length (fwidths F) + length (fwidths G) < 4294967296"
    using wsum len wf_bounds(6)[OF R] by (simp split: if_splits)
  have size: "getStringSize ?d (length (felems F) + length (felems G)) (length (fwidths ?R))
      (getNullBytes (length (fnulls F) + length (fnulls G))) (length (fstr F) + length (fstr G)) (type_id (fty F)) =
      Inr (length (encode ?R))"
    using len wf_dims(2)[OF F] by (simp add: getStringSize_def app_array_def algebra_simps)
  have wsz: "(if ?d = length (fdwm G) then u32_sub (u32 (length (fwidths F) + length (fwidths G))) 1
      else u32 (length (fwidths F) + length (fwidths G))) = length (fwidths ?R)"
    using wsum lw by auto
  note [simp] = F G ty le enc.obj_dims enc.obj_type enc.obj_size
  have final: "build (length (encode ?R)) ([
          writeToBuffer ARRAYHEADER,
          put8 (type_id (fty F)),
          put32 ?d,
          put32 (length (felems F) + length (felems G)),
          copyToBuffer (amem (obj_of F)) (indices (obj_of F)) (4 * ?d),
          append_width_sizes (obj_of F) (obj_of G),
          append_widths (obj_of F) (obj_of G),
          copyElements (obj_of F),
          copyElements (obj_of G)] @ [
          copyNulls (amem (obj_of F)) (nulls (obj_of F)) (length (fnulls F)) 0,
          (\<lambda>w. if length (fnulls F) mod 8 \<noteq> 0 then retreat w else Inr w),
          copyNulls (amem (obj_of G)) (nulls (obj_of G)) (length (fnulls G)) (length (fnulls F))] @
        [copyStrings (obj_of F), copyStrings (obj_of G)]) = Inr (encode ?R)"
  proof (rule build_two_nulls[OF F G])
    show "list_all2 appends
       [writeToBuffer ARRAYHEADER, put8 (type_id (fty F)), put32 ?d,
        put32 (length (felems F) + length (felems G)),
        copyToBuffer (amem (obj_of F)) (indices (obj_of F)) (4 * ?d),
        append_width_sizes (obj_of F) (obj_of G), append_widths (obj_of F) (obj_of G),
        copyElements (obj_of F), copyElements (obj_of G)]
       [ARRAYHEADER, [of_nat (type_id (fty F))], le_bytes 4 ?d,
        le_bytes 4 (length (felems F) + length (felems G)), u32s (fidx F),
        u32s (map (app_dwm F G) [0..<?d]), u32s (concat (map (app_level F G) [0..<?d])),
        concat (felems F), concat (felems G)]"
      by (simp add: buf_intros append_width_sizes_appends[OF F G le small_dwm]
          append_widths_appends[OF F G ap small_lv])
    show "list_all2 appends [copyStrings (obj_of F), copyStrings (obj_of G)] [fstr F, fstr G]"
      by (simp add: buf_intros)
    show "length (encode ?R) < 4294967296" by (rule wf_bounds(6)[OF R])
    show "(fnulls F = [] \<or> (length (fnulls F) + length (fnulls G)) mod 8 \<noteq> 0) \<or>
      concat [fstr F, fstr G] = [] \<and>
      (\<forall>w. steps [copyStrings (obj_of F), copyStrings (obj_of G)] w = Inr w)"
      using str wf_strings(2)[OF F] wf_strings(2)[OF G] by (cases "fty F = STRING") (simp_all add: copyStrings_def)
  qed (use tot in \<open>simp_all add: encode_def app_array_def\<close>)
  show ?thesis
    using final tot by (simp add: appendArray_def acc_simps Let_def size fe fs wsz leD[OF le])
qed

section \<open>Properties\<close>





end
