(* ===== verification/IEEE_Float.thy ===== *)
theory IEEE_Float
  imports Std_Strings
begin

text \<open>
  The floating point types of the array elements: \<^verbatim>\<open>float\<close>, \<^verbatim>\<open>double\<close> and \<^verbatim>\<open>__bf16\<close> as IEEE 754
  formats on bit patterns. Every operation decodes its operands, computes exactly and rounds
  once to nearest, ties to even. Conversions, \<^verbatim>\<open>std::to_string\<close> and \<^verbatim>\<open>std::stof\<close>/\<^verbatim>\<open>std::stod\<close>
  work on the same decoded values. Sign and payload of a NaN are not modelled: every NaN result
  is the quiet NaN without payload.
\<close>

section \<open>Formats and values\<close>

text \<open>\<open>Fmt e m\<close> has \<open>e\<close> exponent and \<open>m\<close> fraction bits.\<close>

datatype fmt = Fmt (ebits: nat) (mbits: nat)

definition binary32 :: fmt where "binary32 = Fmt 8 23"
definition binary64 :: fmt where "binary64 = Fmt 11 52"
definition bfloat16 :: fmt where "bfloat16 = Fmt 8 7"

definition emin :: "fmt \<Rightarrow> int" where
  "emin F = 2 - 2 ^ (ebits F - 1) - int (mbits F)"

text \<open>\<open>FFin s m e\<close> is \<open>m * 2^e\<close>, negative when \<open>s\<close>; zeros are signed.\<close>

datatype fval = FNaN | FInf bool | FFin bool nat int

definition inf_bits :: "fmt \<Rightarrow> nat" where
  "inf_bits F = (2 ^ ebits F - 1) * 2 ^ mbits F"

definition sign_bit :: "fmt \<Rightarrow> nat" where
  "sign_bit F = 2 ^ (ebits F + mbits F)"

definition fdecode :: "fmt \<Rightarrow> nat \<Rightarrow> fval" where
  "fdecode F b =
     (let s = (b div sign_bit F) mod 2 = 1; r = b mod sign_bit F;
          ex = r div 2 ^ mbits F; fr = r mod 2 ^ mbits F
      in if r > inf_bits F then FNaN
         else if r = inf_bits F then FInf s
         else if ex = 0 then FFin s fr (emin F)
         else FFin s (2 ^ mbits F + fr) (emin F + int ex - 1))"

section \<open>Rounding\<close>

fun bitlen :: "nat \<Rightarrow> nat" where
  "bitlen n = (if n = 0 then 0 else Suc (bitlen (n div 2)))"

declare bitlen.simps [simp del]

text \<open>\<open>n / d\<close> scaled by a power of two, as a fraction again.\<close>

definition scale2 :: "int \<Rightarrow> nat \<times> nat \<Rightarrow> nat \<times> nat" where
  "scale2 k q = (if 0 \<le> k then (fst q * 2 ^ nat k, snd q) else (fst q, snd q * 2 ^ nat (- k)))"

definition floor_log2 :: "nat \<Rightarrow> nat \<Rightarrow> int" where
  "floor_log2 n d =
     (let k = int (bitlen n) - int (bitlen d); (a, b) = scale2 (- k) (n, d) in if b \<le> a then k else k - 1)"

text \<open>Nearest integer to \<open>n / d\<close>, ties to even.\<close>

definition round_even :: "nat \<times> nat \<Rightarrow> nat" where
  "round_even q =
     (let m = fst q div snd q; r = fst q mod snd q
      in if 2 * r > snd q \<or> (2 * r = snd q \<and> odd m) then m + 1 else m)"

text \<open>
  The bits of the number nearest to \<open>n / d * 2^k\<close>. The biased exponent and the fraction are
  added, so a carry out of the fraction moves to the next exponent.
\<close>

definition fround :: "fmt \<Rightarrow> bool \<Rightarrow> nat \<Rightarrow> nat \<Rightarrow> int \<Rightarrow> nat" where
  "fround F s n d k =
     (if s then sign_bit F else 0) +
     (if n = 0 then 0
      else let e = max (emin F) (floor_log2 n d + k - int (mbits F));
               m = round_even (scale2 (k - e) (n, d))
           in min (inf_bits F) (m + nat (e - emin F) * 2 ^ mbits F))"

definition fencode :: "fmt \<Rightarrow> fval \<Rightarrow> nat" where
  "fencode F v = (case v of
      FNaN \<Rightarrow> inf_bits F + 2 ^ (mbits F - 1)
    | FInf s \<Rightarrow> (if s then sign_bit F else 0) + inf_bits F
    | FFin s m e \<Rightarrow> fround F s m 1 e)"

section \<open>Arithmetic\<close>

fun fneg :: "fval \<Rightarrow> fval" where
  "fneg FNaN = FNaN"
| "fneg (FInf s) = FInf (\<not> s)"
| "fneg (FFin s m e) = FFin (\<not> s) m e"

definition sgn_nat :: "bool \<Rightarrow> nat \<Rightarrow> int" where
  "sgn_nat s m = (if s then - int m else int m)"

fun fadd :: "fval \<Rightarrow> fval \<Rightarrow> fval" where
  "fadd FNaN y = FNaN"
| "fadd x FNaN = FNaN"
| "fadd (FInf s) (FInf t) = (if s = t then FInf s else FNaN)"
| "fadd (FInf s) (FFin _ _ _) = FInf s"
| "fadd (FFin _ _ _) (FInf t) = FInf t"
| "fadd (FFin s m e) (FFin t n f) =
     (let k = min e f;
          c = sgn_nat s (m * 2 ^ nat (e - k)) + sgn_nat t (n * 2 ^ nat (f - k))
      in FFin (if c = 0 then s \<and> t else c < 0) (nat \<bar>c\<bar>) k)"

definition fsub :: "fval \<Rightarrow> fval \<Rightarrow> fval" where
  "fsub x y = fadd x (fneg y)"

fun fmul :: "fval \<Rightarrow> fval \<Rightarrow> fval" where
  "fmul FNaN y = FNaN"
| "fmul x FNaN = FNaN"
| "fmul (FInf s) (FInf t) = FInf (s \<noteq> t)"
| "fmul (FInf s) (FFin t n _) = (if n = 0 then FNaN else FInf (s \<noteq> t))"
| "fmul (FFin s m _) (FInf t) = (if m = 0 then FNaN else FInf (s \<noteq> t))"
| "fmul (FFin s m e) (FFin t n f) = FFin (s \<noteq> t) (m * n) (e + f)"

text \<open>A quotient is not a binary fraction, so division rounds at once.\<close>

fun fdiv :: "fmt \<Rightarrow> fval \<Rightarrow> fval \<Rightarrow> nat" where
  "fdiv F FNaN y = fencode F FNaN"
| "fdiv F x FNaN = fencode F FNaN"
| "fdiv F (FInf s) (FInf t) = fencode F FNaN"
| "fdiv F (FInf s) (FFin t _ _) = fencode F (FInf (s \<noteq> t))"
| "fdiv F (FFin s _ _) (FInf t) = fencode F (FFin (s \<noteq> t) 0 0)"
| "fdiv F (FFin s m e) (FFin t n f) =
     (if n = 0 then fencode F (if m = 0 then FNaN else FInf (s \<noteq> t))
      else fround F (s \<noteq> t) m n (e - f))"

text \<open>\<open>x > y\<close>; false when one is NaN.\<close>

fun fgreater :: "fval \<Rightarrow> fval \<Rightarrow> bool" where
  "fgreater (FInf s) (FInf t) = (\<not> s \<and> t)"
| "fgreater (FInf s) (FFin _ _ _) = (\<not> s)"
| "fgreater (FFin _ _ _) (FInf t) = t"
| "fgreater (FFin s m e) (FFin t n f) =
     (let k = min e f in
      sgn_nat t (n * 2 ^ nat (f - k)) < sgn_nat s (m * 2 ^ nat (e - k)))"
| "fgreater _ _ = False"

section \<open>Conversions\<close>

definition fval_of_int :: "int \<Rightarrow> fval" where
  "fval_of_int i = FFin (i < 0) (nat \<bar>i\<bar>) 0"

text \<open>Conversion to a signed integer truncates; a value that does not fit is undefined.\<close>

definition int_of_fval :: "nat \<Rightarrow> fval \<Rightarrow> int res" where
  "int_of_fval bits v = (case v of
      FFin s m e \<Rightarrow>
        (let i = sgn_nat s (if 0 \<le> e then m * 2 ^ nat e else m div 2 ^ nat (- e))
         in if in_signed bits i then Inr i else Inl Undefined)
    | _ \<Rightarrow> Inl Undefined)"

text \<open>\<^verbatim>\<open>std::to_string\<close>: six decimals.\<close>

definition pad_nat :: "nat \<Rightarrow> nat \<Rightarrow> string" where
  "pad_nat k n = replicate (k - length (show_nat n)) (CHR ''0'') @ show_nat n"

fun fshow :: "fval \<Rightarrow> string" where
  "fshow FNaN = ''nan''"
| "fshow (FInf s) = (if s then ''-inf'' else ''inf'')"
| "fshow (FFin s m e) =
     (let q = round_even (scale2 e (m * 1000000, 1))
      in (if s then ''-'' else '''') @ show_nat (q div 1000000) @ ''.'' @ pad_nat 6 (q mod 1000000))"

section \<open>Parsing\<close>

definition to_lower :: "char \<Rightarrow> char" where
  "to_lower c = (if 65 \<le> (of_char c :: nat) \<and> (of_char c :: nat) \<le> 90 then char_of ((of_char c :: nat) + 32) else c)"

definition hex_val :: "char \<Rightarrow> nat option" where
  "hex_val c =
     (let l = of_char (to_lower c) :: nat in
      if isdigit c then Some (digit_val c)
      else if 97 \<le> l \<and> l \<le> 102 then Some (l - 87) else None)"

definition digit_in :: "nat \<Rightarrow> char \<Rightarrow> bool" where
  "digit_in base c = (case hex_val c of None \<Rightarrow> False | Some v \<Rightarrow> v < base)"

definition nat_in :: "nat \<Rightarrow> string \<Rightarrow> nat" where
  "nat_in base s = foldl (\<lambda>acc c. base * acc + the (hex_val c)) 0 s"

text \<open>An exponent: its letter, a sign, digits; what does not look like one is left unread.\<close>

definition exponent :: "char \<Rightarrow> string \<Rightarrow> int" where
  "exponent letter s =
     (if s \<noteq> [] \<and> to_lower (hd s) = letter then
        let t = tl s;
            neg = (t \<noteq> [] \<and> hd t = CHR ''-'');
            u = (if t \<noteq> [] \<and> (hd t = CHR ''-'' \<or> hd t = CHR ''+'') then tl t else t);
            n = int (nat_in 10 (takeWhile isdigit u))
        in if neg then - n else n
      else 0)"

text \<open>The digits before and behind the point and the rest, for the given base.\<close>

definition mantissa :: "nat \<Rightarrow> string \<Rightarrow> string \<times> string \<times> string" where
  "mantissa base s =
     (let ds = takeWhile (digit_in base) s; r = dropWhile (digit_in base) s
      in if r \<noteq> [] \<and> hd r = CHR ''.'' then
           (ds, takeWhile (digit_in base) (tl r), dropWhile (digit_in base) (tl r))
         else (ds, [], r))"

text \<open>
  \<^verbatim>\<open>strtof\<close> and \<^verbatim>\<open>strtod\<close> as \<^verbatim>\<open>std::stof\<close> and \<^verbatim>\<open>std::stod\<close> use them: no conversion is an invalid
  argument; overflow, and a result that is tiny and not exact, is out of range.
\<close>

definition in_range :: "fmt \<Rightarrow> bool \<Rightarrow> nat \<Rightarrow> nat \<Rightarrow> int \<Rightarrow> nat res" where
  "in_range F s n d k =
     (let b = fround F s n d k; r = b mod sign_bit F; (a, c) = scale2 (k - emin F) (n, d)
      in if r = inf_bits F \<or> (n \<noteq> 0 \<and> r < 2 ^ mbits F \<and> a mod c \<noteq> 0) then Inl OutOfRange
         else Inr b)"

definition sto_float :: "fmt \<Rightarrow> string \<Rightarrow> nat res" where
  "sto_float F str =
     (let t = dropWhile isspace str;
          s = (t \<noteq> [] \<and> hd t = CHR ''-'');
          u = (if t \<noteq> [] \<and> (hd t = CHR ''-'' \<or> hd t = CHR ''+'') then tl t else t);
          l = map to_lower u
      in if take 3 l = ''inf'' then Inr (fencode F (FInf s))
         else if take 3 l = ''nan'' then Inr (fencode F FNaN)
         else case (if take 2 l = ''0x'' then mantissa 16 (drop 2 u) else ([], [], [])) of
           (hs, hf, hr) \<Rightarrow>
             if hs @ hf \<noteq> [] then
               in_range F s (nat_in 16 (hs @ hf)) 1 (exponent (CHR ''p'') hr - 4 * int (length hf))
             else case mantissa 10 u of (ds, fs, r) \<Rightarrow>
               if ds @ fs = [] then Inl InvalidArgument
               else
                 let m = nat_in 10 (ds @ fs); k = exponent (CHR ''e'') r - int (length fs)
                 in if 0 \<le> k then in_range F s (m * 10 ^ nat k) 1 0
                    else in_range F s m (10 ^ nat (- k)) 0)"

end
