(* ===== verification/Elem_Values.thy ===== *)
theory Elem_Values
  imports IEEE_Float Array_Append
begin

text \<open>
  The values of the element types as the C++ code computes with them: the bytes of an
  \<^verbatim>\<open>int32_t\<close>, \<^verbatim>\<open>int64_t\<close>, \<^verbatim>\<open>__bf16\<close>, \<^verbatim>\<open>float\<close> or \<^verbatim>\<open>double\<close>, its arithmetic (a signed overflow or
  a division by zero is \<open>Undefined\<close>), comparison, conversions, text.
\<close>

section \<open>Reading and making values\<close>

fun fmt_of :: "ArrayType \<Rightarrow> fmt" where
  "fmt_of BFLOAT = bfloat16"
| "fmt_of FLOAT = binary32"
| "fmt_of T = binary64"

definition is_int :: "ArrayType \<Rightarrow> bool" where
  "is_int T \<longleftrightarrow> T = INTEGER32 \<or> T = INTEGER64"

definition elem_bits :: "ArrayType \<Rightarrow> nat" where
  "elem_bits T = 8 * elem_size T"

definition int_of_elem :: "ArrayType \<Rightarrow> bytes \<Rightarrow> int" where
  "int_of_elem T x = to_signed (elem_bits T) (le_val x)"

definition elem_of_int :: "ArrayType \<Rightarrow> int \<Rightarrow> bytes res" where
  "elem_of_int T i =
     (if in_signed (elem_bits T) i then Inr (le_bytes (elem_size T) (of_signed (elem_bits T) i))
      else Inl Undefined)"

definition fval_of_elem :: "ArrayType \<Rightarrow> bytes \<Rightarrow> fval" where
  "fval_of_elem T x = fdecode (fmt_of T) (le_val x)"

definition elem_of_bits :: "ArrayType \<Rightarrow> nat \<Rightarrow> bytes" where
  "elem_of_bits T b = le_bytes (elem_size T) b"

text \<open>\<^verbatim>\<open>__bf16\<close> arithmetic is done in \<^verbatim>\<open>float\<close> and rounded to \<^verbatim>\<open>__bf16\<close> afterwards.\<close>

definition arith_fmt :: "ArrayType \<Rightarrow> fmt" where
  "arith_fmt T = (if T = BFLOAT then binary32 else fmt_of T)"

definition elem_of_arith :: "ArrayType \<Rightarrow> nat \<Rightarrow> bytes" where
  "elem_of_arith T b =
     elem_of_bits T (if T = BFLOAT then fencode bfloat16 (fdecode binary32 b) else b)"

section \<open>Arithmetic on two values\<close>

definition elem_add :: "ArrayType \<Rightarrow> bytes \<Rightarrow> bytes \<Rightarrow> bytes res" where
  "elem_add T x y =
     (if is_int T then elem_of_int T (int_of_elem T x + int_of_elem T y)
      else Inr (elem_of_arith T (fencode (arith_fmt T) (fadd (fval_of_elem T x) (fval_of_elem T y)))))"

definition elem_sub :: "ArrayType \<Rightarrow> bytes \<Rightarrow> bytes \<Rightarrow> bytes res" where
  "elem_sub T x y =
     (if is_int T then elem_of_int T (int_of_elem T x - int_of_elem T y)
      else Inr (elem_of_arith T (fencode (arith_fmt T) (fsub (fval_of_elem T x) (fval_of_elem T y)))))"

definition elem_mul :: "ArrayType \<Rightarrow> bytes \<Rightarrow> bytes \<Rightarrow> bytes res" where
  "elem_mul T x y =
     (if is_int T then elem_of_int T (int_of_elem T x * int_of_elem T y)
      else Inr (elem_of_arith T (fencode (arith_fmt T) (fmul (fval_of_elem T x) (fval_of_elem T y)))))"

text \<open>Integer division truncates toward zero.\<close>

definition trunc_div :: "int \<Rightarrow> int \<Rightarrow> int" where
  "trunc_div i j = (if (i < 0) = (j < 0) then \<bar>i\<bar> div \<bar>j\<bar> else - (\<bar>i\<bar> div \<bar>j\<bar>))"

definition elem_div :: "ArrayType \<Rightarrow> bytes \<Rightarrow> bytes \<Rightarrow> bytes res" where
  "elem_div T x y =
     (if is_int T then
        if int_of_elem T y = 0 then Inl Undefined
        else elem_of_int T (trunc_div (int_of_elem T x) (int_of_elem T y))
      else Inr (elem_of_arith T (fdiv (arith_fmt T) (fval_of_elem T x) (fval_of_elem T y))))"

definition elem_greater :: "ArrayType \<Rightarrow> bytes \<Rightarrow> bytes \<Rightarrow> bool" where
  "elem_greater T x y =
     (if T = STRING then le_val y < le_val x
      else if is_int T then int_of_elem T y < int_of_elem T x
      else fgreater (fval_of_elem T x) (fval_of_elem T y))"

section \<open>Conversion and text\<close>

text \<open>\<^verbatim>\<open>static_cast\<close> between the numeric types: narrowing integers wraps around.\<close>

definition elem_cast :: "ArrayType \<Rightarrow> ArrayType \<Rightarrow> bytes \<Rightarrow> bytes res" where
  "elem_cast S T x =
     (if is_int S then
        if is_int T then Inr (le_bytes (elem_size T) (of_signed (elem_bits T) (int_of_elem S x)))
        else if T = BFLOAT then
          Inr (elem_of_arith BFLOAT (fencode binary32 (fval_of_int (int_of_elem S x))))
        else Inr (elem_of_bits T (fencode (fmt_of T) (fval_of_int (int_of_elem S x))))
      else if is_int T then ebind (int_of_fval (elem_bits T) (fval_of_elem S x)) (elem_of_int T)
      else Inr (elem_of_bits T (fencode (fmt_of T) (fval_of_elem S x))))"

definition elem_text :: "ArrayType \<Rightarrow> bytes \<Rightarrow> string" where
  "elem_text T x =
     (if is_int T then show_int (int_of_elem T x)
      else if T = STRING then show_nat (le_val x)
      else fshow (fval_of_elem T x))"

text \<open>The bytes of a value parsed from text, as \<^verbatim>\<open>std::stoi\<close>, \<^verbatim>\<open>std::stol\<close>, \<^verbatim>\<open>std::stof\<close>, \<^verbatim>\<open>std::stod\<close> give it.\<close>

definition elem_parse :: "ArrayType \<Rightarrow> string \<Rightarrow> bytes res" where
  "elem_parse T s =
     (if is_int T then ebind (sto_int (elem_bits T) s) (elem_of_int T)
      else if T = BFLOAT then
        ebind (sto_float binary32 s) (\<lambda>b. Inr (elem_of_bits BFLOAT (fencode bfloat16 (fdecode binary32 b))))
      else ebind (sto_float (fmt_of T) s) (\<lambda>b. Inr (elem_of_bits T b)))"

section \<open>Facts\<close>

lemma is_int_simps [simp]:
  "is_int INTEGER32" "is_int INTEGER64" "\<not> is_int BFLOAT" "\<not> is_int FLOAT" "\<not> is_int DOUBLE" "\<not> is_int STRING"
  by (simp_all add: is_int_def)

lemma length_elem_of_int: "elem_of_int T i = Inr z \<Longrightarrow> length z = elem_size T"
  by (auto simp: elem_of_int_def split: if_splits)

lemma length_elem_of_bits [simp]: "length (elem_of_bits T b) = elem_size T"
  by (simp add: elem_of_bits_def)

lemma length_elem_of_arith [simp]: "length (elem_of_arith T b) = elem_size T"
  by (simp add: elem_of_arith_def)

lemma length_elem_ops:
  "elem_add T x y = Inr z \<Longrightarrow> length z = elem_size T"
  "elem_sub T x y = Inr z \<Longrightarrow> length z = elem_size T"
  "elem_mul T x y = Inr z \<Longrightarrow> length z = elem_size T"
  "elem_div T x y = Inr z \<Longrightarrow> length z = elem_size T"
  by (auto simp: elem_add_def elem_sub_def elem_mul_def elem_div_def length_elem_of_int split: if_splits)

lemma length_elem_cast: "elem_cast S T x = Inr z \<Longrightarrow> length z = elem_size T"
  by (auto simp: elem_cast_def ebind_eq_Inr_iff length_elem_of_int split: if_splits)

lemma length_elem_parse: "elem_parse T s = Inr z \<Longrightarrow> length z = elem_size T"
  by (auto simp: elem_parse_def ebind_eq_Inr_iff length_elem_of_int split: if_splits)

text \<open>The integer types hold exactly the integers of their range.\<close>

lemma elem_bits_int: "is_int T \<Longrightarrow> elem_bits T = 32 \<or> elem_bits T = 64"
  by (auto simp: is_int_def elem_bits_def)

lemma int_of_elem_of_int:
  assumes "elem_of_int T i = Inr x"
  shows "int_of_elem T x = i" and "in_signed (elem_bits T) i"
proof -
  have r: "in_signed (elem_bits T) i" and x: "x = le_bytes (elem_size T) (of_signed (elem_bits T) i)"
    using assms by (simp_all add: elem_of_int_def split: if_splits)
  show "in_signed (elem_bits T) i" by (rule r)
  have "of_signed (elem_bits T) i < 256 ^ elem_size T"
    using of_signed_less[of "elem_bits T" i] by (simp add: elem_bits_def power_mult)
  then show "int_of_elem T x = i"
    using to_signed_of_signed[OF _ r] by (simp add: int_of_elem_def x elem_bits_def)
qed

lemma elem_parse_show:
  assumes "is_int T" and "in_signed (elem_bits T) i"
  shows "\<exists>x. elem_parse T (show_int i) = Inr x \<and> int_of_elem T x = i"
proof -
  have "elem_parse T (show_int i) = elem_of_int T i"
    using assms by (simp add: elem_parse_def sto_int_show_int)
  moreover obtain x where "elem_of_int T i = Inr x" using assms(2) by (simp add: elem_of_int_def)
  ultimately show ?thesis using int_of_elem_of_int(1) by auto
qed

end
