(* ===== verification/Array_Arith.thy ===== *)
theory Array_Arith
  imports Elem_Values
begin

text \<open>
  Arithmetic on arrays: the operators of \<^verbatim>\<open>ArrayArithmetic.h\<close>, the generic executors of
  \<^verbatim>\<open>Array.tpp\<close>, and \<^verbatim>\<open>ArrayArithmetic.cpp\<close> and \<^verbatim>\<open>ArrayActivation.cpp\<close>. The BLAS routine behind
  \<^verbatim>\<open>Gemm\<close> and the exponential function of the C math library are parameters.
\<close>

section \<open>The operators\<close>

text \<open>
  \<^verbatim>\<open>Operator(left, right, size, buffer, scalarLeft, scalarRight)\<close>: \<open>f\<close> combines the values at
  the two pointers; a pointer to a scalar stays where it is.
\<close>

definition binary_loop ::
  "(bytes \<Rightarrow> bytes \<Rightarrow> bytes res) \<Rightarrow> nat \<Rightarrow> bytes \<Rightarrow> nat \<Rightarrow> bytes \<Rightarrow> nat \<Rightarrow> nat \<Rightarrow> bool \<Rightarrow> bool \<Rightarrow> wbuf \<Rightarrow> wbuf res" where
  "binary_loop f sz ml left mr right n scalarLeft scalarRight w =
     ebind (mfold (\<lambda>i (w, left, right).
         ebind (load ml left sz) (\<lambda>x.
         ebind (load mr right sz) (\<lambda>y.
         ebind (f x y) (\<lambda>result.
         ebind (writeToBuffer result w) (\<lambda>w.
         Inr (w, if scalarLeft then left else left + sz, if scalarRight then right else right + sz))))))
       [0..<n] (w, left, right))
     (\<lambda>(w, _, _). Inr w)"

definition ArrayAddOperator where
  "ArrayAddOperator T = binary_loop (elem_add T) (elem_size T)"

definition ArraySubOperator where
  "ArraySubOperator T = binary_loop (elem_sub T) (elem_size T)"

definition ArrayMulOperator where
  "ArrayMulOperator T = binary_loop (elem_mul T) (elem_size T)"

definition ArrayDivOperator where
  "ArrayDivOperator T = binary_loop (elem_div T) (elem_size T)"

type_synonym operator =
  "ArrayType \<Rightarrow> bytes \<Rightarrow> nat \<Rightarrow> bytes \<Rightarrow> nat \<Rightarrow> nat \<Rightarrow> bool \<Rightarrow> bool \<Rightarrow> wbuf \<Rightarrow> wbuf res"

section \<open>The executors\<close>

text \<open>The operands are memories with an offset; \<open>t\<close> is the type number.\<close>

definition executeBinaryOperation ::
  "operator \<Rightarrow> bytes \<Rightarrow> nat \<Rightarrow> bytes \<Rightarrow> nat \<Rightarrow> nat \<Rightarrow> nat \<Rightarrow> bool \<Rightarrow> bool \<Rightarrow> wbuf \<Rightarrow> wbuf res" where
  "executeBinaryOperation OP ml left mr right n t scalarLeft scalarRight w =
     (case type_of t of
        Some INTEGER32 \<Rightarrow> OP INTEGER32 ml left mr right n scalarLeft scalarRight w
      | Some INTEGER64 \<Rightarrow> OP INTEGER64 ml left mr right n scalarLeft scalarRight w
      | Some BFLOAT \<Rightarrow> OP BFLOAT ml left mr right n scalarLeft scalarRight w
      | Some FLOAT \<Rightarrow> OP FLOAT ml left mr right n scalarLeft scalarRight w
      | Some DOUBLE \<Rightarrow> OP DOUBLE ml left mr right n scalarLeft scalarRight w
      | _ \<Rightarrow> Inl (RuntimeError ''Array-Type is not supported''))"

definition executeScalarOperation :: "operator \<Rightarrow> array_obj \<Rightarrow> bytes \<Rightarrow> bool \<Rightarrow> bytes res" where
  "executeScalarOperation OP a value isLeft =
     ebind (getSize a True) (\<lambda>totalElements.
     ebind (getWidthSize a) (\<lambda>widthSize.
     ebind (getStringSize (dimensions a) (asize a) widthSize (getNullBytes totalElements) 0 (atype a)) (\<lambda>n.
     build n [
       writeToBuffer ARRAYHEADER,
       put8 (atype a),
       put32 (dimensions a),
       put32 (asize a),
       copyToBuffer (amem a) (indices a) (4 * dimensions a),
       copyToBuffer (amem a) (dimensionWidthMap a) (4 * dimensions a),
       copyToBuffer (amem a) (widths a) (4 * widthSize),
       (if isLeft then executeBinaryOperation OP value 0 (amem a) (elements a) (asize a) (atype a) True False
        else executeBinaryOperation OP (amem a) (elements a) value 0 (asize a) (atype a) False True),
       copyNulls (amem a) (nulls a) totalElements 0])))"

text \<open>The common part of the four operators on two arrays.\<close>

definition elementwise :: "operator \<Rightarrow> array_obj \<Rightarrow> array_obj \<Rightarrow> bytes res" where
  "elementwise OP a b =
     ebind (getWidthSize a) (\<lambda>widthSize.
     ebind (getStringSize (dimensions a) (asize a) widthSize (getNullBytes (asize a)) 0 (atype a)) (\<lambda>n.
     build n [
       writeToBuffer ARRAYHEADER,
       put8 (atype a),
       put32 (dimensions a),
       put32 (asize a),
       copyToBuffer (amem a) (indices a) (4 * dimensions a),
       copyToBuffer (amem a) (dimensionWidthMap a) (4 * dimensions a),
       copyToBuffer (amem a) (widths a) (4 * widthSize),
       executeBinaryOperation OP (amem a) (elements a) (amem b) (elements b) (asize a) (atype a) False False,
       copyNulls (amem a) (nulls a) (asize a) 0]))"

definition array_add :: "array_obj \<Rightarrow> array_obj \<Rightarrow> bytes res" where
  "array_add a b =
     (if \<not> isNumericType (atype a)
      then Inl (RuntimeError ''Array-Add: Given element type is not numeric'')
      else if atype a \<noteq> atype b
      then Inl (RuntimeError ''Array-Add: Arrays have different types'')
      else elementwise ArrayAddOperator a b)"

definition array_sub :: "array_obj \<Rightarrow> array_obj \<Rightarrow> bytes res" where
  "array_sub a b =
     (if \<not> isNumericType (atype a)
      then Inl (RuntimeError ''Array-Sub: Given element type is not numeric'')
      else if atype a \<noteq> atype b
      then Inl (RuntimeError ''Array-Sub: Arrays have different types'')
      else elementwise ArraySubOperator a b)"

definition array_mul :: "array_obj \<Rightarrow> array_obj \<Rightarrow> bytes res" where
  "array_mul a b =
     (if \<not> isNumericType (atype a)
      then Inl (RuntimeError ''Array-Mul: Given element type is not numeric'')
      else if atype a \<noteq> atype b
      then Inl (RuntimeError ''Array-Mul: Arrays have different types'')
      else elementwise ArrayMulOperator a b)"

text \<open>Division is the one operator that keeps its checks on NULLs and structure.\<close>

definition array_div :: "array_obj \<Rightarrow> array_obj \<Rightarrow> bytes res" where
  "array_div a b =
     (if \<not> isNumericType (atype a)
      then Inl (RuntimeError ''Array-Div: Given element type is not numeric'')
      else if atype a \<noteq> atype b
      then Inl (RuntimeError ''Array-Div: Arrays have different types'')
      else
        ebind (hasNullValue a) (\<lambda>n1. ebind (if n1 then Inr True else hasNullValue b) (\<lambda>n.
        if n then Inl (RuntimeError ''Array-Div: NULL values are not allowed'')
        else ebind (hasEmptyValue a) (\<lambda>e1. ebind (if e1 then Inr True else hasEmptyValue b) (\<lambda>e.
        if e then Inl (RuntimeError ''Array-Div: Empty array elements are not allowed'')
        else ebind (equalWidths a (amem b) (widths b)) (\<lambda>same.
        if \<not> same then Inl (RuntimeError ''Array-Div: Given arrays have different structures'')
        else elementwise ArrayDivOperator a b))))))"

text \<open>The four scalar operations, one guard per type; all of them name addition in their message.\<close>

definition scalar_guard :: "ArrayType \<Rightarrow> array_obj \<Rightarrow> bytes res \<Rightarrow> bytes res" where
  "scalar_guard T a r =
     (if atype a \<noteq> type_id T
      then Inl (RuntimeError (''Array-Add: Array elements are not of type '' @ type_name T)) else r)"

definition scalarAdd :: "ArrayType \<Rightarrow> array_obj \<Rightarrow> bytes \<Rightarrow> bytes res" where
  "scalarAdd T a value = scalar_guard T a (executeScalarOperation ArrayAddOperator a value True)"

definition scalarSub :: "ArrayType \<Rightarrow> array_obj \<Rightarrow> bytes \<Rightarrow> bool \<Rightarrow> bytes res" where
  "scalarSub T a value isLeft = scalar_guard T a (executeScalarOperation ArraySubOperator a value isLeft)"

definition scalarMul :: "ArrayType \<Rightarrow> array_obj \<Rightarrow> bytes \<Rightarrow> bytes res" where
  "scalarMul T a value = scalar_guard T a (executeScalarOperation ArrayMulOperator a value True)"

definition scalarDiv :: "ArrayType \<Rightarrow> array_obj \<Rightarrow> bytes \<Rightarrow> bool \<Rightarrow> bytes res" where
  "scalarDiv T a value isLeft = scalar_guard T a (executeScalarOperation ArrayDivOperator a value isLeft)"

section \<open>Matrix multiplication\<close>

text \<open>
  \<open>gemm T rowsA columnsB rowsB A B\<close> is the array the BLAS routine for the type leaves in its
  result: the bytes of \<open>rowsA * columnsB\<close> numbers (\<^verbatim>\<open>float\<close> for \<^verbatim>\<open>__bf16\<close>, else the type itself).
\<close>

type_synonym gemm = "ArrayType \<Rightarrow> nat \<Rightarrow> nat \<Rightarrow> nat \<Rightarrow> bytes \<Rightarrow> bytes \<Rightarrow> bytes"

definition MatrixMultiplicationOperator ::
  "gemm \<Rightarrow> ArrayType \<Rightarrow> bytes \<Rightarrow> nat \<Rightarrow> bytes \<Rightarrow> nat \<Rightarrow> nat \<Rightarrow> nat \<Rightarrow> nat \<Rightarrow> wbuf \<Rightarrow> wbuf res" where
  "MatrixMultiplicationOperator gemm T ml left mr right rowsA rowsB columnsB w =
     (let sizeC = u32 (rowsA * columnsB) in
     ebind (load ml left (elem_size T * (rowsA * rowsB))) (\<lambda>A.
     ebind (load mr right (elem_size T * (rowsB * columnsB))) (\<lambda>B.
     let C = gemm T rowsA columnsB rowsB A B in
     if T = BFLOAT then
       mfold (\<lambda>idx w. ebind (load C (4 * idx) 4) (\<lambda>c.
           ebind (elem_cast FLOAT BFLOAT c) (\<lambda>value. writeToBuffer value w))) [0..<sizeC] w
     else copyToBuffer C 0 (elem_size T * sizeC) w)))"

definition matrixMul :: "gemm \<Rightarrow> array_obj \<Rightarrow> array_obj \<Rightarrow> bytes res" where
  "matrixMul gemm a b =
     (if \<not> isFloatingPointType (atype a)
      then Inl (RuntimeError ''Array-MatrixMul: Given element type must be a floating point type'')
      else if atype a \<noteq> atype b
      then Inl (RuntimeError ''Array-MatrixMul: Arrays have different types'')
      else if dimensions a > 2 \<or> dimensions b > 2
      then Inl (RuntimeError ''Array-MatrixMul: This function allows only up to 2 dimensional arrays'')
      else
        ebind (width_at a 0) (\<lambda>rowsA.
        ebind (if dimensions a = 1 then Inr 1 else width_at a 1) (\<lambda>colsA.
        ebind (width_at b 0) (\<lambda>rowsB.
        ebind (if dimensions b = 1 then Inr 1 else width_at b 1) (\<lambda>colsB.
        if colsA \<noteq> rowsB
        then Inl (RuntimeError ''Array-MatrixMul: Array-structures are not compatible for this function'')
        else
          let els = u32 (rowsA * colsB) in
          ebind (getStringSize 2 els (u32 (rowsA + 1)) (getNullBytes els) 0 (atype a)) (\<lambda>n.
          build n [
            writeToBuffer ARRAYHEADER,
            put8 (atype a),
            put32 2,
            put32 els,
            mfold (\<lambda>i. put32 1) [0..<2],
            put32 1,
            put32 rowsA,
            put32 rowsA,
            mfold (\<lambda>i. put32 colsB) [0..<rowsA],
            (case type_of (atype a) of
               Some BFLOAT \<Rightarrow> MatrixMultiplicationOperator gemm BFLOAT (amem a) (elements a) (amem b) (elements b) rowsA rowsB colsB
             | Some FLOAT \<Rightarrow> MatrixMultiplicationOperator gemm FLOAT (amem a) (elements a) (amem b) (elements b) rowsA rowsB colsB
             | _ \<Rightarrow> MatrixMultiplicationOperator gemm DOUBLE (amem a) (elements a) (amem b) (elements b) rowsA rowsB colsB)]))))))"

section \<open>Activation functions\<close>

text \<open>
  \<open>cexp F\<close> is \<^verbatim>\<open>std::exp\<close> on the bit patterns of format \<open>F\<close>. On integers the argument is
  negated as an integer and converted to \<^verbatim>\<open>double\<close>.
\<close>

type_synonym cexp = "fmt \<Rightarrow> nat \<Rightarrow> nat"

definition fsigmoid :: "cexp \<Rightarrow> fmt \<Rightarrow> nat \<Rightarrow> nat" where
  "fsigmoid cexp F negated =
     (let one = fval_of_int 1; e = fdecode F (cexp F negated)
      in fdiv F one (fdecode F (fencode F (fadd one e))))"

definition elem_sigmoid :: "cexp \<Rightarrow> ArrayType \<Rightarrow> bytes \<Rightarrow> bytes res" where
  "elem_sigmoid cexp T x =
     (if is_int T then
        (let n = - int_of_elem T x in
         if \<not> in_signed (elem_bits T) n then Inl Undefined
         else ebind (int_of_fval (elem_bits T)
                (fdecode binary64 (fsigmoid cexp binary64 (fencode binary64 (fval_of_int n)))))
              (elem_of_int T))
      else Inr (elem_of_arith T (fsigmoid cexp (arith_fmt T)
              (fencode (arith_fmt T) (fneg (fval_of_elem T x))))))"

definition ArraySigmoidOperator :: "cexp \<Rightarrow> ArrayType \<Rightarrow> bytes \<Rightarrow> nat \<Rightarrow> nat \<Rightarrow> wbuf \<Rightarrow> wbuf res" where
  "ArraySigmoidOperator cexp T m data n w =
     ebind (mfold (\<lambda>i (w, data).
         ebind (load m data (elem_size T)) (\<lambda>x.
         ebind (elem_sigmoid cexp T x) (\<lambda>result.
         ebind (writeToBuffer result w) (\<lambda>w. Inr (w, data + elem_size T))))) [0..<n] (w, data))
       (\<lambda>(w, _). Inr w)"

type_synonym unary_operator = "ArrayType \<Rightarrow> bytes \<Rightarrow> nat \<Rightarrow> nat \<Rightarrow> wbuf \<Rightarrow> wbuf res"

definition executeUnaryOperation :: "unary_operator \<Rightarrow> bytes \<Rightarrow> nat \<Rightarrow> nat \<Rightarrow> nat \<Rightarrow> wbuf \<Rightarrow> wbuf res" where
  "executeUnaryOperation OP m data n t w =
     (case type_of t of
        Some INTEGER32 \<Rightarrow> OP INTEGER32 m data n w
      | Some INTEGER64 \<Rightarrow> OP INTEGER64 m data n w
      | Some BFLOAT \<Rightarrow> OP BFLOAT m data n w
      | Some FLOAT \<Rightarrow> OP FLOAT m data n w
      | Some DOUBLE \<Rightarrow> OP DOUBLE m data n w
      | _ \<Rightarrow> Inl (RuntimeError ''Array-Type is not supported''))"

definition executeActivationFunction :: "unary_operator \<Rightarrow> array_obj \<Rightarrow> bytes res" where
  "executeActivationFunction OP a =
     ebind (getSize a True) (\<lambda>totalElements.
     ebind (getWidthSize a) (\<lambda>widthSize.
     ebind (getStringSize (dimensions a) (asize a) widthSize (getNullBytes totalElements) 0 (atype a)) (\<lambda>n.
     build n [
       writeToBuffer ARRAYHEADER,
       put8 (atype a),
       put32 (dimensions a),
       put32 (asize a),
       copyToBuffer (amem a) (indices a) (4 * dimensions a),
       copyToBuffer (amem a) (dimensionWidthMap a) (4 * dimensions a),
       copyToBuffer (amem a) (widths a) (4 * widthSize),
       executeUnaryOperation OP (amem a) (elements a) (asize a) (atype a),
       copyNulls (amem a) (nulls a) totalElements 0])))"

definition sigmoid :: "cexp \<Rightarrow> array_obj \<Rightarrow> bytes res" where
  "sigmoid cexp a =
     (if \<not> isNumericType (atype a)
      then Inl (RuntimeError ''Array-Sigmoid: Only supported with numeric types'')
      else executeActivationFunction (ArraySigmoidOperator cexp) a)"

end
