(* ===== verification/Arith_Correct.thy ===== *)
theory Arith_Correct
  imports Array_Arith Append_Correct
begin

text \<open>
  What the arithmetic of \<open>Array_Arith\<close> computes: every result holds the values of the
  operands combined position by position. The four operators share one interface, a locale
  interpreted on each of them.
\<close>

section \<open>Operators on two arrays of values\<close>

lemma binary_loop_run:
  assumes l: "\<And>i. i < n \<Longrightarrow> load ml (left + (if sl then 0 else sz * i)) sz = Inr (xs i)"
    and r: "\<And>i. i < n \<Longrightarrow> load mr (right + (if sr then 0 else sz * i)) sz = Inr (ys i)"
    and len: "\<And>x y z. f x y = Inr z \<Longrightarrow> length z = sz"
    and room: "n * sz \<le> m"
  shows "binary_loop f sz ml left mr right n sl sr (filled ws m) =
    ebind (mmap (\<lambda>i. f (xs i) (ys i)) [0..<n]) (\<lambda>zs. Inr (filled (ws @ concat zs) (m - n * sz)))"
proof -
  let ?p = "\<lambda>i. (left + (if sl then 0 else sz * i), right + (if sr then 0 else sz * i))"
  have "mfold (\<lambda>i (w, left, right).
         ebind (load ml left sz) (\<lambda>x.
         ebind (load mr right sz) (\<lambda>y.
         ebind (f x y) (\<lambda>result.
         ebind (writeToBuffer result w) (\<lambda>w.
         Inr (w, if sl then left else left + sz, if sr then right else right + sz))))))
       [0..<n] (filled ws m, ?p 0) =
    ebind (mmap (\<lambda>i. f (xs i) (ys i)) [0..<n]) (\<lambda>zs. Inr (filled (ws @ concat zs) (m - n * sz), ?p n))"
  proof (rule mfold_pair_mmap[where p = ?p, OF _ room])
    fix k ys' m'
    assume k: "k < n" and m': "sz \<le> m'"
    have wr: "writeToBuffer z (filled ys' m') = Inr (filled (ys' @ z) (m' - sz))" if "f (xs k) (ys k) = Inr z" for z
      using appendsD[OF appends_writeToBuffer, of z m' ys'] len[OF that] m' by simp
    show "(\<lambda>(w, left, right).
         ebind (load ml left sz) (\<lambda>x.
         ebind (load mr right sz) (\<lambda>y.
         ebind (f x y) (\<lambda>result.
         ebind (writeToBuffer result w) (\<lambda>w.
         Inr (w, if sl then left else left + sz, if sr then right else right + sz))))))
       (filled ys' m', ?p k) =
       ebind (f (xs k) (ys k)) (\<lambda>z. Inr (filled (ys' @ z) (m' - sz), ?p (Suc k)))"
      using l[OF k] r[OF k] wr by (cases "f (xs k) (ys k)") (auto simp: add.commute)
  qed
  moreover have "?p 0 = (left, right)" by simp
  ultimately show ?thesis
    unfolding binary_loop_def by (simp only: ebind_assoc ebind_simps prod.case)
qed

text \<open>An operator as the executors use it: a loop over values of one type.\<close>

locale binary_operator =
  fixes OP :: operator and f :: "ArrayType \<Rightarrow> bytes \<Rightarrow> bytes \<Rightarrow> bytes res"
  assumes is_loop: "OP T = binary_loop (f T) (elem_size T)"
    and result_length: "f T x y = Inr z \<Longrightarrow> length z = elem_size T"
begin

lemma execute:
  assumes "T \<noteq> STRING"
    and "\<And>i. i < n \<Longrightarrow> load ml (left + (if sl then 0 else elem_size T * i)) (elem_size T) = Inr (xs i)"
    and "\<And>i. i < n \<Longrightarrow> load mr (right + (if sr then 0 else elem_size T * i)) (elem_size T) = Inr (ys i)"
    and "n * elem_size T \<le> m"
  shows "executeBinaryOperation OP ml left mr right n (type_id T) sl sr (filled ws m) =
    ebind (mmap (\<lambda>i. f T (xs i) (ys i)) [0..<n]) (\<lambda>zs. Inr (filled (ws @ concat zs) (m - n * elem_size T)))"
  using assms(1) binary_loop_run[OF assms(2,3) result_length assms(4)]
  by (cases T) (simp_all add: executeBinaryOperation_def is_loop)

end

interpretation add_op: binary_operator ArrayAddOperator elem_add
  by unfold_locales (simp_all add: ArrayAddOperator_def length_elem_ops)

interpretation sub_op: binary_operator ArraySubOperator elem_sub
  by unfold_locales (simp_all add: ArraySubOperator_def length_elem_ops)

interpretation mul_op: binary_operator ArrayMulOperator elem_mul
  by unfold_locales (simp_all add: ArrayMulOperator_def length_elem_ops)

interpretation div_op: binary_operator ArrayDivOperator elem_div
  by unfold_locales (simp_all add: ArrayDivOperator_def length_elem_ops)

section \<open>Replacing the values of an array\<close>

text \<open>The same structure and NULLs with other values, possibly of another numeric type.\<close>

definition with_elems :: "flat \<Rightarrow> ArrayType \<Rightarrow> bytes list \<Rightarrow> flat" where
  "with_elems F T vs = F\<lparr>fty := T, felems := vs, fstr := []\<rparr>"

lemma wf_with_elems:
  assumes wf: "wf_flat F" and T: "T \<noteq> STRING" and vs: "chunked (elem_size T) vs" "length vs = length (felems F)"
    and fit: "fits (with_elems F T vs)"
  shows "wf_flat (with_elems F T vs)"
  using wf T vs fitsD[OF fit] by (simp add: wf_flat_def with_elems_def level_def lvl_start_def split: if_splits)

lemma place_map: "place ns (map g vs) = map (map_option g) (place ns vs)"
  by (induction ns vs rule: place.induct) simp_all

lemma items_with_elems:
  "T \<noteq> STRING \<Longrightarrow> items (with_elems F T vs) = place (fnulls F) vs"
  by (simp add: items_def with_elems_def)

lemma chunked_results:
  assumes "mmap g xs = Inr zs" and "\<And>x z. g x = Inr z \<Longrightarrow> length z = n"
  shows "chunked n zs"
proof -
  have "length (zs ! i) = n" if "i < length zs" for i
    using mmap_InrD[OF assms(1)] assms(2) that by force
  then show ?thesis by (auto simp: chunked_def in_set_conv_nth)
qed

lemma load_elem:
  assumes "wf_flat F" and "i < length (felems F)"
  shows "load (amem (obj_of F)) (elements (obj_of F) + elem_size (fty F) * i) (elem_size (fty F)) = Inr (felems F ! i)"
  using enc.load_elements[OF assms(1), of i 1] assms(2) by (simp add: take_Suc hd_drop_conv_nth)

text \<open>
  The construction all of these operations share: everything up to the width entries is
  copied, the values are computed in a step of their own, the NULL bits are copied.
\<close>

definition rebuild :: "flat \<Rightarrow> ArrayType \<Rightarrow> (wbuf \<Rightarrow> wbuf res) list \<Rightarrow> (wbuf \<Rightarrow> wbuf res) list" where
  "rebuild F T ws = [
       writeToBuffer ARRAYHEADER,
       put8 (type_id T),
       put32 (length (fdwm F)),
       put32 (length (felems F)),
       copyToBuffer (amem (obj_of F)) (indices (obj_of F)) (4 * length (fdwm F)),
       copyToBuffer (amem (obj_of F)) (dimensionWidthMap (obj_of F)) (4 * length (fdwm F)),
       copyToBuffer (amem (obj_of F)) (widths (obj_of F)) (4 * length (fwidths F))] @ ws"

definition rebuild_bytes :: "flat \<Rightarrow> ArrayType \<Rightarrow> bytes list" where
  "rebuild_bytes F T = [ARRAYHEADER, [of_nat (type_id T)], le_bytes 4 (length (fdwm F)),
     le_bytes 4 (length (felems F)), u32s (fidx F), u32s (fdwm F), u32s (fwidths F)]"

lemma rebuild_appends:
  "wf_flat F \<Longrightarrow> list_all2 appends (rebuild F T []) (rebuild_bytes F T)"
  using copy_all_widths[of F] by (simp add: rebuild_def rebuild_bytes_def buf_intros wf_dims)

lemma length_rebuild_bytes:
  "wf_flat F \<Longrightarrow> length (concat (rebuild_bytes F T)) = 14 + 8 * length (fdwm F) + 4 * length (fwidths F)"
  by (simp add: rebuild_bytes_def wf_dims)

lemma encode_with_elems:
  "wf_flat F \<Longrightarrow> length vs = length (felems F) \<Longrightarrow>
    encode (with_elems F T vs) = concat (rebuild_bytes F T) @ concat vs @ pack (fnulls F)"
  by (simp add: rebuild_bytes_def encode_def with_elems_def wf_dims)

lemma build_values:
  assumes wf: "wf_flat F"
    and n: "n = 14 + 8 * length (fdwm F) + 4 * length (fwidths F) + length (felems F) * elem_size T + length ns"
    and lt: "n < 4294967296"
    and vs: "chunked (elem_size T) vs" "length vs = length (felems F)"
    and op: "\<And>ws m. length (felems F) * elem_size T \<le> m \<Longrightarrow>
      op (filled ws m) = Inr (filled (ws @ concat vs) (m - length (felems F) * elem_size T))"
    and nl: "appends nl ns"
  shows "build n (rebuild F T [op, nl]) = Inr (concat (rebuild_bytes F T) @ concat vs @ ns)"
proof -
  have len: "length (concat vs) = length (felems F) * elem_size T"
    using length_concat_chunked[OF vs(1)] vs(2) by simp
  then have "appends op (concat vs)" using op by (intro appendsI) simp
  then have ap: "list_all2 appends (rebuild F T [op, nl]) (rebuild_bytes F T @ [concat vs, ns])"
    using list_all2_appendI[OF rebuild_appends[OF wf, of T], of "[op, nl]" "[concat vs, ns]"] nl
    by (simp add: rebuild_def)
  show ?thesis
    by (rule build_appends[OF ap]) (use n lt len length_rebuild_bytes[OF wf, of T] in simp_all)
qed

lemma build_values_fails:
  assumes wf: "wf_flat F"
    and n: "14 + 8 * length (fdwm F) + 4 * length (fwidths F) + length (felems F) * elem_size T \<le> n"
    and op: "\<And>ws m. length (felems F) * elem_size T \<le> m \<Longrightarrow> op (filled ws m) = Inl e"
  shows "build n (rebuild F T (op # ws)) = Inl e"
proof -
  have "build n (rebuild F T [] @ op # ws) = Inl e"
    by (rule build_fails[OF rebuild_appends[OF wf]]) (use n length_rebuild_bytes[OF wf, of T] in \<open>simp_all add: op\<close>)
  then show ?thesis by (simp add: rebuild_def)
qed

text \<open>Values computed by \<open>h\<close>, one per stored value, into an array with \<open>ns\<close> as NULL bytes.\<close>

lemma build_computed:
  assumes wf: "wf_flat F" 
    and n: "n = 14 + 8 * length (fdwm F) + 4 * length (fwidths F) + length (felems F) * elem_size T + length ns"
    and lt: "n < 4294967296"
    and len: "\<And>i z. h i = Inr z \<Longrightarrow> length z = elem_size T"
    and op: "\<And>ws m. length (felems F) * elem_size T \<le> m \<Longrightarrow> op (filled ws m) =
      ebind (mmap h [0..<length (felems F)]) (\<lambda>zs. Inr (filled (ws @ concat zs) (m - length (felems F) * elem_size T)))"
    and nl: "appends nl ns"
  shows "build n (rebuild F T [op, nl]) =
    ebind (mmap h [0..<length (felems F)]) (\<lambda>zs. Inr (concat (rebuild_bytes F T) @ concat zs @ ns))"
proof (cases "mmap h [0..<length (felems F)]")
  case (Inl e)
  then have "build n (rebuild F T (op # [nl])) = Inl e"
    by (intro build_values_fails[OF wf]) (use n op in simp_all)
  then show ?thesis by (simp add: Inl)
next
  case (Inr zs)
  have "length zs = length (felems F)" using mmap_InrD[OF Inr] by simp
  moreover have "chunked (elem_size T) zs" by (rule chunked_results[OF Inr len])
  ultimately have "build n (rebuild F T [op, nl]) = Inr (concat (rebuild_bytes F T) @ concat zs @ ns)"
    by (intro build_values[OF wf n lt]) (use op nl Inr in simp_all)
  then show ?thesis by (simp add: Inr)
qed

lemma null_bytes_part:
  assumes "wf_flat F" and "n \<le> length (fnulls F)"
  shows "appends (copyNulls (amem (obj_of F)) (nulls (obj_of F)) n 0) (take (getNullBytes n) (pack (fnulls F)))"
  using enc.load_nulls[OF assms(1), of 0 "getNullBytes n"] getNullBytes_mono[OF assms(2)]
  by (simp add: enc.copyNulls_0 appends_copyToBuffer)

lemma stored_le: "wf_flat F \<Longrightarrow> length (felems F) \<le> length (fnulls F)"
  using wf_count[of F] length_filter_le[of Not "fnulls F"] by simp

lemma size_of_rebuild:
  "getStringSize d n w k 0 (type_id T) = Inr (14 + 8 * d + 4 * w + n * elem_size T + k)"
  by (simp add: getStringSize_def Let_def)

section \<open>The executors on a well-formed array\<close>

context binary_operator
begin

lemma elementwise_run:
  assumes F: "wf_flat F" and G: "wf_flat G" and ty: "fty G = fty F" "fty F \<noteq> STRING"
    and le: "length (felems F) \<le> length (felems G)"
  shows "elementwise OP (obj_of F) (obj_of G) =
    ebind (mmap (\<lambda>i. f (fty F) (felems F ! i) (felems G ! i)) [0..<length (felems F)])
      (\<lambda>zs. Inr (concat (rebuild_bytes F (fty F)) @ concat zs @
        take (getNullBytes (length (felems F))) (pack (fnulls F))))"
proof -
  let ?T = "fty F" and ?n = "length (felems F)"
  let ?k = "getNullBytes (length (felems F))"
  have k: "?k \<le> getNullBytes (length (fnulls F))" by (rule getNullBytes_mono[OF stored_le[OF F]])
  note len = length_encode[OF wf_chunked[OF F]]
  let ?op = "executeBinaryOperation OP (amem (obj_of F)) (elements (obj_of F)) (amem (obj_of G)) (elements (obj_of G)) ?n (type_id ?T) False False"
  have "build (14 + 8 * length (fdwm F) + 4 * length (fwidths F) + ?n * elem_size ?T + ?k)
      (rebuild F ?T [?op, copyNulls (amem (obj_of F)) (nulls (obj_of F)) ?n 0]) =
    ebind (mmap (\<lambda>i. f ?T (felems F ! i) (felems G ! i)) [0..<?n])
      (\<lambda>zs. Inr (concat (rebuild_bytes F ?T) @ concat zs @ take ?k (pack (fnulls F))))"
  proof (rule build_computed[OF F])
    show "14 + 8 * length (fdwm F) + 4 * length (fwidths F) + ?n * elem_size ?T + ?k < 4294967296"
      using len k wf_bounds(6)[OF F] wf_dims(2)[OF F] by (simp add: mult.commute)
    show "appends (copyNulls (amem (obj_of F)) (nulls (obj_of F)) ?n 0) (take ?k (pack (fnulls F)))"
      by (rule null_bytes_part[OF F stored_le[OF F]])
  next
    fix ws m assume "?n * elem_size ?T \<le> m"
    then show "?op (filled ws m) = ebind (mmap (\<lambda>i. f ?T (felems F ! i) (felems G ! i)) [0..<?n])
        (\<lambda>zs. Inr (filled (ws @ concat zs) (m - ?n * elem_size ?T)))"
      using load_elem[OF F] load_elem[OF G] le ty by (intro execute) simp_all
  qed (use k result_length in simp_all)
  then show ?thesis
    by (simp add: elementwise_def acc_simps F enc.obj_dims enc.obj_type enc.obj_size size_of_rebuild rebuild_def)
qed

lemma scalar_run:
  assumes F: "wf_flat F" and T: "fty F \<noteq> STRING" and v: "length v = elem_size (fty F)"
  shows "executeScalarOperation OP (obj_of F) v isLeft =
    ebind (mmap (\<lambda>x. if isLeft then f (fty F) v x else f (fty F) x v) (felems F))
      (\<lambda>zs. Inr (encode (with_elems F (fty F) zs)))"
proof -
  let ?T = "fty F" and ?n = "length (felems F)" and ?N = "getNullBytes (length (fnulls F))"
  let ?h = "\<lambda>x. if isLeft then f ?T v x else f ?T x v"
  note len = length_encode[OF wf_chunked[OF F]]
  let ?op = "if isLeft then executeBinaryOperation OP v 0 (amem (obj_of F)) (elements (obj_of F)) ?n (type_id ?T) True False
     else executeBinaryOperation OP (amem (obj_of F)) (elements (obj_of F)) v 0 ?n (type_id ?T) False True"
  have lv: "load v 0 (elem_size ?T) = Inr v" using v by (simp add: load_def)
  have "build (14 + 8 * length (fdwm F) + 4 * length (fwidths F) + ?n * elem_size ?T + ?N)
      (rebuild F ?T [?op, copyNulls (amem (obj_of F)) (nulls (obj_of F)) (length (fnulls F)) 0]) =
    ebind (mmap (\<lambda>i. ?h (felems F ! i)) [0..<?n])
      (\<lambda>zs. Inr (concat (rebuild_bytes F ?T) @ concat zs @ pack (fnulls F)))"
  proof (rule build_computed[OF F])
    show "14 + 8 * length (fdwm F) + 4 * length (fwidths F) + ?n * elem_size ?T + ?N < 4294967296"
      using len wf_bounds(6)[OF F] wf_dims(2)[OF F] by (simp add: mult.commute)
    show "appends (copyNulls (amem (obj_of F)) (nulls (obj_of F)) (length (fnulls F)) 0) (pack (fnulls F))"
      by (rule enc.copyNulls_obj[OF F])
  next
    fix ws m assume "?n * elem_size ?T \<le> m"
    then show "?op (filled ws m) = ebind (mmap (\<lambda>i. ?h (felems F ! i)) [0..<?n])
        (\<lambda>zs. Inr (filled (ws @ concat zs) (m - ?n * elem_size ?T)))"
      using load_elem[OF F] lv T
      by (cases isLeft) (simp_all only: if_True if_False, (intro execute; simp)+)
  qed (use result_length in \<open>auto split: if_splits\<close>)
  then have "executeScalarOperation OP (obj_of F) v isLeft =
    ebind (mmap ?h (felems F)) (\<lambda>zs. Inr (concat (rebuild_bytes F ?T) @ concat zs @ pack (fnulls F)))"
    by (cases isLeft) (simp_all add: executeScalarOperation_def acc_simps F enc.obj_dims enc.obj_type enc.obj_size
        size_of_rebuild rebuild_def mmap_nth
        mmap_nth[where f = "\<lambda>x. f (fty F) x v"])
  also have "\<dots> = ebind (mmap ?h (felems F)) (\<lambda>zs. Inr (encode (with_elems F ?T zs)))"
  proof (rule ebind_cong)
    fix zs assume "mmap ?h (felems F) = Inr zs"
    then show "Inr (concat (rebuild_bytes F ?T) @ concat zs @ pack (fnulls F)) =
        (Inr (encode (with_elems F ?T zs)) :: bytes res)"
      using mmap_InrD encode_with_elems[OF F] by (metis (no_types, lifting))
  qed simp
  finally show ?thesis .
qed

end

section \<open>Activation functions\<close>

lemma length_elem_sigmoid: "elem_sigmoid cexp T x = Inr z \<Longrightarrow> length z = elem_size T"
  by (auto simp: elem_sigmoid_def Let_def ebind_eq_Inr_iff length_elem_of_int split: if_splits)

lemma sigmoid_loop_run:
  assumes ld: "\<And>i. i < n \<Longrightarrow> load m (data + elem_size T * i) (elem_size T) = Inr (xs i)"
    and room: "n * elem_size T \<le> k"
  shows "ArraySigmoidOperator cexp T m data n (filled ws k) =
    ebind (mmap (\<lambda>i. elem_sigmoid cexp T (xs i)) [0..<n])
      (\<lambda>zs. Inr (filled (ws @ concat zs) (k - n * elem_size T)))"
proof -
  let ?p = "\<lambda>i. data + elem_size T * i"
  have "mfold (\<lambda>i (w, data).
         ebind (load m data (elem_size T)) (\<lambda>x.
         ebind (elem_sigmoid cexp T x) (\<lambda>result.
         ebind (writeToBuffer result w) (\<lambda>w. Inr (w, data + elem_size T)))))
       [0..<n] (filled ws k, ?p 0) =
    ebind (mmap (\<lambda>i. elem_sigmoid cexp T (xs i)) [0..<n])
      (\<lambda>zs. Inr (filled (ws @ concat zs) (k - n * elem_size T), ?p n))"
  proof (rule mfold_pair_mmap[where p = ?p, OF _ room])
    fix i ys k'
    assume i: "i < n" and k': "elem_size T \<le> k'"
    have wr: "writeToBuffer z (filled ys k') = Inr (filled (ys @ z) (k' - elem_size T))"
      if "elem_sigmoid cexp T (xs i) = Inr z" for z
      using appendsD[OF appends_writeToBuffer, of z k' ys] length_elem_sigmoid[OF that] k' by simp
    show "(\<lambda>(w, data).
         ebind (load m data (elem_size T)) (\<lambda>x.
         ebind (elem_sigmoid cexp T x) (\<lambda>result.
         ebind (writeToBuffer result w) (\<lambda>w. Inr (w, data + elem_size T)))))
       (filled ys k', ?p i) =
       ebind (elem_sigmoid cexp T (xs i)) (\<lambda>z. Inr (filled (ys @ z) (k' - elem_size T), ?p (Suc i)))"
      using ld[OF i] wr by (cases "elem_sigmoid cexp T (xs i)") (auto simp: add.commute)
  qed
  moreover have "?p 0 = data" by simp
  ultimately show ?thesis
    unfolding ArraySigmoidOperator_def by (simp only: ebind_assoc ebind_simps prod.case)
qed

lemma sigmoid_run:
  assumes F: "wf_flat F" and T: "fty F \<noteq> STRING"
  shows "sigmoid cexp (obj_of F) =
    ebind (mmap (elem_sigmoid cexp (fty F)) (felems F)) (\<lambda>zs. Inr (encode (with_elems F (fty F) zs)))"
proof -
  let ?T = "fty F" and ?n = "length (felems F)" and ?N = "getNullBytes (length (fnulls F))"
  note len = length_encode[OF wf_chunked[OF F]]
  let ?op = "executeUnaryOperation (ArraySigmoidOperator cexp) (amem (obj_of F)) (elements (obj_of F)) ?n (type_id ?T)"
  have "build (14 + 8 * length (fdwm F) + 4 * length (fwidths F) + ?n * elem_size ?T + ?N)
      (rebuild F ?T [?op, copyNulls (amem (obj_of F)) (nulls (obj_of F)) (length (fnulls F)) 0]) =
    ebind (mmap (\<lambda>i. elem_sigmoid cexp ?T (felems F ! i)) [0..<?n])
      (\<lambda>zs. Inr (concat (rebuild_bytes F ?T) @ concat zs @ pack (fnulls F)))"
  proof (rule build_computed[OF F])
    show "14 + 8 * length (fdwm F) + 4 * length (fwidths F) + ?n * elem_size ?T + ?N < 4294967296"
      using len wf_bounds(6)[OF F] wf_dims(2)[OF F] by (simp add: mult.commute)
    show "appends (copyNulls (amem (obj_of F)) (nulls (obj_of F)) (length (fnulls F)) 0) (pack (fnulls F))"
      by (rule enc.copyNulls_obj[OF F])
  next
    fix ws m assume m: "?n * elem_size ?T \<le> m"
    have "?op = ArraySigmoidOperator cexp ?T (amem (obj_of F)) (elements (obj_of F)) ?n"
      using T by (cases ?T) (simp_all add: executeUnaryOperation_def fun_eq_iff)
    then show "?op (filled ws m) = ebind (mmap (\<lambda>i. elem_sigmoid cexp ?T (felems F ! i)) [0..<?n])
        (\<lambda>zs. Inr (filled (ws @ concat zs) (m - ?n * elem_size ?T)))"
      using sigmoid_loop_run[OF load_elem[OF F] m] by simp
  qed (simp_all add: length_elem_sigmoid)
  then have "sigmoid cexp (obj_of F) =
    ebind (mmap (elem_sigmoid cexp ?T) (felems F))
      (\<lambda>zs. Inr (concat (rebuild_bytes F ?T) @ concat zs @ pack (fnulls F)))"
    using T by (simp add: sigmoid_def executeActivationFunction_def acc_simps F enc.obj_dims enc.obj_type
        enc.obj_size size_of_rebuild rebuild_def mmap_nth)
  also have "\<dots> = ebind (mmap (elem_sigmoid cexp ?T) (felems F)) (\<lambda>zs. Inr (encode (with_elems F ?T zs)))"
  proof (rule ebind_cong)
    fix zs assume "mmap (elem_sigmoid cexp ?T) (felems F) = Inr zs"
    then show "Inr (concat (rebuild_bytes F ?T) @ concat zs @ pack (fnulls F)) =
        (Inr (encode (with_elems F ?T zs)) :: bytes res)"
      using mmap_InrD encode_with_elems[OF F] by (metis (no_types, lifting))
  qed simp
  finally show ?thesis .
qed

section \<open>Well-formed results\<close>

text \<open>Replacing the values by as many of the same type keeps everything else.\<close>

lemma same_shape:
  assumes wf: "wf_flat F" and T: "fty F \<noteq> STRING"
    and zs: "chunked (elem_size (fty F)) zs" "length zs = length (felems F)"
  shows "wf_flat (with_elems F (fty F) zs)"
proof (rule wf_with_elems[OF wf T zs])
  have "length (concat zs) = length (concat (felems F))"
    using length_concat_chunked[OF zs(1)] length_concat_chunked[OF wf_chunked[OF wf]] zs(2) by simp
  then have "length (encode (with_elems F (fty F) zs)) = length (encode F)"
    using zs(2) wf_strings(2)[OF wf T] by (simp add: encode_def with_elems_def)
  then show "fits (with_elems F (fty F) zs)"
    using wf_bounds(1,6)[OF wf] by (simp add: fits_def with_elems_def)
qed

lemma items_same_shape:
  "wf_flat F \<Longrightarrow> fty F \<noteq> STRING \<Longrightarrow> items F = place (fnulls F) (felems F)"
  by (simp add: items_def)

text \<open>With as many NULL bytes as positions need, nothing of the NULL bits is lost.\<close>

lemma elementwise_whole:
  assumes F: "wf_flat F" and n: "getNullBytes (length (felems F)) = getNullBytes (length (fnulls F))"
    and zs: "length zs = length (felems F)"
  shows "concat (rebuild_bytes F T) @ concat zs @ take (getNullBytes (length (felems F))) (pack (fnulls F)) =
    encode (with_elems F T zs)"
  using encode_with_elems[OF F zs] n by simp

section \<open>The checks of division\<close>

lemma equalWidths_run:
  assumes F: "wf_flat F" and G: "wf_flat G" and le: "length (fwidths F) \<le> length (fwidths G)"
  shows "equalWidths (obj_of F) (amem (obj_of G)) (widths (obj_of G)) =
    Inr (fwidths F = take (length (fwidths F)) (fwidths G))"
proof -
  let ?n = "length (fwidths F)"
  have "mexists (\<lambda>i. ebind (width_at (obj_of F) i) (\<lambda>x. ebind (ld32 (amem (obj_of G)) (widths (obj_of G) + 4 * i))
      (\<lambda>y. Inr (x \<noteq> y)))) [0..<?n] = Inr (\<exists>i \<in> set [0..<?n]. fwidths F ! i \<noteq> fwidths G ! i)"
    using enc.width_at_obj[OF F] enc.width_at_obj[OF G] le
    by (intro mexists_Inr) (simp add: width_at_def)
  moreover have "(\<exists>i \<in> set [0..<?n]. fwidths F ! i \<noteq> fwidths G ! i) \<longleftrightarrow> fwidths F \<noteq> take ?n (fwidths G)"
    using le list_eq_iff_nth_eq[of "fwidths F" "take ?n (fwidths G)"] by auto
  ultimately show ?thesis by (simp add: equalWidths_def enc.getWidthSize_obj[OF F])
qed

lemma array_div_run:
  assumes F: "wf_flat F" and G: "wf_flat G" and ty: "fty G = fty F" "fty F \<noteq> STRING"
    and le: "length (fwidths F) \<le> length (fwidths G)"
  shows "array_div (obj_of F) (obj_of G) =
    (if True \<in> set (fnulls F) \<or> True \<in> set (fnulls G)
     then Inl (RuntimeError ''Array-Div: NULL values are not allowed'')
     else if 0 \<in> set (fwidths F) \<or> 0 \<in> set (fwidths G)
     then Inl (RuntimeError ''Array-Div: Empty array elements are not allowed'')
     else if fwidths F \<noteq> take (length (fwidths F)) (fwidths G)
     then Inl (RuntimeError ''Array-Div: Given arrays have different structures'')
     else elementwise ArrayDivOperator (obj_of F) (obj_of G))"
  using ty by (simp add: array_div_def acc_simps F G enc.obj_type equalWidths_run[OF F G le])



lemma elementwise_arith_facts:
  assumes "wf_flat F" and "wf_flat G" and "fty G = fty F" and "fty F \<noteq> STRING"
    and "length (felems F) \<le> length (felems G)"
    and "getNullBytes (length (felems F)) = getNullBytes (length (fnulls F))"
    and "(AOP, f) \<in> {(array_add, elem_add), (array_sub, elem_sub), (array_mul, elem_mul)}"
  shows "AOP (obj_of F) (obj_of G) =
      ebind (mmap (\<lambda>i. f (fty F) (felems F ! i) (felems G ! i)) [0..<length (felems F)])
        (\<lambda>zs. Inr (encode (with_elems F (fty F) zs)))"
    and "mmap (\<lambda>i. f (fty F) (felems F ! i) (felems G ! i)) [0..<length (felems F)] = Inr zs \<Longrightarrow>
      wf_flat (with_elems F (fty F) zs) \<and> items (with_elems F (fty F) zs) = place (fnulls F) zs"
proof -
  let ?m = "mmap (\<lambda>i. f (fty F) (felems F ! i) (felems G ! i)) [0..<length (felems F)]"
  have len: "length zs = length (felems F)" if "?m = Inr zs" for zs
    using mmap_InrD[OF that] by simp
  have whole: "ebind ?m (\<lambda>zs. Inr (concat (rebuild_bytes F (fty F)) @ concat zs @
        take (getNullBytes (length (felems F))) (pack (fnulls F)))) =
      ebind ?m (\<lambda>zs. Inr (encode (with_elems F (fty F) zs)))"
    using elementwise_whole[OF assms(1,6) len] by (intro ebind_cong) simp_all
  have guards: "array_add (obj_of F) (obj_of G) = elementwise ArrayAddOperator (obj_of F) (obj_of G)"
    "array_sub (obj_of F) (obj_of G) = elementwise ArraySubOperator (obj_of F) (obj_of G)"
    "array_mul (obj_of F) (obj_of G) = elementwise ArrayMulOperator (obj_of F) (obj_of G)"
    using assms(3,4)
    by (simp_all add: array_add_def array_sub_def array_mul_def enc.obj_type assms(1,2))
  show "AOP (obj_of F) (obj_of G) = ebind ?m (\<lambda>zs. Inr (encode (with_elems F (fty F) zs)))"
    unfolding whole[symmetric] using assms(7)
  proof (elim insertE emptyE)
    assume "(AOP, f) = (array_add, elem_add)"
    then show "AOP (obj_of F) (obj_of G) = ebind ?m (\<lambda>zs. Inr (concat (rebuild_bytes F (fty F)) @ concat zs @
        take (getNullBytes (length (felems F))) (pack (fnulls F))))"
      using add_op.elementwise_run[OF assms(1-5)] by (simp add: guards)
  next
    assume "(AOP, f) = (array_sub, elem_sub)"
    then show "AOP (obj_of F) (obj_of G) = ebind ?m (\<lambda>zs. Inr (concat (rebuild_bytes F (fty F)) @ concat zs @
        take (getNullBytes (length (felems F))) (pack (fnulls F))))"
      using sub_op.elementwise_run[OF assms(1-5)] by (simp add: guards)
  next
    assume "(AOP, f) = (array_mul, elem_mul)"
    then show "AOP (obj_of F) (obj_of G) = ebind ?m (\<lambda>zs. Inr (concat (rebuild_bytes F (fty F)) @ concat zs @
        take (getNullBytes (length (felems F))) (pack (fnulls F))))"
      using mul_op.elementwise_run[OF assms(1-5)] by (simp add: guards)
  qed
  show "wf_flat (with_elems F (fty F) zs) \<and> items (with_elems F (fty F) zs) = place (fnulls F) zs" if "?m = Inr zs"
  proof
    have "chunked (elem_size (fty F)) zs"
      using assms(7) length_elem_ops by (intro chunked_results[OF that]) auto
    then show "wf_flat (with_elems F (fty F) zs)" by (rule same_shape[OF assms(1,4) _ len[OF that]])
  qed (simp add: items_with_elems assms(4))
qed

text \<open>Truncated division is the quotient whose remainder is smaller than the divisor and has the
  sign of the dividend.\<close>

lemma trunc_div_spec:
  assumes "j \<noteq> 0"
  shows "\<bar>i - trunc_div i j * j\<bar> < \<bar>j\<bar>" and "0 \<le> (i - trunc_div i j * j) * i"
proof -
  let ?q = "\<bar>i\<bar> div \<bar>j\<bar>" and ?r = "\<bar>i\<bar> mod \<bar>j\<bar>"
  have r: "0 \<le> ?r" "?r < \<bar>j\<bar>" using assms by simp_all
  have rem: "i - trunc_div i j * j = (if i < 0 then - ?r else ?r)"
    by (simp add: trunc_div_def abs_if algebra_simps flip: minus_div_mult_eq_mod)
  show "\<bar>i - trunc_div i j * j\<bar> < \<bar>j\<bar>" using rem r by simp
  show "0 \<le> (i - trunc_div i j * j) * i"
  proof (cases "i < 0")
    case True
    have "0 \<le> (- ?r) * i" using r(1) True by (intro mult_nonpos_nonpos) simp_all
    then show ?thesis by (simp only: rem True if_True)
  next
    case False
    have "0 \<le> ?r * i" using r(1) False by (intro mult_nonneg_nonneg) simp_all
    then show ?thesis by (simp only: rem False if_False)
  qed
qed

lemma elem_of_int_cases:
  "(\<exists>z. elem_of_int T i = Inr z \<and> int_of_elem T z = i) \<or>
   (elem_of_int T i = Inl Undefined \<and> \<not> in_signed (elem_bits T) i)"
proof (cases "in_signed (elem_bits T) i")
  case True
  then obtain z where "elem_of_int T i = Inr z" by (simp add: elem_of_int_def)
  then show ?thesis using int_of_elem_of_int(1) by blast
qed (simp add: elem_of_int_def)

text \<open>Values computed one by one from those of an array, in its structure.\<close>

definition map_elems :: "flat \<Rightarrow> (bytes \<Rightarrow> bytes res) \<Rightarrow> bytes res" where
  "map_elems F g = ebind (mmap g (felems F)) (\<lambda>zs. Inr (encode (with_elems F (fty F) zs)))"

lemma map_elems_result:
  assumes F: "wf_flat F" and T: "fty F \<noteq> STRING" and r: "map_elems F g = Inr r"
    and len: "\<And>x z. g x = Inr z \<Longrightarrow> length z = elem_size (fty F)"
  shows "\<exists>R. r = encode R \<and> wf_flat R \<and> levels R = levels F \<and> fnulls R = fnulls F \<and>
    (\<forall>i < length (felems F). g (felems F ! i) = Inr (felems R ! i))"
proof -
  obtain zs where zs: "mmap g (felems F) = Inr zs" and r: "r = encode (with_elems F (fty F) zs)"
    using r by (auto simp: map_elems_def ebind_eq_Inr_iff)
  have "wf_flat (with_elems F (fty F) zs)"
    using mmap_InrD[OF zs] by (intro same_shape[OF F T chunked_results[OF zs len]]) simp_all
  then show ?thesis
    using mmap_InrD[OF zs] r
    by (intro exI[of _ "with_elems F (fty F) zs"])
      (simp add: levels_def level_def lvl_start_def with_elems_def)
qed

section \<open>Properties\<close>



text \<open>On \<^verbatim>\<open>int32_t\<close> and \<^verbatim>\<open>int64_t\<close> values the operators compute the exact sum, difference and
  product or overflow (undefined); division truncates toward zero and is undefined for a zero
  divisor or an overflow.\<close>
theorem integer_operators:
  assumes "is_int T"
  shows "((f, g) \<in> {(elem_add, (+)), (elem_sub, (-)), (elem_mul, (*))} \<longrightarrow>
      (\<exists>z. f T x y = Inr z \<and> int_of_elem T z = g (int_of_elem T x) (int_of_elem T y)) \<or>
      (f T x y = Inl Undefined \<and> \<not> in_signed (elem_bits T) (g (int_of_elem T x) (int_of_elem T y)))) \<and>
    (elem_div T x y = Inl Undefined \<or>
      (\<exists>z. elem_div T x y = Inr z \<and>
         \<bar>int_of_elem T x - int_of_elem T z * int_of_elem T y\<bar> < \<bar>int_of_elem T y\<bar> \<and>
         0 \<le> (int_of_elem T x - int_of_elem T z * int_of_elem T y) * int_of_elem T x))"
proof (intro conjI impI)
  assume "(f, g) \<in> {(elem_add, (+)), (elem_sub, (-)), (elem_mul, (*))}"
  then have "f T x y = elem_of_int T (g (int_of_elem T x) (int_of_elem T y))"
    using assms by (auto simp: elem_add_def elem_sub_def elem_mul_def)
  then show "(\<exists>z. f T x y = Inr z \<and> int_of_elem T z = g (int_of_elem T x) (int_of_elem T y)) \<or>
      (f T x y = Inl Undefined \<and> \<not> in_signed (elem_bits T) (g (int_of_elem T x) (int_of_elem T y)))"
    using elem_of_int_cases[of T "g (int_of_elem T x) (int_of_elem T y)"] by simp
next
  show "elem_div T x y = Inl Undefined \<or>
      (\<exists>z. elem_div T x y = Inr z \<and>
         \<bar>int_of_elem T x - int_of_elem T z * int_of_elem T y\<bar> < \<bar>int_of_elem T y\<bar> \<and>
         0 \<le> (int_of_elem T x - int_of_elem T z * int_of_elem T y) * int_of_elem T x)"
    using elem_of_int_cases[of T "trunc_div (int_of_elem T x) (int_of_elem T y)"] assms
      trunc_div_spec[of "int_of_elem T y" "int_of_elem T x"]
    by (cases "int_of_elem T y = 0") (auto simp: elem_div_def)
qed

theorem integer_operators_witness:
  "\<exists>z. elem_sub INTEGER32 [1, 0, 0, 0] [3, 0, 0, 0] = Inr z \<and> int_of_elem INTEGER32 z = -2"
  using integer_operators[of INTEGER32 elem_sub "(-)" "[1, 0, 0, 0]" "[3, 0, 0, 0]"]
  by (simp add: int_of_elem_def to_signed_def elem_bits_def in_signed_def)





end
