(* ===== verification/Matrix_Correct.thy ===== *)
theory Matrix_Correct
  imports Arith_Correct
begin

text \<open>
  Matrix multiplication: under the one assumption on the BLAS routine that its result has as
  many numbers as the product matrix, \<^verbatim>\<open>matrixMul\<close> builds a well-formed two-dimensional array
  with the rows of the left and the columns of the right operand.
\<close>

section \<open>Matrices\<close>

definition mrows :: "flat \<Rightarrow> nat" where
  "mrows F = fwidths F ! 0"

definition mcols :: "flat \<Rightarrow> nat" where
  "mcols F = (if length (fdwm F) = 1 then 1 else fwidths F ! 1)"

text \<open>One or two dimensions, no NULLs, as many values as rows times columns.\<close>

definition is_matrix :: "flat \<Rightarrow> bool" where
  "is_matrix F \<longleftrightarrow> wf_flat F \<and> fty F \<in> {BFLOAT, FLOAT, DOUBLE} \<and> length (fdwm F) \<le> 2 \<and>
     0 < mrows F \<and> length (felems F) = mrows F * mcols F"

definition matrix_of :: "ArrayType \<Rightarrow> nat \<Rightarrow> nat \<Rightarrow> bytes list \<Rightarrow> flat" where
  "matrix_of T r c vs = \<lparr>fty = T, fidx = [1, 1], fdwm = [1, r], fwidths = r # replicate r c,
     felems = vs, fnulls = replicate (r * c) False, fstr = []\<rparr>"

text \<open>The size of the numbers the routine for a type produces, and what is assumed of it.\<close>

definition gemm_size :: "ArrayType \<Rightarrow> nat" where
  "gemm_size T = (if T = BFLOAT then 4 else elem_size T)"

definition gemm_fills :: "gemm \<Rightarrow> bool" where
  "gemm_fills gemm \<longleftrightarrow> (\<forall>T r c k A B. length (gemm T r c k A B) = r * c * gemm_size T)"

definition gemm_values :: "gemm \<Rightarrow> ArrayType \<Rightarrow> nat \<Rightarrow> nat \<Rightarrow> nat \<Rightarrow> bytes \<Rightarrow> bytes \<Rightarrow> bytes list" where
  "gemm_values gemm T r c k A B =
     map (\<lambda>i. let x = take (gemm_size T) (drop (gemm_size T * i) (gemm T r c k A B)) in
            if T = BFLOAT then elem_of_bits BFLOAT (fencode bfloat16 (fdecode binary32 (le_val x))) else x)
       [0..<r * c]"

lemma wf_matrix_of:
  assumes "T \<noteq> STRING" and "0 < r" and "chunked (elem_size T) vs" and "length vs = r * c"
    and fit: "fits (matrix_of T r c vs)"
  shows "wf_flat (matrix_of T r c vs)"
proof (rule wf_of_chain[of _ "[[r], replicate r c]"])
  show "chain [[r], replicate r c] (length (fnulls (matrix_of T r c vs)))"
    by (simp add: chain_def matrix_of_def sum_list_replicate)
qed (use assms in \<open>simp_all add: matrix_of_def small_def\<close>)

lemma chunks_of_bytes:
  assumes "length xs = n * w"
  shows "concat (map (\<lambda>i. take w (drop (w * i) xs)) [0..<n]) = xs"
  using assms
proof (induction n arbitrary: xs)
  case (Suc n)
  have "concat (map (\<lambda>i. take w (drop (w * i) xs)) [0..<Suc n]) =
      take w xs @ concat (map (\<lambda>i. take w (drop (w * i) (drop w xs))) [0..<n])"
    by (simp add: upt_conv_Cons map_Suc_upt[symmetric] comp_def add.commute del: upt_Suc)
  also have "concat (map (\<lambda>i. take w (drop (w * i) (drop w xs))) [0..<n]) = drop w xs"
    using Suc.prems by (intro Suc.IH) simp
  finally show ?case by simp
qed simp

lemma load_all_elements:
  assumes "wf_flat F" and "n = length (felems F)"
  shows "load (amem (obj_of F)) (elements (obj_of F)) (elem_size (fty F) * n) = Inr (concat (felems F))"
  using enc.load_elements[OF assms(1), of 0 n] assms(2) by simp

lemma gemm_appends:
  assumes F: "wf_flat F" and G: "wf_flat G" and ty: "fty G = fty F" "fty F \<in> {BFLOAT, FLOAT, DOUBLE}"
    and g: "gemm_fills gemm"
    and nF: "r * k = length (felems F)" and nG: "k * c = length (felems G)" and lt: "r * c < 4294967296"
  shows "appends (MatrixMultiplicationOperator gemm (fty F) (amem (obj_of F)) (elements (obj_of F))
      (amem (obj_of G)) (elements (obj_of G)) r k c)
    (concat (gemm_values gemm (fty F) r c k (concat (felems F)) (concat (felems G))))"
proof -
  let ?C = "gemm (fty F) r c k (concat (felems F)) (concat (felems G))"
  have len: "length ?C = r * c * gemm_size (fty F)" using g by (simp add: gemm_fills_def)
  note ld = load_all_elements[OF F nF] load_all_elements[OF G nG, unfolded ty(1)]
  have op: "MatrixMultiplicationOperator gemm (fty F) (amem (obj_of F)) (elements (obj_of F))
      (amem (obj_of G)) (elements (obj_of G)) r k c =
    (if fty F = BFLOAT then mfold (\<lambda>idx w. ebind (load ?C (4 * idx) 4) (\<lambda>x.
        ebind (elem_cast FLOAT BFLOAT x) (\<lambda>value. writeToBuffer value w))) [0..<r * c]
     else copyToBuffer ?C 0 (elem_size (fty F) * (r * c)))"
    using ld lt by (intro ext) (simp add: MatrixMultiplicationOperator_def Let_def)
  show ?thesis
  proof (cases "fty F = BFLOAT")
    case True
    have "appends (mfold (\<lambda>idx w. ebind (load ?C (4 * idx) 4) (\<lambda>x.
        ebind (elem_cast FLOAT BFLOAT x) (\<lambda>value. writeToBuffer value w))) [0..<r * c])
      (concat (map (\<lambda>i. elem_of_bits BFLOAT (fencode bfloat16 (fdecode binary32 (le_val (take 4 (drop (4 * i) ?C))))))
        [0..<r * c]))"
    proof (rule appends_mfold)
      fix i assume "i \<in> set [0..<r * c]"
      then have "4 * i + 4 \<le> length ?C" using len True by (simp add: gemm_size_def)
      then have "load ?C (4 * i) 4 = Inr (take 4 (drop (4 * i) ?C))" by (simp add: load_def)
      then show "appends (\<lambda>w. ebind (load ?C (4 * i) 4) (\<lambda>x.
          ebind (elem_cast FLOAT BFLOAT x) (\<lambda>value. writeToBuffer value w)))
        (elem_of_bits BFLOAT (fencode bfloat16 (fdecode binary32 (le_val (take 4 (drop (4 * i) ?C))))))"
        by (simp add: elem_cast_def fval_of_elem_def appends_writeToBuffer)
    qed
    then show ?thesis
      unfolding op using True by (simp add: gemm_values_def gemm_size_def Let_def)
  next
    case False
    have "concat (gemm_values gemm (fty F) r c k (concat (felems F)) (concat (felems G))) = ?C"
      using False len chunks_of_bytes[of ?C "r * c" "gemm_size (fty F)"] by (simp add: gemm_values_def)
    moreover have "load ?C 0 (elem_size (fty F) * (r * c)) = Inr ?C"
      using len False by (simp add: load_def gemm_size_def mult.commute)
    ultimately show ?thesis
      unfolding op using False by (simp add: appends_copyToBuffer)
  qed
qed

section \<open>The product\<close>

lemma chunked_gemm_values:
  "gemm_fills gemm \<Longrightarrow> T \<noteq> STRING \<Longrightarrow> chunked (elem_size T) (gemm_values gemm T r c k A B)"
proof -
  assume g: "gemm_fills gemm" and T: "T \<noteq> STRING"
  have "length (take (gemm_size T) (drop (gemm_size T * i) (gemm T r c k A B))) = gemm_size T" if "i < r * c" for i
  proof -
    have "gemm_size T * i + gemm_size T \<le> gemm_size T * (r * c)"
      using that by (metis Suc_leI add.commute mult_Suc_right mult_le_mono2)
    then show ?thesis using g by (simp add: gemm_fills_def mult.commute)
  qed
  then show ?thesis by (auto simp: chunked_def gemm_values_def gemm_size_def Let_def)
qed

lemma matrix_widths:
  assumes "is_matrix F"
  shows "width_at (obj_of F) 0 = Inr (mrows F)"
    and "(if length (fdwm F) = 1 then Inr 1 else width_at (obj_of F) 1) = Inr (mcols F)"
    and "mrows F < 4294967296" and "mcols F < 4294967296"
proof -
  have wf: "wf_flat F" and d: "length (fdwm F) \<le> 2" and r: "0 < mrows F"
    using assms by (simp_all add: is_matrix_def)
  have w0: "0 < length (fwidths F)" using wf_widths_nonempty[OF wf] by simp
  then show "width_at (obj_of F) 0 = Inr (mrows F)" by (simp add: enc.width_at_obj[OF wf] mrows_def)
  show "mrows F < 4294967296" using smallD[OF wf_bounds(9)[OF wf] w0] by (simp add: mrows_def)
  have w1: "1 < length (fwidths F)" if "length (fdwm F) \<noteq> 1"
  proof -
    have two: "length (fdwm F) = 2" using that d wf_dims(1)[OF wf] by linarith
    then have "fdwm F ! 1 = mrows F"
      using wf_level_sum(1)[OF wf, of 0] level_0[OF wf] by (simp add: mrows_def)
    moreover have "length (fwidths F) = fdwm F ! 0 + fdwm F ! 1"
      using wf_sum_dwm[OF wf] two by (cases "fdwm F"; cases "tl (fdwm F)") auto
    ultimately show ?thesis using wf_dims(3)[OF wf] r by simp
  qed
  then show "(if length (fdwm F) = 1 then Inr 1 else width_at (obj_of F) 1) = Inr (mcols F)"
    by (simp add: enc.width_at_obj[OF wf] mcols_def)
  show "mcols F < 4294967296"
    using w1 smallD[OF wf_bounds(9)[OF wf], of 1] by (auto simp: mcols_def)
qed

lemma matrixMul_run:
  assumes F: "is_matrix F" and G: "is_matrix G" and ty: "fty G = fty F" and g: "gemm_fills gemm"
    and dim: "mcols F = mrows G" and lt: "mrows F * mcols G < 4294967296" "mrows F < 4294967295"
    and vs: "vs = gemm_values gemm (fty F) (mrows F) (mcols G) (mrows G) (concat (felems F)) (concat (felems G))"
    and fit: "fits (matrix_of (fty F) (mrows F) (mcols G) vs)"
  shows "matrixMul gemm (obj_of F) (obj_of G) = Inr (encode (matrix_of (fty F) (mrows F) (mcols G) vs))"
proof -
  let ?T = "fty F" and ?r = "mrows F" and ?c = "mcols G" and ?k = "mrows G"
  let ?R = "matrix_of ?T ?r ?c vs"
  have wF: "wf_flat F" and T: "?T \<in> {BFLOAT, FLOAT, DOUBLE}" and dF: "length (fdwm F) \<le> 2"
    and nF: "?r * ?k = length (felems F)"
    using F dim by (simp_all add: is_matrix_def)
  have wG: "wf_flat G" and dG: "length (fdwm G) \<le> 2" and nG: "?k * ?c = length (felems G)"
    using G by (simp_all add: is_matrix_def)
  have lenvs: "length vs = ?r * ?c" by (simp add: vs gemm_values_def)
  have ch: "chunked (elem_size ?T) vs" unfolding vs using T by (intro chunked_gemm_values[OF g]) auto
  note mul = gemm_appends[OF wF wG ty T g nF nG lt(1), folded vs]
  have op: "(case type_of (type_id ?T) of
      Some BFLOAT \<Rightarrow> MatrixMultiplicationOperator gemm BFLOAT (amem (obj_of F)) (elements (obj_of F)) (amem (obj_of G)) (elements (obj_of G)) ?r ?k ?c
    | Some FLOAT \<Rightarrow> MatrixMultiplicationOperator gemm FLOAT (amem (obj_of F)) (elements (obj_of F)) (amem (obj_of G)) (elements (obj_of G)) ?r ?k ?c
    | _ \<Rightarrow> MatrixMultiplicationOperator gemm DOUBLE (amem (obj_of F)) (elements (obj_of F)) (amem (obj_of G)) (elements (obj_of G)) ?r ?k ?c) =
    MatrixMultiplicationOperator gemm ?T (amem (obj_of F)) (elements (obj_of F)) (amem (obj_of G)) (elements (obj_of G)) ?r ?k ?c"
    using T by auto
  have "u32s (replicate ?r ?c) = concat (map (\<lambda>i. le_bytes 4 ?c) [0..<?r])"
    by (simp add: u32s_def map_replicate_const)
  moreover have two: "[0..<2] = [0, Suc 0]" by (simp add: upt_rec)
  ultimately have enc: "encode ?R = concat [ARRAYHEADER, [of_nat (type_id ?T)], le_bytes 4 2, le_bytes 4 (?r * ?c),
      concat (map (\<lambda>i. le_bytes 4 1) [0..<2]), le_bytes 4 1, le_bytes 4 ?r, le_bytes 4 ?r,
      concat (map (\<lambda>i. le_bytes 4 ?c) [0..<?r]), concat vs] @ replicate (getNullBytes (?r * ?c)) 0"
    using lenvs two by (simp add: encode_def matrix_of_def pack_replicate_False flip: numeral_2_eq_2)
  have n: "14 + 8 * 2 + 4 * (?r + 1) + ?r * ?c * elem_size ?T + getNullBytes (?r * ?c) = length (encode ?R)"
    using length_concat_chunked[OF ch] lenvs by (simp add: encode_def matrix_of_def)
  have run: "build (length (encode ?R)) [
            writeToBuffer ARRAYHEADER,
            put8 (type_id ?T),
            put32 2,
            put32 (?r * ?c),
            mfold (\<lambda>i. put32 1) [0..<2],
            put32 1,
            put32 ?r,
            put32 ?r,
            mfold (\<lambda>i. put32 ?c) [0..<?r],
            MatrixMultiplicationOperator gemm ?T (amem (obj_of F)) (elements (obj_of F)) (amem (obj_of G)) (elements (obj_of G)) ?r ?k ?c] =
      Inr (encode ?R)"
    unfolding enc
  proof (rule build_appends_zeros)
    show "list_all2 appends [
            writeToBuffer ARRAYHEADER,
            put8 (type_id ?T),
            put32 2,
            put32 (?r * ?c),
            mfold (\<lambda>i. put32 1) [0..<2],
            put32 1,
            put32 ?r,
            put32 ?r,
            mfold (\<lambda>i. put32 ?c) [0..<?r],
            MatrixMultiplicationOperator gemm ?T (amem (obj_of F)) (elements (obj_of F)) (amem (obj_of G)) (elements (obj_of G)) ?r ?k ?c]
       [ARRAYHEADER, [of_nat (type_id ?T)], le_bytes 4 2, le_bytes 4 (?r * ?c),
      concat (map (\<lambda>i. le_bytes 4 1) [0..<2]), le_bytes 4 1, le_bytes 4 ?r, le_bytes 4 ?r,
      concat (map (\<lambda>i. le_bytes 4 ?c) [0..<?r]), concat vs]"
      using mul appends_mfold[of "[0..<2]" "\<lambda>i. put32 1" "\<lambda>i. le_bytes 4 1"]
        appends_mfold[of "[0..<?r]" "\<lambda>i. put32 ?c" "\<lambda>i. le_bytes 4 ?c"]
      by (simp add: buf_intros)
  qed (use fitsD(1)[OF fit] enc in simp_all)
  have float: "isFloatingPointType (type_id ?T)" using T by simp
  show ?thesis
    using run op float n dF dG lt dim matrix_widths[OF F] matrix_widths[OF G]
    by (simp add: matrixMul_def enc.obj_type[OF wF] enc.obj_type[OF wG] enc.obj_dims[OF wF] enc.obj_dims[OF wG]
        ty size_of_rebuild Let_def)
qed

section \<open>A concrete routine\<close>

text \<open>
  The textbook product of two row-major matrices in the arithmetic of \<open>float\<close> (for
  \<^verbatim>\<open>__bf16\<close> and \<^verbatim>\<open>float\<close>) or \<open>double\<close>, an instance of what is assumed.
\<close>

definition gemm_elem :: "ArrayType \<Rightarrow> nat \<Rightarrow> nat \<Rightarrow> bytes \<Rightarrow> bytes \<Rightarrow> nat \<Rightarrow> nat \<Rightarrow> nat" where
  "gemm_elem T c k A B i j =
     (let F = arith_fmt T; w = elem_size T;
          a = (\<lambda>l. fval_of_elem T (take w (drop (w * (i * k + l)) A)));
          b = (\<lambda>l. fval_of_elem T (take w (drop (w * (l * c + j)) B)))
      in foldl (\<lambda>s l. fencode F (fadd (fdecode F s) (fdecode F (fencode F (fmul (a l) (b l)))))) 0 [0..<k])"

definition gemm_ref :: gemm where
  "gemm_ref T r c k A B =
     concat (map (\<lambda>n. le_bytes (gemm_size T) (gemm_elem T c k A B (n div c) (n mod c))) [0..<r * c])"

lemma gemm_ref_fills: "gemm_fills gemm_ref"
  unfolding gemm_fills_def gemm_ref_def
  by (intro allI) (simp add: length_concat_chunked[of "gemm_size _"] chunked_def mult.commute comp_def
      length_concat sum_list_triv)

definition sample_matrix :: flat where
  "sample_matrix = \<lparr>fty = FLOAT, fidx = [1, 1], fdwm = [1, 2], fwidths = [2, 2, 2],
     felems = [[0, 0, 128, 63], [0, 0, 0, 64], [0, 0, 64, 64], [0, 0, 128, 64]],
     fnulls = [False, False, False, False], fstr = []\<rparr>"

lemma sample_matrix: "is_matrix sample_matrix" "fty sample_matrix = FLOAT" "mrows sample_matrix = 2"
    "mcols sample_matrix = 2"
  by (simp_all add: is_matrix_def mrows_def mcols_def wf_flat_def small_def level_def lvl_start_def
      encode_def nth_Cons less_Suc_eq getNullBytes_eq numeral_2_eq_2 sample_matrix_def)

section \<open>Properties\<close>

text \<open>C10: For matrices of one floating point type whose inner sizes agree, \<^verbatim>\<open>matrixMul\<close> builds a
  well-formed array without NULLs of rows(left) times columns(right) values, the numbers the
  BLAS routine returns for the stored values (rounded for \<^verbatim>\<open>__bf16\<close>).\<close>
theorem matrix_product:
  assumes "is_matrix F" and "is_matrix G" and "fty G = fty F" and "gemm_fills gemm"
    and "mcols F = mrows G" and "mrows F * mcols G < 4294967296" and "mrows F < 4294967295"
    and "vs = gemm_values gemm (fty F) (mrows F) (mcols G) (mrows G) (concat (felems F)) (concat (felems G))"
    and "fits (matrix_of (fty F) (mrows F) (mcols G) vs)"
  shows "\<exists>R. matrixMul gemm (obj_of F) (obj_of G) = Inr (encode R) \<and> wf_flat R \<and>
    level R 0 = [mrows F] \<and> level R 1 = replicate (mrows F) (mcols G) \<and> items R = map Some vs"
proof (intro exI conjI)
  let ?R = "matrix_of (fty F) (mrows F) (mcols G) vs"
  have T: "fty F \<noteq> STRING" and r: "0 < mrows F" using assms(1) by (auto simp: is_matrix_def)
  have len: "length vs = mrows F * mcols G" by (simp add: assms(8) gemm_values_def)
  show "matrixMul gemm (obj_of F) (obj_of G) = Inr (encode ?R)" by (rule matrixMul_run[OF assms])
  show "wf_flat ?R"
    using chunked_gemm_values[OF assms(4) T] len by (intro wf_matrix_of T r assms(9)) (simp_all add: assms(8))
  show "level ?R 0 = [mrows F]" "level ?R 1 = replicate (mrows F) (mcols G)"
    by (simp_all add: level_def lvl_start_def matrix_of_def)
  show "items ?R = map Some vs"
    using T len by (simp add: items_def matrix_of_def place_all)
qed

theorem matrix_product_witness:
  "\<exists>R. matrixMul gemm_ref (obj_of sample_matrix) (obj_of sample_matrix) = Inr (encode R) \<and>
    level R 1 = [2, 2]"
proof -
  have "fits (matrix_of FLOAT 2 2 (gemm_values gemm_ref FLOAT 2 2 2 A B))" for A B
    using length_concat_chunked[OF chunked_gemm_values[OF gemm_ref_fills, of FLOAT 2 2 2 A B]]
    by (simp add: fits_def encode_def matrix_of_def gemm_values_def getNullBytes_eq)
  then show ?thesis
    using matrix_product[OF sample_matrix(1,1) refl gemm_ref_fills _ _ _ refl]
    by (auto simp: sample_matrix(2-4) numeral_2_eq_2)
qed

end
