(* ===== verification/Array_Cast.thy ===== *)
theory Array_Cast
  imports Elem_Values
begin

text \<open>
  Conversions of elements and whole arrays: the \<^verbatim>\<open>castAndCopyElement\<close> and \<^verbatim>\<open>toString\<close> templates
  (\<^verbatim>\<open>ArrayElementHandling.cpp\<close>, \<^verbatim>\<open>Array.tpp\<close>), \<^verbatim>\<open>ArrayCast.cpp\<close>, and \<^verbatim>\<open>getHighestPosition\<close>.
\<close>

section \<open>Elements from text\<close>

text \<open>
  \<^verbatim>\<open>castAndCopyElement<TYPE>(buffer, value)\<close>: the two exceptions of the parser become runtime
  errors that name the type. The instance for strings copies the bytes of the \<^verbatim>\<open>std::string\<close>
  object and beyond.
\<close>

fun parsed_name :: "ArrayType \<Rightarrow> string" where
  "parsed_name INTEGER32 = ''INTEGER''"
| "parsed_name INTEGER64 = ''INTEGER''"
| "parsed_name BFLOAT = ''FLOAT''"
| "parsed_name FLOAT = ''FLOAT''"
| "parsed_name DOUBLE = ''DOUBLE''"
| "parsed_name STRING = ''STRING''"

fun range_name :: "ArrayType \<Rightarrow> string" where
  "range_name INTEGER32 = ''32-Bit INTEGER''"
| "range_name INTEGER64 = ''64-Bit INTEGER''"
| "range_name T = parsed_name T"

definition value_of_text :: "ArrayType \<Rightarrow> bytes \<Rightarrow> bytes res" where
  "value_of_text T value = (case elem_parse T (string_of value) of
      Inl InvalidArgument \<Rightarrow> Inl (RuntimeError (string_of value @ '' is not of type '' @ parsed_name T))
    | Inl OutOfRange \<Rightarrow> Inl (RuntimeError (string_of value @ '' is out of range of '' @ range_name T))
    | r \<Rightarrow> r)"

definition castAndCopyText :: "ArrayType \<Rightarrow> bytes \<Rightarrow> wbuf \<Rightarrow> wbuf res" where
  "castAndCopyText T value w =
     (if T = STRING then (if value = [] then Inr w else Inl Undefined)
      else ebind (value_of_text T value) (\<lambda>x. writeToBuffer x w))"

section \<open>Text from elements\<close>

definition element_at :: "array_obj \<Rightarrow> ArrayType \<Rightarrow> nat \<Rightarrow> bytes res" where
  "element_at a T position = load (amem a) (elements a + elem_size T * position) (elem_size T)"

text \<open>\<^verbatim>\<open>toString<TYPE>(position, target)\<close>; \<open>T\<close> is the type the template is used at.\<close>

definition toStringElement :: "array_obj \<Rightarrow> ArrayType \<Rightarrow> nat \<Rightarrow> bytes \<Rightarrow> bytes res" where
  "toStringElement a T position target =
     (if asize a \<le> position then Inl (RuntimeError ''Requested array element does not exist'')
      else if T = STRING then
        ebind (string_offset a position) (\<lambda>offset.
        ebind (length_at a position) (\<lambda>n.
        ebind (load (amem a) (strings a + offset) n) (\<lambda>value.
        Inr (target @ bytes_of [CHR 0x22] @ value @ bytes_of [CHR 0x22]))))
      else ebind (element_at a T position) (\<lambda>x. Inr (target @ bytes_of (elem_text T x))))"

section \<open>Casting an element of an array\<close>

text \<open>
  The offset and length of a string are found by a loop over the lengths up to and including
  \<open>position\<close>.
\<close>

definition string_span :: "array_obj \<Rightarrow> nat \<Rightarrow> (nat \<times> nat) res" where
  "string_span a position =
     mfold (\<lambda>i (offset, len). ebind (length_at a i) (\<lambda>k.
         Inr (if i = position then (offset, k) else (u32 (offset + k), len))))
       [0..<position + 1] (0, 0)"

definition castAndCopyElement :: "array_obj \<Rightarrow> nat \<Rightarrow> nat \<Rightarrow> wbuf \<Rightarrow> wbuf res" where
  "castAndCopyElement a position t w =
     (if position > asize a then Inl (RuntimeError ''Requested array element does not exist'')
      else case type_of (atype a) of
        Some STRING \<Rightarrow>
          ebind (string_span a position) (\<lambda>(offset, len).
          ebind (load (amem a) (strings a + offset) len) (\<lambda>value.
          case type_of t of
            Some T \<Rightarrow> castAndCopyText T value w
          | None \<Rightarrow> Inl (RuntimeError ''Cast-Operation: Given array type is not supported'')))
      | Some S \<Rightarrow>
          ebind (element_at a S position) (\<lambda>x.
          case type_of t of
            Some STRING \<Rightarrow>
              ebind (toStringElement a S position []) (\<lambda>value. writeToBuffer (le_bytes 4 (length value)) w)
          | Some T \<Rightarrow> ebind (elem_cast S T x) (\<lambda>value. writeToBuffer value w)
          | None \<Rightarrow> Inl (RuntimeError ''Cast-Operation: Given array type is not supported''))
      | None \<Rightarrow> Inl Undefined)"

section \<open>Casting an array\<close>

definition castToNumeric :: "array_obj \<Rightarrow> nat \<Rightarrow> bytes res" where
  "castToNumeric a t =
     (if \<not> isNumericType t then Inl (RuntimeError ''Array-Cast: Provided type is not numeric'')
      else
        ebind (getSize a True) (\<lambda>totalElements.
        ebind (getWidthSize a) (\<lambda>widthSize.
        ebind (getStringSize (dimensions a) (asize a) widthSize (getNullBytes totalElements) 0 t) (\<lambda>n.
        build n [
          writeToBuffer ARRAYHEADER,
          put8 t,
          put32 (dimensions a),
          put32 (asize a),
          copyToBuffer (amem a) (indices a) (4 * dimensions a),
          copyToBuffer (amem a) (dimensionWidthMap a) (4 * dimensions a),
          copyToBuffer (amem a) (widths a) (4 * widthSize),
          mfold (\<lambda>i. case type_of (atype a) of
              Some T \<Rightarrow> castAndCopyElement a i t
            | None \<Rightarrow> (\<lambda>w. Inl (RuntimeError ''Numeric-Cast-Operation: Given array type is not supported'')))
            [0..<asize a],
          copyNulls (amem a) (nulls a) totalElements 0]))))"

text \<open>The vector of strings the first loop of \<^verbatim>\<open>castToString\<close> collects.\<close>

definition element_strings :: "array_obj \<Rightarrow> bytes list res" where
  "element_strings a =
     ebind (mfold (\<lambda>i (els, offset).
         case type_of (atype a) of
           Some STRING \<Rightarrow>
             ebind (length_at a i) (\<lambda>k.
             ebind (load (amem a) (strings a + offset) k) (\<lambda>s. Inr (els @ [s], u32 (offset + k))))
         | Some T \<Rightarrow> ebind (element_at a T i) (\<lambda>x. Inr (els @ [bytes_of (elem_text T x)], offset))
         | None \<Rightarrow> Inl (RuntimeError ''String-Cast-Operation: Given array type is not supported''))
       [0..<asize a] ([], 0))
     (\<lambda>(els, _). Inr els)"

definition castToString :: "array_obj \<Rightarrow> bytes res" where
  "castToString a =
     ebind (getSize a True) (\<lambda>totalElements.
     ebind (element_strings a) (\<lambda>els.
     let lengths = foldl (\<lambda>acc entry. u32 (acc + length entry)) 0 els in
     ebind (getWidthSize a) (\<lambda>widthSize.
     ebind (getStringSize (dimensions a) (asize a) widthSize (getNullBytes totalElements) lengths (type_id STRING)) (\<lambda>n.
     build n [
       writeToBuffer ARRAYHEADER,
       put8 (type_id STRING),
       put32 (dimensions a),
       put32 (asize a),
       copyToBuffer (amem a) (indices a) (4 * dimensions a),
       copyToBuffer (amem a) (dimensionWidthMap a) (4 * dimensions a),
       copyToBuffer (amem a) (widths a) (4 * widthSize),
       mfold (\<lambda>entry. put32 (length entry)) els,
       copyNulls (amem a) (nulls a) totalElements 0,
       mfold writeToBuffer els]))))"

definition array_cast :: "array_obj \<Rightarrow> int \<Rightarrow> bytes res" where
  "array_cast a t =
     ebind (getTypeId t) (\<lambda>typeId.
     if typeId = type_id STRING then castToString a else castToNumeric a typeId)"

section \<open>The position of the greatest element\<close>

text \<open>
  \<^verbatim>\<open>getMaxIndex<TYPE>\<close>: positions count NULLs, elements are read at element positions; the
  result is an \<^verbatim>\<open>int32_t\<close>, here with \<open>None\<close> for its initial value -1.
\<close>

definition getMaxIndex :: "array_obj \<Rightarrow> ArrayType \<Rightarrow> int res" where
  "getMaxIndex a T =
     ebind (getSize a True) (\<lambda>n.
     ebind (mfold (\<lambda>i result.
         ebind (isNull a i) (\<lambda>b.
         if b then Inr result
         else
           ebind (getElementPosition a i) (\<lambda>position.
           let result = (case result of None \<Rightarrow> i | Some r \<Rightarrow> r) in
           ebind (getElementPosition a result) (\<lambda>resultPosition.
           ebind (element_at a T position) (\<lambda>x.
           ebind (element_at a T resultPosition) (\<lambda>y.
           Inr (Some (if elem_greater T x y then i else result))))))))
       [0..<n] None)
     (\<lambda>result. Inr (case result of None \<Rightarrow> -1 | Some r \<Rightarrow> to_signed 32 r)))"

definition getHighestPosition :: "array_obj \<Rightarrow> int res" where
  "getHighestPosition a =
     (if asize a = 0 then Inr 0
      else case type_of (atype a) of
        Some T \<Rightarrow> getMaxIndex a T
      | None \<Rightarrow> Inl (RuntimeError ''Array-HighestPosition: Given array type is not supported in arrays''))"

section \<open>Recursion over the dimensions\<close>

text \<open>A dimension that the array does not have is refused by \<^verbatim>\<open>getChildWidth\<close>.\<close>

lemma getChildWidth_dimension: "getChildWidth a entry n = Inr c \<Longrightarrow> 0 < n \<and> n \<le> dimensions a"
  by (auto simp: getChildWidth_def split: if_splits)

end
