(* ===== verification/Array_Fill.thy ===== *)
theory Array_Fill
  imports Array_Cast
begin

text \<open>
  Arrays of one repeated value or of NULLs (\<^verbatim>\<open>ArrayFill.cpp\<close> and the two \<^verbatim>\<open>generate\<close> templates of
  \<^verbatim>\<open>Array.tpp\<close>): the values of an integer array give the widths of the dimensions.
\<close>

section \<open>The shape\<close>

text \<open>\<^verbatim>\<open>static_cast<uint32_t>(elements[i])\<close>: the low 32 bits of the \<open>i\<close>-th value.\<close>

definition struct_at :: "array_obj \<Rightarrow> ArrayType \<Rightarrow> nat \<Rightarrow> nat res" where
  "struct_at a S i = ebind (element_at a S i) (\<lambda>x. Inr (u32 (le_val x)))"

text \<open>\<^verbatim>\<open>elementCopies\<close>, \<^verbatim>\<open>widthSize\<close> and \<^verbatim>\<open>dimensionWidthMap\<close> after the first loop.\<close>

definition generate_shape :: "array_obj \<Rightarrow> ArrayType \<Rightarrow> (nat \<times> nat \<times> nat list) res" where
  "generate_shape a S =
     mfold (\<lambda>i (elementCopies, widthSize, dwm).
         ebind (struct_at a S i) (\<lambda>e.
         let elementCopies = u32 (elementCopies * e) in
         Inr (if i + 1 < asize a then (elementCopies, u32 (widthSize + elementCopies), dwm @ [elementCopies])
              else (elementCopies, widthSize, dwm))))
       [0..<asize a] (1, 1, [1])"

definition write_shape :: "array_obj \<Rightarrow> ArrayType \<Rightarrow> nat list \<Rightarrow> wbuf \<Rightarrow> wbuf res" where
  "write_shape a S dwm =
     mfold (\<lambda>i w. ebind (struct_at a S i) (\<lambda>width.
         mfold (\<lambda>j. put32 width) [0..<dwm ! i] w)) [0..<asize a]"

section \<open>Generating\<close>

text \<open>
  \<^verbatim>\<open>generate<TYPE, ARRAYTYPE>(value, structure, type, stringSize)\<close>: \<open>T\<close> is the element type of
  the result, \<open>value\<close> its bytes (for strings the characters).
\<close>

definition generate :: "ArrayType \<Rightarrow> bytes \<Rightarrow> array_obj \<Rightarrow> ArrayType \<Rightarrow> bytes res" where
  "generate T value a S =
     (let sz = asize a; stringSize = (if T = STRING then u32 (length value) else 0) in
     ebind (generate_shape a S) (\<lambda>(elementCopies, widthSize, dwm).
     ebind (getStringSize sz elementCopies widthSize (getNullBytes elementCopies)
              (u32 (stringSize * elementCopies)) (type_id T)) (\<lambda>n.
     build n [
       writeToBuffer ARRAYHEADER,
       put8 (type_id T),
       put32 sz,
       put32 elementCopies,
       mfold (\<lambda>i. put32 1) [0..<sz],
       mfold put32 dwm,
       write_shape a S dwm,
       (if T \<noteq> STRING then mfold (\<lambda>i. writeToBuffer value) [0..<elementCopies]
        else steps [
          mfold (\<lambda>i. put32 stringSize) [0..<elementCopies],
          advance (getNullBytes elementCopies),
          mfold (\<lambda>i. writeToBuffer (take stringSize value)) [0..<elementCopies]])])))"

text \<open>\<^verbatim>\<open>generate<ARRAYTYPE>(structure, type)\<close>: as many NULLs.\<close>

definition generateNulls :: "array_obj \<Rightarrow> ArrayType \<Rightarrow> ArrayType \<Rightarrow> bytes res" where
  "generateNulls a S T =
     (let sz = asize a in
     ebind (generate_shape a S) (\<lambda>(elementCopies, widthSize, dwm).
     ebind (getStringSize sz 0 widthSize (getNullBytes elementCopies) 0 (type_id T)) (\<lambda>n.
     build n [
       writeToBuffer ARRAYHEADER,
       put8 (type_id T),
       put32 sz,
       put32 0,
       mfold (\<lambda>i. put32 1) [0..<sz],
       mfold put32 dwm,
       write_shape a S dwm,
       mfold (\<lambda>i w.
           ebind (if i \<noteq> 0 \<and> i mod 8 = 0 then advance 1 w else Inr w) (orBit (8 - i mod 8 - 1)))
         [0..<elementCopies]])))"

section \<open>The entry points\<close>

text \<open>The six instances of \<^verbatim>\<open>fill(value, structure)\<close>; \<open>T\<close> is the type of the value.\<close>

definition fill :: "ArrayType \<Rightarrow> bytes \<Rightarrow> array_obj \<Rightarrow> bytes res" where
  "fill T value structure =
     (if asize structure = 0
      then Inl (RuntimeError ''Array-Fill: Array argument should contain elements'')
      else if atype structure = type_id INTEGER32 then generate T value structure INTEGER32
      else if atype structure = type_id INTEGER64 then generate T value structure INTEGER64
      else Inl (RuntimeError ''Array-Fill: Function supports only integer arrays''))"

definition fillNulls :: "array_obj \<Rightarrow> bytes res" where
  "fillNulls structure =
     (if asize structure = 0
      then Inl (RuntimeError ''Array-Fill: Array argument should contain elements'')
      else if atype structure = type_id INTEGER32 then generateNulls structure INTEGER32 INTEGER32
      else if atype structure = type_id INTEGER64 then generateNulls structure INTEGER64 INTEGER32
      else Inl (RuntimeError ''Array-Fill: Function supports only integer arrays''))"

end
