(* ===== verification/Cast_Correct.thy ===== *)
theory Cast_Correct
  imports Array_Cast Arith_Correct
begin

text \<open>
  What the conversions do on well-formed arrays: casts between numeric types and from text
  convert value by value and keep the structure; the cast to strings prints every value; an
  integer array cast to strings and back is the array itself.
\<close>

section \<open>Reading single values\<close>

lemma element_at_obj:
  "wf_flat F \<Longrightarrow> i < length (felems F) \<Longrightarrow> element_at (obj_of F) (fty F) i = Inr (felems F ! i)"
  unfolding element_at_def by (rule load_elem)

lemma strs_bound:
  assumes wf: "wf_flat F" and ty: "fty F = STRING" and i: "i < length (felems F)"
  shows "sum_list (take i (map le_val (felems F))) + le_val (felems F ! i) \<le> length (fstr F)"
  using sum_take_le[of "Suc i" "map le_val (felems F)"] wf_strings(1)[OF wf ty] i
  by (simp add: sum_take_Suc)

lemma load_str:
  assumes wf: "wf_flat F" and ty: "fty F = STRING" and i: "i < length (felems F)"
  shows "load (amem (obj_of F)) (strings (obj_of F) + sum_list (take i (map le_val (felems F)))) (le_val (felems F ! i)) =
    Inr (strs F ! i)"
  using enc.load_strings[OF wf strs_bound[OF wf ty i]] strs_nth[OF i] by (simp add: str_at_def)

lemma string_span_obj:
  assumes wf: "wf_flat F" and ty: "fty F = STRING" and i: "i < length (felems F)"
  shows "string_span (obj_of F) i = Inr (sum_list (take i (map le_val (felems F))), le_val (felems F ! i))"
proof -
  let ?ls = "map le_val (felems F)"
  have "mfold (\<lambda>j (offset, len). ebind (length_at (obj_of F) j) (\<lambda>k.
      Inr (if j = i then (offset, k) else (u32 (offset + k), len)))) [0..<i] (0, 0) =
    Inr (sum_list (take i ?ls), 0)"
  proof (rule mfold_upt0[where S = "\<lambda>j. (sum_list (take j ?ls), 0)"])
    fix j assume j: "j < i"
    have "sum_list (take (Suc j) ?ls) < 4294967296"
      using sum_take_le[of "Suc j" ?ls] wf_strings(1)[OF wf ty] wf_bounds(5)[OF wf] by linarith
    then show "(case (sum_list (take j ?ls), 0) of (offset, len) \<Rightarrow> ebind (length_at (obj_of F) j) (\<lambda>k.
        Inr (if j = i then (offset, k) else (u32 (offset + k), len)))) = Inr (sum_list (take (Suc j) ?ls), 0)"
      using j i enc.length_at_obj[OF wf ty, of j] by (simp add: sum_take_Suc)
  qed simp_all
  then show ?thesis
    using i enc.length_at_obj[OF wf ty i] by (simp add: string_span_def mfold_append)
qed

text \<open>What a value of an array of type \<open>S\<close> becomes in type \<open>T\<close>; strings are parsed.\<close>

definition converted :: "flat \<Rightarrow> ArrayType \<Rightarrow> nat \<Rightarrow> bytes res" where
  "converted F T i =
     (if fty F = STRING then value_of_text T (strs F ! i) else elem_cast (fty F) T (felems F ! i))"

lemma length_converted: "converted F T i = Inr z \<Longrightarrow> length z = elem_size T"
  by (auto simp: converted_def value_of_text_def length_elem_cast length_elem_parse
      split: if_splits sum.splits exn.splits)

lemma castAndCopyElement_run:
  assumes wf: "wf_flat F" and T: "T \<noteq> STRING" and i: "i < length (felems F)" and m: "elem_size T \<le> m"
  shows "castAndCopyElement (obj_of F) i (type_id T) (filled ws m) =
    ebind (converted F T i) (\<lambda>z. Inr (filled (ws @ z) (m - elem_size T)))"
proof -
  have wr: "writeToBuffer z (filled ws m) = Inr (filled (ws @ z) (m - elem_size T))" if "converted F T i = Inr z" for z
    using appendsD[OF appends_writeToBuffer, of z m ws] length_converted[OF that] m by simp
  show ?thesis
  proof (cases "fty F = STRING")
    case True
    then show ?thesis
      using wr T i string_span_obj[OF wf True i] load_str[OF wf True i]
      by (cases "value_of_text T (strs F ! i)")
        (simp_all add: castAndCopyElement_def castAndCopyText_def converted_def enc.obj_type[OF wf] enc.obj_size[OF wf])
  next
    case False
    then show ?thesis
      using wr T i element_at_obj[OF wf i]
      by (cases "elem_cast (fty F) T (felems F ! i)"; cases "fty F"; cases T)
        (simp_all add: castAndCopyElement_def converted_def enc.obj_type[OF wf] enc.obj_size[OF wf])
  qed
qed

section \<open>Casts to a numeric type\<close>

definition numeric_cast :: "flat \<Rightarrow> ArrayType \<Rightarrow> bytes list res" where
  "numeric_cast F T = mmap (converted F T) [0..<length (felems F)]"

lemma numeric_cast_result:
  assumes "numeric_cast F T = Inr zs"
  shows "length zs = length (felems F)" "chunked (elem_size T) zs"
  using mmap_InrD[OF assms[unfolded numeric_cast_def]]
    chunked_results[OF assms[unfolded numeric_cast_def] length_converted] by simp_all

lemma castToNumeric_run:
  assumes wf: "wf_flat F" and T: "T \<noteq> STRING"
    and lt: "14 + 8 * length (fdwm F) + 4 * length (fwidths F) + length (felems F) * elem_size T +
      getNullBytes (length (fnulls F)) < 4294967296"
  shows "castToNumeric (obj_of F) (type_id T) =
    ebind (numeric_cast F T) (\<lambda>zs. Inr (encode (with_elems F T zs)))"
proof -
  let ?n = "length (felems F)"
  let ?op = "mfold (\<lambda>i. case type_of (type_id (fty F)) of
      Some S \<Rightarrow> castAndCopyElement (obj_of F) i (type_id T)
    | None \<Rightarrow> (\<lambda>w. Inl (RuntimeError ''Numeric-Cast-Operation: Given array type is not supported''))) [0..<?n]"
  have "build (14 + 8 * length (fdwm F) + 4 * length (fwidths F) + ?n * elem_size T + getNullBytes (length (fnulls F)))
      (rebuild F T [?op, copyNulls (amem (obj_of F)) (nulls (obj_of F)) (length (fnulls F)) 0]) =
    ebind (mmap (converted F T) [0..<?n])
      (\<lambda>zs. Inr (concat (rebuild_bytes F T) @ concat zs @ pack (fnulls F)))"
  proof (rule build_computed[OF wf _ lt])
    show "appends (copyNulls (amem (obj_of F)) (nulls (obj_of F)) (length (fnulls F)) 0) (pack (fnulls F))"
      by (rule enc.copyNulls_obj[OF wf])
  next
    fix ws m assume m: "?n * elem_size T \<le> m"
    show "?op (filled ws m) =
        ebind (mmap (converted F T) [0..<?n]) (\<lambda>zs. Inr (filled (ws @ concat zs) (m - ?n * elem_size T)))"
      by (rule mfold_mmap[OF _ m]) (simp add: castAndCopyElement_run[OF wf T])
  qed (simp_all add: length_converted)
  then have "castToNumeric (obj_of F) (type_id T) =
    ebind (numeric_cast F T) (\<lambda>zs. Inr (concat (rebuild_bytes F T) @ concat zs @ pack (fnulls F)))"
    using T by (simp add: castToNumeric_def acc_simps wf enc.obj_dims enc.obj_type enc.obj_size
        size_of_rebuild rebuild_def numeric_cast_def)
  also have "\<dots> = ebind (numeric_cast F T) (\<lambda>zs. Inr (encode (with_elems F T zs)))"
    by (intro ebind_cong refl) (simp add: numeric_cast_result(1) encode_with_elems[OF wf])
  finally show ?thesis .
qed

section \<open>The cast to strings\<close>

definition text_of :: "flat \<Rightarrow> nat \<Rightarrow> bytes" where
  "text_of F i = (if fty F = STRING then strs F ! i else bytes_of (elem_text (fty F) (felems F ! i)))"

definition texts :: "flat \<Rightarrow> bytes list" where
  "texts F = map (text_of F) [0..<length (felems F)]"

definition as_strings :: "flat \<Rightarrow> flat" where
  "as_strings F = F\<lparr>fty := STRING, felems := map (\<lambda>s. le_bytes 4 (length s)) (texts F), fstr := concat (texts F)\<rparr>"

lemma element_strings_obj:
  assumes wf: "wf_flat F"
  shows "element_strings (obj_of F) = Inr (texts F)"
proof -
  let ?o = "\<lambda>i. if fty F = STRING then sum_list (take i (map le_val (felems F))) else 0"
  let ?S = "\<lambda>i. (map (text_of F) [0..<i], ?o i)"
  have step: "(\<lambda>(els, offset).
         case type_of (atype (obj_of F)) of
           Some STRING \<Rightarrow>
             ebind (length_at (obj_of F) i) (\<lambda>k.
             ebind (load (amem (obj_of F)) (strings (obj_of F) + offset) k) (\<lambda>s. Inr (els @ [s], u32 (offset + k))))
         | Some T \<Rightarrow> ebind (element_at (obj_of F) T i) (\<lambda>x. Inr (els @ [bytes_of (elem_text T x)], offset))
         | None \<Rightarrow> Inl (RuntimeError ''String-Cast-Operation: Given array type is not supported'')) (?S i) =
      Inr (?S (Suc i))" if i: "i < length (felems F)" for i
  proof (cases "fty F = STRING")
    case True
    have "sum_list (take (Suc i) (map le_val (felems F))) < 4294967296"
      using strs_bound[OF wf True i] wf_bounds(5)[OF wf] i by (simp add: sum_take_Suc)
    then show ?thesis
      using True i enc.length_at_obj[OF wf True i] load_str[OF wf True i]
      by (simp add: enc.obj_type[OF wf] text_of_def sum_take_Suc)
  next
    case False
    then show ?thesis
      using i element_at_obj[OF wf i] by (cases "fty F") (simp_all add: enc.obj_type[OF wf] text_of_def)
  qed
  have "mfold (\<lambda>i (els, offset).
         case type_of (atype (obj_of F)) of
           Some STRING \<Rightarrow>
             ebind (length_at (obj_of F) i) (\<lambda>k.
             ebind (load (amem (obj_of F)) (strings (obj_of F) + offset) k) (\<lambda>s. Inr (els @ [s], u32 (offset + k))))
         | Some T \<Rightarrow> ebind (element_at (obj_of F) T i) (\<lambda>x. Inr (els @ [bytes_of (elem_text T x)], offset))
         | None \<Rightarrow> Inl (RuntimeError ''String-Cast-Operation: Given array type is not supported''))
       [0..<length (felems F)] ([], 0) = Inr (?S (length (felems F)))"
    by (rule mfold_upt0[where S = ?S], simp, rule step, simp_all)
  then show ?thesis by (simp add: element_strings_def enc.obj_size[OF wf] texts_def)
qed

lemma foldl_lengths:
  "acc + length (concat xss) < 4294967296 \<Longrightarrow>
    foldl (\<lambda>acc entry. u32 (acc + length entry)) acc xss = acc + length (concat xss)"
  by (induction xss arbitrary: acc) (simp_all add: add.assoc)

lemma length_texts [simp]: "length (texts F) = length (felems F)"
  by (simp add: texts_def)

lemma text_lengths:
  "length (concat xss) < 4294967296 \<Longrightarrow>
    map le_val (map (\<lambda>s. le_bytes 4 (length s)) xss) = map length xss"
proof (induction xss)
  case (Cons x xss)
  then have "length x < 256 ^ 4" by simp
  then show ?case using Cons by simp
qed simp

lemma wf_as_strings:
  assumes wf: "wf_flat F" and fit: "fits (as_strings F)"
  shows "wf_flat (as_strings F)"
proof -
  have "chunked 4 (map (\<lambda>s. le_bytes 4 (length s)) (texts F))" by (simp add: chunked_def)
  moreover from this have "length (concat (texts F)) < 4294967296"
    using length_encode[of "as_strings F"] fitsD(1)[OF fit] by (simp add: as_strings_def)
  then have "sum_list (map le_val (map (\<lambda>s. le_bytes 4 (length s)) (texts F))) = length (concat (texts F))"
    unfolding text_lengths[OF \<open>length (concat (texts F)) < 4294967296\<close>] by (simp add: length_concat)
  ultimately show ?thesis
    using wf fitsD[OF fit] by (simp add: wf_flat_def as_strings_def level_def lvl_start_def)
qed

lemma strs_as_strings:
  assumes "length (concat (texts F)) < 4294967296"
  shows "strs (as_strings F) = texts F"
proof -
  have "split_lens (map length xss) (concat xss) = xss" for xss :: "bytes list"
    by (induction xss) simp_all
  moreover have "felems (as_strings F) = map (\<lambda>s. le_bytes 4 (length s)) (texts F)"
    "fstr (as_strings F) = concat (texts F)" by (simp_all add: as_strings_def)
  ultimately show ?thesis by (simp only: strs_def text_lengths[OF assms])
qed

lemma castToString_run:
  assumes wf: "wf_flat F" and fit: "fits (as_strings F)"
  shows "castToString (obj_of F) = Inr (encode (as_strings F))"
proof -
  let ?t = "texts F"
  have ch: "chunked (elem_size STRING) (map (\<lambda>s. le_bytes 4 (length s)) ?t)" by (simp add: chunked_def)
  have len: "length (encode (as_strings F)) = 14 + 8 * length (fdwm F) + 4 * length (fwidths F) +
      4 * length (felems F) + getNullBytes (length (fnulls F)) + length (concat ?t)"
    using length_encode[of "as_strings F"] ch wf_dims(2)[OF wf] by (simp add: as_strings_def)
  then have lt: "length (concat ?t) < 4294967296" using fitsD(1)[OF fit] by linarith
  have lens: "concat (map (\<lambda>s. le_bytes 4 (length s)) ?t) = concat (map (\<lambda>entry. le_bytes 4 (length entry)) ?t)" ..
  have size: "getStringSize (length (fdwm F)) (length (felems F)) (length (fwidths F)) (getNullBytes (length (fnulls F)))
      (length (concat ?t)) (type_id STRING) = Inr (length (encode (as_strings F)))"
    unfolding len by (simp add: getStringSize_def Let_def)
  have "build (length (encode (as_strings F))) (rebuild F STRING [
       mfold (\<lambda>entry. put32 (length entry)) ?t,
       copyNulls (amem (obj_of F)) (nulls (obj_of F)) (length (fnulls F)) 0,
       mfold writeToBuffer ?t]) = Inr (encode (as_strings F))"
  proof (rule build_appends)
    have "list_all2 appends [
       mfold (\<lambda>entry. put32 (length entry)) ?t,
       copyNulls (amem (obj_of F)) (nulls (obj_of F)) (length (fnulls F)) 0,
       mfold writeToBuffer ?t]
      [concat (map (\<lambda>entry. le_bytes 4 (length entry)) ?t), pack (fnulls F), concat (map (\<lambda>s. s) ?t)]"
      using appends_mfold[of ?t "\<lambda>entry. put32 (length entry)" "\<lambda>entry. le_bytes 4 (length entry)"]
        appends_mfold[of ?t writeToBuffer "\<lambda>s. s"] enc.copyNulls_obj[OF wf]
      by (simp add: buf_intros)
    from list_all2_appendI[OF rebuild_appends[OF wf, of STRING] this]
    show "list_all2 appends (rebuild F STRING [
       mfold (\<lambda>entry. put32 (length entry)) ?t,
       copyNulls (amem (obj_of F)) (nulls (obj_of F)) (length (fnulls F)) 0,
       mfold writeToBuffer ?t])
      (rebuild_bytes F STRING @ [concat (map (\<lambda>entry. le_bytes 4 (length entry)) ?t), pack (fnulls F), concat ?t])"
      by (simp add: rebuild_def)
  qed (use fitsD(1)[OF fit] wf_dims[OF wf] in \<open>simp_all add: rebuild_bytes_def encode_def as_strings_def\<close>)
  then show ?thesis
    using foldl_lengths[of 0 ?t] lt size
    by (simp add: castToString_def acc_simps wf enc.obj_dims enc.obj_size element_strings_obj[OF wf] rebuild_def)
qed

section \<open>Integers to strings and back\<close>

lemma le_bytes_of_signed:
  assumes "length x = n" and "0 < n"
  shows "le_bytes n (of_signed (8 * n) (to_signed (8 * n) (le_val x))) = x"
proof -
  have lt: "le_val x < 2 ^ (8 * n)" using le_val_less[of x] assms(1) by (simp add: power_mult)
  then have "int (le_val x) mod 2 ^ (8 * n) = int (le_val x)"
    by (intro mod_pos_pos_trivial) simp_all
  moreover have "(int (le_val x) - 2 ^ (8 * n)) mod 2 ^ (8 * n) = int (le_val x) mod 2 ^ (8 * n)" by simp
  ultimately have "of_signed (8 * n) (to_signed (8 * n) (le_val x)) = le_val x"
    by (simp add: of_signed_def to_signed_def)
  then show ?thesis using le_bytes_le_val[of x] assms(1) by simp
qed

lemma in_signed_to_signed:
  assumes "x < 2 ^ n" and "0 < n"
  shows "in_signed n (to_signed n x)"
proof -
  have two: "(2 :: int) ^ n = 2 * 2 ^ (n - 1)" using assms(2) by (cases n) simp_all
  show ?thesis
  proof (cases "x < 2 ^ (n - 1)")
    case True
    then have "int x < 2 ^ (n - 1)" by simp
    moreover have "- (2 ^ (n - 1)) \<le> int x" by (rule order_trans[of _ 0]) simp_all
    ultimately show ?thesis using True by (simp add: in_signed_def to_signed_def)
  next
    case False
    have "int x < 2 ^ n" using assms(1) by simp
    moreover have "2 ^ (n - 1) \<le> int x" using False by simp
    ultimately show ?thesis using False two by (simp add: in_signed_def to_signed_def)
  qed
qed

lemma parse_printed:
  assumes T: "is_int T" and x: "length x = elem_size T"
  shows "value_of_text T (bytes_of (elem_text T x)) = Inr x"
proof -
  have n: "0 < elem_size T" by simp
  have "in_signed (elem_bits T) (int_of_elem T x)"
    unfolding int_of_elem_def using le_val_less[of x] x
    by (intro in_signed_to_signed) (simp_all add: elem_bits_def power_mult)
  moreover from this have "elem_of_int T (int_of_elem T x) = Inr x"
    using le_bytes_of_signed[OF x n] by (simp add: elem_of_int_def int_of_elem_def elem_bits_def)
  ultimately show ?thesis
    using T by (simp add: value_of_text_def elem_parse_def elem_text_def sto_int_show_int)
qed

lemma with_elems_as_strings:
  "fty F \<noteq> STRING \<Longrightarrow> fstr F = [] \<Longrightarrow> with_elems (as_strings F) (fty F) (felems F) = F"
  by (simp add: with_elems_def as_strings_def)

lemma numeric_cast_as_strings:
  assumes wf: "wf_flat F" and T: "is_int (fty F)" and fit: "fits (as_strings F)"
  shows "numeric_cast (as_strings F) (fty F) = Inr (felems F)"
proof -
  have "length (concat (texts F)) < 4294967296"
    using length_encode[of "as_strings F"] fitsD(1)[OF fit]
    by (simp add: as_strings_def chunked_def)
  then have "converted (as_strings F) (fty F) i = Inr (felems F ! i)" if "i < length (felems F)" for i
    using that T wf_chunked[OF wf] strs_as_strings
      parse_printed[OF T, of "felems F ! i"]
    by (auto simp: converted_def as_strings_def texts_def text_of_def chunked_def)
  then have "mmap (converted (as_strings F) (fty F)) [0..<length (felems F)] =
      Inr (map (\<lambda>i. felems F ! i) [0..<length (felems F)])"
    by (intro mmap_Inr) simp
  then show ?thesis by (simp add: numeric_cast_def as_strings_def map_nth)
qed

section \<open>The greatest value\<close>

text \<open>The stored value at a position.\<close>

definition value_at :: "flat \<Rightarrow> nat \<Rightarrow> bytes" where
  "value_at F i = felems F ! elem_pos F i"

fun best :: "flat \<Rightarrow> nat \<Rightarrow> nat option" where
  "best F 0 = None"
| "best F (Suc i) =
     (if fnulls F ! i then best F i
      else let r = (case best F i of None \<Rightarrow> i | Some r \<Rightarrow> r)
           in Some (if elem_greater (fty F) (value_at F i) (value_at F r) then i else r))"

lemma best_position: "best F i = Some r \<Longrightarrow> r < i \<and> \<not> fnulls F ! r"
  by (induction i arbitrary: r) (auto simp: Let_def less_Suc_eq split: if_splits option.splits)

lemma best_None: "best F i = None \<longleftrightarrow> (\<forall>q < i. fnulls F ! q)"
  by (induction i) (auto simp: Let_def less_Suc_eq)

text \<open>The order on values that \<^verbatim>\<open>>\<close> is, for integers and for strings (by their length).\<close>

definition key :: "ArrayType \<Rightarrow> bytes \<Rightarrow> int" where
  "key T x = (if T = STRING then int (le_val x) else int_of_elem T x)"

lemma elem_greater_key: "is_int T \<or> T = STRING \<Longrightarrow> elem_greater T x y \<longleftrightarrow> key T y < key T x"
  by (auto simp: elem_greater_def key_def)

lemma best_greatest:
  assumes "is_int (fty F) \<or> fty F = STRING" and "best F i = Some r" and "q < i" and "\<not> fnulls F ! q"
  shows "key (fty F) (value_at F q) \<le> key (fty F) (value_at F r) \<and>
    (q < r \<longrightarrow> key (fty F) (value_at F q) < key (fty F) (value_at F r))"
  using assms(2-4)
proof (induction i arbitrary: r)
  case (Suc i)
  show ?case
  proof (cases "fnulls F ! i")
    case True
    then show ?thesis using Suc.prems Suc.IH[of r] by (cases "q = i") (auto simp: less_Suc_eq)
  next
    case False
    show ?thesis
    proof (cases "best F i")
      case None
      then have "r = i" using Suc.prems(1) False by (simp add: Let_def split: if_splits)
      moreover have "q = i" using None Suc.prems(2,3) by (auto simp: best_None less_Suc_eq)
      ultimately show ?thesis by simp
    next
      case (Some b)
      then have r: "r = (if key (fty F) (value_at F b) < key (fty F) (value_at F i) then i else b)"
        using Suc.prems(1) False elem_greater_key[OF assms(1)] by (simp add: Let_def split: if_splits)
      have "b < i" using best_position[OF Some] by simp
      then show ?thesis
        using Suc.IH[OF Some] Suc.prems(2,3) r by (cases "q = i") (auto simp: less_Suc_eq split: if_splits)
    qed
  qed
qed simp

lemma getMaxIndex_run:
  assumes wf: "wf_flat F"
  shows "getMaxIndex (obj_of F) (fty F) =
    Inr (case best F (length (fnulls F)) of None \<Rightarrow> -1 | Some r \<Rightarrow> to_signed 32 r)"
proof -
  let ?n = "length (fnulls F)"
  let ?f = "\<lambda>i result.
         ebind (isNull (obj_of F) i) (\<lambda>b.
         if b then Inr result
         else
           ebind (getElementPosition (obj_of F) i) (\<lambda>position.
           let result = (case result of None \<Rightarrow> i | Some r \<Rightarrow> r) in
           ebind (getElementPosition (obj_of F) result) (\<lambda>resultPosition.
           ebind (element_at (obj_of F) (fty F) position) (\<lambda>x.
           ebind (element_at (obj_of F) (fty F) resultPosition) (\<lambda>y.
           Inr (Some (if elem_greater (fty F) x y then i else result)))))))"
  have rd: "ebind (getElementPosition (obj_of F) i) (element_at (obj_of F) (fty F)) = Inr (value_at F i)"
    and pos: "getElementPosition (obj_of F) i = Inr (elem_pos F i)"
    if "i < ?n" "\<not> fnulls F ! i" for i
    using that elem_pos_less[OF wf that] element_at_obj[OF wf]
    by (simp_all add: enc.getElementPosition_obj[OF wf] elem_pos_def value_at_def)
  have step: "?f i (best F i) = Inr (best F (Suc i))" if i: "i < ?n" for i
  proof (cases "fnulls F ! i")
    case True
    then show ?thesis using i by (simp add: enc.isNull_obj[OF wf])
  next
    case False
    define r where "r = (case best F i of None \<Rightarrow> i | Some r \<Rightarrow> r)"
    have "r < ?n" "\<not> fnulls F ! r"
      using False i best_position[of F i] by (auto simp: r_def split: option.splits)
    then show ?thesis
      using False i rd[of i] rd[of r] pos[of i] pos[of r]
      by (simp add: enc.isNull_obj[OF wf] Let_def flip: r_def)
  qed
  have "mfold ?f [0..<?n] None = Inr (best F ?n)"
    by (rule mfold_upt0[where S = "best F"], simp, rule step, simp_all)
  then show ?thesis by (simp add: getMaxIndex_def enc.getSize_obj[OF wf])
qed

section \<open>Properties\<close>



text \<open>C12: Every array of integers survives the cast to strings and back: the strings parse to
  the very same bytes.\<close>
theorem cast_round_trip:
  assumes "wf_flat F" and "is_int (fty F)" and "fits (as_strings F)"
  shows "array_cast (obj_of F) (int (type_id STRING)) = Inr (encode (as_strings F)) \<and>
    wf_flat (as_strings F) \<and>
    array_cast (obj_of (as_strings F)) (int (type_id (fty F))) = Inr (encode F)"
proof (intro conjI)
  have T: "fty F \<noteq> STRING" using assms(2) by auto
  show wf: "wf_flat (as_strings F)" by (rule wf_as_strings[OF assms(1,3)])
  show "array_cast (obj_of F) (int (type_id STRING)) = Inr (encode (as_strings F))"
    by (simp add: array_cast_def castToString_run[OF assms(1,3)])
  have "14 + 8 * length (fdwm F) + 4 * length (fwidths F) + length (felems F) * elem_size (fty F) +
      getNullBytes (length (fnulls F)) < 4294967296"
    using length_encode[OF wf_chunked[OF assms(1)]] wf_bounds(6)[OF assms(1)] wf_dims(2)[OF assms(1)]
    by (simp add: mult.commute)
  then have "castToNumeric (obj_of (as_strings F)) (type_id (fty F)) =
      ebind (numeric_cast (as_strings F) (fty F)) (\<lambda>zs. Inr (encode (with_elems (as_strings F) (fty F) zs)))"
    by (intro castToNumeric_run[OF wf T]) (simp add: as_strings_def)
  then show "array_cast (obj_of (as_strings F)) (int (type_id (fty F))) = Inr (encode F)"
    using T wf_strings(2)[OF assms(1) T]
    by (simp add: array_cast_def numeric_cast_as_strings[OF assms] with_elems_as_strings)
qed

theorem cast_round_trip_witness:
  "array_cast (obj_of sample_nested) (int (type_id STRING)) = Inr (encode (as_strings sample_nested)) \<and>
   array_cast (obj_of (as_strings sample_nested)) (int (type_id INTEGER32)) = Inr (encode sample_nested)"
proof -
  have "fits (as_strings sample_nested)"
    by (simp add: fits_def as_strings_def encode_def texts_def text_of_def elem_text_def sample_nested_def
      le_bytes_4 upt_rec int_of_elem_def to_signed_def elem_bits_def show_int_def show_nat.simps getNullBytes_eq)
  then show ?thesis using cast_round_trip[OF wf_samples(1)] by (simp add: sample_nested_shape)
qed

text \<open>On integers (and on strings, compared by length) \<^verbatim>\<open>getHighestPosition\<close> returns the first
  position, NULLs counted, of a greatest value, and 0 for an array without values.\<close>

theorem highest_position:
  assumes "wf_flat F" and "is_int (fty F) \<or> fty F = STRING" and "length (fnulls F) \<le> 2147483648"
  shows "(felems F = [] \<longrightarrow> getHighestPosition (obj_of F) = Inr 0) \<and>
    (felems F \<noteq> [] \<longrightarrow> (\<exists>r < length (fnulls F). getHighestPosition (obj_of F) = Inr (int r) \<and>
       \<not> fnulls F ! r \<and>
       (\<forall>q < length (fnulls F). \<not> fnulls F ! q \<longrightarrow>
          key (fty F) (value_at F q) \<le> key (fty F) (value_at F r) \<and>
          (q < r \<longrightarrow> key (fty F) (value_at F q) < key (fty F) (value_at F r)))))"
proof (intro conjI impI)
  let ?n = "length (fnulls F)"
  assume ne: "felems F \<noteq> []"
  then have "filter Not (fnulls F) \<noteq> []" using wf_count[OF assms(1)] by auto
  then obtain q where "q < ?n" "\<not> fnulls F ! q" by (auto simp: filter_empty_conv in_set_conv_nth)
  then obtain r where r: "best F ?n = Some r" using best_None[of F ?n] by (cases "best F ?n") auto
  have "r < ?n" "\<not> fnulls F ! r" using best_position[OF r] by simp_all
  moreover have "getHighestPosition (obj_of F) = Inr (int r)"
    using ne r \<open>r < ?n\<close> assms(3) getMaxIndex_run[OF assms(1)]
    by (simp add: getHighestPosition_def enc.obj_size[OF assms(1)] enc.obj_type[OF assms(1)] to_signed_def)
  ultimately show "\<exists>r < ?n. getHighestPosition (obj_of F) = Inr (int r) \<and> \<not> fnulls F ! r \<and>
       (\<forall>q < ?n. \<not> fnulls F ! q \<longrightarrow>
          key (fty F) (value_at F q) \<le> key (fty F) (value_at F r) \<and>
          (q < r \<longrightarrow> key (fty F) (value_at F q) < key (fty F) (value_at F r)))"
    using best_greatest[OF assms(2) r] by blast
qed (simp add: getHighestPosition_def enc.obj_size[OF assms(1)])

theorem highest_position_witness:
  "\<exists>r < 3. getHighestPosition (obj_of sample_nested) = Inr (int r) \<and> \<not> fnulls sample_nested ! r"
  using highest_position[OF wf_samples(1)] sample_nested_shape by (cases "felems sample_nested") auto

end
