(* ===== verification/Fill_Correct.thy ===== *)
theory Fill_Correct
  imports Array_Fill Cast_Correct
begin

text \<open>
  \<^verbatim>\<open>fill\<close>: the result has one dimension per value of the structure array, with that value as
  the width of every entry, and holds the given value (or NULL) at every position.
\<close>

section \<open>The filled array\<close>

text \<open>The widths: the low 32 bits of the values of the structure array.\<close>

definition shape :: "flat \<Rightarrow> nat list" where
  "shape F = map (\<lambda>x. u32 (le_val x)) (felems F)"

definition copies :: "nat list \<Rightarrow> nat \<Rightarrow> nat" where
  "copies ds i = prod_list (take i ds)"

definition shape_levels :: "nat list \<Rightarrow> nat list list" where
  "shape_levels ds = map (\<lambda>i. replicate (copies ds i) (ds ! i)) [0..<length ds]"

definition shape_flat :: "ArrayType \<Rightarrow> nat list \<Rightarrow> flat" where
  "shape_flat T ds = \<lparr>fty = T, fidx = replicate (length ds) 1,
     fdwm = map (copies ds) [0..<length ds], fwidths = concat (shape_levels ds),
     felems = [], fnulls = [], fstr = []\<rparr>"

definition fill_flat :: "ArrayType \<Rightarrow> bytes \<Rightarrow> nat list \<Rightarrow> flat" where
  "fill_flat T v ds = (shape_flat T ds)\<lparr>
     felems := replicate (prod_list ds) (if T = STRING then le_bytes 4 (length v) else v),
     fnulls := replicate (prod_list ds) False,
     fstr := (if T = STRING then concat (replicate (prod_list ds) v) else [])\<rparr>"

definition null_flat :: "nat list \<Rightarrow> flat" where
  "null_flat ds = (shape_flat INTEGER32 ds)\<lparr>fnulls := replicate (prod_list ds) True\<rparr>"

lemma copies_simps: "copies ds 0 = 1" "i < length ds \<Longrightarrow> copies ds (Suc i) = copies ds i * ds ! i"
  "copies ds (length ds) = prod_list ds"
  by (simp_all add: copies_def take_Suc_conv_app_nth)

lemma shape_levels_chain:
  assumes "ds \<noteq> []"
  shows "map (copies ds) [0..<length ds] = map length (shape_levels ds)"
    and "chain (shape_levels ds) (prod_list ds)"
proof -
  show "map (copies ds) [0..<length ds] = map length (shape_levels ds)"
    by (simp add: shape_levels_def comp_def)
  have "last (shape_levels ds) = replicate (copies ds (length ds - 1)) (ds ! (length ds - 1))"
    using assms by (simp add: shape_levels_def last_conv_nth)
  moreover have "copies ds (length ds - 1) * ds ! (length ds - 1) = prod_list ds"
    using copies_simps(2)[of "length ds - 1" ds] copies_simps(3)[of ds] assms by simp
  ultimately have "sum_list (last (shape_levels ds)) = prod_list ds" by (simp add: sum_list_replicate)
  then show "chain (shape_levels ds) (prod_list ds)"
    using assms by (auto simp: chain_def shape_levels_def copies_simps sum_list_replicate)
qed

lemma wf_shape:
  assumes "ds \<noteq> []" and "fdwm F = fdwm (shape_flat T ds)" and "fwidths F = fwidths (shape_flat T ds)"
    and "fidx F = fidx (shape_flat T ds)" and "length (fnulls F) = prod_list ds"
    and "chunked (elem_size (fty F)) (felems F)" and "length (filter Not (fnulls F)) = length (felems F)"
    and "if fty F = STRING then sum_list (map le_val (felems F)) = length (fstr F) else fstr F = []"
    and "fits F"
  shows "wf_flat F" and "levels F = shape_levels ds"
proof -
  have lv: "fdwm F = map length (shape_levels ds)" "fwidths F = concat (shape_levels ds)"
    using shape_levels_chain(1)[OF assms(1)] assms(2,3) by (simp_all add: shape_flat_def)
  show "wf_flat F"
    using shape_levels_chain(2)[OF assms(1)] assms
    by (intro wf_of_chain[OF lv]) (simp_all add: shape_flat_def shape_levels_def small_def)
  show "levels F = shape_levels ds"
    by (rule nth_equalityI) (simp_all add: nth_levels level_concat[OF lv] lv(1))
qed

lemma wf_fill_flat:
  assumes "ds \<noteq> []" and "T \<noteq> STRING \<Longrightarrow> length v = elem_size T" and "length v < 4294967296"
    and "fits (fill_flat T v ds)"
  shows "wf_flat (fill_flat T v ds)" and "levels (fill_flat T v ds) = shape_levels ds"
  by (rule wf_shape[of ds "fill_flat T v ds" T];
      use assms in \<open>auto simp: fill_flat_def shape_flat_def chunked_def sum_list_replicate length_concat\<close>)+

lemma wf_null_flat:
  assumes "ds \<noteq> []" and "fits (null_flat ds)"
  shows "wf_flat (null_flat ds)" and "levels (null_flat ds) = shape_levels ds"
  by (rule wf_shape[of ds "null_flat ds" INTEGER32];
      use assms in \<open>simp add: null_flat_def shape_flat_def\<close>)+

lemma items_fill_flat:
  assumes "length v < 4294967296"
  shows "items (fill_flat T v ds) = replicate (prod_list ds) (Some v)"
proof -
  have "split_lens (replicate n (length v)) (concat (replicate n v)) = replicate n v" for n
    by (induction n) simp_all
  then show ?thesis
    using assms by (simp add: items_def strs_def fill_flat_def shape_flat_def place_all)
qed

lemma items_null_flat: "items (null_flat ds) = replicate (prod_list ds) None"
proof -
  have "place (replicate n True) vs = replicate n None" for n and vs :: "bytes list"
    by (induction n) simp_all
  then show ?thesis by (simp add: items_def null_flat_def shape_flat_def)
qed

section \<open>The loops\<close>

lemma struct_at_obj:
  assumes "wf_flat F" and "i < length (felems F)"
  shows "struct_at (obj_of F) (fty F) i = Inr (shape F ! i)"
  using element_at_obj[OF assms] assms(2) by (simp add: struct_at_def shape_def)

lemma generate_shape_run:
  assumes wf: "wf_flat F" and ne: "felems F \<noteq> []"
    and small: "\<forall>i \<le> length (felems F). copies (shape F) i < 4294967296"
    and sum: "length (concat (shape_levels (shape F))) < 4294967296"
  shows "generate_shape (obj_of F) (fty F) =
    Inr (prod_list (shape F), length (concat (shape_levels (shape F))), map (copies (shape F)) [0..<length (felems F)])"
proof -
  let ?ds = "shape F" and ?n = "length (felems F)"
  let ?m = "\<lambda>i. min (Suc i) ?n"
  have len: "length ?ds = ?n" by (simp add: shape_def)
  have tot: "length (concat (shape_levels ?ds)) = sum_list (map (copies ?ds) [0..<?n])"
    by (simp add: length_concat shape_levels_def comp_def len)
  have part: "sum_list (map (copies ?ds) [0..<k]) \<le> sum_list (map (copies ?ds) [0..<?n])" if "k \<le> ?n" for k
    using sum_take_le[of k "map (copies ?ds) [0..<?n]"] that by (simp add: take_map)
  have r: "mfold (\<lambda>i (elementCopies, widthSize, dwm).
         ebind (struct_at (obj_of F) (fty F) i) (\<lambda>e.
         let elementCopies = u32 (elementCopies * e) in
         Inr (if i + 1 < ?n then (elementCopies, u32 (widthSize + elementCopies), dwm @ [elementCopies])
              else (elementCopies, widthSize, dwm)))) [0..<?n] (1, 1, [1]) =
    Inr (copies ?ds ?n, sum_list (map (copies ?ds) [0..<?n]), map (copies ?ds) [0..<?n])"
  proof (rule mfold_upt0[where S = "\<lambda>i. (copies ?ds i, sum_list (map (copies ?ds) [0..<?m i]),
        map (copies ?ds) [0..<?m i])"])
    fix i assume i: "i < ?n"
    have u: "u32 (copies ?ds i * ?ds ! i) = copies ?ds (Suc i)"
      using copies_simps(2)[of i ?ds] small i len by (metis Suc_leI u32_id)
    have s: "u32 (sum_list (map (copies ?ds) [0..<Suc i]) + copies ?ds (Suc i)) =
        sum_list (map (copies ?ds) [0..<Suc (Suc i)])" if "Suc i < ?n"
      using part[of "Suc (Suc i)"] that sum tot by simp
    show "(case (copies ?ds i, sum_list (map (copies ?ds) [0..<?m i]), map (copies ?ds) [0..<?m i]) of
        (elementCopies, widthSize, dwm) \<Rightarrow>
         ebind (struct_at (obj_of F) (fty F) i) (\<lambda>e.
         let elementCopies = u32 (elementCopies * e) in
         Inr (if i + 1 < ?n then (elementCopies, u32 (widthSize + elementCopies), dwm @ [elementCopies])
              else (elementCopies, widthSize, dwm)))) =
      Inr (copies ?ds (Suc i), sum_list (map (copies ?ds) [0..<?m (Suc i)]), map (copies ?ds) [0..<?m (Suc i)])"
    proof (cases "Suc i < ?n")
      case True
      then have "?m i = Suc i" "?m (Suc i) = Suc (Suc i)" by simp_all
      then show ?thesis using True s[OF True] by (simp add: struct_at_obj[OF wf i] u Let_def del: upt_Suc) simp
    next
      case False
      then have "?m i = ?n" "?m (Suc i) = ?n" using i by simp_all
      then show ?thesis using False by (simp add: struct_at_obj[OF wf i] u Let_def del: upt_Suc)
    qed
  qed (use ne in \<open>simp_all add: copies_simps min_def\<close>, auto simp: copies_simps upt_conv_Cons Suc_le_eq)
  then show ?thesis using copies_simps(3)[of ?ds] tot by (simp add: generate_shape_def enc.obj_size wf len)
qed

lemma mfold_put32_replicate: "appends (mfold (\<lambda>j. put32 x) [0..<n]) (u32s (replicate n x))"
proof -
  have "appends (mfold (\<lambda>j. put32 x) [0..<n]) (concat (map (\<lambda>j. le_bytes 4 x) [0..<n]))"
    by (rule appends_mfold) (rule appends_put32)
  then show ?thesis by (simp add: u32s_def map_replicate_const)
qed

lemma u32s_concat: "u32s (concat xss) = concat (map u32s xss)"
  by (induction xss) simp_all

lemma write_shape_appends:
  assumes wf: "wf_flat F"
  shows "appends (write_shape (obj_of F) (fty F) (map (copies (shape F)) [0..<length (felems F)]))
    (u32s (concat (shape_levels (shape F))))"
proof -
  let ?ds = "shape F" and ?n = "length (felems F)"
  have len: "length ?ds = ?n" by (simp add: shape_def)
  have "appends (write_shape (obj_of F) (fty F) (map (copies ?ds) [0..<?n]))
      (concat (map (\<lambda>i. u32s (replicate (copies ?ds i) (?ds ! i))) [0..<?n]))"
    unfolding write_shape_def enc.obj_size[OF wf]
    by (rule appends_mfold) (simp add: struct_at_obj[OF wf] mfold_put32_replicate)
  moreover have "concat (map (\<lambda>i. u32s (replicate (copies ?ds i) (?ds ! i))) [0..<?n]) = u32s (concat (shape_levels ?ds))"
    by (simp add: shape_levels_def len u32s_concat comp_def)
  ultimately show ?thesis by simp
qed


section \<open>The results\<close>

text \<open>The shape of the result fits 32-bit counters because the result does.\<close>

lemma fits_shape:
  assumes "fits R" and "chunked (elem_size (fty R)) (felems R)"
    and "fwidths R = concat (shape_levels ds)" and "length (fnulls R) = prod_list ds"
  shows "\<forall>i \<le> length ds. copies ds i < 4294967296" and "length (concat (shape_levels ds)) < 4294967296"
proof -
  have len: "length (concat (shape_levels ds)) < 4294967296"
    using length_encode[OF assms(2)] fitsD(1)[OF assms(1)] assms(3) by simp
  then show "length (concat (shape_levels ds)) < 4294967296" .
  have "copies ds i < 4294967296" if "i < length ds" for i
  proof -
    have "copies ds i \<le> sum_list (map length (shape_levels ds))"
      using that by (intro member_le_sum) (auto simp: shape_levels_def)
    then show ?thesis using len by (simp add: length_concat)
  qed
  then show "\<forall>i \<le> length ds. copies ds i < 4294967296"
    using fitsD(2)[OF assms(1)] assms(4) copies_simps(3)[of ds] by (auto simp: le_less)
qed

lemma mfold_put32_list: "appends (mfold put32 xs) (u32s xs)"
  unfolding u32s_def by (rule appends_mfold) (rule appends_put32)

lemma mfold_write_replicate: "appends (mfold (\<lambda>i. writeToBuffer v) [0..<n]) (concat (replicate n v))"
proof -
  have "appends (mfold (\<lambda>i. writeToBuffer v) [0..<n]) (concat (map (\<lambda>i. v) [0..<n]))"
    by (rule appends_mfold) (rule appends_writeToBuffer)
  then show ?thesis by (simp add: map_replicate_const)
qed

lemma generate_run:
  assumes wf: "wf_flat F" and ne: "felems F \<noteq> []" and v: "T \<noteq> STRING \<Longrightarrow> length v = elem_size T"
    and lv: "length v < 4294967296" and fit: "fits (fill_flat T v (shape F))"
  shows "generate T v (obj_of F) (fty F) = Inr (encode (fill_flat T v (shape F)))"
proof -
  let ?ds = "shape F" and ?R = "fill_flat T v (shape F)" and ?N = "prod_list (shape F)"
  have len: "length ?ds = length (felems F)" by (simp add: shape_def)
  have ch: "chunked (elem_size T) (felems ?R)" and ch': "chunked (elem_size (fty ?R)) (felems ?R)"
    using v by (auto simp: fill_flat_def shape_flat_def chunked_def)
  have b: "\<forall>i \<le> length ?ds. copies ?ds i < 4294967296" "length (concat (shape_levels ?ds)) < 4294967296"
    using fits_shape[OF fit ch'] by (simp_all add: fill_flat_def shape_flat_def)
  have N: "?N < 4294967296" using fitsD(2)[OF fit] by (simp add: fill_flat_def)
  have le: "length (encode ?R) < 4294967296" by (rule fitsD(1)[OF fit])
  note enc_len = length_encode[OF ch']
  have chars: "T = STRING \<Longrightarrow> length v * ?N < 4294967296"
    using enc_len le by (simp add: fill_flat_def shape_flat_def length_concat sum_list_replicate mult.commute)
  let ?ws = "[writeToBuffer ARRAYHEADER, put8 (type_id T), put32 (length (felems F)), put32 ?N,
      mfold (\<lambda>i. put32 1) [0..<length (felems F)],
      mfold put32 (map (copies ?ds) [0..<length (felems F)]),
      write_shape (obj_of F) (fty F) (map (copies ?ds) [0..<length (felems F)])]"
  let ?yss = "[ARRAYHEADER, [of_nat (type_id T)], le_bytes 4 (length (felems F)), le_bytes 4 ?N,
      u32s (replicate (length (felems F)) 1), u32s (map (copies ?ds) [0..<length (felems F)]),
      u32s (concat (shape_levels ?ds))]"
  have ws: "list_all2 appends ?ws ?yss"
    by (simp add: buf_intros mfold_put32_replicate mfold_put32_list write_shape_appends[OF wf])
  note shape_run = generate_shape_run[OF wf ne b(1)[unfolded len] b(2)]
  show ?thesis
  proof (cases "T = STRING")
    case False
    have "encode ?R = concat (?yss @ [concat (replicate ?N v)]) @ replicate (getNullBytes ?N) 0"
      using False by (simp add: encode_def fill_flat_def shape_flat_def len pack_replicate_False)
    moreover have "list_all2 appends (?ws @ [mfold (\<lambda>i. writeToBuffer v) [0..<?N]]) (?yss @ [concat (replicate ?N v)])"
      using ws mfold_write_replicate by (simp add: list_all2_appendI)
    ultimately show ?thesis
      using build_appends_zeros[of "?ws @ [mfold (\<lambda>i. writeToBuffer v) [0..<?N]]"
          "?yss @ [concat (replicate ?N v)]" "length (encode ?R)" "getNullBytes ?N"] False le enc_len v
      by (simp add: generate_def shape_run enc.obj_size wf Let_def getStringSize_def fill_flat_def shape_flat_def len
          algebra_simps)
  next
    case True
    let ?last = "steps [mfold (\<lambda>i. put32 (length v)) [0..<?N], advance (getNullBytes ?N),
        mfold (\<lambda>i. writeToBuffer (take (length v) v)) [0..<?N]]"
    have "appends ?last (concat [u32s (replicate ?N (length v)), replicate (getNullBytes ?N) 0, concat (replicate ?N v)])"
      by (rule appends_steps) (simp add: mfold_put32_replicate mfold_write_replicate buf_intros)
    then have all: "list_all2 appends (?ws @ [?last]) (?yss @
        [concat [u32s (replicate ?N (length v)), replicate (getNullBytes ?N) 0, concat (replicate ?N v)]])"
      using ws by (intro list_all2_appendI) simp_all
    have "u32s (replicate ?N (length v)) = concat (replicate ?N (le_bytes 4 (length v)))"
      by (simp add: u32s_def)
    then have "build (length (encode ?R)) (?ws @ [?last]) = Inr (encode ?R)"
      using True by (intro build_appends[OF all _ refl le])
        (simp add: encode_def fill_flat_def shape_flat_def len pack_replicate_False)
    moreover have "length (concat (replicate ?N v)) = length v * ?N" by (simp add: length_concat sum_list_replicate)
    ultimately show ?thesis
      using True lv N chars enc_len
      by (simp add: generate_def shape_run enc.obj_size wf Let_def getStringSize_def fill_flat_def shape_flat_def len
          algebra_simps)
  qed
qed

text \<open>The bits of the NULLs: what is not written behind the pointer stays as it is.\<close>

lemma build_last_cong:
  assumes "\<And>w. ebind (f w) finish = ebind (g w) finish"
  shows "build n (ws @ [f]) = build n (ws @ [g])"
proof -
  have "build n (ws @ [h]) = ebind (steps ws (newBuffer n)) (\<lambda>w. ebind (h w) finish)" for h
    by (simp add: build_def steps_append ebind_assoc)
  then show ?thesis by (simp add: assms)
qed

lemma all_nulls_loop:
  "ebind (mfold (\<lambda>i w. ebind (if i \<noteq> 0 \<and> i mod 8 = 0 then advance 1 w else Inr w) (orBit (8 - i mod 8 - 1)))
     [0..<n] w) finish = ebind (copyNullsVec (replicate n True) w) finish"
proof -
  have "mfold (\<lambda>i w. ebind (if i \<noteq> 0 \<and> i mod 8 = 0 then advance 1 w else Inr w)
      (\<lambda>w. if replicate n True ! i then orBit (8 - i mod 8 - 1) w else Inr w)) [0..<n] w =
    mfold (\<lambda>i w. ebind (if i \<noteq> 0 \<and> i mod 8 = 0 then advance 1 w else Inr w) (orBit (8 - i mod 8 - 1))) [0..<n] w"
    by (rule mfold_cong) simp_all
  then show ?thesis by (simp add: copyNullsVec_def ebind_assoc advance_def finish_def [abs_def])
qed

lemma generateNulls_run:
  assumes wf: "wf_flat F" and ne: "felems F \<noteq> []" and fit: "fits (null_flat (shape F))"
  shows "generateNulls (obj_of F) (fty F) INTEGER32 = Inr (encode (null_flat (shape F)))"
proof -
  let ?ds = "shape F" and ?R = "null_flat (shape F)" and ?N = "prod_list (shape F)"
  have len: "length ?ds = length (felems F)" by (simp add: shape_def)
  have ch: "chunked (elem_size (fty ?R)) (felems ?R)" by (simp add: null_flat_def shape_flat_def)
  have b: "\<forall>i \<le> length ?ds. copies ?ds i < 4294967296" "length (concat (shape_levels ?ds)) < 4294967296"
    using fits_shape[OF fit ch] by (simp_all add: null_flat_def shape_flat_def)
  let ?ws = "[writeToBuffer ARRAYHEADER, put8 (type_id INTEGER32), put32 (length (felems F)), put32 0,
      mfold (\<lambda>i. put32 1) [0..<length (felems F)],
      mfold put32 (map (copies ?ds) [0..<length (felems F)]),
      write_shape (obj_of F) (fty F) (map (copies ?ds) [0..<length (felems F)])]"
  let ?yss = "[ARRAYHEADER, [of_nat (type_id INTEGER32)], le_bytes 4 (length (felems F)), le_bytes 4 0,
      u32s (replicate (length (felems F)) 1), u32s (map (copies ?ds) [0..<length (felems F)]),
      u32s (concat (shape_levels ?ds))]"
  have ws: "list_all2 appends ?ws ?yss"
    by (simp add: buf_intros mfold_put32_replicate mfold_put32_list write_shape_appends[OF wf])
  have "generateNulls (obj_of F) (fty F) INTEGER32 =
      build (length (encode ?R)) (?ws @ [mfold (\<lambda>i w.
        ebind (if i \<noteq> 0 \<and> i mod 8 = 0 then advance 1 w else Inr w) (orBit (8 - i mod 8 - 1))) [0..<?N]])"
    using generate_shape_run[OF wf ne b(1)[unfolded len] b(2)] length_encode[OF ch]
    by (simp add: generateNulls_def enc.obj_size wf Let_def getStringSize_def null_flat_def shape_flat_def len algebra_simps)
  also have "\<dots> = build (length (encode ?R)) (?ws @ [copyNullsVec (replicate ?N True)])"
    by (rule build_last_cong) (rule all_nulls_loop)
  also have "\<dots> = Inr (encode ?R)"
  proof (cases "?N = 0")
    case True
    then have "build (length (encode ?R)) (?ws @ [copyNullsVec (replicate ?N True)]) = build (length (encode ?R)) (?ws @ [Inr])"
      by (intro build_last_cong) (simp add: copyNullsVec_Nil finish_def)
    moreover have "list_all2 appends (?ws @ [Inr]) (?yss @ [[]])"
      using ws by (intro list_all2_appendI) (simp_all add: buf_intros)
    ultimately show ?thesis
      using build_appends[of "?ws @ [Inr]" "?yss @ [[]]" "encode ?R"] fitsD(1)[OF fit] True
      by (simp add: encode_def null_flat_def shape_flat_def len)
  next
    case False
    then have "list_all2 appends (?ws @ [copyNullsVec (replicate ?N True)]) (?yss @ [pack (replicate ?N True)])"
      using ws by (intro list_all2_appendI) (simp_all add: buf_intros)
    then show ?thesis
      using build_appends[of "?ws @ [copyNullsVec (replicate ?N True)]" "?yss @ [pack (replicate ?N True)]" "encode ?R"]
        fitsD(1)[OF fit] by (simp add: encode_def null_flat_def shape_flat_def len)
  qed
  finally show ?thesis .
qed

text \<open>The sample structure \<open>{5, 6}\<close>.\<close>

lemma sample_shape:
  "shape sample_ints = [5, 6]" "shape_levels [5, 6] = [[5], [6, 6, 6, 6, 6]]"
  by (simp add: shape_def sample_ints_shape,
      simp add: shape_levels_def copies_def upt_rec numeral_eq_Suc)

section \<open>Properties\<close>



text \<open>\<^verbatim>\<open>fill(structure)\<close> builds an array of NULLs of the same shape, of element type
  \<^verbatim>\<open>INTEGER32\<close> whatever the structure array holds.\<close>
theorem fill_nulls:
  assumes "wf_flat F" and "felems F \<noteq> []" and "is_int (fty F)" and "fits (null_flat (shape F))"
  shows "\<exists>R. fillNulls (obj_of F) = Inr (encode R) \<and> wf_flat R \<and> fty R = INTEGER32 \<and>
    items R = replicate (prod_list (shape F)) None \<and>
    levels R = map (\<lambda>i. replicate (prod_list (take i (shape F))) (shape F ! i)) [0..<length (shape F)]"
proof -
  have ne: "shape F \<noteq> []" using assms(2) by (simp add: shape_def)
  have ty: "fty (null_flat (shape F)) = INTEGER32" by (simp add: null_flat_def shape_flat_def)
  have "fillNulls (obj_of F) = generateNulls (obj_of F) (fty F) INTEGER32"
    using assms(1-3) by (auto simp: fillNulls_def enc.obj_size enc.obj_type is_int_def)
  then show ?thesis
    using generateNulls_run[OF assms(1,2,4)] wf_null_flat[OF ne assms(4)] items_null_flat ty
    unfolding shape_levels_def copies_def by metis
qed

theorem fill_nulls_witness:
  "\<exists>R. fillNulls (obj_of sample_ints) = Inr (encode R) \<and> items R = replicate 30 None"
proof -
  have "fits (null_flat [5, 6])"
    unfolding fits_def by (subst length_encode)
      (simp_all add: null_flat_def shape_flat_def sample_shape length_concat getNullBytes_def)
  then show ?thesis
    using fill_nulls[of sample_ints] wf_samples(2) by (auto simp: sample_shape sample_ints_shape)
qed

end
