(* ===== verification/Array_Print.thy ===== *)
theory Array_Print
  imports Array_Cast
begin

text \<open>
  Printing an array as text (\<^verbatim>\<open>ArrayPrint.cpp\<close>). The target string is threaded through.
\<close>

definition str :: "string \<Rightarrow> bytes \<Rightarrow> bytes" where
  "str s target = target @ bytes_of s"

section \<open>The header\<close>

text \<open>\<^verbatim>\<open>indices[i] + (int32_t) length - 1\<close> is computed in \<^verbatim>\<open>int\<close>.\<close>

definition upper_bound :: "nat \<Rightarrow> nat \<Rightarrow> int res" where
  "upper_bound x len =
     (let s = to_signed 32 x + to_signed 32 len in
      if in_signed 32 s \<and> in_signed 32 (s - 1) then Inr (s - 1) else Inl Undefined)"

definition printHeader :: "array_obj \<Rightarrow> bytes \<Rightarrow> bytes res" where
  "printHeader a target =
     ebind (mfold (\<lambda>i print. ebind (index_at a i) (\<lambda>x. Inr (if to_signed 32 x \<noteq> 1 then True else print)))
       [0..<dimensions a] False) (\<lambda>print.
     if print then
       ebind (mfold (\<lambda>i target.
           ebind (getDimensionSize a (i + 1)) (\<lambda>len.
           ebind (index_at a i) (\<lambda>x.
           ebind (upper_bound x len) (\<lambda>u.
           Inr (str (''['' @ show_int (to_signed 32 x) @ '':'' @ show_int u @ '']'') target)))))
         [0..<dimensions a] target) (\<lambda>target.
       Inr (str ''='' target))
     else Inr target)"

section \<open>The elements\<close>

definition print_element :: "array_obj \<Rightarrow> nat \<Rightarrow> bytes \<Rightarrow> bytes res" where
  "print_element a i target =
     ebind (isNull a i) (\<lambda>null.
     if null then Inr (str ''null'' target)
     else case type_of (atype a) of
       Some T \<Rightarrow> ebind (getElementPosition a i) (\<lambda>p. toStringElement a T p target)
     | None \<Rightarrow> Inl (RuntimeError ''Print-Operation: Given array type is not supported''))"

function printArray :: "array_obj \<Rightarrow> nat \<Rightarrow> nat \<Rightarrow> bytes \<Rightarrow> bytes res" where
  "printArray a width dimension target =
     (if dimension = dimensions a then
        let target = str ''{'' target in
        ebind (getOffset a width) (\<lambda>offset.
        ebind (ld32 (amem a) width) (\<lambda>n.
        ebind (mfold (\<lambda>i target.
            ebind (print_element a i target) (\<lambda>target.
            Inr (if i + 1 \<noteq> u32 (offset + n) then str '','' target else target)))
          [offset..<u32 (offset + n)] target) (\<lambda>target.
        Inr (str ''}'' target))))
      else
        ebind (getChildWidth a width dimension) (\<lambda>entries.
        let target = str ''{'' target in
        ebind (ld32 (amem a) width) (\<lambda>n.
        ebind (mfold (\<lambda>i target.
            ebind (case entries of None \<Rightarrow> Inl Undefined | Some e \<Rightarrow> Inr (e + 4 * i)) (\<lambda>entry.
            ebind (printArray a entry (dimension + 1) target) (\<lambda>target.
            Inr (if i + 1 \<noteq> n then str '','' target else target))))
          [0..<n] target) (\<lambda>target.
        Inr (str ''}'' target)))))"
  by pat_completeness auto

termination
  by (relation "measure (\<lambda>(a, _, dimension, _). dimensions a - dimension)")
    (auto dest!: getChildWidth_dimension)

declare printArray.simps [simp del]

definition print_array :: "array_obj \<Rightarrow> bytes res" where
  "print_array a = ebind (printHeader a []) (printArray a (widths a) 1)"

end
