(* ===== verification/Print_Correct.thy ===== *)
theory Print_Correct
  imports Array_Print Cast_Correct
begin

text \<open>
  \<^verbatim>\<open>print\<close>: the text of an array is its values, separated by commas, in one pair of braces per
  width entry, nested by dimension; a header with the index ranges comes first when some
  dimension does not start at 1.
\<close>

section \<open>The text of an array\<close>

fun join :: "bytes list \<Rightarrow> bytes" where
  "join [] = []"
| "join [t] = t"
| "join (t # ts) = t @ bytes_of '','' @ join ts"

definition braces :: "bytes list \<Rightarrow> bytes" where
  "braces ts = bytes_of ''{'' @ join ts @ bytes_of ''}''"

text \<open>The texts of the entries of the outermost dimension in \<open>ls\<close>, over the texts of the values.\<close>

fun render :: "nat list list \<Rightarrow> bytes list \<Rightarrow> bytes list" where
  "render [] xs = xs"
| "render (ws # ls) xs = map braces (split_lens ws (render ls xs))"

definition value_text :: "flat \<Rightarrow> nat \<Rightarrow> bytes" where
  "value_text F i =
     (if fty F = STRING then bytes_of [CHR 0x22] @ strs F ! i @ bytes_of [CHR 0x22] else text_of F i)"

definition item_text :: "flat \<Rightarrow> nat \<Rightarrow> bytes" where
  "item_text F i = (if fnulls F ! i then bytes_of ''null'' else value_text F (elem_pos F i))"

definition item_texts :: "flat \<Rightarrow> bytes list" where
  "item_texts F = map (item_text F) [0..<length (fnulls F)]"

definition array_text :: "flat \<Rightarrow> bytes" where
  "array_text F = hd (render (levels F) (item_texts F))"

lemma length_item_texts [simp]: "length (item_texts F) = length (fnulls F)"
  by (simp add: item_texts_def)

text \<open>The index ranges.\<close>

definition dim_size :: "flat \<Rightarrow> nat \<Rightarrow> nat" where
  "dim_size F k = foldl max 0 (level F k)"

definition range_text :: "flat \<Rightarrow> nat \<Rightarrow> string" where
  "range_text F k = ''['' @ show_int (to_signed 32 (fidx F ! k)) @ '':'' @
     show_int (to_signed 32 (fidx F ! k) + int (dim_size F k) - 1) @ '']''"

definition header_text :: "flat \<Rightarrow> string" where
  "header_text F =
     (if \<forall>x \<in> set (fidx F). x = 1 then []
      else concat (map (range_text F) [0..<length (fdwm F)]) @ ''='')"

section \<open>Values\<close>

lemma print_element_obj:
  assumes wf: "wf_flat F" and i: "i < length (fnulls F)"
  shows "print_element (obj_of F) i t = Inr (t @ item_text F i)"
proof (cases "fnulls F ! i")
  case True
  then show ?thesis using i by (simp add: print_element_def acc_simps wf item_text_def str_def)
next
  case False
  let ?p = "elem_pos F i"
  have p: "?p < length (felems F)" by (rule elem_pos_less[OF wf i False])
  have "toStringElement (obj_of F) (fty F) ?p t = Inr (t @ value_text F ?p)"
  proof (cases "fty F = STRING")
    case True
    then show ?thesis
      using p enc.string_offset_obj[OF wf True] enc.length_at_obj[OF wf True p] load_str[OF wf True p]
      by (simp add: toStringElement_def enc.obj_size[OF wf] value_text_def)
  next
    case False
    then show ?thesis
      using p element_at_obj[OF wf p]
      by (simp add: toStringElement_def enc.obj_size[OF wf] value_text_def text_of_def)
  qed
  then show ?thesis
    using False i p
    by (simp add: print_element_def acc_simps wf enc.obj_type item_text_def flip: elem_pos_def)
qed

section \<open>Sequences with commas\<close>

lemma join_snoc: "ts \<noteq> [] \<Longrightarrow> join (ts @ [t]) = join ts @ bytes_of '','' @ t"
  by (induction ts rule: join.induct) simp_all

lemma loop_join:
  assumes "a \<le> b" and "\<And>i t. a \<le> i \<Longrightarrow> i < b \<Longrightarrow> f i t = Inr (t @ g i)"
  shows "mfold (\<lambda>i t. ebind (f i t) (\<lambda>t. Inr (if i + 1 \<noteq> b then str '','' t else t))) [a..<b] t =
    Inr (t @ join (map g [a..<b]))"
  using assms
proof (induction "b - a" arbitrary: a t)
  case (Suc n)
  then have a: "a < b" by simp
  have IH: "mfold (\<lambda>i t. ebind (f i t) (\<lambda>t. Inr (if i + 1 \<noteq> b then str '','' t else t))) [Suc a..<b] t =
      Inr (t @ join (map g [Suc a..<b]))" for t
    using Suc.hyps(1)[of "Suc a"] Suc.hyps(2) Suc.prems a by simp
  show ?case
  proof (cases "Suc a = b")
    case True
    then show ?thesis using Suc.prems(2)[of a t] a by (simp add: upt_conv_Cons)
  next
    case False
    then have "[Suc a..<b] = Suc a # [Suc (Suc a)..<b]" using a by (simp add: upt_conv_Cons)
    then have "join (map g [a..<b]) = g a @ bytes_of '','' @ join (map g [Suc a..<b])"
      using a by (simp add: upt_conv_Cons)
    then show ?thesis
      using Suc.prems(2)[of a t] a False IH[of "str '','' (t @ g a)"] by (simp add: upt_conv_Cons str_def)
  qed
qed simp

section \<open>Nested entries\<close>

lemma length_render: "length (render (ws # ls) xs) = length ws"
  by simp

lemma render_nth:
  "j < length ws \<Longrightarrow>
    render (ws # ls) xs ! j = braces (take (ws ! j) (drop (sum_list (take j ws)) (render ls xs)))"
  by (simp add: split_lens_nth)

lemma drop_levels: "k < length (fdwm F) \<Longrightarrow> drop k (levels F) = level F k # drop (Suc k) (levels F)"
  by (simp add: Cons_nth_drop_Suc[symmetric] nth_levels)

lemma take_drop_map: "a + n \<le> length xs \<Longrightarrow> take n (drop a xs) = map (\<lambda>i. xs ! (a + i)) [0..<n]"
  by (rule nth_equalityI) simp_all

lemma sum_take_nth_le:
  assumes "j < length ws"
  shows "sum_list (take j ws) + ws ! j \<le> sum_list (ws :: nat list)"
  using sum_take_le[of "Suc j" ws] sum_take_Suc[OF assms] by linarith

lemma printArray_run:
  assumes wf: "wf_flat F"
  shows "k < length (fdwm F) \<Longrightarrow> j < fdwm F ! k \<Longrightarrow>
    printArray (obj_of F) (widths (obj_of F) + 4 * lvl_start F k + 4 * j) (Suc k) t =
      Inr (t @ render (drop k (levels F)) (item_texts F) ! j)"
proof (induction "length (fdwm F) - Suc k" arbitrary: k j t)
  case 0
  then have k: "k = length (fdwm F) - 1" by simp
  let ?ws = "level F k" and ?s = "sum_list (take j (level F k))"
  have len: "length ?ws = fdwm F ! k" by (rule length_level[OF wf 0(2)])
  have sum: "?s + ?ws ! j \<le> length (fnulls F)"
    using sum_take_nth_le[of j ?ws] len 0(3) wf_level_sum(2)[OF wf] k by simp
  have lt: "length (fnulls F) < 4294967296" using wf_bounds(1)[OF wf] by simp
  have n: "ld32 (amem (obj_of F)) (widths (obj_of F) + 4 * lvl_start F k + 4 * j) = Inr (?ws ! j)"
    using enc.ld_width[OF wf 0(2,3)] by simp
  have loop: "mfold (\<lambda>i t. ebind (print_element (obj_of F) i t)
        (\<lambda>t. Inr (if i + 1 \<noteq> ?s + ?ws ! j then str '','' t else t))) [?s..<?s + ?ws ! j] u =
      Inr (u @ join (map (item_text F) [?s..<?s + ?ws ! j]))" for u
    using sum by (intro loop_join print_element_obj[OF wf]) simp_all
  have "map (item_text F) [?s..<?s + ?ws ! j] = take (?ws ! j) (drop ?s (item_texts F))"
    using sum by (intro nth_equalityI) (simp_all add: item_texts_def)
  moreover have "drop k (levels F) = [?ws]" using drop_levels[OF 0(2)] k 0(2) by simp
  ultimately have shown: "render (drop k (levels F)) (item_texts F) ! j =
      bytes_of ''{'' @ join (map (item_text F) [?s..<?s + ?ws ! j]) @ bytes_of ''}''"
    using 0(3) len by (simp add: split_lens_nth braces_def)
  have "Suc k = length (fdwm F)" using k 0(2) by simp
  then show ?case
    using loop lt sum enc.getOffset_obj[OF wf k 0(3)]
    by (subst printArray.simps) (simp add: enc.obj_dims wf n str_def shown Let_def del: render.simps)
next
  case (Suc m)
  then have k: "Suc k < length (fdwm F)" by simp
  let ?ws = "level F k" and ?s = "sum_list (take j (level F k))"
  let ?sub = "render (drop (Suc k) (levels F)) (item_texts F)"
  have len: "length ?ws = fdwm F ! k" by (rule length_level[OF wf Suc.prems(1)])
  have sub: "length ?sub = fdwm F ! Suc k"
    unfolding drop_levels[OF k] by (simp add: length_level[OF wf k])
  have sum: "?s + ?ws ! j \<le> length ?sub"
    using sum_take_nth_le[of j ?ws] len Suc.prems(2) wf_level_sum(1)[OF wf k] sub by simp
  have n: "ld32 (amem (obj_of F)) (widths (obj_of F) + 4 * lvl_start F k + 4 * j) = Inr (?ws ! j)"
    using enc.ld_width[OF wf Suc.prems] by simp
  let ?e = "if ?ws ! j = 0 then None else Some (widths (obj_of F) + 4 * lvl_start F (Suc k) + 4 * ?s)"
  have child: "ebind (case ?e of None \<Rightarrow> Inl Undefined | Some e \<Rightarrow> Inr (e + 4 * i))
        (\<lambda>entry. printArray (obj_of F) entry (Suc k + 1) t) = Inr (t @ ?sub ! (?s + i))"
    if "i < ?ws ! j" for i t
  proof -
    have "printArray (obj_of F) (widths (obj_of F) + 4 * lvl_start F (Suc k) + 4 * (?s + i)) (Suc (Suc k)) t =
        Inr (t @ ?sub ! (?s + i))"
      using Suc.hyps(2) k that sum sub by (intro Suc.hyps(1)) simp_all
    then show ?thesis using that by (simp add: algebra_simps)
  qed
  have loop: "mfold (\<lambda>i t. ebind (ebind (case ?e of None \<Rightarrow> Inl Undefined | Some e \<Rightarrow> Inr (e + 4 * i))
        (\<lambda>entry. printArray (obj_of F) entry (Suc k + 1) t))
        (\<lambda>t. Inr (if i + 1 \<noteq> ?ws ! j then str '','' t else t))) [0..<?ws ! j] u =
      Inr (u @ join (map (\<lambda>i. ?sub ! (?s + i)) [0..<?ws ! j]))" for u
    by (rule loop_join) (simp_all only: le0 child)
  have shown: "render (drop k (levels F)) (item_texts F) ! j =
      bytes_of ''{'' @ join (map (\<lambda>i. ?sub ! (?s + i)) [0..<?ws ! j]) @ bytes_of ''}''"
    unfolding drop_levels[OF Suc.prems(1)] using Suc.prems(2) len sum
    by (simp only: render_nth braces_def take_drop_map)
  have "Suc k \<noteq> length (fdwm F)" using k by simp
  then show ?case
    using loop enc.getChildWidth_obj[OF wf k Suc.prems(2)]
    by (subst printArray.simps) (simp add: enc.obj_dims wf n str_def shown Let_def ebind_assoc del: render.simps)
qed

lemma printArray_obj:
  assumes wf: "wf_flat F"
  shows "printArray (obj_of F) (widths (obj_of F)) 1 t = Inr (t @ array_text F)"
proof -
  have "length (render (levels F) (item_texts F)) = 1"
    using drop_levels[of 0 F] length_level[OF wf, of 0] wf_dims[OF wf]
    by (metis One_nat_def drop0 length_render)
  then show ?thesis
    using printArray_run[OF wf, of 0 0 t] wf_dims[OF wf]
    by (simp add: array_text_def hd_conv_nth flip: length_greater_0_conv)
qed

section \<open>The header\<close>

lemma getDimensionSize_obj:
  assumes wf: "wf_flat F" and k: "k < length (fdwm F)"
  shows "getDimensionSize (obj_of F) (Suc k) = Inr (dim_size F k)"
proof -
  let ?e = "widths (obj_of F) + 4 * lvl_start F k" and ?ws = "level F k"
  have len: "length ?ws = fdwm F ! k" by (rule length_level[OF wf k])
  have "mfold (\<lambda>i result. ebind (ld32 (amem (obj_of F)) (?e + 4 * i)) (\<lambda>e. Inr (if e > result then e else result)))
      [0..<fdwm F ! k] 0 = Inr (foldl max 0 ?ws)"
  proof (rule mfold_upt0[where S = "\<lambda>i. foldl max 0 (take i ?ws)"])
    fix i assume i: "i < fdwm F ! k"
    then have "take (Suc i) ?ws = take i ?ws @ [?ws ! i]" using len by (simp add: take_Suc_conv_app_nth)
    then show "ebind (ld32 (amem (obj_of F)) (?e + 4 * i))
        (\<lambda>e. Inr (if e > foldl max 0 (take i ?ws) then e else foldl max 0 (take i ?ws))) =
      Inr (foldl max 0 (take (Suc i) ?ws))"
      using enc.ld_width[OF wf k i] by (simp add: max_def)
  qed (simp_all add: len)
  then show ?thesis
    using k by (simp add: getDimensionSize_def enc.obj_dims wf enc.dwm_at_obj enc.getFirstWidth_obj dim_size_def)
qed

lemma to_signed_1_iff: "x < 4294967296 \<Longrightarrow> to_signed 32 x = 1 \<longleftrightarrow> x = 1"
  by (auto simp: to_signed_def)

text \<open>No index range leaves the 32-bit integers.\<close>

definition ranges_fit :: "flat \<Rightarrow> bool" where
  "ranges_fit F \<longleftrightarrow> (\<forall>k < length (fdwm F). dim_size F k < 2147483648 \<and>
     in_signed 32 (to_signed 32 (fidx F ! k) + int (dim_size F k)) \<and>
     in_signed 32 (to_signed 32 (fidx F ! k) + int (dim_size F k) - 1))"

lemma printHeader_run:
  assumes wf: "wf_flat F" and fit: "ranges_fit F"
  shows "printHeader (obj_of F) t = Inr (t @ bytes_of (header_text F))"
proof -
  let ?d = "length (fdwm F)"
  let ?any = "\<lambda>i. \<exists>x \<in> set (take i (fidx F)). x \<noteq> 1"
  have idx: "length (fidx F) = ?d" by (rule wf_dims(2)[OF wf])
  have at: "index_at (obj_of F) i = Inr (fidx F ! i)" "fidx F ! i < 4294967296" if "i < ?d" for i
    using enc.index_at_obj[OF wf] smallD[OF wf_bounds(7)[OF wf]] that idx by simp_all
  have any: "mfold (\<lambda>i print. ebind (index_at (obj_of F) i) (\<lambda>x. Inr (if to_signed 32 x \<noteq> 1 then True else print)))
      [0..<?d] False = Inr (?any ?d)"
  proof (rule mfold_upt0[where S = ?any])
    fix i assume "i < ?d"
    then show "ebind (index_at (obj_of F) i) (\<lambda>x. Inr (if to_signed 32 x \<noteq> 1 then True else ?any i)) = Inr (?any (Suc i))"
      using at[of i] idx by (auto simp: to_signed_1_iff take_Suc_conv_app_nth)
  qed simp_all
  have ranges: "mfold (\<lambda>i target.
      ebind (getDimensionSize (obj_of F) (i + 1)) (\<lambda>len.
      ebind (index_at (obj_of F) i) (\<lambda>x.
      ebind (upper_bound x len) (\<lambda>u.
      Inr (str (''['' @ show_int (to_signed 32 x) @ '':'' @ show_int u @ '']'') target))))) [0..<?d] t =
    Inr (t @ bytes_of (concat (map (range_text F) [0..<?d])))"
  proof (rule mfold_upt0[where S = "\<lambda>i. t @ bytes_of (concat (map (range_text F) [0..<i]))"])
    fix i assume i: "i < ?d"
    have "to_signed 32 (dim_size F i) = int (dim_size F i)" "in_signed 32 (to_signed 32 (fidx F ! i) + int (dim_size F i))"
      "in_signed 32 (to_signed 32 (fidx F ! i) + int (dim_size F i) - 1)"
      using fit i by (simp_all add: ranges_fit_def to_signed_def)
    then have "upper_bound (fidx F ! i) (dim_size F i) = Inr (to_signed 32 (fidx F ! i) + int (dim_size F i) - 1)"
      by (simp add: upper_bound_def Let_def)
    then show "ebind (getDimensionSize (obj_of F) (i + 1)) (\<lambda>len.
      ebind (index_at (obj_of F) i) (\<lambda>x.
      ebind (upper_bound x len) (\<lambda>u.
      Inr (str (''['' @ show_int (to_signed 32 x) @ '':'' @ show_int u @ '']'')
        (t @ bytes_of (concat (map (range_text F) [0..<i]))))))) =
      Inr (t @ bytes_of (concat (map (range_text F) [0..<Suc i])))"
      using getDimensionSize_obj[OF wf i] at(1)[OF i] by (simp add: range_text_def str_def)
  qed (simp_all add: bytes_of_def)
  have "?any ?d \<longleftrightarrow> \<not> (\<forall>x \<in> set (fidx F). x = 1)" using idx by simp
  then show ?thesis
    using any ranges by (auto simp: printHeader_def enc.obj_dims wf header_text_def str_def bytes_of_def)
qed

section \<open>Properties\<close>



end
