(* ===== verification/Array_Transpose.thy ===== *)
theory Array_Transpose
  imports Array_Cast
begin

text \<open>
  Transposition (\<^verbatim>\<open>ArrayTranspose.cpp\<close>): the first two dimensions are exchanged, an array of one
  dimension becomes a column.
\<close>

text \<open>The write through \<^verbatim>\<open>widthToChange\<close>, a second pointer into the result.\<close>

definition poke32 :: "nat \<Rightarrow> nat \<Rightarrow> wbuf \<Rightarrow> wbuf res" where
  "poke32 pos v w = ebind (put32 v (fst w, pos)) (\<lambda>(b, _). Inr (b, snd w))"

text \<open>
  \<^verbatim>\<open>for (row = 0; row < totalElements; row += rowSize)\<close>. With a row size of 0 the first round
  never ends normally: its inner loop runs into a position that does not exist.
\<close>

definition row_starts :: "nat \<Rightarrow> nat \<Rightarrow> nat list" where
  "row_starts totalElements rowSize =
     (if rowSize = 0 then (if totalElements = 0 then [] else [0])
      else map (\<lambda>i. i * rowSize) [0..<(totalElements + rowSize - 1) div rowSize])"

text \<open>Copying one cell: element \<open>k\<close>, or a NULL bit.\<close>

definition transpose_cell :: "array_obj \<Rightarrow> nat \<Rightarrow> wbuf \<times> bool list \<Rightarrow> (wbuf \<times> bool list) res" where
  "transpose_cell a k = (\<lambda>(w, nullBits).
     ebind (isNull a k) (\<lambda>null.
     if null then Inr (w, nullBits @ [True])
     else ebind (copyElement a k w) (\<lambda>w. Inr (w, nullBits @ [False]))))"

definition transpose_cells :: "array_obj \<Rightarrow> nat \<Rightarrow> nat \<Rightarrow> nat \<Rightarrow> nat \<Rightarrow> wbuf \<Rightarrow> (wbuf \<times> bool list) res" where
  "transpose_cells a cols totalElements rowSize elementSize w =
     mfold (\<lambda>column. mfold (\<lambda>row.
         let start = u32 (row + column * elementSize); stop = u32_sub (u32 (start + elementSize)) 1
         in mfold (transpose_cell a) [start..<stop + 1]) (row_starts totalElements rowSize))
       [0..<cols] (w, [])"

definition first_widths_product :: "array_obj \<Rightarrow> nat res" where
  "first_widths_product a =
     mfold (\<lambda>i rowSize. ebind (getFirstWidth a i) (\<lambda>p. ebind (ld32 (amem a) p) (\<lambda>width.
         Inr (u32 (rowSize * width))))) [2..<dimensions a + 1] 1"

definition transpose_elements :: "array_obj \<Rightarrow> nat \<Rightarrow> wbuf \<Rightarrow> wbuf res" where
  "transpose_elements a totalElements w =
     (if dimensions a = 1 then
        ebind (copyElements a w) (copyNulls (amem a) (nulls a) totalElements 0)
      else
        ebind (width_at a 1) (\<lambda>cols.
        ebind (first_widths_product a) (\<lambda>rowSize.
        ebind (if dimensions a = 2 then Inr 1
               else if cols = 0 then Inl Undefined else Inr (rowSize div cols)) (\<lambda>elementSize.
        ebind (transpose_cells a cols totalElements rowSize elementSize w) (\<lambda>(w, nullBits).
        copyNullsVec nullBits w)))))"

definition transpose_widthSize :: "array_obj \<Rightarrow> nat res" where
  "transpose_widthSize a =
     ebind (getWidthSize a) (\<lambda>n.
     if dimensions a = 1 then Inr (u32 (1 + n))
     else ebind (getWidthSizeDim a 2) (\<lambda>n2. ebind (width_at a 1) (\<lambda>w1. Inr (u32 (u32_sub n n2 + w1)))))"

definition transpose_array :: "array_obj \<Rightarrow> bytes res" where
  "transpose_array a =
     (if \<not> isNumericType (atype a)
      then Inl (RuntimeError ''Array-Tranypose: This function is only supported with numeric element types'')
      else
        let dimension = (if dimensions a = 1 then 2 else dimensions a) in
        ebind (getSize a True) (\<lambda>totalElements.
        ebind (transpose_widthSize a) (\<lambda>widthSize.
        ebind (getStringSize dimension (asize a) widthSize (getNullBytes totalElements) 0 (atype a)) (\<lambda>n.
        build n [
          writeToBuffer ARRAYHEADER,
          put8 (atype a),
          put32 dimension,
          put32 (asize a),
          (if dimension = 1 then steps [put32 1, copyToBuffer (amem a) (indices a) 4]
           else steps [
             copyToBuffer (amem a) (indices a + 4) 4,
             copyToBuffer (amem a) (indices a) 4,
             copyToBuffer (amem a) (indices a + 8) (4 * u32_sub dimension 2)]),
          (\<lambda>w. let widthToChange = snd w + 4 in
             ebind (copyToBuffer (amem a) (dimensionWidthMap a) (4 * dimensions a) w) (\<lambda>w.
             if dimensions a = 1 then put32 1 w
             else ebind (width_at a 1) (\<lambda>x. poke32 widthToChange x w))),
          (if dimensions a = 1 then steps [put32 1, copyToBuffer (amem a) (widths a) 4]
           else (\<lambda>w.
             ebind (width_at a 1) (\<lambda>w1.
             ebind (put32 w1 w) (\<lambda>w.
             ebind (mfold (\<lambda>i. copyToBuffer (amem a) (widths a) 4) [0..<w1] w) (\<lambda>w.
             if dimensions a > 2 then
               ebind (dwm_at a 1) (\<lambda>d1.
               ebind (getWidthSize a) (\<lambda>n.
               ebind (getWidthSizeDim a 1) (\<lambda>n1.
               ebind (getWidthSizeDim a 2) (\<lambda>n2.
               copyToBuffer (amem a) (widths a + 4 * u32 (d1 + 1)) (4 * u32_sub n (u32 (n1 + n2))) w))))
             else Inr w))))),
          transpose_elements a totalElements]))))"

end
