(* ===== verification/Array_Slice.thy ===== *)
theory Array_Slice
  imports Array_Cast
begin

text \<open>
  Slices and subscripts (\<^verbatim>\<open>ArraySlice.cpp\<close>, \<^verbatim>\<open>ArraySubscript.cpp\<close>). The recursion
  \<^verbatim>\<open>getArraySlice\<close> fills three vectors it gets by reference; they are its state here. Element
  access on a vector outside of its bounds is \<open>Undefined\<close>.
\<close>

section \<open>Vectors\<close>

definition vec_at :: "'a list \<Rightarrow> nat \<Rightarrow> 'a res" where
  "vec_at v i = (if i < length v then Inr (v ! i) else Inl Undefined)"

definition vec_put :: "'a list \<Rightarrow> nat \<Rightarrow> 'a \<Rightarrow> 'a list res" where
  "vec_put v i x = (if i < length v then Inr (v[i := x]) else Inl Undefined)"

definition vec_insert :: "'a list \<Rightarrow> nat \<Rightarrow> 'a \<Rightarrow> 'a list res" where
  "vec_insert v i x = (if i \<le> length v then Inr (take i v @ [x] @ drop i v) else Inl Undefined)"

section \<open>The recursion\<close>

text \<open>\<open>swidths\<close>, \<open>swidthSize\<close> and \<open>selements\<close> are the vectors under construction.\<close>

record slice_state =
  swidths :: "nat list"
  swidthSize :: "nat list"
  selements :: "nat list"

text \<open>
  The indices of the loop \<^verbatim>\<open>for (int32_t i = index; i < index + (int32_t) entry[0]; i++)\<close>.
\<close>

definition slice_range :: "array_obj \<Rightarrow> nat \<Rightarrow> nat \<Rightarrow> (int \<times> nat) res" where
  "slice_range a dimension entry =
     ebind (index_at a (dimension - 1)) (\<lambda>x.
     ebind (ld32 (amem a) entry) (\<lambda>n.
     let index = to_signed 32 x; count = to_signed 32 n in
     if in_signed 32 (index + count) then Inr (index, nat count) else Inl Undefined))"

definition ignored :: "bool \<Rightarrow> int \<Rightarrow> int \<Rightarrow> int \<Rightarrow> bool" where
  "ignored isSlice lowerBound upperBound i \<longleftrightarrow> isSlice \<and> (i < lowerBound \<or> i > upperBound)"

definition width_position :: "nat list \<Rightarrow> nat \<Rightarrow> nat res" where
  "width_position widthSize dimension =
     mfold (\<lambda>i widthPosition. ebind (vec_at widthSize i) (\<lambda>x. Inr (widthPosition + x))) [0..<dimension + 1] 0"

function getArraySlice ::
  "array_obj \<Rightarrow> int \<Rightarrow> int \<Rightarrow> nat \<Rightarrow> nat \<Rightarrow> nat \<Rightarrow> slice_state \<Rightarrow> slice_state res" where
  "getArraySlice a lowerBound upperBound sliceDimension dimension entry s =
     (let isSlice = (dimension = sliceDimension) in
     if dimension = dimensions a then
       ebind (getOffset a entry) (\<lambda>offset.
       ebind (slice_range a dimension entry) (\<lambda>(index, count).
       ebind (mfold (\<lambda>k (els, offset).
           Inr (if ignored isSlice lowerBound upperBound (index + int k) then (els, u32 (offset + 1))
                else (els @ [offset], u32 (offset + 1))))
         [0..<count] (selements s, offset))
       (\<lambda>(els, _). Inr (s\<lparr>selements := els\<rparr>))))
     else
       ebind (getChildWidth a entry dimension) (\<lambda>children.
       ebind (width_position (swidthSize s) dimension) (\<lambda>widthPosition.
       ebind (slice_range a dimension entry) (\<lambda>(index, count).
       ebind (mfold (\<lambda>k (s, widthPosition).
           if ignored isSlice lowerBound upperBound (index + int k) then Inr (s, widthPosition)
           else
             ebind (vec_at (swidthSize s) dimension) (\<lambda>x.
             ebind (vec_put (swidthSize s) dimension (u32 (x + 1))) (\<lambda>widthSize.
             ebind (vec_insert (swidths s) widthPosition 0) (\<lambda>widths.
             let s = s\<lparr>swidthSize := widthSize, swidths := widths\<rparr> in
             ebind (if dimension + 1 = dimensions a then Inr (length (selements s))
                    else vec_at (swidthSize s) (dimension + 1)) (\<lambda>state.
             ebind (case children of None \<Rightarrow> Inl Undefined | Some c \<Rightarrow> Inr (c + 4 * k)) (\<lambda>child.
             ebind (getArraySlice a lowerBound upperBound sliceDimension (dimension + 1) child s) (\<lambda>s.
             ebind (if dimension + 1 = dimensions a then Inr (length (selements s))
                    else vec_at (swidthSize s) (dimension + 1)) (\<lambda>now.
             ebind (vec_put (swidths s) widthPosition (u32_sub now state)) (\<lambda>widths.
             Inr (s\<lparr>swidths := widths\<rparr>, widthPosition + 1))))))))))
         [0..<count] (s, widthPosition))
       (\<lambda>(s, _). Inr s)))))"
  by pat_completeness auto

termination
  by (relation "measure (\<lambda>(a, _, _, _, dimension, _, _). dimensions a - dimension)")
    (auto dest!: getChildWidth_dimension)

declare getArraySlice.simps [simp del]

section \<open>Writing the selected elements\<close>

text \<open>The loop over \<^verbatim>\<open>elementIdx\<close> that fills the NULL vector and counts.\<close>

definition count_selected :: "array_obj \<Rightarrow> nat list \<Rightarrow> (bool list \<times> nat \<times> nat) res" where
  "count_selected a elementIdx =
     mfold (\<lambda>entry (nulls, numberElements, stringLengths).
         ebind (isNull a entry) (\<lambda>null.
         ebind (if atype a = type_id STRING \<and> \<not> null then
                  ebind (getElementPosition a entry) (\<lambda>p. ebind (getStringLengthAt a p)
                    (\<lambda>k. Inr (u32 (stringLengths + k))))
                else Inr stringLengths) (\<lambda>stringLengths.
         Inr (nulls @ [null], if null then numberElements else u32 (numberElements + 1), stringLengths))))
       elementIdx ([], 0, 0)"

definition copy_selected :: "(nat \<Rightarrow> wbuf \<Rightarrow> wbuf res) \<Rightarrow> array_obj \<Rightarrow> nat list \<Rightarrow> wbuf \<Rightarrow> wbuf res" where
  "copy_selected copy a elementIdx =
     mfold (\<lambda>entry w. ebind (isNull a entry) (\<lambda>null.
         if null then Inr w else ebind (getElementPosition a entry) (\<lambda>p. copy p w))) elementIdx"

section \<open>Slice\<close>

definition slice :: "array_obj \<Rightarrow> int \<Rightarrow> int \<Rightarrow> nat \<Rightarrow> bytes res" where
  "slice a lowerBound upperBound dimension =
     (if lowerBound > upperBound
      then Inl (RuntimeError ''Array-Slice: Given lower-bound is larger than given upper-bound'')
      else if dimension > dimensions a then createEmptyArray (int (atype a))
      else
        ebind (getArraySlice a lowerBound upperBound dimension 1 (widths a)
          \<lparr>swidths = [], swidthSize = replicate (dimensions a) 0, selements = []\<rparr>) (\<lambda>s.
        ebind (vec_put (swidthSize s) 0 1) (\<lambda>widthSize.
        ebind (vec_at widthSize 1) (\<lambda>first.
        let wids = first # swidths s; elementIdx = selements s in
        ebind (count_selected a elementIdx) (\<lambda>(nullBits, numberElements, stringLengths).
        let dims = (if elementIdx = [] then 1 else dimensions a) in
        ebind (getStringSize dims numberElements (length wids) (getNullBytes (length nullBits))
                 stringLengths (atype a)) (\<lambda>n.
        build n [
          writeToBuffer ARRAYHEADER,
          put8 (atype a),
          put32 dims,
          put32 numberElements,
          mfold (\<lambda>i. if elementIdx = [] then put32 1
              else if i + 1 = dimension then put32 (of_signed 32 lowerBound)
              else copyToBuffer (amem a) (indices a + 4 * i) 4) [0..<dims],
          mfold (\<lambda>i w. ebind (vec_at widthSize i) (\<lambda>x. put32 x w)) [0..<dims],
          (if elementIdx = [] then put32 0 else mfold put32 wids),
          copy_selected (copyElement a) a elementIdx,
          copyNullsVec nullBits,
          (if atype a = type_id STRING then copy_selected (copyString a) a elementIdx else Inr)]))))))"

section \<open>Subscript\<close>

definition subscript :: "array_obj \<Rightarrow> nat \<Rightarrow> bytes res" where
  "subscript a position =
     (let p = to_signed 32 position in
     ebind (getArraySlice a p p 1 1 (widths a)
       \<lparr>swidths = [], swidthSize = replicate (dimensions a) 0, selements = []\<rparr>) (\<lambda>s.
     let widthSize = tl (swidthSize s); wids = swidths s; elementIdx = selements s in
     if elementIdx = [] \<and> wids = [] then Inr []
     else if dimensions a = 1 then
       ebind (vec_at elementIdx 0) (\<lambda>e.
       ebind (isNull a e) (\<lambda>null.
       if null then Inr []
       else
         ebind (getElementPosition a e) (\<lambda>position.
         ebind (toStringElement a (case type_of (atype a) of Some T \<Rightarrow> T | None \<Rightarrow> STRING) position [])
           (\<lambda>result. Inr (toVarLen32 result)))))
     else
       ebind (count_selected a elementIdx) (\<lambda>(nullBits, numberElements, stringLengths).
       ebind (mfold (\<lambda>i dims. ebind (vec_at widthSize (i - 1)) (\<lambda>x.
           Inr (if x = 0 then u32_sub dims 1 else dims)))
         (rev [1..<dimensions a]) (u32_sub (dimensions a) 1)) (\<lambda>dims.
       ebind (getStringSize dims numberElements (length wids) (getNullBytes (length nullBits))
                stringLengths (atype a)) (\<lambda>n.
       build n [
         writeToBuffer ARRAYHEADER,
         put8 (atype a),
         put32 dims,
         put32 numberElements,
         (if elementIdx = [] then mfold (\<lambda>i. put32 1) [0..<dims]
          else copyToBuffer (amem a) (indices a + 4) (4 * dims)),
         mfold (\<lambda>i w. ebind (vec_at widthSize i) (\<lambda>x. put32 x w)) [0..<dims],
         mfold put32 wids,
         copy_selected (copyElement a) a elementIdx,
         copyNullsVec nullBits,
         (if atype a = type_id STRING then copy_selected (copyString a) a elementIdx else Inr)])))))"

end
