(* ===== verification/Array_Parse.thy ===== *)
theory Array_Parse
  imports Array_Slice
begin

text \<open>
  Parsing an array from text (\<^verbatim>\<open>ArrayParsing.cpp\<close>): one pass over the characters with a
  position \<open>symbol\<close> into the source. The character at the end of a string is the terminating
  NUL; reading behind it is \<open>Undefined\<close>.
\<close>

section \<open>Characters of the source\<close>

definition char_at :: "string \<Rightarrow> nat \<Rightarrow> char res" where
  "char_at s i =
     (if i < length s then Inr (s ! i) else if i = length s then Inr (CHR 0x00) else Inl Undefined)"

text \<open>\<^verbatim>\<open>while (symbol < end && isspace(*symbol)) symbol++\<close> from position \<open>i\<close>.\<close>

definition skip_spaces :: "string \<Rightarrow> nat \<Rightarrow> nat" where
  "skip_spaces s i = i + length (takeWhile isspace (drop i s))"

section \<open>The header\<close>

text \<open>
  One number of a header entry: its first character, whatever it is, then digits and blanks up
  to \<open>stop\<close>, which is skipped.
\<close>

definition header_number :: "string \<Rightarrow> char \<Rightarrow> nat \<Rightarrow> (string \<times> nat) res" where
  "header_number s stop i =
     (let i = skip_spaces s i in
     ebind (char_at s i) (\<lambda>c.
     let part = takeWhile (\<lambda>c. c \<noteq> stop) (drop (i + 1) s) in
     if \<exists>c \<in> set part. \<not> isdigit c \<and> \<not> isspace c
     then Inl (RuntimeError ''Array-Cast: Invalid array header'')
     else Inr (c # part, i + 1 + length part + 1)))"

definition catch_range :: "'a res \<Rightarrow> 'a res" where
  "catch_range r = (case r of
      Inl OutOfRange \<Rightarrow>
        Inl (RuntimeError ''Array-Cast: Specified index is out of range for a 32-bit integer'')
    | _ \<Rightarrow> r)"

text \<open>An entry \<^verbatim>\<open>[lower:upper]\<close>, \<open>i\<close> behind the bracket: lower bound, length, next position.\<close>

definition header_entry :: "string \<Rightarrow> nat \<Rightarrow> (int \<times> int \<times> nat) res" where
  "header_entry s i =
     ebind (header_number s (CHR '':'') i) (\<lambda>(v, i).
     ebind (sto_int 32 v) (\<lambda>lower.
     ebind (header_number s (CHR '']'') i) (\<lambda>(v, i).
     ebind (sto_int 32 v) (\<lambda>upper.
     if lower > upper then Inl (RuntimeError ''Array-Cast: Invalid Indices in array header'')
     else if \<not> in_signed 32 (upper - lower) \<or> \<not> in_signed 32 (upper - lower + 1) then Inl Undefined
     else Inr (lower, upper - lower + 1, skip_spaces s i)))))"

lemma header_number_next: "header_number s c i = Inr (v, j) \<Longrightarrow> i < j"
  by (auto simp: header_number_def skip_spaces_def Let_def ebind_eq_Inr_iff split: if_splits)

lemma header_entry_next: "header_entry s i = Inr (l, n, j) \<Longrightarrow> i < j"
  by (auto simp: header_entry_def skip_spaces_def ebind_eq_Inr_iff dest!: header_number_next split: if_splits)

function header_loop :: "string \<Rightarrow> nat \<Rightarrow> bool \<Rightarrow> int list \<Rightarrow> int list \<Rightarrow> (nat \<times> int list \<times> int list) res" where
  "header_loop s i foundHeader lows lengths =
     (if i < length s \<and> s ! i \<noteq> CHR ''='' \<and> s ! i \<noteq> CHR ''{'' then
        if s ! i = CHR ''['' then
          ebind (header_entry s (i + 1)) (\<lambda>(lower, len, j).
          header_loop s j True (lows @ [lower]) (lengths @ [len]))
        else if s ! i = CHR '' '' then header_loop s (i + 1) foundHeader lows lengths
        else Inl (RuntimeError (if foundHeader then ''Array-Cast: Invalid array header''
                                else ''Array-Cast: Invalid array specification''))
      else Inr (i, lows, lengths))"
  by pat_completeness auto

termination
  by (relation "measure (\<lambda>(s, i, _, _, _). length s - i)") (auto dest!: header_entry_next)

declare header_loop.simps [simp del]

definition parseHeader :: "string \<Rightarrow> (nat \<times> int list \<times> int list) res" where
  "parseHeader s =
     ebind (catch_range (header_loop s 0 False [] [])) (\<lambda>(i, lows, lengths).
     ebind (char_at s i) (\<lambda>c. Inr (if c = CHR ''='' then i + 1 else i, lows, lengths)))"

section \<open>The state of the parser\<close>

text \<open>
  The local variables of \<^verbatim>\<open>fromString\<close>. \<open>pelements\<close> are the texts of the elements, \<open>plengths\<close>
  the lengths of the dimensions given by a header.
\<close>

record parse_state =
  pdimensions :: nat
  pposition :: nat
  plastDimension :: nat
  pwidthIndex :: nat
  pwidthOffset :: nat
  pelements :: "bytes list"
  pstringLengths :: "nat list"
  pwidthMap :: "nat list"
  pwidths :: "nat list"
  pnulls :: "bool list"
  pindices :: "int list"

definition out_of_bounds :: exn where
  "out_of_bounds = RuntimeError ''Array-Cast: Invalid structure, array object is out of bounds''"

text \<open>The check against a header, if there is one.\<close>

definition check_length :: "int list \<Rightarrow> nat \<Rightarrow> nat \<Rightarrow> unit res" where
  "check_length lengths position width =
     (if lengths = [] then Inr ()
      else ebind (vec_at lengths (u32_sub position 1)) (\<lambda>len.
        if int width > len then Inl out_of_bounds else Inr ()))"

definition open_brace :: "int list \<Rightarrow> parse_state \<Rightarrow> parse_state res" where
  "open_brace lengths p =
     (let position = pposition p in
     if plastDimension p \<noteq> 0 \<and> plastDimension p < u32 (position + 1)
     then Inl (RuntimeError ''Array-Cast: Invalid structure, elements are not in lowest dimension'')
     else
       ebind (if pwidths p \<noteq> [] then
                ebind (vec_at (pwidths p) (pwidthIndex p)) (\<lambda>x.
                ebind (check_length lengths position (u32 (x + 1))) (\<lambda>_.
                Inr ((pwidths p)[pwidthIndex p := u32 (x + 1)])))
              else Inr []) (\<lambda>widths.
       let insertPosition = sum_list (take (position + 1) (pwidthMap p)); position = u32 (position + 1) in
       ebind (vec_insert widths insertPosition 0) (\<lambda>widths.
       ebind (if position > length (pwidthMap p) then Inr (pwidthMap p @ [1])
              else ebind (vec_at (pwidthMap p) (u32_sub position 1)) (\<lambda>x.
                Inr ((pwidthMap p)[u32_sub position 1 := u32 (x + 1)]))) (\<lambda>widthMap.
       Inr (p\<lparr>pposition := position, pwidths := widths, pwidthIndex := insertPosition,
         pwidthMap := widthMap,
         pindices := (if position > length (pindices p) then pindices p @ [1] else pindices p),
         pdimensions := max (pdimensions p) position, pwidthOffset := length (pnulls p)\<rparr>)))))"

definition close_brace :: "int list \<Rightarrow> parse_state \<Rightarrow> parse_state res" where
  "close_brace lengths p =
     ebind (if plastDimension p = pposition p then
              ebind (vec_put (pwidths p) (pwidthIndex p) (u32 (length (pnulls p) - pwidthOffset p))) (\<lambda>widths.
              ebind (check_length lengths (pposition p) (u32 (length (pnulls p) - pwidthOffset p))) (\<lambda>_.
              Inr widths))
            else Inr (pwidths p)) (\<lambda>widths.
     let position = u32_sub (pposition p) 1;
         modifyPosition = sum_list (take position (pwidthMap p))
     in Inr (p\<lparr>pwidths := widths, pposition := position,
          pwidthIndex := (if modifyPosition \<noteq> 0 then modifyPosition - 1 else pwidthIndex p)\<rparr>))"

text \<open>The comma case moves over blanks behind it and looks at what follows.\<close>

definition after_comma :: "string \<Rightarrow> nat \<Rightarrow> nat res" where
  "after_comma s i =
     (let i = skip_spaces s (i + 1) - 1 in
      if i + 1 < length s \<and> (s ! (i + 1) = CHR '','' \<or> s ! (i + 1) = CHR ''}'')
      then Inl (RuntimeError ''Array-Cast: Syntax error'') else Inr i)"

definition is_null_text :: "string \<Rightarrow> nat \<Rightarrow> bool" where
  "is_null_text s i \<longleftrightarrow> i + 4 < length s \<and>
     (s ! (i + 1) = CHR ''u'' \<or> s ! (i + 1) = CHR ''U'') \<and>
     (s ! (i + 2) = CHR ''l'' \<or> s ! (i + 2) = CHR ''L'') \<and>
     (s ! (i + 3) = CHR ''l'' \<or> s ! (i + 3) = CHR ''L'')"

definition null_element :: "parse_state \<Rightarrow> parse_state res" where
  "null_element p =
     (let last = (if plastDimension p = 0 then pposition p else plastDimension p) in
      if last \<noteq> pposition p
      then Inl (RuntimeError ''Array-Cast: NULL can only be used for primitive elements'')
      else Inr (p\<lparr>plastDimension := last, pnulls := pnulls p @ [True]\<rparr>))"

text \<open>
  The end of an element that starts at \<open>i\<close>: the first quote, comma or closing brace that is
  not behind a backslash.
\<close>

definition ends_element :: "string \<Rightarrow> nat \<Rightarrow> bool" where
  "ends_element s j \<longleftrightarrow>
     (s ! j = CHR 0x22 \<or> s ! j = CHR '','' \<or> s ! j = CHR ''}'') \<and> s ! (j - 1) \<noteq> CHR 0x5C"

definition element_end :: "string \<Rightarrow> nat \<Rightarrow> nat" where
  "element_end s i = (case find (ends_element s) [i..<length s] of None \<Rightarrow> max i (length s) | Some j \<Rightarrow> j)"

text \<open>A new element at \<open>i\<close>; the second component is the position the loop goes on from.\<close>

definition new_element :: "bool \<Rightarrow> string \<Rightarrow> nat \<Rightarrow> parse_state \<Rightarrow> (parse_state \<times> nat) res" where
  "new_element isString s i p =
     (if pposition p = 0 then Inl (RuntimeError ''Array-Cast: Invalid array specification'')
      else if plastDimension p \<noteq> 0 \<and> plastDimension p \<noteq> pposition p
      then Inl (RuntimeError ''Array-Cast: Inconsistent dimensions - found elements in different dimensions'')
      else
        let start = (if s ! i = CHR 0x22 then i + 1 else i); stop = element_end s start;
            p = p\<lparr>plastDimension := pposition p,
                  pelements := pelements p @ [bytes_of (take (stop - start) (drop start s))],
                  pnulls := pnulls p @ [False]\<rparr>
        in Inr (if isString then (p\<lparr>pstringLengths := pstringLengths p @ [u32 (stop - start)]\<rparr>, stop)
                else (p, stop - 1)))"

text \<open>One character: the new state and the position of the last character used.\<close>

definition parse_char :: "bool \<Rightarrow> int list \<Rightarrow> string \<Rightarrow> nat \<Rightarrow> parse_state \<Rightarrow> (parse_state \<times> nat) res" where
  "parse_char isString lengths s i p =
     (let c = s ! i in
      if c = CHR ''{'' then ebind (open_brace lengths p) (\<lambda>p. Inr (p, i))
      else if c = CHR ''}'' then ebind (close_brace lengths p) (\<lambda>p. Inr (p, i))
      else if c = CHR '','' then ebind (after_comma s i) (\<lambda>i. Inr (p, i))
      else if c = CHR ''n'' \<or> c = CHR ''N'' then
        (if is_null_text s i then ebind (null_element p) (\<lambda>p. Inr (p, i + 3)) else Inr (p, i))
      else if c \<in> {CHR '' '', CHR 0x5C, CHR 0x09, CHR 0x0A, CHR 0x0D} then Inr (p, i)
      else new_element isString s i p)"

lemma element_end_ge: "i \<le> element_end s i"
  by (auto simp: element_end_def find_Some_iff split: option.splits)

lemma element_end_gt: "i < length s \<Longrightarrow> \<not> ends_element s i \<Longrightarrow> i < element_end s i"
proof -
  assume "i < length s" and no: "\<not> ends_element s i"
  then have "[i..<length s] = i # [Suc i..<length s]" by (simp add: upt_conv_Cons)
  with no show ?thesis by (auto simp: element_end_def find_Some_iff \<open>i < length s\<close> split: option.splits)
qed

lemma parse_char_next: "parse_char b ls s i p = Inr (q, j) \<Longrightarrow> i < length s \<Longrightarrow> i \<le> j"
proof -
  assume r: "parse_char b ls s i p = Inr (q, j)" and i: "i < length s"
  have "i < element_end s i" if "s ! i \<noteq> CHR 0x22" "s ! i \<noteq> CHR '',''" "s ! i \<noteq> CHR ''}''"
    by (rule element_end_gt[OF i]) (use that in \<open>simp add: ends_element_def\<close>)
  moreover have "i < element_end s (Suc i)" using element_end_ge[of "Suc i" s] by simp
  ultimately show ?thesis
    using r by (auto simp: parse_char_def new_element_def after_comma_def skip_spaces_def Let_def
        ebind_eq_Inr_iff split: if_splits)
qed

text \<open>
  The main loop. A string element that runs to the end of the source leaves \<^verbatim>\<open>symbol\<close> behind the
  end, and the loop condition \<^verbatim>\<open>symbol != source.end()\<close> never becomes false.
\<close>

function parse_loop :: "bool \<Rightarrow> int list \<Rightarrow> string \<Rightarrow> nat \<Rightarrow> parse_state \<Rightarrow> parse_state res" where
  "parse_loop isString lengths s i p =
     (if i = length s then Inr p
      else if i > length s then Inl Undefined
      else ebind (parse_char isString lengths s i p) (\<lambda>(p, j). parse_loop isString lengths s (j + 1) p))"
  by pat_completeness auto

termination
  by (relation "measure (\<lambda>(_, _, s, i, _). length s - i)") (auto dest: parse_char_next)

declare parse_loop.simps [simp del]

section \<open>The array\<close>

definition initial_state :: "int list \<Rightarrow> parse_state" where
  "initial_state lows = \<lparr>pdimensions = length lows, pposition = 0, plastDimension = length lows,
     pwidthIndex = 0, pwidthOffset = 0, pelements = [], pstringLengths = [], pwidthMap = [],
     pwidths = [], pnulls = [], pindices = lows\<rparr>"

definition fromString :: "string \<Rightarrow> int \<Rightarrow> bytes res" where
  "fromString source t =
     ebind (getTypeId t) (\<lambda>typeId.
     ebind (parseHeader source) (\<lambda>(start, lows, lengths).
     if start = length source then Inl (RuntimeError ''Array-Cast: Invalid array specification'')
     else
       ebind (parse_loop (t = int (type_id STRING)) lengths source start (initial_state lows)) (\<lambda>p.
       ebind (getStringSize (pdimensions p) (length (pelements p)) (length (pwidths p))
                (getNullBytes (length (pnulls p))) (sum_list (pstringLengths p)) typeId) (\<lambda>n.
       build n [
         writeToBuffer ARRAYHEADER,
         put8 typeId,
         put32 (pdimensions p),
         put32 (length (pelements p)),
         mfold (\<lambda>x. put32 (of_signed 32 x)) (pindices p),
         mfold put32 (pwidthMap p),
         mfold put32 (pwidths p),
         (if typeId = type_id STRING then mfold put32 (pstringLengths p)
          else mfold (\<lambda>element. case type_of typeId of
              Some T \<Rightarrow> castAndCopyText T element | None \<Rightarrow> castAndCopyText DOUBLE element) (pelements p)),
         copyNullsVec (pnulls p),
         (if typeId = type_id STRING then mfold writeToBuffer (pelements p) else Inr)]))))"

end
