(* ===== verification/Array_Runtime.thy ===== *)
theory Array_Runtime
  imports Array_Arith Array_Fill Array_Transpose Array_Print Array_Parse
begin

text \<open>
  The functions that compiled queries call (\<^verbatim>\<open>ArrayRuntime.cpp\<close>). A \<^verbatim>\<open>VarLen32\<close> is the bytes it
  denotes, a number the bytes of its type. The functions that exist once per element type take
  the type as their first argument.
\<close>

text \<open>\<^verbatim>\<open>std::string arrayVal = array.str(); Array arrayObj(arrayVal, type);\<close>\<close>

definition with_array :: "bytes \<Rightarrow> int \<Rightarrow> (array_obj \<Rightarrow> 'a res) \<Rightarrow> 'a res" where
  "with_array array t f = ebind (mkArray array t) f"

definition with_arrays ::
  "bytes \<Rightarrow> bytes \<Rightarrow> int \<Rightarrow> int \<Rightarrow> (array_obj \<Rightarrow> array_obj \<Rightarrow> 'a res) \<Rightarrow> 'a res" where
  "with_arrays left right leftType rightType f =
     ebind (mkArray left leftType) (\<lambda>a. ebind (mkArray right rightType) (f a))"

section \<open>Construction and appending\<close>

definition runtime_fromString :: "bytes \<Rightarrow> int \<Rightarrow> bytes res" where
  "runtime_fromString s t = fromString (string_of s) t"

definition runtime_getEmtpyArray :: "int \<Rightarrow> bytes res" where
  "runtime_getEmtpyArray t = createEmptyArray t"

definition runtime_appendArray :: "bytes \<Rightarrow> bytes \<Rightarrow> int \<Rightarrow> int \<Rightarrow> bytes res" where
  "runtime_appendArray left right leftType rightType = with_arrays left right leftType rightType appendArray"

definition runtime_append :: "ArrayType \<Rightarrow> bytes \<Rightarrow> int \<Rightarrow> bytes \<Rightarrow> bool \<Rightarrow> bytes res" where
  "runtime_append T array t value isFront =
     with_array array t (\<lambda>a. if isFront then appendFrontValue T a value else appendValue T a value)"

definition runtime_appendNull :: "bytes \<Rightarrow> int \<Rightarrow> bytes res" where
  "runtime_appendNull array t = with_array array t appendNull"

section \<open>Parts of an array\<close>

text \<open>The dimension is an \<^verbatim>\<open>int32_t\<close> here and a \<^verbatim>\<open>uint32_t\<close> in the callee, as is the position.\<close>

definition runtime_slice :: "bytes \<Rightarrow> int \<Rightarrow> int \<Rightarrow> int \<Rightarrow> int \<Rightarrow> bytes res" where
  "runtime_slice array t lowerBound upperBound dimension =
     with_array array t (\<lambda>a. slice a lowerBound upperBound (of_signed 32 dimension))"

definition runtime_subscript :: "bytes \<Rightarrow> int \<Rightarrow> int \<Rightarrow> bytes res" where
  "runtime_subscript array t position =
     ebind (load array 0 (length ARRAYHEADER)) (\<lambda>header.
     if header \<noteq> ARRAYHEADER then Inr []
     else with_array array t (\<lambda>a. subscript a (of_signed 32 position)))"

section \<open>Arithmetic\<close>

definition runtime_add :: "bytes \<Rightarrow> bytes \<Rightarrow> int \<Rightarrow> int \<Rightarrow> bytes res" where
  "runtime_add left right leftType rightType = with_arrays left right leftType rightType array_add"

definition runtime_sub :: "bytes \<Rightarrow> bytes \<Rightarrow> int \<Rightarrow> int \<Rightarrow> bytes res" where
  "runtime_sub left right leftType rightType = with_arrays left right leftType rightType array_sub"

definition runtime_mul :: "bytes \<Rightarrow> bytes \<Rightarrow> int \<Rightarrow> int \<Rightarrow> bytes res" where
  "runtime_mul left right leftType rightType = with_arrays left right leftType rightType array_mul"

definition runtime_div :: "bytes \<Rightarrow> bytes \<Rightarrow> int \<Rightarrow> int \<Rightarrow> bytes res" where
  "runtime_div left right leftType rightType = with_arrays left right leftType rightType array_div"

definition runtime_scalarAdd :: "ArrayType \<Rightarrow> bytes \<Rightarrow> int \<Rightarrow> bytes \<Rightarrow> bytes res" where
  "runtime_scalarAdd T array t value = with_array array t (\<lambda>a. scalarAdd T a value)"

definition runtime_scalarSub :: "ArrayType \<Rightarrow> bytes \<Rightarrow> int \<Rightarrow> bytes \<Rightarrow> bool \<Rightarrow> bytes res" where
  "runtime_scalarSub T array t value isLeft = with_array array t (\<lambda>a. scalarSub T a value isLeft)"

definition runtime_scalarMul :: "ArrayType \<Rightarrow> bytes \<Rightarrow> int \<Rightarrow> bytes \<Rightarrow> bytes res" where
  "runtime_scalarMul T array t value = with_array array t (\<lambda>a. scalarMul T a value)"

definition runtime_scalarDiv :: "ArrayType \<Rightarrow> bytes \<Rightarrow> int \<Rightarrow> bytes \<Rightarrow> bool \<Rightarrow> bytes res" where
  "runtime_scalarDiv T array t value isLeft = with_array array t (\<lambda>a. scalarDiv T a value isLeft)"

definition runtime_matrixMul :: "gemm \<Rightarrow> bytes \<Rightarrow> bytes \<Rightarrow> int \<Rightarrow> int \<Rightarrow> bytes res" where
  "runtime_matrixMul gemm left right leftType rightType =
     with_arrays left right leftType rightType (matrixMul gemm)"

definition runtime_transpose :: "bytes \<Rightarrow> int \<Rightarrow> bytes res" where
  "runtime_transpose array t = with_array array t transpose_array"

definition runtime_sigmoid :: "cexp \<Rightarrow> bytes \<Rightarrow> int \<Rightarrow> bytes res" where
  "runtime_sigmoid cexp array t = with_array array t (sigmoid cexp)"

section \<open>Fill\<close>

definition runtime_fill :: "ArrayType \<Rightarrow> bytes \<Rightarrow> bytes \<Rightarrow> int \<Rightarrow> bytes res" where
  "runtime_fill T value array t = with_array array t (fill T value)"

definition runtime_fillNull :: "bytes \<Rightarrow> int \<Rightarrow> bytes res" where
  "runtime_fillNull array t = with_array array t fillNulls"

section \<open>Aggregation\<close>

text \<open>The combine step of the sum of arrays; a missing or empty side gives the other one.\<close>

definition runtime_sum :: "bytes \<Rightarrow> bytes \<Rightarrow> int \<Rightarrow> int \<Rightarrow> bytes res" where
  "runtime_sum left right leftType rightType =
     (if left = [] then Inr right
      else if right = [] then Inr left
      else
        with_arrays left right leftType rightType (\<lambda>a b.
        ebind (isEmpty a) (\<lambda>e. if e then Inr right else
        ebind (isEmpty b) (\<lambda>e. if e then Inr left else array_add a b))))"

text \<open>The combine step of the array aggregate: the right array becomes one more entry of the left one.\<close>

definition runtime_agg :: "bytes \<Rightarrow> bytes \<Rightarrow> int \<Rightarrow> int \<Rightarrow> bytes res" where
  "runtime_agg left right leftType rightType =
     with_arrays left right leftType rightType (\<lambda>a b.
     if dimensions b > dimensions a
     then Inl (RuntimeError ''Array-agg: Aggregation not possible, due to inconsistent dimension structures'')
     else if dimensions a = dimensions b then
       ebind (isEmpty a) (\<lambda>e.
       if e then
         ebind (appendArray a b) (\<lambda>left.
         ebind (mkArrayUntyped left) increment)
       else
         ebind (increment a) (\<lambda>left.
         with_array left leftType (\<lambda>a. appendArray a b)))
     else appendArray a b)"

definition runtime_increment :: "bytes \<Rightarrow> int \<Rightarrow> bytes res" where
  "runtime_increment array t = with_array array t increment"

section \<open>Conversion and comparison\<close>

definition runtime_getHighestPosition :: "bytes \<Rightarrow> int \<Rightarrow> int res" where
  "runtime_getHighestPosition array t = with_array array t getHighestPosition"

definition runtime_cast :: "bytes \<Rightarrow> int \<Rightarrow> int \<Rightarrow> bytes res" where
  "runtime_cast array srcType dstType = with_array array srcType (\<lambda>a. array_cast a dstType)"

text \<open>\<^verbatim>\<open>toInt32\<close>, \<^verbatim>\<open>toInt64\<close>, \<^verbatim>\<open>toBFloat\<close>, \<^verbatim>\<open>toFloat\<close>, \<^verbatim>\<open>toDouble\<close>: the bytes of the number.\<close>

definition runtime_to :: "ArrayType \<Rightarrow> bytes \<Rightarrow> bytes res" where
  "runtime_to T array = (case elem_parse T (string_of array) of
      Inl InvalidArgument \<Rightarrow> Inl (RuntimeError (string_of array @ '' is not of type '' @ parsed_name T))
    | Inl OutOfRange \<Rightarrow> Inl (RuntimeError (string_of array @ '' is out of range of '' @ range_name T))
    | r \<Rightarrow> r)"

definition runtime_toString :: "bytes \<Rightarrow> bytes res" where
  "runtime_toString array =
     ebind (load array 0 (length ARRAYHEADER)) (\<lambda>header.
     if header = ARRAYHEADER then Inl (RuntimeError ''Array cannot be casted to a string'')
     else Inr array)"

definition runtime_isNull :: "bytes \<Rightarrow> bool" where
  "runtime_isNull array \<longleftrightarrow> array = []"

definition runtime_equal :: "bytes \<Rightarrow> bytes \<Rightarrow> bool" where
  "runtime_equal left right \<longleftrightarrow> left = right"

end
