(* ===== verification/Comparators.thy ===== *)
theory Comparators
  imports Prelude "HOL-Library.Multiset"
begin

text \<open>
  The comparison functions that compiled queries hand to the runtime
  (\<^verbatim>\<open>bool (*cmpFn)(uint8_t*, uint8_t*)\<close>): what a sort or a top-k operator relies on, and
  what "the k smallest entries" of a multiset are.
\<close>

section \<open>Strict weak orders\<close>

locale strict_weak_order =
  fixes lt :: "'a \<Rightarrow> 'a \<Rightarrow> bool"
  assumes lt_asym: "lt x y \<Longrightarrow> \<not> lt y x"
    and lt_neg_trans: "\<not> lt x y \<Longrightarrow> \<not> lt y z \<Longrightarrow> \<not> lt x z"
begin

lemma lt_irrefl [simp]: "\<not> lt x x"
  using lt_asym by blast

lemma lt_trans: "lt x y \<Longrightarrow> lt y z \<Longrightarrow> lt x z"
  using lt_asym lt_neg_trans by blast

lemma lt_ge_trans: "lt x y \<Longrightarrow> \<not> lt z y \<Longrightarrow> lt x z"
  using lt_neg_trans by blast

end

definition ascending :: "('a \<Rightarrow> 'a \<Rightarrow> bool) \<Rightarrow> 'a list \<Rightarrow> bool" where
  "ascending lt = sorted_wrt (\<lambda>x y. \<not> lt y x)"

lemma ascending_simps [simp]:
  "ascending lt []"
  "ascending lt (x # xs) \<longleftrightarrow> (\<forall>y \<in> set xs. \<not> lt y x) \<and> ascending lt xs"
  by (simp_all add: ascending_def)

lemma ascending_append:
  "ascending lt (xs @ ys) \<longleftrightarrow> ascending lt xs \<and> ascending lt ys \<and> (\<forall>x \<in> set xs. \<forall>y \<in> set ys. \<not> lt y x)"
  by (simp add: ascending_def sorted_wrt_append)

section \<open>The k smallest elements of a multiset\<close>

definition smallest :: "('a \<Rightarrow> 'a \<Rightarrow> bool) \<Rightarrow> nat \<Rightarrow> 'a multiset \<Rightarrow> 'a multiset \<Rightarrow> bool" where
  "smallest lt k A B \<longleftrightarrow>
    B \<subseteq># A \<and> size B = min k (size A) \<and> (\<forall>x \<in># A - B. \<forall>y \<in># B. \<not> lt x y)"

lemma smallest_iff:
  "smallest lt k A B \<longleftrightarrow>
    (\<exists>C. A = B + C \<and> size B = min k (size A) \<and> (\<forall>x \<in># C. \<forall>y \<in># B. \<not> lt x y))"
proof
  assume A: "smallest lt k A B"
  then have "B \<subseteq># A" unfolding smallest_def by (rule conjunct1)
  then obtain C where C: "A = B + C" by (auto simp: mset_subset_eq_exists_conv)
  then have "A - B = C" by simp
  with C show "\<exists>C. A = B + C \<and> size B = min k (size A) \<and> (\<forall>x \<in># C. \<forall>y \<in># B. \<not> lt x y)"
    using A[unfolded smallest_def] by (intro exI[of _ C]) metis
next
  assume "\<exists>C. A = B + C \<and> size B = min k (size A) \<and> (\<forall>x \<in># C. \<forall>y \<in># B. \<not> lt x y)"
  then obtain C where C: "A = B + C" "size B = min k (size A)" "\<forall>x \<in># C. \<forall>y \<in># B. \<not> lt x y" by blast
  have "A - B = C" "B \<subseteq># A" by (simp_all only: C(1) add_diff_cancel_left' mset_subset_eq_add_left)
  then show "smallest lt k A B" unfolding smallest_def using C(2,3) by blast
qed

lemma smallestE:
  assumes "smallest lt k A B"
  obtains C where "A = B + C" "size B = min k (size A)" "\<And>x y. x \<in># C \<Longrightarrow> y \<in># B \<Longrightarrow> \<not> lt x y"
  using assms unfolding smallest_iff by blast

lemma smallestI:
  "A = B + C \<Longrightarrow> size B = min k (size A) \<Longrightarrow> (\<And>x y. x \<in># C \<Longrightarrow> y \<in># B \<Longrightarrow> \<not> lt x y) \<Longrightarrow> smallest lt k A B"
  unfolding smallest_iff by blast

lemma smallest_all: "size A \<le> k \<Longrightarrow> smallest lt k A A"
  by (rule smallestI[where C = "{#}"]) simp_all

lemma smallest_less_all:
  assumes "smallest lt k A B" and "size B < k"
  shows "A = B"
proof -
  obtain C where C: "A = B + C" "size B = min k (size A)" using assms by (fast elim: smallestE)
  then have "size C = 0" using assms(2) by (simp split: if_splits add: min_def)
  then show ?thesis using C by simp
qed

lemma smallest_size: "smallest lt k A B \<Longrightarrow> size B = min k (size A)"
  by (simp add: smallest_def)

lemma smallest_grow:
  assumes "smallest lt k A B" and "size B < k"
  shows "smallest lt k (add_mset x A) (add_mset x B)"
  using smallest_less_all[OF assms] assms by (auto intro: smallest_all)

context strict_weak_order
begin

text \<open>An element that is not below the greatest kept one can be dropped.\<close>

lemma smallest_drop:
  assumes "smallest lt k A B" and "size B = k" and "\<forall>y \<in># B. \<not> lt m y" and "\<not> lt x m"
  shows "smallest lt k (add_mset x A) B"
proof -
  obtain C where C: "A = B + C" "\<And>z y. z \<in># C \<Longrightarrow> y \<in># B \<Longrightarrow> \<not> lt z y"
    using assms(1) by (fast elim: smallestE)
  have "\<not> lt x y" if "y \<in># B" for y using that assms(3,4) lt_neg_trans by blast
  then show ?thesis
    using C assms(2) by (intro smallestI[where C = "add_mset x C"]) auto
qed

text \<open>An element below the greatest kept one takes its place.\<close>

lemma smallest_replace:
  assumes "smallest lt k A (add_mset m B)" and "size B + 1 = k" and "\<forall>y \<in># B. \<not> lt m y" and "lt x m"
  shows "smallest lt k (add_mset x A) (add_mset x B)"
proof -
  obtain C where C: "A = add_mset m B + C" "\<And>z y. z \<in># C \<Longrightarrow> y \<in># add_mset m B \<Longrightarrow> \<not> lt z y"
    using assms(1) by (fast elim: smallestE)
  have m: "\<not> lt m y" if "y \<in># add_mset x B" for y
    using that assms(3,4) lt_asym by auto
  have "\<not> lt z y" if "z \<in># C" "y \<in># add_mset x B" for z y
    using m[OF that(2)] C(2)[OF that(1), of m] lt_neg_trans by auto
  then show ?thesis
    using C(1) m assms(2) by (intro smallestI[where C = "add_mset m C"]) auto
qed

text \<open>The smallest elements of a union are found among the smallest of its parts.\<close>

lemma smallest_part:
  assumes X: "smallest lt k X s" and C: "smallest lt k (s + t) c" and x: "x \<in># X - s" and y: "y \<in># c"
  shows "\<not> lt x y"
proof
  assume lt: "lt x y"
  have above: "\<not> lt x z" if "z \<in># s" for z
    using X x that by (simp add: smallest_def)
  have below: "lt z y" if "z \<in># s" for z
    using above[OF that] lt lt_neg_trans by blast
  have "\<not> size s < k" using smallest_less_all[OF X] x by auto
  then have full: "size s = k" using smallest_size[OF X] by simp
  obtain D where D: "s + t = c + D" "\<And>z y. z \<in># D \<Longrightarrow> y \<in># c \<Longrightarrow> \<not> lt z y"
    using C by (fast elim: smallestE)
  have "count s z \<le> count c z" for z
  proof (cases "z \<in># s")
    case True
    then have "z \<notin># D" using below D(2) y by blast
    then have "count c z = count (s + t) z" by (simp add: D(1) not_in_iff)
    then show ?thesis by simp
  next
    case False
    then show ?thesis by (simp add: not_in_iff)
  qed
  then have "s \<subseteq># c" by (simp add: subseteq_mset_def)
  moreover have "size c \<le> size s" using smallest_size[OF C] full by simp
  ultimately have "s = c" by (metis leD mset_subset_size subset_mset.less_le)
  then show False using above y lt by blast
qed

lemma smallest_union:
  assumes X: "smallest lt k X s" and C: "smallest lt k (s + t) c"
  shows "smallest lt k (X + t) c"
proof -
  obtain D where D: "X = s + D" using X by (fast elim: smallestE)
  obtain C' where C': "s + t = c + C'" "\<And>x y. x \<in># C' \<Longrightarrow> y \<in># c \<Longrightarrow> \<not> lt x y"
    using C by (fast elim: smallestE)
  show ?thesis
  proof (rule smallestI[where C = "D + C'"])
    show "X + t = c + (D + C')" using D C'(1) by (metis add.assoc add.commute)
    show "size c = min k (size (X + t))"
      using smallest_size[OF X] smallest_size[OF C] D by (auto simp: min_def split: if_splits)
    fix x y assume "x \<in># D + C'" and y: "y \<in># c"
    then consider "x \<in># D" | "x \<in># C'" by auto
    then show "\<not> lt x y"
      using smallest_part[OF X C _ y, of x] C'(2)[OF _ y] D by cases simp_all
  qed
qed

end

end
