(* ===== verification/String_Runtime.thy ===== *)
theory String_Runtime
  imports Comparators Byte_Buffer "HOL-Library.Monad_Syntax"
begin

text \<open>
  The string functions of compiled queries (\<^verbatim>\<open>src/lib/runtime/StringRuntime.cpp\<close>) and the code
  that is generated for \<^verbatim>\<open>LIKE\<close> with a constant pattern
  (\<^verbatim>\<open>src/lib/DB/RuntimeFunctions/RuntimeFunctions.cpp\<close>). A \<^verbatim>\<open>VarLen32\<close> is the list of the bytes it
  denotes.
\<close>

section \<open>Comparison\<close>

text \<open>\<^verbatim>\<open>std::string_view\<close> compares bytes as unsigned numbers, then lengths.\<close>

fun compareLt :: "bytes \<Rightarrow> bytes \<Rightarrow> bool" where
  "compareLt xs [] = False"
| "compareLt [] (y # ys) = True"
| "compareLt (x # xs) (y # ys) = (x < y \<or> x = y \<and> compareLt xs ys)"

definition compareGt :: "bytes \<Rightarrow> bytes \<Rightarrow> bool" where
  "compareGt a b = compareLt b a"

definition compareLte :: "bytes \<Rightarrow> bytes \<Rightarrow> bool" where
  "compareLte a b = (\<not> compareLt b a)"

definition compareGte :: "bytes \<Rightarrow> bytes \<Rightarrow> bool" where
  "compareGte a b = (\<not> compareLt a b)"

definition compareEq :: "bytes \<Rightarrow> bytes \<Rightarrow> bool" where
  "compareEq a b = (if length a \<noteq> length b then False else a = b)"

definition compareNEq :: "bytes \<Rightarrow> bytes \<Rightarrow> bool" where
  "compareNEq a b = (if length a \<noteq> length b then True else a \<noteq> b)"

lemma compareLt_asym: "compareLt x y \<Longrightarrow> \<not> compareLt y x"
  by (induction x y rule: compareLt.induct) auto

lemma compareLt_neg_trans: "\<not> compareLt x y \<Longrightarrow> \<not> compareLt y z \<Longrightarrow> \<not> compareLt x z"
proof (induction x y arbitrary: z rule: compareLt.induct)
  case (1 xs)
  then show ?case by (cases z) auto
next
  case (3 x xs y ys)
  then show ?case by (cases z) auto
qed simp

text \<open>Strings are ordered totally: the order of the queries' \<^verbatim>\<open>ORDER BY\<close>.\<close>

interpretation string_order: strict_weak_order compareLt
  by unfold_locales (rule compareLt_asym, assumption, rule compareLt_neg_trans)

lemma compareLt_total: "compareLt x y \<or> x = y \<or> compareLt y x"
proof (induction x y rule: compareLt.induct)
  case (1 xs)
  then show ?case by (cases xs) auto
qed auto

section \<open>Parts of strings\<close>

definition startsWith :: "bytes \<Rightarrow> bytes \<Rightarrow> bool" where
  "startsWith s p = (if length s < length p then False else take (length p) s = p)"

definition endsWith :: "bytes \<Rightarrow> bytes \<Rightarrow> bool" where
  "endsWith s p = (if length s < length p then False else drop (length s - length p) s = p)"

text \<open>\<^verbatim>\<open>size_t\<close> arithmetic.\<close>

definition u64 :: "nat \<Rightarrow> nat" where
  "u64 n = n mod 18446744073709551616"

definition str_len :: "bytes \<Rightarrow> nat" where
  "str_len s = length s"

text \<open>\<^verbatim>\<open>from -= 1\<close> wraps at zero.\<close>

definition substr :: "bytes \<Rightarrow> nat \<Rightarrow> nat \<Rightarrow> bytes res" where
  "substr s from_pos to_pos =
    (let f = u64 (from_pos + 18446744073709551615);
         t = min (length s) to_pos
     in if f > t \<or> length s < t then Inl (RuntimeError ''can not perform substring operation'')
        else Inr (take (t - f) (drop f s)))"

text \<open>\<^verbatim>\<open>std::string_view::find\<close>: the first occurrence at or after \<open>start\<close>.\<close>

fun find_from :: "bytes \<Rightarrow> bytes \<Rightarrow> nat \<Rightarrow> nat option" where
  "find_from [] needle pos = (if needle = [] then Some pos else None)"
| "find_from (x # xs) needle pos =
    (if startsWith (x # xs) needle then Some pos else find_from xs needle (pos + 1))"

definition str_find :: "bytes \<Rightarrow> bytes \<Rightarrow> nat \<Rightarrow> nat option" where
  "str_find s needle start = (if start > length s then None else find_from (drop start s) needle start)"

definition invalidPos :: nat where
  "invalidPos = 9223372036854775808"

definition findMatch :: "bytes \<Rightarrow> bytes \<Rightarrow> nat \<Rightarrow> nat \<Rightarrow> nat" where
  "findMatch s needle start end_pos =
    (if start \<ge> invalidPos then invalidPos
     else if u64 (start + length needle) > end_pos then invalidPos
     else case str_find s needle start of
       None \<Rightarrow> invalidPos
     | Some found \<Rightarrow> if u64 (found + length needle) > end_pos then invalidPos else u64 (found + length needle))"

definition findNext :: "bytes \<Rightarrow> bytes \<Rightarrow> nat \<Rightarrow> nat" where
  "findNext s needle start =
    (if start \<ge> invalidPos then invalidPos
     else case str_find s needle start of None \<Rightarrow> invalidPos | Some found \<Rightarrow> found)"

text \<open>\<^verbatim>\<open>std::toupper\<close> in the C locale.\<close>

definition upper :: "byte \<Rightarrow> byte" where
  "upper c = (if 97 \<le> c \<and> c \<le> 122 then c - 32 else c)"

definition toUpper :: "bytes \<Rightarrow> bytes" where
  "toUpper s = map upper s"

definition str_concat :: "bytes \<Rightarrow> bytes \<Rightarrow> bytes" where
  "str_concat a b = a @ b"

text \<open>The first \<open>n\<close> bytes of a 64-bit value; more than eight are read past it.\<close>

definition fromChar :: "nat \<Rightarrow> nat \<Rightarrow> bytes res" where
  "fromChar val n = (if n \<le> 8 then Inr (take n (le_bytes 8 val)) else Inl Undefined)"

text \<open>
  The casts to numbers trim blanks and hand the rest to Arrow's \<^verbatim>\<open>ParseValue\<close>, a parameter
  here; a text it does not accept leaves the value 0.
\<close>

fun skip_blanks :: "bytes \<Rightarrow> bytes" where
  "skip_blanks [] = []"
| "skip_blanks (c # s) = (if c = 32 then skip_blanks s else c # s)"

definition trim :: "bytes \<Rightarrow> bytes" where
  "trim s = rev (skip_blanks (rev (skip_blanks s)))"

definition to_numeric :: "(bytes \<Rightarrow> 'v option) \<Rightarrow> 'v \<Rightarrow> bytes \<Rightarrow> 'v" where
  "to_numeric parseValue zero s = (case parseValue (trim s) of Some v \<Rightarrow> v | None \<Rightarrow> zero)"

text \<open>
  Arrow's parser of dates is a parameter; \<open>garbage\<close> is what the uninitialised result holds when
  it rejects the text. The product overflows for dates after the year 2262.
\<close>

definition toDate :: "(bytes \<Rightarrow> int option) \<Rightarrow> int \<Rightarrow> bytes \<Rightarrow> int res" where
  "toDate parseDate garbage s =
    (let res = (case parseDate s of Some d \<Rightarrow> d | None \<Rightarrow> garbage);
         date64 = res * 24 * 60 * 60 * 1000000000
     in if in_signed 64 date64 then Inr date64 else Inl Undefined)"

section \<open>LIKE\<close>

abbreviation percent :: byte where "percent \<equiv> 37"
abbreviation underscore :: byte where "underscore \<equiv> 95"
abbreviation backslash :: byte where "backslash \<equiv> 92"
abbreviation dot :: byte where "dot \<equiv> 46"

text \<open>The inner loop over a run of wildcards: \<open>None\<close> is its \<^verbatim>\<open>return false\<close>.\<close>

fun skip_wildcards :: "bytes \<Rightarrow> bytes \<Rightarrow> (bytes \<times> bytes) option" where
  "skip_wildcards s [] = Some (s, [])"
| "skip_wildcards s (c # p) =
    (if c = percent then skip_wildcards s p
     else if c = underscore then (case s of [] \<Rightarrow> None | _ # s' \<Rightarrow> skip_wildcards s' p)
     else Some (s, c # p))"

lemma skip_wildcards_length:
  "skip_wildcards s p = Some (s1, p1) \<Longrightarrow> length s1 \<le> length s \<and> length p1 \<le> length p"
proof (induction s p rule: skip_wildcards.induct)
  case (2 s c p)
  then show ?case by (fastforce split: if_splits list.splits)
qed simp

text \<open>
  \<^verbatim>\<open>iterativeLike\<close> with its state, the rest of the string and of the pattern; \<open>like_any\<close> is the
  loop \<^verbatim>\<open>while (slen > 0)\<close> that tries every suffix of the string.
\<close>

function iterativeLike :: "byte \<Rightarrow> bytes \<Rightarrow> bytes \<Rightarrow> bool"
  and like_any :: "byte \<Rightarrow> bytes \<Rightarrow> bytes \<Rightarrow> bool" where
  "iterativeLike escape s p =
    (case (s, p) of
       (x # s', c # p') \<Rightarrow>
         if c = escape then
           (case p' of [] \<Rightarrow> False | d # p'' \<Rightarrow> if d \<noteq> x then False else iterativeLike escape s' p'')
         else if c = percent then
           (case skip_wildcards s p' of
              None \<Rightarrow> False
            | Some (s1, []) \<Rightarrow> True
            | Some (s1, d # p1) \<Rightarrow>
                if d = escape then (case p1 of [] \<Rightarrow> False | _ # _ \<Rightarrow> like_any escape s1 p1)
                else like_any escape s1 (d # p1))
         else if c = underscore then iterativeLike escape s' p'
         else if c = x then iterativeLike escape s' p'
         else False
     | _ \<Rightarrow> s = [] \<and> dropWhile (\<lambda>c. c = percent) p = [])"
| "like_any escape s p =
    (case s of [] \<Rightarrow> False | x # s' \<Rightarrow> if iterativeLike escape s p then True else like_any escape s' p)"
  by pat_completeness auto
termination
  by (relation "measures [\<lambda>c. case c of Inl (e, s, p) \<Rightarrow> length p | Inr (e, s, p) \<Rightarrow> length p,
      \<lambda>c. case c of Inl (e, s, p) \<Rightarrow> length s | Inr (e, s, p) \<Rightarrow> length s,
      \<lambda>c. case c of Inl _ \<Rightarrow> 0 | Inr _ \<Rightarrow> 1]")
    (auto dest: skip_wildcards_length)

definition like :: "bytes \<Rightarrow> bytes \<Rightarrow> bool" where
  "like s p = iterativeLike backslash s p"


section \<open>LIKE with a constant pattern\<close>

text \<open>
  \<^verbatim>\<open>constLikeImpl\<close> runs over the pattern while the query is compiled and emits operations on
  the string; here the operations are evaluated on the spot. \<open>None\<close> as the last match end is the
  null \<^verbatim>\<open>mlir::Value\<close> of the start.
\<close>

definition matchPart :: "nat option \<Rightarrow> bytes \<Rightarrow> bytes \<Rightarrow> nat \<Rightarrow> nat" where
  "matchPart lastMatchEnd pattern s end_pos =
    (if pattern = [] then (case lastMatchEnd of None \<Rightarrow> 0 | Some l \<Rightarrow> l)
     else case lastMatchEnd of
       Some l \<Rightarrow> findMatch s pattern l end_pos
     | None \<Rightarrow> if startsWith s pattern then length pattern else invalidPos)"

record like_state =
  currentSubPattern :: bytes
  lastMatchEnd :: "nat option"
  flexible :: bool

text \<open>The loop over the pattern; \<open>None\<close> is a pattern that ends with the escape character.\<close>

fun like_scan :: "bytes \<Rightarrow> nat \<Rightarrow> like_state \<Rightarrow> bytes \<Rightarrow> like_state option" where
  "like_scan s end_pos st [] = Some st"
| "like_scan s end_pos st (c # p) =
    (if c = backslash then
       (case p of [] \<Rightarrow> None
        | d # p' \<Rightarrow> like_scan s end_pos (st\<lparr>currentSubPattern := currentSubPattern st @ [d]\<rparr>) p')
     else if c = dot then
       like_scan s end_pos (st\<lparr>currentSubPattern := [],
         lastMatchEnd := Some (u64 (matchPart (lastMatchEnd st) (currentSubPattern st) s end_pos + 1))\<rparr>) p
     else if c = percent then
       like_scan s end_pos (st\<lparr>flexible := True, currentSubPattern := [],
         lastMatchEnd := Some (matchPart (lastMatchEnd st) (currentSubPattern st) s end_pos)\<rparr>) p
     else like_scan s end_pos (st\<lparr>currentSubPattern := currentSubPattern st @ [c]\<rparr>) p)"

text \<open>The comparison emitted last; with nothing matched yet its operand is the null value.\<close>

definition like_finish :: "bytes \<Rightarrow> nat \<Rightarrow> like_state \<Rightarrow> bool option" where
  "like_finish s end_pos st =
    (let sub = currentSubPattern st;
         at_end = (\<lambda>l. if flexible st then l \<le> end_pos else l = end_pos)
     in if sub \<noteq> [] then
          (case lastMatchEnd st of
             Some l \<Rightarrow> Some (at_end (u64 (l + length sub)) \<and> endsWith s sub)
           | None \<Rightarrow> Some (endsWith s sub))
        else map_option at_end (lastMatchEnd st))"

definition constLikeImpl :: "bytes \<Rightarrow> bytes \<Rightarrow> bool option" where
  "constLikeImpl s pattern = do {
    st \<leftarrow> like_scan s (length s) \<lparr>currentSubPattern = [], lastMatchEnd = None, flexible = False\<rparr> pattern;
    like_finish s (length s) st }"

end
