(* ===== verification/Top_K_Heap.thy ===== *)
theory Top_K_Heap
  imports String_Runtime
begin

text \<open>
  The heap of the top-k operator (\<^verbatim>\<open>src/lib/runtime/Heap.cpp\<close>, \<^verbatim>\<open>Heap.h\<close>). The array
  \<^verbatim>\<open>data\<close> of \<^verbatim>\<open>typeSize * (maxElements + 1)\<close> bytes is the list of its slots of
  \<^verbatim>\<open>typeSize\<close> bytes; slot 0 is unused, the root is slot 1. \<open>None\<close> is an access outside
  the array or a call that does not return.
\<close>

section \<open>The code\<close>

type_synonym entry = "byte list"
type_synonym cmp_fn = "entry \<Rightarrow> entry \<Rightarrow> bool"

record top_heap =
  cmpFn :: cmp_fn
  typeSize :: nat
  maxElements :: nat
  currElements :: nat
  slots :: "entry list"

text \<open>The constructor; \<open>raw\<close> is what the fresh memory holds.\<close>

definition mk_heap :: "nat \<Rightarrow> nat \<Rightarrow> cmp_fn \<Rightarrow> entry list \<Rightarrow> top_heap" where
  "mk_heap maxE tSize cmp raw =
    \<lparr>cmpFn = cmp, typeSize = tSize, maxElements = maxE, currElements = 0, slots = raw\<rparr>"

definition slot :: "entry list \<Rightarrow> nat \<Rightarrow> entry option" where
  "slot d i = (if i < length d then Some (d ! i) else None)"

definition set_slot :: "entry list \<Rightarrow> nat \<Rightarrow> entry \<Rightarrow> entry list option" where
  "set_slot d i e = (if i < length d then Some (d[i := e]) else None)"

definition isLt :: "cmp_fn \<Rightarrow> entry list \<Rightarrow> nat \<Rightarrow> nat \<Rightarrow> bool option" where
  "isLt cmp d l r = do { x \<leftarrow> slot d l; y \<leftarrow> slot d r; Some (cmp x y) }"

definition swap_slots :: "entry list \<Rightarrow> nat \<Rightarrow> nat \<Rightarrow> entry list option" where
  "swap_slots d l r = do {
    x \<leftarrow> slot d l;
    y \<leftarrow> slot d r;
    d' \<leftarrow> set_slot d l y;
    set_slot d' r x }"

partial_function (option) bubbleDown :: "cmp_fn \<Rightarrow> entry list \<Rightarrow> nat \<Rightarrow> nat \<Rightarrow> entry list option" where
  "bubbleDown cmp d idx bound =
    (let leftChild = idx * 2 in
     if leftChild > bound then Some d
     else do {
       let rightChild = idx * 2 + 1;
       right \<leftarrow> (if rightChild \<le> bound then isLt cmp d leftChild rightChild else Some False);
       let maxChild = (if right then rightChild else leftChild);
       lt \<leftarrow> isLt cmp d idx maxChild;
       if lt then do { d' \<leftarrow> swap_slots d idx maxChild; bubbleDown cmp d' maxChild bound } else Some d
     })"

text \<open>\<^verbatim>\<open>for (int i = currElements; i > 0; i--)\<close>: the bound is converted to a 32-bit \<^verbatim>\<open>int\<close>.\<close>

fun build_loop :: "cmp_fn \<Rightarrow> entry list \<Rightarrow> nat \<Rightarrow> nat \<Rightarrow> entry list option" where
  "build_loop cmp d n 0 = Some d"
| "build_loop cmp d n (Suc i) = do { d' \<leftarrow> bubbleDown cmp d (Suc i) n; build_loop cmp d' n i }"

definition buildHeap :: "top_heap \<Rightarrow> top_heap option" where
  "buildHeap h = do {
    d \<leftarrow> build_loop (cmpFn h) (slots h) (currElements h) (nat (to_signed 32 (u32 (currElements h))));
    Some (h\<lparr>slots := d\<rparr>) }"

definition heap_insert :: "entry \<Rightarrow> top_heap \<Rightarrow> top_heap option" where
  "heap_insert currData h =
    (if currElements h < maxElements h then do {
       d \<leftarrow> set_slot (slots h) (currElements h + 1) currData;
       let h' = h\<lparr>slots := d, currElements := currElements h + 1\<rparr>;
       if currElements h' = maxElements h' then buildHeap h' else Some h' }
     else do {
       lastData \<leftarrow> slot (slots h) 1;
       if cmpFn h currData lastData then do {
         d \<leftarrow> set_slot (slots h) 1 currData;
         d' \<leftarrow> bubbleDown (cmpFn h) d 1 (currElements h);
         Some (h\<lparr>slots := d'\<rparr>) }
       else Some h })"

text \<open>
  The loop of \<^verbatim>\<open>getBuffer\<close> with \<open>n = currElements - i\<close>: the root goes to the end, what is in
  front of it becomes a heap again.
\<close>

fun sort_loop :: "cmp_fn \<Rightarrow> entry list \<Rightarrow> nat \<Rightarrow> entry list option" where
  "sort_loop cmp d 0 = Some d"
| "sort_loop cmp d (Suc n) = do {
    d1 \<leftarrow> swap_slots d 1 (Suc n);
    d2 \<leftarrow> bubbleDown cmp d1 1 n;
    sort_loop cmp d2 n }"

text \<open>The buffer returned: its length in bytes and the entries from slot 1 on.\<close>

definition getBuffer :: "top_heap \<Rightarrow> (top_heap \<times> nat \<times> entry list) option" where
  "getBuffer h = do {
    h1 \<leftarrow> (if currElements h < maxElements h then buildHeap h else Some h);
    d \<leftarrow> sort_loop (cmpFn h1) (slots h1) (currElements h1);
    let h2 = h1\<lparr>slots := d\<rparr>;
    Some (h2, currElements h2 * max 1 (typeSize h2), take (currElements h2) (drop 1 (slots h2))) }"

fun insert_all :: "entry list \<Rightarrow> top_heap \<Rightarrow> top_heap option" where
  "insert_all [] h = Some h"
| "insert_all (e # es) h = do { h' \<leftarrow> heap_insert e h; insert_all es h' }"

text \<open>\<^verbatim>\<open>for (size_t i = 1; i <= other->currElements; i++) insert(&other->data[i * typeSize])\<close>\<close>

definition mergeWithOther :: "top_heap \<Rightarrow> top_heap \<Rightarrow> top_heap option" where
  "mergeWithOther h other = insert_all (take (currElements other) (drop 1 (slots other))) h"

fun merge_into :: "top_heap \<Rightarrow> top_heap list \<Rightarrow> top_heap option" where
  "merge_into first [] = Some first"
| "merge_into first (h # hs) = do { first' \<leftarrow> mergeWithOther first h; merge_into first' hs }"

text \<open>The heaps of the threads, of which \<^verbatim>\<open>getTls\<close> makes sure there is one.\<close>

definition heap_merge :: "top_heap \<times> top_heap list \<Rightarrow> top_heap option" where
  "heap_merge tls = merge_into (fst tls) (snd tls)"

section \<open>The heap order\<close>

definition heap_from :: "cmp_fn \<Rightarrow> entry list \<Rightarrow> nat \<Rightarrow> nat \<Rightarrow> bool" where
  "heap_from lt d s e \<longleftrightarrow> (\<forall>j \<le> e. s \<le> j div 2 \<longrightarrow> 1 \<le> j div 2 \<longrightarrow> \<not> lt (d ! (j div 2)) (d ! j))"

definition heap_except :: "cmp_fn \<Rightarrow> entry list \<Rightarrow> nat \<Rightarrow> nat \<Rightarrow> nat \<Rightarrow> bool" where
  "heap_except lt d s i e \<longleftrightarrow>
    (\<forall>j \<le> e. s \<le> j div 2 \<longrightarrow> 1 \<le> j div 2 \<longrightarrow> j div 2 \<noteq> i \<longrightarrow> \<not> lt (d ! (j div 2)) (d ! j)) \<and>
    (\<forall>j \<le> e. j div 2 = i \<longrightarrow> s \<le> i div 2 \<longrightarrow> 1 \<le> i div 2 \<longrightarrow> \<not> lt (d ! (i div 2)) (d ! j))"

lemma slot_simps [simp]:
  "i < length d \<Longrightarrow> slot d i = Some (d ! i)"
  "i < length d \<Longrightarrow> set_slot d i e = Some (d[i := e])"
  by (simp_all add: slot_def set_slot_def)

lemma isLt_Some: "l < length d \<Longrightarrow> r < length d \<Longrightarrow> isLt cmp d l r = Some (cmp (d ! l) (d ! r))"
  by (simp add: isLt_def)

lemma swap_slots_Some: "l < length d \<Longrightarrow> r < length d \<Longrightarrow> swap_slots d l r = Some (d[l := d ! r, r := d ! l])"
  by (simp add: swap_slots_def)

lemma child_cases: "(j::nat) div 2 = i \<Longrightarrow> j = i * 2 \<or> j = i * 2 + 1"
  by linarith

definition sifted :: "nat \<Rightarrow> nat \<Rightarrow> entry list \<Rightarrow> entry list \<Rightarrow> bool" where
  "sifted i e d d' \<longleftrightarrow> length d' = length d \<and> mset d' = mset d \<and> (\<forall>j. j < i \<or> e < j \<longrightarrow> d' ! j = d ! j)"

locale entry_order = strict_weak_order lt for lt :: cmp_fn
begin

lemma heap_root_max:
  assumes "heap_from lt d 1 e" and "1 \<le> j" and "j \<le> e"
  shows "\<not> lt (d ! 1) (d ! j)"
  using assms(2,3)
proof (induction j rule: less_induct)
  case (less j)
  show ?case
  proof (cases "j = 1")
    case False
    then have "1 \<le> j div 2" "j div 2 < j" using less.prems by linarith+
    then have "\<not> lt (d ! 1) (d ! (j div 2))" using less by simp
    moreover have "\<not> lt (d ! (j div 2)) (d ! j)"
      using assms(1) less.prems \<open>1 \<le> j div 2\<close> by (simp add: heap_from_def)
    ultimately show ?thesis using lt_neg_trans by blast
  qed simp
qed

text \<open>Swapping a slot with its greatest child moves the defect down to that child.\<close>

lemma heap_except_swap:
  assumes ex: "heap_except lt d s i e" and e: "e < length d" and i: "1 \<le> i" "s \<le> i"
    and m: "m div 2 = i" "m \<le> e" and lt: "lt (d ! i) (d ! m)"
    and max: "\<And>j. j div 2 = i \<Longrightarrow> j \<le> e \<Longrightarrow> \<not> lt (d ! m) (d ! j)"
  shows "heap_except lt (d[i := d ! m, m := d ! i]) s m e"
proof -
  let ?d = "d[i := d ! m, m := d ! i]"
  have im: "i < m" using m i by linarith
  have v: "?d ! i = d ! m" "?d ! m = d ! i" "\<And>j. j \<noteq> i \<Longrightarrow> j \<noteq> m \<Longrightarrow> ?d ! j = d ! j"
    using im m(2) e by simp_all
  have one: "\<not> lt (?d ! (j div 2)) (?d ! j)"
    if j: "j \<le> e" "s \<le> j div 2" "1 \<le> j div 2" "j div 2 \<noteq> m" for j
  proof -
    have jj: "j div 2 < j" using j by linarith
    consider "j div 2 = i" "j = m" | "j div 2 = i" "j \<noteq> m" | "j = i" | "j \<noteq> i" "j div 2 \<noteq> i" by blast
    then show ?thesis
    proof cases
      case 1
      then show ?thesis using v lt lt_asym by simp
    next
      case 2
      then have "?d ! j = d ! j" using v(3)[of j] jj by simp
      then show ?thesis using v(1) 2 max[of j] j(1) by simp
    next
      case 3
      have "\<not> lt (d ! (i div 2)) (d ! m)" using ex j 3 m by (simp add: heap_except_def)
      moreover have "?d ! (i div 2) = d ! (i div 2)" using v(3)[of "i div 2"] j jj 3 by simp
      ultimately show ?thesis using 3 v(1) by simp
    next
      case 4
      then have "j \<noteq> m" using m by blast
      then have "\<not> lt (d ! (j div 2)) (d ! j)" using ex j 4 by (simp add: heap_except_def)
      then show ?thesis using v(3)[of j] v(3)[of "j div 2"] 4 j \<open>j \<noteq> m\<close> by simp
    qed
  qed
  have two: "\<not> lt (?d ! (m div 2)) (?d ! j)" if j: "j \<le> e" "j div 2 = m" for j
  proof -
    have "j \<noteq> i" "j \<noteq> m" using j im m i by linarith+
    moreover have "s \<le> j div 2" "1 \<le> j div 2" "j div 2 \<noteq> i" using im i j(2) by linarith+
    then have "\<not> lt (d ! (j div 2)) (d ! j)" using ex j(1) unfolding heap_except_def by blast
    ultimately show ?thesis using v m j(2) by simp
  qed
  show ?thesis unfolding heap_except_def using one two by blast
qed

lemma heap_except_done:
  assumes "heap_except lt d s i e" and "\<And>j. j div 2 = i \<Longrightarrow> j \<le> e \<Longrightarrow> \<not> lt (d ! i) (d ! j)"
  shows "heap_from lt d s e"
  using assms by (auto simp: heap_except_def heap_from_def)

lemma bubbleDown_heap:
  assumes "heap_except lt d s i e" and "e < length d" and "1 \<le> i" and "s \<le> i"
  shows "\<exists>d'. bubbleDown lt d i e = Some d' \<and> heap_from lt d' s e \<and> sifted i e d d'"
  using assms
proof (induction "e + 1 - i" arbitrary: d i rule: less_induct)
  case less
  note ex = less.prems(1) and e = less.prems(2) and i = less.prems(3,4)
  show ?case
  proof (cases "i * 2 > e")
    case True
    then have "heap_from lt d s e"
      by (intro heap_except_done[OF ex]) linarith
    then show ?thesis using True by (subst bubbleDown.simps) (simp add: sifted_def)
  next
    case False
    define right where "right \<longleftrightarrow> i * 2 + 1 \<le> e \<and> lt (d ! (i * 2)) (d ! (i * 2 + 1))"
    define m where "m = (if right then i * 2 + 1 else i * 2)"
    have m: "m div 2 = i" "m \<le> e" "i < m" using False i by (auto simp: m_def right_def)
    have max: "\<not> lt (d ! m) (d ! j)" if "j div 2 = i" "j \<le> e" for j
      using child_cases[OF that(1)] that(2) lt_asym by (auto simp: m_def right_def)
    have step: "bubbleDown lt d i e =
        (if lt (d ! i) (d ! m) then bubbleDown lt (d[i := d ! m, m := d ! i]) m e else Some d)"
      using False e m by (subst bubbleDown.simps) (auto simp: Let_def isLt_Some swap_slots_Some m_def right_def)
    show ?thesis
    proof (cases "lt (d ! i) (d ! m)")
      case True
      let ?d = "d[i := d ! m, m := d ! i]"
      have ex': "heap_except lt ?d s m e" by (rule heap_except_swap[OF ex e i m(1,2) True max])
      then obtain d' where d': "bubbleDown lt ?d m e = Some d'" "heap_from lt d' s e" "sifted m e ?d d'"
        using less.hyps[OF _ ex'] m i e by fastforce
      have "sifted i e d d'"
        using d'(3) m e by (auto simp: sifted_def mset_swap)
      then show ?thesis using d' step True by simp
    next
      case no: False
      have "\<not> lt (d ! i) (d ! j)" if "j div 2 = i" "j \<le> e" for j
        using no max[OF that] lt_neg_trans by blast
      then have "heap_from lt d s e" by (rule heap_except_done[OF ex])
      then show ?thesis using step no by (simp add: sifted_def)
    qed
  qed
qed


lemma build_loop_heap:
  assumes "heap_from lt d (Suc i) n" and "n < length d"
  shows "\<exists>d'. build_loop lt d n i = Some d' \<and> heap_from lt d' 1 n \<and> sifted 1 n d d'"
  using assms
proof (induction i arbitrary: d)
  case 0
  then show ?case by (simp add: sifted_def)
next
  case (Suc i)
  have "heap_except lt d (Suc i) (Suc i) n"
    unfolding heap_except_def
  proof (intro conjI allI impI)
    fix j assume "j \<le> n" "Suc i \<le> j div 2" "j div 2 \<noteq> Suc i"
    then show "\<not> lt (d ! (j div 2)) (d ! j)" using Suc.prems(1) by (simp add: heap_from_def)
  next
    fix j assume "Suc i \<le> Suc i div 2"
    then have False by linarith
    then show "\<not> lt (d ! (Suc i div 2)) (d ! j)" by simp
  qed
  then obtain d1 where d1: "bubbleDown lt d (Suc i) n = Some d1" "heap_from lt d1 (Suc i) n" "sifted (Suc i) n d d1"
    using bubbleDown_heap[of d "Suc i" "Suc i" n] Suc.prems(2) by auto
  moreover obtain d2 where d2: "build_loop lt d1 n i = Some d2" "heap_from lt d2 1 n" "sifted 1 n d1 d2"
    using Suc.IH[OF d1(2)] d1(3) Suc.prems(2) by (auto simp: sifted_def)
  moreover have "sifted 1 n d d2"
    using d1(3) d2(3) by (auto simp: sifted_def)
  ultimately show ?case by simp
qed

end

text \<open>A top-k operator that orders by a string uses \<^verbatim>\<open>StringRuntime::compareLt\<close>.\<close>

interpretation by_string: entry_order compareLt
  by unfold_locales

section \<open>Contents\<close>

definition contents :: "nat \<Rightarrow> entry list \<Rightarrow> entry list" where
  "contents n d = take n (drop 1 d)"

lemma length_contents [simp]: "n < length d \<Longrightarrow> length (contents n d) = n"
  by (simp add: contents_def)

lemma nth_contents [simp]: "n < length d \<Longrightarrow> i < n \<Longrightarrow> contents n d ! i = d ! Suc i"
  by (simp add: contents_def)

lemma contents_0 [simp]: "contents 0 d = []"
  by (simp add: contents_def)

lemma contents_Suc: "Suc n < length d \<Longrightarrow> contents (Suc n) d = contents n d @ [d ! Suc n]"
  by (simp add: contents_def take_Suc_conv_app_nth)

lemma set_contents: "n < length d \<Longrightarrow> x \<in> set (contents n d) \<Longrightarrow> \<exists>j. 1 \<le> j \<and> j \<le> n \<and> x = d ! j"
  unfolding in_set_conv_nth by (metis One_nat_def Suc_leI le_add1 length_contents nth_contents plus_1_eq_Suc)

lemma contents_cong:
  "n < length d \<Longrightarrow> length d' = length d \<Longrightarrow> (\<And>j. 1 \<le> j \<Longrightarrow> j \<le> n \<Longrightarrow> d' ! j = d ! j) \<Longrightarrow> contents n d' = contents n d"
  by (rule nth_equalityI) simp_all

lemma contents_split: "n < length d \<Longrightarrow> d = d ! 0 # contents n d @ drop (Suc n) d"
  by (cases d) (simp_all add: contents_def)

lemma contents_Cons: "0 < n \<Longrightarrow> n < length d \<Longrightarrow> contents n d = d ! 1 # drop 1 (contents n d)"
  by (rule nth_equalityI) (auto simp: nth_Cons split: nat.split)

lemma contents_root: "0 < n \<Longrightarrow> n < length d \<Longrightarrow> contents n (d[1 := x]) = x # drop 1 (contents n d)"
  by (rule nth_equalityI) (auto simp: nth_Cons split: nat.split)

section \<open>The invariant of the heap\<close>

text \<open>\<open>A\<close> are the entries inserted so far.\<close>

definition heap_ok :: "cmp_fn \<Rightarrow> nat \<Rightarrow> entry multiset \<Rightarrow> top_heap \<Rightarrow> bool" where
  "heap_ok lt k A h \<longleftrightarrow> cmpFn h = lt \<and> maxElements h = k \<and> length (slots h) = k + 1 \<and> currElements h \<le> k \<and>
    (currElements h = k \<longrightarrow> heap_from lt (slots h) 1 k) \<and>
    smallest lt k A (mset (contents (currElements h) (slots h)))"

context entry_order
begin

lemma sifted_contents:
  assumes "sifted 1 n d d'" and "n < length d"
  shows "mset (contents n d') = mset (contents n d)"
proof -
  have "drop (Suc n) d' = drop (Suc n) d"
    using assms by (intro nth_equalityI) (simp_all add: sifted_def)
  moreover have "d' ! 0 = d ! 0" using assms by (simp add: sifted_def)
  moreover have "mset (d ! 0 # contents n d @ drop (Suc n) d) = mset (d' ! 0 # contents n d' @ drop (Suc n) d')"
    using assms contents_split[of n d] contents_split[of n d'] by (simp add: sifted_def)
  ultimately show ?thesis by simp
qed

lemma sort_loop_sorts:
  assumes "heap_from lt d 1 n" and "n < length d"
  shows "\<exists>d'. sort_loop lt d n = Some d' \<and> ascending lt (contents n d') \<and> sifted 1 n d d'"
  using assms
proof (induction n arbitrary: d)
  case 0
  then show ?case by (simp add: sifted_def)
next
  case (Suc n)
  let ?d1 = "d[1 := d ! Suc n, Suc n := d ! 1]"
  have swap: "swap_slots d 1 (Suc n) = Some ?d1" using Suc.prems by (simp add: swap_slots_Some)
  have s1: "sifted 1 (Suc n) d ?d1"
    using Suc.prems(2) by (auto simp: sifted_def mset_swap)
  have "heap_except lt ?d1 1 1 n"
    using Suc.prems by (auto simp: heap_except_def heap_from_def nth_list_update)
  then obtain d2 where d2: "bubbleDown lt ?d1 1 n = Some d2" "heap_from lt d2 1 n" "sifted 1 n ?d1 d2"
    using bubbleDown_heap[of ?d1 1 1 n] Suc.prems(2) by auto
  obtain d' where d': "sort_loop lt d2 n = Some d'" "ascending lt (contents n d')" "sifted 1 n d2 d'"
    using Suc.IH[OF d2(2)] d2(3) Suc.prems(2) by (auto simp: sifted_def)
  have s: "sifted 1 (Suc n) d d'" using s1 d2(3) d'(3) by (auto simp: sifted_def)
  have len: "Suc n < length d'" using s Suc.prems(2) by (simp add: sifted_def)
  have at: "d' ! Suc n = d ! 1" using d2(3) d'(3) Suc.prems(2) by (simp add: sifted_def)
  have "\<not> lt (d ! 1) x" if "x \<in> set (contents n d')" for x
  proof -
    have "x \<in> set (contents (Suc n) d')" using that len by (simp add: contents_Suc)
    also have "\<dots> = set (contents (Suc n) d)"
      by (rule mset_eq_setD[OF sifted_contents[OF s Suc.prems(2)]])
    finally show ?thesis
      using set_contents[OF Suc.prems(2)] heap_root_max[OF Suc.prems(1)] by blast
  qed
  then have "ascending lt (contents (Suc n) d')"
    using d'(2) len at by (simp add: contents_Suc ascending_append)
  then show ?case using swap d2(1) d'(1) s by simp
qed

lemma buildHeap_ok:
  assumes "cmpFn h = lt" and "currElements h < length (slots h)" and "currElements h < 2147483648"
  shows "\<exists>d. buildHeap h = Some (h\<lparr>slots := d\<rparr>) \<and> heap_from lt d 1 (currElements h) \<and>
    sifted 1 (currElements h) (slots h) d"
proof -
  let ?n = "currElements h"
  have "nat (to_signed 32 (u32 ?n)) = ?n" using assms(3) by (simp add: to_signed_def)
  moreover have "heap_from lt (slots h) (Suc ?n) ?n" by (auto simp: heap_from_def)
  ultimately show ?thesis
    using build_loop_heap[of "slots h" ?n ?n] assms by (auto simp: buildHeap_def)
qed

lemma heap_insert_ok:
  assumes ok: "heap_ok lt k A h" and k: "0 < k" "k < 2147483648"
  shows "\<exists>h'. heap_insert x h = Some h' \<and> heap_ok lt k (add_mset x A) h' \<and> typeSize h' = typeSize h"
proof (cases "currElements h < k")
  case True
  let ?n = "currElements h"
  define d where "d = (slots h)[Suc ?n := x]"
  define h1 where "h1 = h\<lparr>slots := d, currElements := ?n + 1\<rparr>"
  have len: "length (slots h) = k + 1" using ok by (simp add: heap_ok_def)
  have "contents ?n d = contents ?n (slots h)"
    using True len by (intro contents_cong) (simp_all add: d_def)
  then have c: "contents (Suc ?n) d = contents ?n (slots h) @ [x]"
    using True len by (simp add: d_def contents_Suc)
  have sm: "smallest lt k (add_mset x A) (mset (contents (Suc ?n) d))"
    using ok True smallest_grow[of lt k A _ x] by (simp add: c heap_ok_def)
  have ins: "heap_insert x h = (if ?n + 1 = k then buildHeap h1 else Some h1)"
    using ok True by (simp add: heap_insert_def heap_ok_def h1_def d_def Let_def)
  show ?thesis
  proof (cases "?n + 1 = k")
    case True
    obtain d' where d': "buildHeap h1 = Some (h1\<lparr>slots := d'\<rparr>)" "heap_from lt d' 1 k" "sifted 1 k d d'"
      using buildHeap_ok[of h1] ok k True len by (auto simp: h1_def d_def heap_ok_def)
    then show ?thesis
      using ok sm ins True sifted_contents[OF d'(3)] len
      by (auto simp: heap_ok_def h1_def d_def sifted_def)
  next
    case False
    then show ?thesis using ok sm ins \<open>?n < k\<close> by (simp add: heap_ok_def h1_def d_def)
  qed
next
  case False
  then have n: "currElements h = k" using ok by (simp add: heap_ok_def)
  let ?d = "slots h"
  have len: "length ?d = k + 1" and hf: "heap_from lt ?d 1 k" and cmp: "cmpFn h = lt"
    and sm: "smallest lt k A (mset (contents k ?d))"
    using ok n by (simp_all add: heap_ok_def)
  have root: "\<forall>y \<in># mset (contents k ?d). \<not> lt (?d ! 1) y"
    using set_contents[of k ?d] heap_root_max[OF hf] len by auto
  have cons: "contents k ?d = ?d ! 1 # drop 1 (contents k ?d)" using k len by (intro contents_Cons) simp_all
  show ?thesis
  proof (cases "lt x (?d ! 1)")
    case True
    have "heap_except lt (?d[1 := x]) 1 1 k"
      using hf len by (auto simp: heap_except_def heap_from_def nth_list_update)
    then obtain d' where d': "bubbleDown lt (?d[1 := x]) 1 k = Some d'" "heap_from lt d' 1 k" "sifted 1 k (?d[1 := x]) d'"
      using bubbleDown_heap[of "?d[1 := x]" 1 1 k] len by auto
    have "mset (contents k d') = add_mset x (mset (drop 1 (contents k ?d)))"
      using sifted_contents[OF d'(3)] contents_root[of k ?d x] k len by simp
    moreover have "smallest lt k (add_mset x A) (add_mset x (mset (drop 1 (contents k ?d))))"
    proof (rule smallest_replace)
      show "smallest lt k A (add_mset (?d ! 1) (mset (drop 1 (contents k ?d))))"
        using sm cons by (metis mset.simps(2))
      show "size (mset (drop 1 (contents k ?d))) + 1 = k" using k len by simp
      show "\<forall>y \<in># mset (drop 1 (contents k ?d)). \<not> lt (?d ! 1) y"
        using root by (auto dest: in_set_dropD)
    qed (rule True)
    ultimately have "heap_ok lt k (add_mset x A) (h\<lparr>slots := d'\<rparr>)"
      using ok n d' by (simp add: heap_ok_def sifted_def)
    moreover have "heap_insert x h = Some (h\<lparr>slots := d'\<rparr>)"
      using n ok True k len d'(1) by (simp add: heap_insert_def heap_ok_def)
    ultimately show ?thesis by simp
  next
    case no: False
    have "smallest lt k (add_mset x A) (mset (contents k ?d))"
      using smallest_drop[OF sm _ root no] len by simp
    then show ?thesis using no n ok k len by (simp add: heap_insert_def heap_ok_def)
  qed
qed

lemma insert_all_ok:
  assumes "heap_ok lt k A h" and "0 < k" "k < 2147483648"
  shows "\<exists>h'. insert_all xs h = Some h' \<and> heap_ok lt k (mset xs + A) h' \<and> typeSize h' = typeSize h"
  using assms(1)
proof (induction xs arbitrary: A h)
  case (Cons x xs)
  obtain h1 where "heap_insert x h = Some h1" "heap_ok lt k (add_mset x A) h1" "typeSize h1 = typeSize h"
    using heap_insert_ok[OF Cons.prems assms(2,3)] by blast
  then show ?case using Cons.IH[of "add_mset x A" h1] by simp
qed simp

lemma mk_heap_ok: "0 < k \<Longrightarrow> length raw = k + 1 \<Longrightarrow> heap_ok lt k {#} (mk_heap k ts lt raw)"
  by (simp add: heap_ok_def mk_heap_def smallest_all)

lemma mergeWithOther_ok:
  assumes "heap_ok lt k A h" and "heap_ok lt k B other" and "0 < k" "k < 2147483648"
  shows "\<exists>h'. mergeWithOther h other = Some h' \<and> heap_ok lt k (B + A) h' \<and> typeSize h' = typeSize h"
proof -
  let ?b = "contents (currElements other) (slots other)"
  obtain h' where h': "insert_all ?b h = Some h'" "heap_ok lt k (mset ?b + A) h'" "typeSize h' = typeSize h"
    using insert_all_ok[OF assms(1,3,4)] by blast
  have "smallest lt k B (mset ?b)" using assms(2) by (simp add: heap_ok_def)
  then have "heap_ok lt k (B + A) h'"
    using h'(2) smallest_union by (auto simp: heap_ok_def)
  then show ?thesis using h' by (simp add: mergeWithOther_def contents_def)
qed

lemma merge_into_ok:
  assumes "heap_ok lt k A h" and "list_all2 (heap_ok lt k) Bs hs" and "0 < k" "k < 2147483648"
  shows "\<exists>h'. merge_into h hs = Some h' \<and> heap_ok lt k (sum_list Bs + A) h' \<and> typeSize h' = typeSize h"
  using assms(2,1)
proof (induction Bs hs arbitrary: A h rule: list_all2_induct)
  case (Cons B Bs h1 hs)
  obtain h' where "mergeWithOther h h1 = Some h'" "heap_ok lt k (B + A) h'" "typeSize h' = typeSize h"
    using mergeWithOther_ok[OF Cons.prems Cons.hyps(1) assms(3,4)] by blast
  then show ?case using Cons.IH[of "B + A" h'] by (simp add: ac_simps)
qed simp

lemma getBuffer_ok:
  assumes ok: "heap_ok lt k A h" and k: "0 < k" "k < 2147483648"
  shows "\<exists>h' buf. getBuffer h = Some (h', length buf * max 1 (typeSize h), buf) \<and>
    ascending lt buf \<and> smallest lt k A (mset buf)"
proof -
  let ?n = "currElements h"
  have len: "length (slots h) = k + 1" and n: "?n \<le> k" and cmp: "cmpFn h = lt"
    using ok by (simp_all add: heap_ok_def)
  obtain d where d: "(if ?n < maxElements h then buildHeap h else Some h) = Some (h\<lparr>slots := d\<rparr>)"
      "heap_from lt d 1 ?n" "sifted 1 ?n (slots h) d"
  proof (cases "?n < k")
    case True
    then show ?thesis using buildHeap_ok[of h] ok k that len n by (auto simp: heap_ok_def)
  next
    case False
    then show ?thesis using ok n that[of "slots h"] by (auto simp: heap_ok_def sifted_def)
  qed
  obtain d' where d': "sort_loop lt d ?n = Some d'" "ascending lt (contents ?n d')" "sifted 1 ?n d d'"
    using sort_loop_sorts[OF d(2)] d(3) len n by (auto simp: sifted_def)
  have s: "sifted 1 ?n (slots h) d'" using d(3) d'(3) by (auto simp: sifted_def)
  have "mset (contents ?n d') = mset (contents ?n (slots h))"
    using sifted_contents[OF s] len n by simp
  then have "smallest lt k A (mset (contents ?n d'))" using ok by (simp add: heap_ok_def)
  moreover have "length (contents ?n d') = ?n" using s len n by (simp add: sifted_def)
  moreover have "getBuffer h = Some (h\<lparr>slots := d'\<rparr>, ?n * max 1 (typeSize h), contents ?n d')"
    using d(1) d'(1) cmp by (simp add: getBuffer_def contents_def Let_def)
  ultimately show ?thesis using d'(2) by auto
qed

end

section \<open>The operator\<close>

text \<open>
  What a top-k operator does: every thread creates a heap and inserts its entries, the heaps
  are merged into the first and its buffer is read.
\<close>

definition thread_heap :: "nat \<Rightarrow> nat \<Rightarrow> cmp_fn \<Rightarrow> entry list \<times> entry list \<Rightarrow> top_heap option" where
  "thread_heap k ts cmp t = insert_all (snd t) (mk_heap k ts cmp (fst t))"

definition top_k :: "nat \<Rightarrow> nat \<Rightarrow> cmp_fn \<Rightarrow> entry list \<times> entry list \<Rightarrow> (entry list \<times> entry list) list \<Rightarrow> (nat \<times> entry list) option" where
  "top_k k ts cmp t threads = do {
    h \<leftarrow> thread_heap k ts cmp t;
    hs \<leftarrow> those (map (thread_heap k ts cmp) threads);
    merged \<leftarrow> heap_merge (h, hs);
    (h', n, buf) \<leftarrow> getBuffer merged;
    Some (n, buf) }"

context entry_order
begin

lemma thread_heap_ok:
  assumes "0 < k" "k < 2147483648" and "length (fst t) = k + 1"
  shows "\<exists>h. thread_heap k ts lt t = Some h \<and> heap_ok lt k (mset (snd t)) h \<and> typeSize h = ts"
  using insert_all_ok[OF mk_heap_ok[OF assms(1,3), of ts] assms(1,2), of "snd t"]
  by (simp add: thread_heap_def) (simp add: mk_heap_def)

lemma thread_heaps_ok:
  assumes "0 < k" "k < 2147483648" and "\<forall>t \<in> set threads. length (fst t) = k + 1"
  shows "\<exists>hs. those (map (thread_heap k ts lt) threads) = Some hs \<and>
    list_all2 (heap_ok lt k) (map (\<lambda>t. mset (snd t)) threads) hs"
  using assms(3)
proof (induction threads)
  case (Cons t threads)
  obtain h where "thread_heap k ts lt t = Some h" "heap_ok lt k (mset (snd t)) h"
    using thread_heap_ok[OF assms(1,2), of t] Cons.prems by auto
  then show ?case using Cons by auto
qed simp

lemma top_k_ok:
  assumes k: "0 < k" "k < 2147483648" and raw: "\<forall>u \<in> set (t # threads). length (fst u) = k + 1"
  shows "\<exists>buf. top_k k ts lt t threads = Some (length buf * max 1 ts, buf) \<and> ascending lt buf \<and>
    smallest lt k (mset (concat (map snd (t # threads)))) (mset buf)"
proof -
  obtain h where h: "thread_heap k ts lt t = Some h" "heap_ok lt k (mset (snd t)) h" "typeSize h = ts"
    using thread_heap_ok[OF k, of t] raw by auto
  obtain hs where hs: "those (map (thread_heap k ts lt) threads) = Some hs"
      "list_all2 (heap_ok lt k) (map (\<lambda>t. mset (snd t)) threads) hs"
    using thread_heaps_ok[OF k, of threads] raw by auto
  obtain m where m: "merge_into h hs = Some m" "typeSize m = ts"
      "heap_ok lt k (sum_list (map (\<lambda>t. mset (snd t)) threads) + mset (snd t)) m"
    using merge_into_ok[OF h(2) hs(2) k] h(3) by auto
  have sum: "sum_list (map (\<lambda>t. mset (snd t)) threads) + mset (snd t) = mset (concat (map snd (t # threads)))"
    by (induction threads) simp_all
  obtain h' buf where b: "getBuffer m = Some (h', length buf * max 1 ts, buf)" "ascending lt buf"
      "smallest lt k (mset (concat (map snd (t # threads)))) (mset buf)"
    using getBuffer_ok[OF m(3) k] unfolding m(2) sum by auto
  have "top_k k ts lt t threads = Some (length buf * max 1 ts, buf)"
    using h(1) hs(1) m(1) b(1) by (simp add: top_k_def heap_merge_def)
  then show ?thesis using b(2,3) by blast
qed

end

text \<open>C15: With any strict weak order as comparison, \<open>k > 0\<close> (below the range of \<^verbatim>\<open>int\<close>) and any
  number of threads, each inserting any entries in any order into its heap, merging the heaps and
  reading the buffer stays inside the arrays, returns, and delivers in ascending order the \<open>k\<close> smallest
  of all entries inserted (all of them if there are fewer); the buffer's length in bytes is theirs.\<close>
theorem top_k_smallest:
  assumes "entry_order cmp" and "0 < k" "k < 2147483648" and "\<forall>u \<in> set (t # threads). length (fst u) = k + 1"
  shows "\<exists>buf. top_k k ts cmp t threads = Some (length buf * max 1 ts, buf) \<and> ascending cmp buf \<and>
    smallest cmp k (mset (concat (map snd (t # threads)))) (mset buf)"
  using entry_order.top_k_ok[OF assms(1) assms(2,3,4)] by simp

theorem top_k_smallest_witness:
  "\<exists>buf. top_k 2 1 compareLt ([[0], [0], [0]], [[5], [3]]) [([[0], [0], [0]], [[4], [9], [1]])] = Some (length buf * max 1 1, buf) \<and>
    ascending compareLt buf \<and>
    smallest compareLt 2 (mset (concat (map snd [([[0], [0], [0]], [[5], [3]]), ([[0], [0], [0]], [[4], [9], [1]])]))) (mset buf)"
  using top_k_smallest[of compareLt 2 "([[0], [0], [0]], [[5], [3]])" "[([[0], [0], [0]], [[4], [9], [1]])]" 1]
  by (simp add: by_string.entry_order_axioms)

text \<open>C16: An insertion keeps the invariant of the heap: the slots stay inside the array, a full heap
  is ordered with its greatest entry at the root, and the slots hold the \<open>k\<close> smallest entries
  inserted so far.\<close>
theorem heap_insert_invariant:
  assumes "entry_order cmp" and "0 < k" "k < 2147483648" and "heap_ok cmp k A h"
  shows "\<exists>h'. heap_insert e h = Some h' \<and> heap_ok cmp k (add_mset e A) h'"
  using entry_order.heap_insert_ok[OF assms(1,4,2,3), of e] by blast

theorem heap_insert_invariant_witness:
  "\<exists>h'. heap_insert [7] (mk_heap 1 1 compareLt [[0], [0]]) = Some h' \<and> heap_ok compareLt 1 (add_mset [7] {#}) h'"
  by (rule heap_insert_invariant) (simp_all add: by_string.entry_order_axioms by_string.mk_heap_ok)

end
