(* ===== verification/Like_Correct.thy ===== *)
theory Like_Correct
  imports String_Runtime "HOL-Library.Sublist"
begin

text \<open>
  \<^verbatim>\<open>LIKE\<close> as SQL defines it, and the two implementations against it: the iterative matcher of
  the runtime and the code generated for constant patterns.
\<close>

section \<open>The meaning of LIKE\<close>

datatype like_token = Lit byte | One | Many

text \<open>A pattern that ends with the escape character is malformed.\<close>

fun tokens :: "byte \<Rightarrow> bytes \<Rightarrow> like_token list option" where
  "tokens escape [] = Some []"
| "tokens escape (c # p) =
    (if c = escape then (case p of [] \<Rightarrow> None | d # p' \<Rightarrow> map_option ((#) (Lit d)) (tokens escape p'))
     else if c = percent then map_option ((#) Many) (tokens escape p)
     else if c = underscore then map_option ((#) One) (tokens escape p)
     else map_option ((#) (Lit c)) (tokens escape p))"

inductive matches :: "like_token list \<Rightarrow> bytes \<Rightarrow> bool" where
  matches_end: "matches [] []"
| matches_lit: "matches ts s \<Longrightarrow> matches (Lit c # ts) (c # s)"
| matches_one: "matches ts s \<Longrightarrow> matches (One # ts) (x # s)"
| matches_none: "matches ts s \<Longrightarrow> matches (Many # ts) s"
| matches_more: "matches (Many # ts) s \<Longrightarrow> matches (Many # ts) (x # s)"

inductive_cases matches_manyE: "matches (Many # ts) s"

inductive_simps matches_simps [simp]:
  "matches [] s"
  "matches (Lit c # ts) []"
  "matches (Lit c # ts) (x # s)"
  "matches (One # ts) []"
  "matches (One # ts) (x # s)"

definition accepts :: "byte \<Rightarrow> bytes \<Rightarrow> bytes \<Rightarrow> bool" where
  "accepts escape p s \<longleftrightarrow> (case tokens escape p of None \<Rightarrow> False | Some ts \<Rightarrow> matches ts s)"

text \<open>The string against the pattern with a percent sign in front.\<close>

definition accepts_many :: "byte \<Rightarrow> bytes \<Rightarrow> bytes \<Rightarrow> bool" where
  "accepts_many escape p s \<longleftrightarrow> (case tokens escape p of None \<Rightarrow> False | Some ts \<Rightarrow> matches (Many # ts) s)"

definition sql_like :: "bytes \<Rightarrow> bytes \<Rightarrow> bool" where
  "sql_like s p \<longleftrightarrow> accepts backslash p s"

lemma matches_many: "matches (Many # ts) s \<longleftrightarrow> (\<exists>u. suffix u s \<and> matches ts u)"
proof
  assume "matches (Many # ts) s"
  then show "\<exists>u. suffix u s \<and> matches ts u"
    by (induction "Many # ts" s rule: matches.induct) (auto intro: suffix_ConsI)
next
  assume "\<exists>u. suffix u s \<and> matches ts u"
  then obtain v u where "s = v @ u" and "matches ts u" by (auto simp: suffix_def)
  then show "matches (Many # ts) s"
    by (induction v arbitrary: s) (auto intro: matches_none matches_more)
qed

lemma matches_many_nil [simp]: "matches (Many # ts) [] \<longleftrightarrow> matches ts []"
  by (simp add: matches_many)

lemma matches_many_cons: "matches (Many # ts) (x # s) \<longleftrightarrow> matches ts (x # s) \<or> matches (Many # ts) s"
  by (auto simp: matches_many suffix_Cons)

lemma matches_many_many [simp]: "matches (Many # Many # ts) s \<longleftrightarrow> matches (Many # ts) s"
  by (induction s) (simp_all add: matches_many_cons)

lemma matches_many_one [simp]:
  "matches (Many # One # ts) [] \<longleftrightarrow> False"
  "matches (Many # One # ts) (x # s) \<longleftrightarrow> matches (Many # ts) s"
proof -
  show "matches (Many # One # ts) [] \<longleftrightarrow> False" by simp
  show "matches (Many # One # ts) (x # s) \<longleftrightarrow> matches (Many # ts) s"
    by (induction s arbitrary: x) (simp_all add: matches_many_cons[of "One # ts"] matches_many_cons[of ts])
qed

lemma matches_many_end [simp]: "matches [Many] s"
  by (auto simp: matches_many intro: exI[of _ "[]"])

lemma matches_lit_iff: "matches (Lit c # ts) s \<longleftrightarrow> (case s of [] \<Rightarrow> False | x # s' \<Rightarrow> c = x \<and> matches ts s')"
  by (cases s) auto

lemma matches_one_iff: "matches (One # ts) s \<longleftrightarrow> (case s of [] \<Rightarrow> False | x # s' \<Rightarrow> matches ts s')"
  by (cases s) auto

lemma accepts_Nil [simp]: "accepts e [] s \<longleftrightarrow> s = []"
  by (simp add: accepts_def)

lemma accepts_literal:
  "c \<noteq> e \<Longrightarrow> c \<noteq> percent \<Longrightarrow> c \<noteq> underscore \<Longrightarrow>
    accepts e (c # p) s \<longleftrightarrow> (case s of [] \<Rightarrow> False | x # s' \<Rightarrow> x = c \<and> accepts e p s')"
  by (cases "tokens e p"; cases s) (simp_all add: accepts_def)

lemma accepts_underscore:
  "e \<noteq> underscore \<Longrightarrow> accepts e (underscore # p) s \<longleftrightarrow> (case s of [] \<Rightarrow> False | x # s' \<Rightarrow> accepts e p s')"
  by (cases "tokens e p"; cases s) (simp_all add: accepts_def)

lemma accepts_percent: "e \<noteq> percent \<Longrightarrow> accepts e (percent # p) s \<longleftrightarrow> accepts_many e p s"
  by (cases "tokens e p") (simp_all add: accepts_def accepts_many_def)

lemma accepts_escape_end [simp]: "accepts e [e] s \<longleftrightarrow> False"
  by (simp add: accepts_def)

lemma accepts_escape:
  "accepts e (e # d # p) s \<longleftrightarrow> (case s of [] \<Rightarrow> False | x # s' \<Rightarrow> x = d \<and> accepts e p s')"
  by (cases "tokens e p"; cases s) (simp_all add: accepts_def)

lemmas accepts_Cons = accepts_literal accepts_underscore accepts_percent accepts_escape

lemma accepts_many_Nil [simp]: "accepts_many e [] s"
  by (simp add: accepts_many_def)

lemma accepts_many_iff: "accepts_many e p s \<longleftrightarrow> (\<exists>u. suffix u s \<and> accepts e p u)"
  by (simp add: accepts_def accepts_many_def matches_many split: option.split)

lemma accepts_many_percent: "e \<noteq> percent \<Longrightarrow> accepts_many e (percent # p) s \<longleftrightarrow> accepts_many e p s"
  by (simp add: accepts_many_def split: option.split)

lemma accepts_many_underscore:
  "e \<noteq> underscore \<Longrightarrow> accepts_many e (underscore # p) s \<longleftrightarrow>
    (case s of [] \<Rightarrow> False | x # s' \<Rightarrow> accepts_many e p s')"
  by (simp add: accepts_many_def split: option.split list.split)

section \<open>The iterative matcher\<close>

text \<open>
  No escape sequence for an escape character or a wildcard directly after a run of wildcards
  that begins with a percent sign; \<open>w\<close> tells that such a run is being read.
\<close>

fun plain_escapes :: "byte \<Rightarrow> bool \<Rightarrow> bytes \<Rightarrow> bool" where
  "plain_escapes escape w [] = True"
| "plain_escapes escape w (c # p) =
    (if c = escape then
       (case p of [] \<Rightarrow> True
        | d # p' \<Rightarrow> (w \<longrightarrow> d \<noteq> escape \<and> d \<noteq> percent \<and> d \<noteq> underscore) \<and> plain_escapes escape False p')
     else if c = percent then plain_escapes escape True p
     else if c = underscore then plain_escapes escape w p
     else plain_escapes escape False p)"

declare iterativeLike.simps [simp del] like_any.simps [simp del]

lemma like_any_iff: "like_any e s p \<longleftrightarrow> (\<exists>u. suffix u s \<and> u \<noteq> [] \<and> iterativeLike e u p)"
  by (induction s) (auto simp: like_any.simps[of e "_ # _"] like_any.simps[of e "[]"] suffix_Cons)

lemma skip_wildcards_spec:
  assumes "e \<noteq> percent" "e \<noteq> underscore"
  shows "(case skip_wildcards s p of
      None \<Rightarrow> \<not> accepts_many e p s
    | Some (s1, p1) \<Rightarrow>
        (accepts_many e p s \<longleftrightarrow> accepts_many e p1 s1) \<and>
        (plain_escapes e True p \<longrightarrow> plain_escapes e True p1) \<and>
        (p1 \<noteq> [] \<longrightarrow> hd p1 \<noteq> percent \<and> hd p1 \<noteq> underscore))"
proof (induction s p rule: skip_wildcards.induct)
  case (2 s c p)
  show ?case
  proof (cases "c = percent")
    case True
    then show ?thesis using "2.IH"(1) assms by (auto simp: accepts_many_percent split: option.splits)
  next
    case no: False
    show ?thesis
    proof (cases "c = underscore")
      case True
      then show ?thesis using "2.IH"(2)[OF no True] assms
        by (cases s) (auto simp: accepts_many_underscore split: option.splits)
    qed (use no in simp)
  qed
qed simp

text \<open>Trying all suffixes; a pattern that begins with a literal does not accept the empty one.\<close>

lemma like_any_spec:
  assumes "\<And>u. suffix u s \<Longrightarrow> iterativeLike e u p \<longleftrightarrow> accepts e p u" and "\<not> accepts e p []"
  shows "like_any e s p \<longleftrightarrow> accepts_many e p s"
  unfolding like_any_iff accepts_many_iff using assms by metis

lemma only_percents:
  assumes "e \<noteq> percent" "e \<noteq> underscore"
  shows "dropWhile (\<lambda>c. c = percent) p = [] \<longleftrightarrow> accepts e p []"
proof (induction p)
  case (Cons c p)
  consider "c = percent" | "c \<noteq> percent" "c = e" | "c \<noteq> percent" "c \<noteq> e" by blast
  then show ?case
  proof cases
    case 1
    then show ?thesis using Cons assms by (simp add: accepts_percent accepts_many_iff)
  next
    case 2
    then show ?thesis by (cases p) (simp_all add: accepts_escape)
  next
    case 3
    then show ?thesis using assms by (cases "c = underscore") (simp_all add: accepts_Cons)
  qed
qed simp

text \<open>What the branch of the percent sign does with the rest of the pattern.\<close>

lemma percent_branch:
  assumes e: "e \<noteq> percent" "e \<noteq> underscore" and plain: "plain_escapes e True p"
    and IH: "\<And>q u. length q \<le> length p \<Longrightarrow> length u \<le> length s \<Longrightarrow> plain_escapes e False q \<Longrightarrow>
      iterativeLike e u q \<longleftrightarrow> accepts e q u"
  shows "(case skip_wildcards s p of
       None \<Rightarrow> False
     | Some (s1, []) \<Rightarrow> True
     | Some (s1, d # p1) \<Rightarrow>
         if d = e then (case p1 of [] \<Rightarrow> False | _ # _ \<Rightarrow> like_any e s1 p1) else like_any e s1 (d # p1))
    \<longleftrightarrow> accepts_many e p s"
proof (cases "skip_wildcards s p")
  case None
  then show ?thesis using skip_wildcards_spec[OF e, where s = s and p = p] by simp
next
  case (Some r)
  obtain s1 q where r: "r = (s1, q)" by fastforce
  have spec: "accepts_many e p s \<longleftrightarrow> accepts_many e q s1"
    and pq: "plain_escapes e True q" and hd: "q \<noteq> [] \<longrightarrow> hd q \<noteq> percent \<and> hd q \<noteq> underscore"
    using skip_wildcards_spec[OF e, where s = s and p = p] plain Some r by simp_all
  have len: "length q \<le> length p" "length s1 \<le> length s"
    using skip_wildcards_length Some r by blast+
  have any: "like_any e s1 q' \<longleftrightarrow> accepts_many e q' s1"
    if "length q' \<le> length q" "plain_escapes e False q'" "\<not> accepts e q' []" for q'
  proof (rule like_any_spec)
    fix u assume "suffix u s1"
    then have "length u \<le> length s1" by (auto simp: suffix_def)
    then show "iterativeLike e u q' \<longleftrightarrow> accepts e q' u"
      using IH[of q' u] that len by simp
  qed (use that in simp)
  show ?thesis
  proof (cases q)
    case Nil
    then show ?thesis using Some r spec by simp
  next
    case (Cons d q1)
    have d: "d \<noteq> percent" "d \<noteq> underscore" using hd Cons by simp_all
    show ?thesis
    proof (cases "d = e")
      case False
      then have "like_any e s1 q \<longleftrightarrow> accepts_many e q s1"
        using pq d Cons e by (intro any) (simp_all add: accepts_Cons)
      then show ?thesis using Some r Cons spec False by simp
    next
      case True
      show ?thesis
      proof (cases q1)
        case Nil
        then show ?thesis using Some r Cons spec True by (simp add: accepts_many_def)
      next
        case c: (Cons c q2)
        have c': "c \<noteq> e" "c \<noteq> percent" "c \<noteq> underscore" "plain_escapes e False q2"
          using pq Cons c True by simp_all
        then have "like_any e s1 q1 \<longleftrightarrow> accepts_many e q1 s1"
          using c Cons e by (intro any) (simp_all add: accepts_Cons)
        moreover have "accepts_many e q s1 \<longleftrightarrow> accepts_many e q1 s1"
          using c c' Cons True by (simp add: accepts_many_def)
        ultimately show ?thesis using Some r Cons spec True c by simp
      qed
    qed
  qed
qed

lemma iterativeLike_spec:
  assumes e: "e \<noteq> percent" "e \<noteq> underscore" and "plain_escapes e False p"
  shows "iterativeLike e s p \<longleftrightarrow> accepts e p s"
  using assms(3)
proof (induction "length p + length s" arbitrary: s p rule: less_induct)
  case less
  show ?case
  proof (cases "s = [] \<or> p = []")
    case True
    then show ?thesis using only_percents[OF e, of p]
      by (subst iterativeLike.simps) (cases s; cases p; simp)
  next
    case False
    then obtain x s' c p' where sp: "s = x # s'" "p = c # p'" by (meson neq_Nil_conv)
    show ?thesis
    proof (cases "c = percent")
      case True
      have "accepts e p s \<longleftrightarrow> accepts_many e p' s" using sp True e by (simp add: accepts_Cons)
      moreover have "iterativeLike e u q \<longleftrightarrow> accepts e q u"
        if "length q \<le> length p'" "length u \<le> length s" "plain_escapes e False q" for q u
        using less.hyps[of q u] that sp by simp
      ultimately show ?thesis
        using percent_branch[OF e, where s = s and p = p'] less.prems sp True e
        by (subst iterativeLike.simps) simp
    next
      case no: False
      have IH: "iterativeLike e s' q \<longleftrightarrow> accepts e q s'"
        if "plain_escapes e False q" "length q \<le> length p'" for q
        using less.hyps[of q s'] that sp by simp
      have un: "iterativeLike e s p =
          (if c = e then (case p' of [] \<Rightarrow> False | d # p'' \<Rightarrow> if d \<noteq> x then False else iterativeLike e s' p'')
           else if c = underscore then iterativeLike e s' p' else if c = x then iterativeLike e s' p' else False)"
        using no unfolding sp by (subst iterativeLike.simps) simp
      show ?thesis
      proof (cases "c = e")
        case True
        show ?thesis
        proof (cases p')
          case Nil
          then show ?thesis using un True sp e by (simp add: accepts_Cons)
        next
          case (Cons d p'')
          then have "iterativeLike e s' p'' \<longleftrightarrow> accepts e p'' s'"
            using less.prems sp True by (intro IH) simp_all
          then show ?thesis unfolding un using True sp Cons e by (auto simp: accepts_Cons)
        qed
      next
        case False
        have "plain_escapes e False p'" using less.prems sp False no by (simp split: if_splits)
        then have "iterativeLike e s' p' \<longleftrightarrow> accepts e p' s'" by (intro IH) simp_all
        then show ?thesis unfolding un using False no sp e by (cases "c = underscore") (auto simp: accepts_Cons)
      qed
    qed
  qed
qed

text \<open>C17: The runtime's \<^verbatim>\<open>LIKE\<close> decides exactly the strings that SQL's \<^verbatim>\<open>LIKE\<close> with the backslash as
  escape character accepts, for every string and every pattern (malformed ones, which match nothing,
  included) in which no wildcard run opened by a percent sign is directly followed by an escaped
  wildcard or backslash.\<close>
theorem like_is_sql_like:
  assumes "plain_escapes backslash False p"
  shows "like s p \<longleftrightarrow> sql_like s p"
  using iterativeLike_spec[of backslash p s] assms by (simp add: like_def sql_like_def)

theorem like_is_sql_like_witness:
  "like [97, 98, 37, 99] [97, 37, 92, 98, 92, 37, 95] \<longleftrightarrow> sql_like [97, 98, 37, 99] [97, 37, 92, 98, 92, 37, 95]"
  by (rule like_is_sql_like) simp

text \<open>The escape sequence behind a percent sign is not an escape: its wildcard stays one.\<close>

lemma like_escape_after_percent:
  "like [97, 98] [37, 92, 37] \<and> \<not> sql_like [97, 98] [37, 92, 37]"
  by (simp add: like_def sql_like_def accepts_def iterativeLike.simps like_any.simps matches_many_cons)


section \<open>Constant patterns\<close>

text \<open>Patterns of literals, escaped characters and percent signs.\<close>

fun plain_pattern :: "bytes \<Rightarrow> bool" where
  "plain_pattern [] = True"
| "plain_pattern (c # p) =
    (if c = backslash then (case p of [] \<Rightarrow> False | d # p' \<Rightarrow> plain_pattern p')
     else c \<noteq> dot \<and> c \<noteq> underscore \<and> plain_pattern p)"

fun has_percent :: "bytes \<Rightarrow> bool" where
  "has_percent [] = False"
| "has_percent (c # p) =
    (if c = backslash then (case p of [] \<Rightarrow> False | d # p' \<Rightarrow> has_percent p')
     else c = percent \<or> has_percent p)"

lemma startsWith_iff: "startsWith s p \<longleftrightarrow> prefix p s"
  by (auto simp: startsWith_def prefix_def) (metis append_take_drop_id)

lemma endsWith_iff: "endsWith s p \<longleftrightarrow> suffix p s"
  by (auto simp: endsWith_def suffix_def) (metis append_take_drop_id)

lemma matches_literals:
  "matches (map Lit sub @ ts) s \<longleftrightarrow> prefix sub s \<and> matches ts (drop (length sub) s)"
proof (induction sub arbitrary: s)
  case (Cons c sub)
  then show ?case by (cases s) auto
qed simp

lemma find_from_Some:
  "find_from t needle pos = Some k \<Longrightarrow>
    pos \<le> k \<and> prefix needle (drop (k - pos) t) \<and> k - pos \<le> length t \<and> (\<forall>j < k - pos. \<not> prefix needle (drop j t))"
proof (induction t needle pos rule: find_from.induct)
  case (2 x xs needle pos)
  show ?case
  proof (cases "startsWith (x # xs) needle")
    case False
    then have "find_from xs needle (pos + 1) = Some k" using "2.prems" by simp
    note IH = "2.IH"[OF False this]
    have "\<not> prefix needle (drop j (x # xs))" if "j < k - pos" for j
    proof (cases j)
      case 0
      then show ?thesis using False by (simp add: startsWith_iff)
    next
      case (Suc i)
      then show ?thesis using IH that by simp
    qed
    moreover have "Suc pos \<le> k" using IH by simp
    then have "k - pos = Suc (k - Suc pos)" by linarith
    ultimately show ?thesis using IH by auto
  qed (use "2.prems" in \<open>simp add: startsWith_iff\<close>)
qed (simp split: if_splits)

lemma find_from_None: "find_from t needle pos = None \<Longrightarrow> \<not> prefix needle (drop j t)"
proof (induction t needle pos arbitrary: j rule: find_from.induct)
  case (2 x xs needle pos)
  have no: "\<not> startsWith (x # xs) needle" using "2.prems" by (simp split: if_splits)
  then have "find_from xs needle (pos + 1) = None" using "2.prems" by simp
  then show ?case using "2.IH"[OF no] no by (cases j) (simp_all add: startsWith_iff)
qed (simp split: if_splits)

text \<open>
  Leftmost matching loses nothing: what follows a percent sign can be matched behind the first
  occurrence of the literals in front of it, if it can be matched at all.
\<close>

lemma leftmost:
  assumes "prefix sub (drop k s)" and "\<And>j. j < k \<Longrightarrow> \<not> prefix sub (drop j s)"
  shows "matches (Many # map Lit sub @ Many # ts) s \<longleftrightarrow> matches (Many # ts) (drop (k + length sub) s)"
proof
  assume "matches (Many # map Lit sub @ Many # ts) s"
  then obtain u where u: "suffix u s" "prefix sub u" "matches (Many # ts) (drop (length sub) u)"
    by (auto simp: matches_many[of "map Lit sub @ Many # ts"] matches_literals)
  define j where "j = length s - length u"
  have j: "u = drop j s" using u(1) by (auto simp: j_def suffix_def)
  then have "k \<le> j" using assms(2)[of j] u(2) by (meson not_le)
  then have "suffix (drop (length sub) u) (drop (k + length sub) s)"
    unfolding j by (metis add.commute add_le_mono1 drop_drop le_add_diff_inverse2 suffix_drop)
  then show "matches (Many # ts) (drop (k + length sub) s)"
    using u(3) by (meson matches_many suffix_order.trans)
next
  assume "matches (Many # ts) (drop (k + length sub) s)"
  then have "matches (map Lit sub @ Many # ts) (drop k s)"
    using assms(1) by (simp add: matches_literals add.commute)
  then show "matches (Many # map Lit sub @ Many # ts) s"
    by (meson matches_many suffix_drop)
qed

lemma no_occurrence:
  assumes "\<And>j. \<not> prefix sub (drop j s)"
  shows "\<not> matches (Many # map Lit sub @ ts) s"
proof
  assume "matches (Many # map Lit sub @ ts) s"
  then obtain u where "suffix u s" "prefix sub u"
    by (auto simp: matches_many[of "map Lit sub @ ts"] matches_literals)
  then show False using assms[of "length s - length u"] by (auto simp: suffix_def)
qed

text \<open>One literal part between percent signs.\<close>

lemma findMatch_spec:
  assumes l: "l \<le> length s \<or> l = invalidPos" and small: "length s + length sub < 4294967296" and "sub \<noteq> []"
  shows "let m = findMatch s sub l (length s)
    in (m \<le> length s \<or> m = invalidPos) \<and>
      (m \<le> length s \<and> matches (Many # ts) (drop m s) \<longleftrightarrow>
       l \<le> length s \<and> matches (Many # map Lit sub @ Many # ts) (drop l s))"
proof (cases "l \<le> length s")
  case False
  then show ?thesis using l small by (simp add: findMatch_def invalidPos_def)
next
  case True
  have u: "u64 (l + length sub) = l + length sub" using True small by (simp add: u64_def)
  have li: "\<not> invalidPos \<le> l" using True small by (simp add: invalidPos_def)
  have none: "\<not> matches (Many # map Lit sub @ Many # ts) (drop l s)" if "\<And>j. \<not> prefix sub (drop j (drop l s))"
    using no_occurrence[of sub "drop l s" "Many # ts"] that by blast
  show ?thesis
  proof (cases "l + length sub \<le> length s")
    case False
    have "\<not> prefix sub (drop j (drop l s))" for j
    proof
      assume "prefix sub (drop j (drop l s))"
      then have "length sub \<le> length s - (j + l)" using prefix_length_le by fastforce
      moreover have "length sub \<noteq> 0" using \<open>sub \<noteq> []\<close> by simp
      ultimately show False using False by linarith
    qed
    then show ?thesis using none u li False small by (simp add: findMatch_def invalidPos_def)
  next
    case fits: True
    show ?thesis
    proof (cases "find_from (drop l s) sub l")
      case None
      then have "\<not> prefix sub (drop j (drop l s))" for j by (rule find_from_None)
      moreover have "findMatch s sub l (length s) = invalidPos"
        using None u li fits True by (simp add: findMatch_def str_find_def)
      ultimately show ?thesis using none small by (simp add: invalidPos_def)
    next
      case (Some k)
      note k = find_from_Some[OF this]
      have "prefix sub (drop k s)" using k by auto
      then have fit: "k + length sub \<le> length s"
        using k True prefix_length_le[of sub "drop k s"] by auto
      then have "findMatch s sub l (length s) = k + length sub"
        using Some u li fits True small by (simp add: findMatch_def str_find_def u64_def)
      moreover have "matches (Many # map Lit sub @ Many # ts) (drop l s) \<longleftrightarrow> matches (Many # ts) (drop (k + length sub) s)"
        using leftmost[of sub "k - l" "drop l s" ts] k by auto
      ultimately show ?thesis using fit True by simp
    qed
  qed
qed


text \<open>The result of the generated code from a state of the loop on.\<close>

definition const_like_from :: "bytes \<Rightarrow> like_state \<Rightarrow> bytes \<Rightarrow> bool option" where
  "const_like_from s st p = Option.bind (like_scan s (length s) st p) (like_finish s (length s))"

lemma matches_only_literals: "matches (map Lit sub) u \<longleftrightarrow> u = sub"
proof (induction sub arbitrary: u)
  case (Cons c sub)
  then show ?case by (cases u) auto
qed simp

lemma matches_many_literals: "matches (Many # map Lit sub) t \<longleftrightarrow> suffix sub t"
  by (auto simp: matches_many matches_only_literals)

lemma suffix_drop_iff:
  assumes "l \<le> length s"
  shows "suffix sub (drop l s) \<longleftrightarrow> l + length sub \<le> length s \<and> suffix sub s"
proof
  assume a: "suffix sub (drop l s)"
  then have "suffix sub s" using suffix_drop suffix_order.trans by blast
  moreover have "length sub \<le> length s - l" using suffix_length_le[OF a] by simp
  ultimately show "l + length sub \<le> length s \<and> suffix sub s" using assms by linarith
next
  assume a: "l + length sub \<le> length s \<and> suffix sub s"
  moreover have "length sub \<le> length (drop l s)" using a by auto
  ultimately show "suffix sub (drop l s)" using suffix_length_suffix[of sub s "drop l s"] suffix_drop by blast
qed

lemma const_like_flexible:
  assumes "plain_pattern p" and "tokens backslash p = Some ts" and "l \<le> length s \<or> l = invalidPos"
    and "length s + length sub + length p < 4294967296"
  shows "const_like_from s \<lparr>currentSubPattern = sub, lastMatchEnd = Some l, flexible = True\<rparr> p =
    Some (l \<le> length s \<and> matches (Many # map Lit sub @ ts) (drop l s))"
  using assms
proof (induction "length p" arbitrary: p sub l ts rule: less_induct)
  case less
  show ?case
  proof (cases p)
    case Nil
    have "l \<le> length s \<and> suffix sub (drop l s) \<longleftrightarrow> u64 (l + length sub) \<le> length s \<and> suffix sub s"
    proof (cases "l \<le> length s")
      case True
      then have "u64 (l + length sub) = l + length sub" using less.prems(4) by (simp add: u64_def)
      then show ?thesis using suffix_drop_iff[OF True] True by simp
    next
      case False
      then show ?thesis using less.prems(3,4) by (simp add: u64_def invalidPos_def)
    qed
    then show ?thesis
      using Nil less.prems(2,3,4)
      by (auto simp: u64_def invalidPos_def const_like_from_def like_finish_def endsWith_iff matches_many_literals Let_def)
  next
    case (Cons c q)
    show ?thesis
    proof (cases "c = backslash")
      case True
      then obtain d q' where q: "q = d # q'" using less.prems(1) Cons by (cases q) simp_all
      then obtain ts' where ts: "tokens backslash q' = Some ts'" "ts = Lit d # ts'"
        using less.prems(2) Cons True by auto
      have "const_like_from s \<lparr>currentSubPattern = sub @ [d], lastMatchEnd = Some l, flexible = True\<rparr> q' =
          Some (l \<le> length s \<and> matches (Many # map Lit (sub @ [d]) @ ts') (drop l s))"
        using less.prems Cons True q by (intro less.hyps[OF _ _ ts(1)]) simp_all
      then show ?thesis using Cons True q ts by (simp add: const_like_from_def)
    next
      case no: False
      have c: "c \<noteq> dot" "c \<noteq> underscore" "plain_pattern q" using less.prems(1) Cons no by simp_all
      show ?thesis
      proof (cases "c = percent")
        case True
        then obtain ts' where ts: "tokens backslash q = Some ts'" "ts = Many # ts'"
          using less.prems(2) Cons no by auto
        define m where "m = matchPart (Some l) sub s (length s)"
        have m: "m \<le> length s \<or> m = invalidPos"
          "m \<le> length s \<and> matches (Many # ts') (drop m s) \<longleftrightarrow>
            l \<le> length s \<and> matches (Many # map Lit sub @ Many # ts') (drop l s)"
          using findMatch_spec[of l s sub ts'] less.prems(3,4)
          by (auto simp: m_def matchPart_def Let_def)
        have "const_like_from s \<lparr>currentSubPattern = [], lastMatchEnd = Some m, flexible = True\<rparr> q =
            Some (m \<le> length s \<and> matches (Many # map Lit [] @ ts') (drop m s))"
          using less.prems Cons c m(1) by (intro less.hyps[OF _ _ ts(1)]) simp_all
        then show ?thesis using Cons True no c ts m(2) by (simp add: const_like_from_def m_def)
      next
        case False
        then obtain ts' where ts: "tokens backslash q = Some ts'" "ts = Lit c # ts'"
          using less.prems(2) Cons no c by auto
        have "const_like_from s \<lparr>currentSubPattern = sub @ [c], lastMatchEnd = Some l, flexible = True\<rparr> q =
            Some (l \<le> length s \<and> matches (Many # map Lit (sub @ [c]) @ ts') (drop l s))"
          using less.prems Cons c by (intro less.hyps[OF _ _ ts(1)]) simp_all
        then show ?thesis using Cons False no c ts by (simp add: const_like_from_def)
      qed
    qed
  qed
qed

lemma const_like_start:
  assumes "plain_pattern p" and "has_percent p" and "tokens backslash p = Some ts"
    and "length s + length sub + length p < 4294967296"
  shows "const_like_from s \<lparr>currentSubPattern = sub, lastMatchEnd = None, flexible = False\<rparr> p =
    Some (matches (map Lit sub @ ts) s)"
  using assms
proof (induction "length p" arbitrary: p sub ts rule: less_induct)
  case less
  obtain c q where Cons: "p = c # q" using less.prems(2) by (cases p) simp_all
  show ?case
  proof (cases "c = backslash")
    case True
    then obtain d q' where q: "q = d # q'" using less.prems(1) Cons by (cases q) simp_all
    then obtain ts' where ts: "tokens backslash q' = Some ts'" "ts = Lit d # ts'"
      using less.prems(3) Cons True by auto
    have "const_like_from s \<lparr>currentSubPattern = sub @ [d], lastMatchEnd = None, flexible = False\<rparr> q' =
        Some (matches (map Lit (sub @ [d]) @ ts') s)"
      using less.prems Cons True q by (intro less.hyps[OF _ _ _ ts(1)]) simp_all
    then show ?thesis using Cons True q ts by (simp add: const_like_from_def)
  next
    case no: False
    have c: "c \<noteq> dot" "c \<noteq> underscore" "plain_pattern q" using less.prems(1) Cons no by simp_all
    show ?thesis
    proof (cases "c = percent")
      case True
      then obtain ts' where ts: "tokens backslash q = Some ts'" "ts = Many # ts'"
        using less.prems(3) Cons no by auto
      define m where "m = matchPart None sub s (length s)"
      have m: "m \<le> length s \<or> m = invalidPos"
        "m \<le> length s \<and> matches (Many # ts') (drop m s) \<longleftrightarrow> matches (map Lit sub @ Many # ts') s"
        using prefix_length_le[of sub s] less.prems(4)
        by (auto simp: m_def matchPart_def startsWith_iff matches_literals invalidPos_def)
      have "const_like_from s \<lparr>currentSubPattern = [], lastMatchEnd = Some m, flexible = True\<rparr> q =
          Some (m \<le> length s \<and> matches (Many # map Lit [] @ ts') (drop m s))"
        using less.prems Cons c m(1) by (intro const_like_flexible[OF _ ts(1)]) simp_all
      then show ?thesis using Cons True no c ts m(2) by (simp add: const_like_from_def m_def)
    next
      case False
      then obtain ts' where ts: "tokens backslash q = Some ts'" "ts = Lit c # ts'"
        using less.prems(3) Cons no c by auto
      have "const_like_from s \<lparr>currentSubPattern = sub @ [c], lastMatchEnd = None, flexible = False\<rparr> q =
          Some (matches (map Lit (sub @ [c]) @ ts') s)"
        using less.prems Cons c False no by (intro less.hyps[OF _ _ _ ts(1)]) simp_all
      then show ?thesis using Cons False no c ts by (simp add: const_like_from_def)
    qed
  qed
qed

lemma plain_pattern_tokens: "plain_pattern p \<Longrightarrow> \<exists>ts. tokens backslash p = Some ts"
proof (induction p rule: plain_pattern.induct)
  case (2 c p)
  then show ?case by (cases p) (auto split: if_splits)
qed simp

text \<open>C18: The code generated for \<^verbatim>\<open>LIKE\<close> with a constant pattern of literals, escaped characters
  and at least one percent sign (no dot and no underscore) decides the same strings as SQL's
  \<^verbatim>\<open>LIKE\<close>: comparing the first part with the start, searching the leftmost occurrence of
  every part in between and comparing the last part with the end is complete and the parts do not
  overlap, for all strings of the 32-bit length a \<^verbatim>\<open>VarLen32\<close> can have.\<close>
theorem const_like_is_sql_like:
  assumes "plain_pattern p" and "has_percent p" and "length s + length p < 4294967296"
  shows "constLikeImpl s p = Some (sql_like s p)"
proof -
  obtain ts where ts: "tokens backslash p = Some ts" using plain_pattern_tokens assms(1) by blast
  then have "const_like_from s \<lparr>currentSubPattern = [], lastMatchEnd = None, flexible = False\<rparr> p =
      Some (matches (map Lit [] @ ts) s)"
    using assms by (intro const_like_start) simp_all
  then show ?thesis using ts by (simp add: constLikeImpl_def const_like_from_def sql_like_def accepts_def)
qed

theorem const_like_is_sql_like_witness:
  "constLikeImpl [97, 98, 99, 98, 99] [97, 37, 98, 37, 92, 99] = Some (sql_like [97, 98, 99, 98, 99] [97, 37, 98, 37, 92, 99])"
  by (rule const_like_is_sql_like) simp_all

text \<open>
  Outside these patterns the generated code and SQL part ways: without a wildcard only the end of the
  string is compared, the one-character wildcard is the dot instead of the underscore, and the empty
  pattern has no code at all.
\<close>

lemma const_like_suffix: "constLikeImpl [120, 97] [97] = Some True \<and> \<not> sql_like [120, 97] [97]"
  by (simp add: constLikeImpl_def like_finish_def endsWith_def sql_like_def accepts_def)

lemma const_like_underscore:
  "constLikeImpl [97, 98] [97, 95, 37] = Some False \<and> sql_like [97, 98] [97, 95, 37]"
  "constLikeImpl [97, 98] [97, 46, 37] = Some True \<and> \<not> sql_like [97, 98] [97, 46, 37]"
  by (simp_all add: constLikeImpl_def like_finish_def startsWith_def matchPart_def sql_like_def accepts_def
      invalidPos_def u64_def)

lemma const_like_empty: "constLikeImpl s [] = None"
  by (simp add: constLikeImpl_def like_finish_def)

end
