(* ===== verification/Segment_Tree.thy ===== *)
theory Segment_Tree
  imports String_Runtime
begin

text \<open>
  The segment tree behind window functions (\<^verbatim>\<open>src/lib/runtime/SegmentTreeView.cpp\<close>). Nodes and
  states live in two arrays of \<^verbatim>\<open>numEntries\<close> places from which they are handed out one after the
  other; a \<^verbatim>\<open>TreeNode*\<close> or a pointer to a state is the index of its place. The functions that
  create the state of an entry and combine two states are generated code, parameters here. \<open>None\<close>
  is a failed assertion, a null pointer followed or a call that does not return.
\<close>

section \<open>The code\<close>

record tree_node =
  leftMin :: nat
  rightMax :: nat
  left_child :: "nat option"
  right_child :: "nat option"
  node_state :: nat

record 's seg_view =
  storage :: "nat \<rightharpoonup> tree_node"
  storageCntr :: nat
  stateStorage :: "nat \<rightharpoonup> 's"
  stateCntr :: nat
  numEntries :: nat
  tree_root :: "nat option"

definition allocate :: "'s seg_view \<Rightarrow> ('s seg_view \<times> nat) option" where
  "allocate v =
    (if storageCntr v < numEntries v then Some (v\<lparr>storageCntr := storageCntr v + 1\<rparr>, storageCntr v) else None)"

definition allocateState :: "'s seg_view \<Rightarrow> ('s seg_view \<times> nat) option" where
  "allocateState v =
    (if stateCntr v < numEntries v then Some (v\<lparr>stateCntr := stateCntr v + 1\<rparr>, stateCntr v) else None)"

definition set_node :: "nat \<Rightarrow> tree_node \<Rightarrow> 's seg_view \<Rightarrow> 's seg_view" where
  "set_node i n v = v\<lparr>storage := (storage v)(i \<mapsto> n)\<rparr>"

definition set_state :: "nat \<Rightarrow> 's \<Rightarrow> 's seg_view \<Rightarrow> 's seg_view" where
  "set_state i s v = v\<lparr>stateStorage := (stateStorage v)(i \<mapsto> s)\<rparr>"

text \<open>The state a node points to.\<close>

definition state_of :: "'s seg_view \<Rightarrow> nat \<Rightarrow> 's option" where
  "state_of v i = do { n \<leftarrow> storage v i; stateStorage v (node_state n) }"

partial_function (option) buildRecursively ::
  "('e \<Rightarrow> 's) \<Rightarrow> ('s \<Rightarrow> 's \<Rightarrow> 's) \<Rightarrow> 'e list \<Rightarrow> nat \<Rightarrow> nat \<Rightarrow> 's seg_view \<Rightarrow> ('s seg_view \<times> nat) option" where
  "buildRecursively create combine entries from_pos to_pos v =
    (if from_pos = to_pos then do {
       (v1, leaf) \<leftarrow> allocate v;
       (v2, st) \<leftarrow> allocateState v1;
       e \<leftarrow> (if from_pos < length entries then Some (entries ! from_pos) else None);
       let v3 = set_node leaf \<lparr>leftMin = from_pos, rightMax = to_pos, left_child = None, right_child = None, node_state = st\<rparr> v2;
       Some (set_state st (create e) v3, leaf) }
     else do {
       let mid = from_pos + (to_pos - from_pos) div 2;
       (v1, l) \<leftarrow> buildRecursively create combine entries from_pos mid v;
       (v2, r) \<leftarrow> buildRecursively create combine entries (mid + 1) to_pos v1;
       (v3, inner) \<leftarrow> allocate v2;
       (v4, st) \<leftarrow> allocateState v3;
       let v5 = set_node inner \<lparr>leftMin = from_pos, rightMax = to_pos, left_child = Some l, right_child = Some r, node_state = st\<rparr> v4;
       sl \<leftarrow> state_of v5 l;
       sr \<leftarrow> state_of v5 r;
       Some (set_state st (combine sl sr) v5, inner) })"

text \<open>\<^verbatim>\<open>build\<close>: the entries of the buffer become the leaves; no entry, no root.\<close>

definition seg_build :: "('e \<Rightarrow> 's) \<Rightarrow> ('s \<Rightarrow> 's \<Rightarrow> 's) \<Rightarrow> 'e list \<Rightarrow> 's seg_view option" where
  "seg_build create combine entries =
    (let v = \<lparr>storage = Map.empty, storageCntr = 0, stateStorage = Map.empty, stateCntr = 0,
              numEntries = u64 (length entries * 2 + 18446744073709551615), tree_root = None\<rparr>
     in if entries = [] then Some v
        else do {
          (v', r) \<leftarrow> buildRecursively create combine entries 0 (length entries - 1) v;
          Some (v'\<lparr>tree_root := Some r\<rparr>) })"

text \<open>The result and whether it is still untouched are threaded through the recursion.\<close>

partial_function (option) lookupRecursively ::
  "('s \<Rightarrow> 's \<Rightarrow> 's) \<Rightarrow> 's seg_view \<Rightarrow> nat option \<Rightarrow> nat \<Rightarrow> nat \<Rightarrow> 's \<times> bool \<Rightarrow> ('s \<times> bool) option" where
  "lookupRecursively combine v t from_pos to_pos acc = do {
    i \<leftarrow> t;
    n \<leftarrow> storage v i;
    if from_pos \<le> leftMin n \<and> to_pos \<ge> rightMax n then do {
      s \<leftarrow> stateStorage v (node_state n);
      (if snd acc then Some (s, False) else Some (combine (fst acc) s, False)) }
    else if from_pos \<le> rightMax n \<and> to_pos \<ge> leftMin n then do {
      acc1 \<leftarrow> lookupRecursively combine v (left_child n) from_pos to_pos acc;
      lookupRecursively combine v (right_child n) from_pos to_pos acc1 }
    else Some acc }"

definition seg_lookup ::
  "('s \<Rightarrow> 's \<Rightarrow> 's) \<Rightarrow> 's seg_view \<Rightarrow> nat \<Rightarrow> nat \<Rightarrow> 's \<Rightarrow> 's res" where
  "seg_lookup combine v from_pos to_pos result =
    (if from_pos > to_pos then Inl (RuntimeError ''from must be <= to'')
     else if tree_root v = None then Inl (RuntimeError ''can not perform lookup on empty segment tree'')
     else case lookupRecursively combine v (tree_root v) from_pos to_pos (result, True) of
       None \<Rightarrow> Inl Undefined | Some (s, _) \<Rightarrow> Inr s)"

section \<open>Associative combination\<close>

fun fold1 :: "('s \<Rightarrow> 's \<Rightarrow> 's) \<Rightarrow> 's list \<Rightarrow> 's" where
  "fold1 f [] = undefined"
| "fold1 f (x # xs) = foldl f x xs"

definition range_of :: "nat \<Rightarrow> nat \<Rightarrow> 'a list \<Rightarrow> 'a list" where
  "range_of a b xs = take (b + 1 - a) (drop a xs)"

lemma range_of_single: "a < length xs \<Longrightarrow> range_of a a xs = [xs ! a]"
  by (simp add: range_of_def take_Suc_conv_app_nth)

lemma range_of_split:
  assumes "a \<le> m" and "m < b"
  shows "range_of a b xs = range_of a m xs @ range_of (m + 1) b xs"
proof -
  have "b + 1 - a = (m + 1 - a) + (b - m)" using assms by simp
  then show ?thesis using assms by (simp only: range_of_def take_add) (simp add: add.commute)
qed

lemma range_of_nonempty: "a \<le> b \<Longrightarrow> a < length xs \<Longrightarrow> range_of a b xs \<noteq> []"
  by (simp add: range_of_def)

locale associative_combine =
  fixes combine :: "'s \<Rightarrow> 's \<Rightarrow> 's"
  assumes combine_assoc: "combine (combine a b) c = combine a (combine b c)"
begin

lemma foldl_combine: "foldl combine (combine a b) xs = combine a (foldl combine b xs)"
  by (induction xs arbitrary: b) (simp_all add: combine_assoc)

lemma fold1_append:
  "xs \<noteq> [] \<Longrightarrow> ys \<noteq> [] \<Longrightarrow> fold1 combine (xs @ ys) = combine (fold1 combine xs) (fold1 combine ys)"
  by (cases xs; cases ys) (simp_all add: foldl_combine)

end

interpretation concatenation: associative_combine str_concat
  by unfold_locales (simp add: str_concat_def)

section \<open>The shape of the tree\<close>

inductive tree_at :: "('s \<Rightarrow> 's \<Rightarrow> 's) \<Rightarrow> 's list \<Rightarrow> 's seg_view \<Rightarrow> nat \<Rightarrow> nat \<Rightarrow> nat \<Rightarrow> bool"
  for f :: "'s \<Rightarrow> 's \<Rightarrow> 's" and xs :: "'s list" and v :: "'s seg_view" where
  leaf: "storage v i = Some n \<Longrightarrow> leftMin n = a \<Longrightarrow> rightMax n = a \<Longrightarrow>
    stateStorage v (node_state n) = Some (fold1 f (range_of a a xs)) \<Longrightarrow> tree_at f xs v i a a"
| inner: "storage v i = Some n \<Longrightarrow> leftMin n = a \<Longrightarrow> rightMax n = b \<Longrightarrow>
    stateStorage v (node_state n) = Some (fold1 f (range_of a b xs)) \<Longrightarrow>
    left_child n = Some l \<Longrightarrow> right_child n = Some r \<Longrightarrow> a \<le> m \<Longrightarrow> m < b \<Longrightarrow>
    tree_at f xs v l a m \<Longrightarrow> tree_at f xs v r (m + 1) b \<Longrightarrow> tree_at f xs v i a b"

definition extends :: "'s seg_view \<Rightarrow> 's seg_view \<Rightarrow> bool" where
  "extends v v' \<longleftrightarrow> storage v \<subseteq>\<^sub>m storage v' \<and> stateStorage v \<subseteq>\<^sub>m stateStorage v' \<and> numEntries v' = numEntries v"

lemma extends_trans: "extends u v \<Longrightarrow> extends v w \<Longrightarrow> extends u w"
  unfolding extends_def by (metis map_le_trans)

lemma map_leD: "m \<subseteq>\<^sub>m m' \<Longrightarrow> m i = Some x \<Longrightarrow> m' i = Some x"
  by (auto simp: map_le_def dom_def)

lemma tree_at_extends: "tree_at f xs v i a b \<Longrightarrow> extends v v' \<Longrightarrow> tree_at f xs v' i a b"
proof (induction rule: tree_at.induct)
  case (leaf i n a)
  then show ?case by (auto intro!: tree_at.leaf dest: map_leD simp: extends_def)
next
  case (inner i n a b l r m)
  have "storage v' i = Some n" "stateStorage v' (node_state n) = Some (fold1 f (range_of a b xs))"
    using inner.hyps(1,4) inner.prems by (auto simp: extends_def dest: map_leD)
  then show ?case
    using tree_at.inner[OF _ inner.hyps(2,3) _ inner.hyps(5-8)] inner.IH inner.prems by blast
qed

lemma tree_at_state: "tree_at f xs v i a b \<Longrightarrow> state_of v i = Some (fold1 f (range_of a b xs))"
  by (erule tree_at.cases) (simp_all add: state_of_def)

lemma tree_at_le: "tree_at f xs v i a b \<Longrightarrow> a \<le> b"
  by (induction rule: tree_at.induct) simp_all

text \<open>The places handed out are the first ones.\<close>

definition fresh :: "'s seg_view \<Rightarrow> bool" where
  "fresh v \<longleftrightarrow> dom (storage v) = {..<storageCntr v} \<and> dom (stateStorage v) = {..<stateCntr v} \<and>
    storageCntr v = stateCntr v"


lemma fresh_extends:
  assumes "fresh v" and "storageCntr v < numEntries v"
  shows "\<exists>v2. allocate v = Some (v\<lparr>storageCntr := storageCntr v + 1\<rparr>, storageCntr v) \<and>
    allocateState (v\<lparr>storageCntr := storageCntr v + 1\<rparr>) = Some (v2, stateCntr v) \<and>
    (\<forall>n s. let v' = set_state (stateCntr v) s (set_node (storageCntr v) n v2) in
      fresh v' \<and> extends v v' \<and> storageCntr v' = storageCntr v + 1 \<and>
      storage v' (storageCntr v) = Some n \<and> stateStorage v' (stateCntr v) = Some s) \<and>
    (\<forall>n. extends v (set_node (storageCntr v) n v2))"
  using assms
  by (auto simp: allocate_def allocateState_def fresh_def set_state_def set_node_def extends_def map_le_def Let_def)

lemma buildRecursively_inner:
  assumes "a \<noteq> b" and "m = a + (b - a) div 2"
    and "buildRecursively create combine xs a m v = Some (v1, l)"
    and "buildRecursively create combine xs (m + 1) b v1 = Some (v2, r)"
    and "allocate v2 = Some (v3, i)" and "allocateState v3 = Some (v4, st)"
    and "v5 = set_node i \<lparr>leftMin = a, rightMax = b, left_child = Some l, right_child = Some r, node_state = st\<rparr> v4"
    and "state_of v5 l = Some sl" and "state_of v5 r = Some sr"
  shows "buildRecursively create combine xs a b v = Some (set_state st (combine sl sr) v5, i)"
  using assms(3-6,8,9) unfolding assms(2,7)
  by (subst buildRecursively.simps) (simp only: assms(1) Let_def if_False Option.bind.simps prod.case)

context associative_combine
begin

lemma buildRecursively_ok:
  assumes "a \<le> b" and "b < length xs" and "fresh v" and "storageCntr v + 2 * (b - a) < numEntries v"
  shows "\<exists>v' i. buildRecursively create combine xs a b v = Some (v', i) \<and>
    tree_at combine (map create xs) v' i a b \<and> fresh v' \<and> extends v v' \<and>
    storageCntr v' = storageCntr v + 2 * (b - a) + 1"
  using assms
proof (induction "b - a" arbitrary: a b v rule: less_induct)
  case less
  show ?case
  proof (cases "a = b")
    case True
    obtain v2 where al: "allocate v = Some (v\<lparr>storageCntr := storageCntr v + 1\<rparr>, storageCntr v)"
        "allocateState (v\<lparr>storageCntr := storageCntr v + 1\<rparr>) = Some (v2, stateCntr v)"
      and up: "\<And>n s. let v' = set_state (stateCntr v) s (set_node (storageCntr v) n v2) in
        fresh v' \<and> extends v v' \<and> storageCntr v' = storageCntr v + 1 \<and>
        storage v' (storageCntr v) = Some n \<and> stateStorage v' (stateCntr v) = Some s"
      using fresh_extends[OF less.prems(3)] less.prems(4) by auto
    define n where "n = \<lparr>leftMin = a, rightMax = b, left_child = None, right_child = None, node_state = stateCntr v\<rparr>"
    define v' where "v' = set_state (stateCntr v) (create (xs ! a)) (set_node (storageCntr v) n v2)"
    have v': "fresh v'" "extends v v'" "storageCntr v' = storageCntr v + 1"
        "storage v' (storageCntr v) = Some n" "stateStorage v' (stateCntr v) = Some (create (xs ! a))"
      using up[of "create (xs ! a)" n] by (simp_all add: v'_def Let_def)
    have "tree_at combine (map create xs) v' (storageCntr v) a a"
      using v'(4,5) less.prems(2) True by (intro tree_at.leaf[of _ _ n]) (simp_all add: n_def range_of_single)
    moreover have "buildRecursively create combine xs a b v = Some (v', storageCntr v)"
      using al less.prems(2) True by (subst buildRecursively.simps) (simp add: Let_def v'_def n_def)
    ultimately show ?thesis using v' True by auto
  next
    case False
    define m where "m = a + (b - a) div 2"
    have m: "a \<le> m" "m < b" using False less.prems(1) by (auto simp: m_def)
    have sizes: "m - a < b - a" "b - (m + 1) < b - a" "m < length xs"
        "storageCntr v + 2 * (m - a) < numEntries v"
      using m less.prems by linarith+
    obtain v1 l where 1: "buildRecursively create combine xs a m v = Some (v1, l)"
        "tree_at combine (map create xs) v1 l a m" "fresh v1" "extends v v1"
        "storageCntr v1 = storageCntr v + 2 * (m - a) + 1"
      using less.hyps[OF sizes(1) m(1) sizes(3) less.prems(3) sizes(4)] by auto
    have n1: "numEntries v1 = numEntries v" using 1(4) by (simp add: extends_def)
    have right: "m + 1 \<le> b" "storageCntr v1 + 2 * (b - (m + 1)) < numEntries v1"
      using less.prems(4) m 1(5) n1 by linarith+
    obtain v2 r where 2: "buildRecursively create combine xs (m + 1) b v1 = Some (v2, r)"
        "tree_at combine (map create xs) v2 r (m + 1) b" "fresh v2" "extends v1 v2"
        "storageCntr v2 = storageCntr v1 + 2 * (b - (m + 1)) + 1"
      using less.hyps[OF sizes(2) _ less.prems(2) 1(3) right(2)] right(1) by auto
    have n2: "numEntries v2 = numEntries v" using 2(4) n1 by (simp add: extends_def)
    have c2: "storageCntr v2 = storageCntr v + 2 * (b - a)" using 1(5) 2(5) m by simp
    obtain v4 where al: "allocate v2 = Some (v2\<lparr>storageCntr := storageCntr v2 + 1\<rparr>, storageCntr v2)"
        "allocateState (v2\<lparr>storageCntr := storageCntr v2 + 1\<rparr>) = Some (v4, stateCntr v2)"
      and up: "\<And>n s. let v' = set_state (stateCntr v2) s (set_node (storageCntr v2) n v4) in
        fresh v' \<and> extends v2 v' \<and> storageCntr v' = storageCntr v2 + 1 \<and>
        storage v' (storageCntr v2) = Some n \<and> stateStorage v' (stateCntr v2) = Some s"
      and ex: "\<And>n. extends v2 (set_node (storageCntr v2) n v4)"
      using fresh_extends[OF 2(3)] c2 n2 less.prems(4) by auto
    define n where "n = \<lparr>leftMin = a, rightMax = b, left_child = Some l, right_child = Some r, node_state = stateCntr v2\<rparr>"
    define s where "s = combine (fold1 combine (range_of a m (map create xs))) (fold1 combine (range_of (m + 1) b (map create xs)))"
    define v5 where "v5 = set_node (storageCntr v2) n v4"
    define v' where "v' = set_state (stateCntr v2) s v5"
    have v': "fresh v'" "extends v2 v'" "storageCntr v' = storageCntr v2 + 1"
        "storage v' (storageCntr v2) = Some n" "stateStorage v' (stateCntr v2) = Some s"
      using up[of s n] by (simp_all add: v'_def v5_def Let_def)
    have l2: "tree_at combine (map create xs) v2 l a m" using 1(2) 2(4) by (rule tree_at_extends)
    have states: "state_of v5 l = Some (fold1 combine (range_of a m (map create xs)))"
        "state_of v5 r = Some (fold1 combine (range_of (m + 1) b (map create xs)))"
      using tree_at_state tree_at_extends[OF _ ex[of n]] l2 2(2) unfolding v5_def by blast+
    have val: "s = fold1 combine (range_of a b (map create xs))"
      using m less.prems(2)
      by (subst range_of_split[OF m]) (simp add: s_def fold1_append range_of_nonempty)
    have "tree_at combine (map create xs) v' (storageCntr v2) a b"
      using v'(4,5) m tree_at_extends[OF l2 v'(2)] tree_at_extends[OF 2(2) v'(2)] val
      by (rule_tac n = n and l = l and r = r and m = m in tree_at.inner) (simp_all add: n_def)
    moreover have "buildRecursively create combine xs a b v = Some (v', storageCntr v2)"
      unfolding v'_def s_def
      by (rule buildRecursively_inner[OF False m_def 1(1) 2(1) al v5_def[unfolded n_def] states])
    moreover have "extends v v'" using 1(4) 2(4) v'(2) extends_trans by blast
    ultimately show ?thesis using v' c2 by simp
  qed
qed

lemma lookupRecursively_ok:
  assumes "tree_at combine xs v i a b" and "b < length xs" and range: "from_pos \<le> to_pos"
  shows "lookupRecursively combine v (Some i) from_pos to_pos (result, first) =
    Some (if from_pos \<le> b \<and> a \<le> to_pos then
            (let s = fold1 combine (range_of (max from_pos a) (min to_pos b) xs)
             in (if first then s else combine result s, False))
          else (result, first))"
  using assms(1,2)
proof (induction arbitrary: result first rule: tree_at.induct)
  case (leaf i n a)
  show ?case
    using leaf.hyps by (subst lookupRecursively.simps) (simp add: max_def min_def Let_def)
next
  case (inner i n a b l r m)
  have ab: "a \<le> b" using inner.hyps by simp
  show ?case
  proof (cases "from_pos \<le> a \<and> b \<le> to_pos")
    case True
    then have "max from_pos a = a" "min to_pos b = b" by auto
    then show ?thesis
      using inner.hyps ab True by (subst lookupRecursively.simps) (simp add: Let_def)
  next
    case part: False
    show ?thesis
    proof (cases "from_pos \<le> b \<and> a \<le> to_pos")
      case False
      then show ?thesis
        using inner.hyps part by (subst lookupRecursively.simps) auto
    next
      case True
      let ?F = "max from_pos a" and ?T = "min to_pos b"
      have step: "lookupRecursively combine v (Some i) from_pos to_pos (result, first) =
          Option.bind (lookupRecursively combine v (Some l) from_pos to_pos (result, first))
            (lookupRecursively combine v (Some r) from_pos to_pos)"
        using inner.hyps part True by (subst lookupRecursively.simps) auto
      have mb: "m < length xs" using inner.hyps inner.prems by simp
      consider "m < from_pos" | "to_pos \<le> m" "from_pos \<le> m" | "from_pos \<le> m" "m < to_pos" by linarith
      then show ?thesis
      proof cases
        case 1
        then have "max from_pos a = from_pos" "max from_pos (m + 1) = from_pos" using inner.hyps by simp_all
        then show ?thesis
          using step inner.IH inner.prems mb 1 inner.hyps(8) range True by simp
      next
        case 2
        then have "min to_pos b = to_pos" "min to_pos m = to_pos" using inner.hyps by simp_all
        then show ?thesis
          using step inner.IH inner.prems mb 2 True by (simp add: Let_def)
      next
        case 3
        have "?F \<le> m" "m < ?T" using 3 inner.hyps by simp_all
        then have s: "fold1 combine (range_of ?F ?T xs) =
            combine (fold1 combine (range_of ?F m xs)) (fold1 combine (range_of (m + 1) ?T xs))"
          using inner.prems mb by (subst range_of_split[of _ m]) (simp_all add: fold1_append range_of_nonempty)
        have lo: "min to_pos m = m" "max from_pos (m + 1) = m + 1" using 3 by simp_all
        show ?thesis
          using step inner.IH inner.prems mb 3 True lo inner.hyps(7)
          by (simp add: s Let_def combine_assoc)
      qed
    qed
  qed
qed

lemma seg_build_ok:
  assumes "xs \<noteq> []" and "length xs \<le> 9223372036854775808"
  shows "\<exists>v r. seg_build create combine xs = Some v \<and> tree_root v = Some r \<and>
    tree_at combine (map create xs) v r 0 (length xs - 1) \<and>
    numEntries v = 2 * length xs - 1 \<and> storageCntr v = numEntries v \<and> stateCntr v = numEntries v"
proof -
  define v0 :: "'s seg_view" where "v0 = \<lparr>storage = Map.empty, storageCntr = 0, stateStorage = Map.empty, stateCntr = 0,
    numEntries = u64 (length xs * 2 + 18446744073709551615), tree_root = None\<rparr>"
  have "length xs * 2 + 18446744073709551615 = (2 * length xs - 1) + 18446744073709551616"
    using assms(1) by (cases xs) simp_all
  then have "u64 (length xs * 2 + 18446744073709551615) = (2 * length xs - 1) mod 18446744073709551616"
    unfolding u64_def by (simp only: mod_add_self2)
  moreover have "2 * length xs - 1 < 18446744073709551616" using assms(2) by linarith
  ultimately have num: "numEntries v0 = 2 * length xs - 1" by (simp add: v0_def)
  have fr: "fresh v0" by (simp add: fresh_def v0_def)
  have "storageCntr v0 + 2 * (length xs - 1 - 0) < numEntries v0"
    using num assms(1) by (cases xs) (simp_all add: v0_def)
  then obtain v1 r where v1: "buildRecursively create combine xs 0 (length xs - 1) v0 = Some (v1, r)"
      "tree_at combine (map create xs) v1 r 0 (length xs - 1)" "fresh v1" "extends v0 v1"
      "storageCntr v1 = storageCntr v0 + 2 * (length xs - 1) + 1"
    using buildRecursively_ok[of 0 "length xs - 1" xs v0 create] fr assms(1) by auto
  define v where "v = v1\<lparr>tree_root := Some r\<rparr>"
  have "extends v1 v" by (simp add: extends_def v_def)
  then have "tree_at combine (map create xs) v r 0 (length xs - 1)" using v1(2) tree_at_extends by blast
  moreover have "seg_build create combine xs = Some v"
    using v1(1) assms(1) by (simp add: seg_build_def v0_def[symmetric] v_def)
  moreover have "storageCntr v1 = numEntries v1"
    using v1(4,5) num assms(1) by (cases xs) (simp_all add: extends_def v0_def)
  ultimately show ?thesis
    using v1(3,4) num by (simp add: v_def fresh_def extends_def)
qed

end

text \<open>C19: Building a segment tree over any non-empty buffer and looking up any range of positions that
  reaches into it returns (no assertion fails, no null pointer is followed) and yields the states of the
  entries of the range combined in their order, for every associative way of combining states; the part
  of the range behind the last entry is ignored.\<close>
theorem segment_lookup:
  assumes "associative_combine combine" and "xs \<noteq> []" and "length xs \<le> 9223372036854775808"
    and "from_pos \<le> to_pos" and "from_pos < length xs"
  shows "\<exists>v. seg_build create combine xs = Some v \<and>
    seg_lookup combine v from_pos to_pos result =
      Inr (fold1 combine (map create (range_of from_pos (min to_pos (length xs - 1)) xs)))"
proof -
  obtain v r where v: "seg_build create combine xs = Some v" "tree_root v = Some r"
      "tree_at combine (map create xs) v r 0 (length xs - 1)"
    using associative_combine.seg_build_ok[OF assms(1-3)] by blast
  have "length xs - 1 < length (map create xs)" using assms(2) by simp
  moreover have "from_pos \<le> length xs - 1" using assms(5) by linarith
  ultimately show ?thesis
    using v associative_combine.lookupRecursively_ok[OF assms(1) v(3) _ assms(4), of result True] assms(4)
    by (auto simp: seg_lookup_def Let_def range_of_def drop_map take_map)
qed

theorem segment_lookup_witness:
  "\<exists>v. seg_build (\<lambda>x. [x]) str_concat [1, 2, 3 :: byte] = Some v \<and>
    seg_lookup str_concat v 1 7 [] = Inr (fold1 str_concat (map (\<lambda>x. [x]) (range_of 1 (min 7 (length [1, 2, 3 :: byte] - 1)) [1, 2, 3 :: byte])))"
  by (rule segment_lookup) (simp_all add: concatenation.associative_combine_axioms)



text \<open>A range behind the last entry leaves the result as it was.\<close>

lemma segment_lookup_outside:
  assumes "associative_combine combine" and "xs \<noteq> []" and "length xs \<le> 9223372036854775808"
    and "from_pos \<le> to_pos" and "length xs \<le> from_pos"
  shows "\<exists>v. seg_build create combine xs = Some v \<and> seg_lookup combine v from_pos to_pos result = Inr result"
proof -
  obtain v r where v: "seg_build create combine xs = Some v" "tree_root v = Some r"
      "tree_at combine (map create xs) v r 0 (length xs - 1)"
    using associative_combine.seg_build_ok[OF assms(1-3)] by blast
  have "length xs - 1 < length (map create xs)" using assms(2) by simp
  moreover have "\<not> from_pos \<le> length xs - 1" using assms(2,5) by (cases xs) simp_all
  ultimately show ?thesis
    using v associative_combine.lookupRecursively_ok[OF assms(1) v(3) _ assms(4), of result True] assms(4)
    by (auto simp: seg_lookup_def)
qed

end
