(* ===== verification/Runtime_Helpers.thy ===== *)
theory Runtime_Helpers
  imports Byte_Buffer String_Runtime
begin

text \<open>
  The helpers of the runtime (\<^verbatim>\<open>src/include/runtime/helpers.h\<close>): strings in 16 bytes
  (\<^verbatim>\<open>VarLen32\<close>) and pointers that carry a 16-bit Bloom filter of hashes in their upper bits.
  Memory is a partial map from addresses to bytes; \<open>None\<close> is a load from an address that is not
  mapped.
\<close>

section \<open>Loads\<close>

type_synonym memory = "nat \<rightharpoonup> byte"

fun load_bytes :: "memory \<Rightarrow> nat \<Rightarrow> nat \<Rightarrow> bytes option" where
  "load_bytes m p 0 = Some []"
| "load_bytes m p (Suc n) = do { b \<leftarrow> m p; bs \<leftarrow> load_bytes m (p + 1) n; Some (b # bs) }"

definition unalignedLoad32 :: "memory \<Rightarrow> nat \<Rightarrow> nat option" where
  "unalignedLoad32 m p = map_option le_val (load_bytes m p 4)"

definition unalignedLoad64 :: "memory \<Rightarrow> nat \<Rightarrow> nat option" where
  "unalignedLoad64 m p = map_option le_val (load_bytes m p 8)"

definition cachelineRemains8 :: "nat \<Rightarrow> bool" where
  "cachelineRemains8 p \<longleftrightarrow> p mod 64 \<le> 56"

text \<open>\<^verbatim>\<open>bytes & ~(~0 << shift)\<close> keeps the lower \<open>shift\<close> bits, \<^verbatim>\<open>>>\<close> drops them.\<close>

definition read8PadZero :: "memory \<Rightarrow> nat \<Rightarrow> nat \<Rightarrow> nat option" where
  "read8PadZero m p n =
    (if n = 0 then Some 0
     else if n \<ge> 8 then unalignedLoad64 m p
     else if cachelineRemains8 p then do {
       v \<leftarrow> unalignedLoad64 m p;
       let shift = n * 8;
       Some (v mod 2 ^ shift) }
     else do {
       v \<leftarrow> unalignedLoad64 m (p + n - 8);
       Some (v div 2 ^ (64 - n * 8)) })"

section \<open>VarLen32\<close>

text \<open>\<open>vl_bytes\<close> is the union: the string itself, or its first four bytes and a pointer.\<close>

record varlen =
  vl_len :: nat
  vl_bytes :: bytes

definition shortLen :: nat where
  "shortLen = 12"

definition mk_varlen :: "memory \<Rightarrow> nat \<Rightarrow> nat \<Rightarrow> varlen option" where
  "mk_varlen m p n =
    (if n > shortLen then do {
       first4 \<leftarrow> unalignedLoad32 m p;
       Some \<lparr>vl_len = n, vl_bytes = le_bytes 4 first4 @ le_bytes 8 p\<rparr> }
     else if n > 8 then do {
       first4 \<leftarrow> unalignedLoad32 m p;
       last8 \<leftarrow> unalignedLoad64 m (p + n - 8);
       let duplicate = 12 - n;
       Some \<lparr>vl_len = n, vl_bytes = le_bytes 4 first4 @ le_bytes 8 (last8 div 2 ^ (duplicate * 8))\<rparr> }
     else do {
       v \<leftarrow> read8PadZero m p n;
       Some \<lparr>vl_len = n, vl_bytes = le_bytes 4 (v mod 2 ^ 32) @ le_bytes 8 (v div 2 ^ 32)\<rparr> })"

definition isShort :: "varlen \<Rightarrow> bool" where
  "isShort v \<longleftrightarrow> vl_len v \<le> shortLen"

text \<open>\<^verbatim>\<open>getPtr\<close> points into the object for short strings; \<open>varlen_str\<close> is the string found there.\<close>

definition varlen_str :: "memory \<Rightarrow> varlen \<Rightarrow> bytes option" where
  "varlen_str m v =
    (if vl_len v \<le> shortLen then Some (take (vl_len v) (vl_bytes v))
     else load_bytes m (le_val (drop 4 (vl_bytes v))) (vl_len v))"

section \<open>Tagged pointers\<close>

definition ptrMask :: "64 word" where
  "ptrMask = 0x0000ffffffffffff"

definition tagMask :: "64 word" where
  "tagMask = 0xffff000000000000"

definition tag :: "64 word \<Rightarrow> 64 word \<Rightarrow> 64 word \<Rightarrow> 64 word" where
  "tag ptr previousPtr hash =
    (let previousTag = previousPtr AND tagMask;
         currentTag = hash AND tagMask
     in (ptr AND ptrMask) OR previousTag OR currentTag)"

definition filterTagged :: "64 word \<Rightarrow> 64 word \<Rightarrow> 64 word" where
  "filterTagged ptr hash =
    (let requiredTag = hash AND tagMask;
         currentTag = hash AND tagMask
     in if currentTag OR requiredTag = currentTag then ptr AND ptrMask else 0)"

definition untag :: "64 word \<Rightarrow> 64 word" where
  "untag ptr = ptr AND ptrMask"

lemma ptr_masks: "ptrMask = mask 48" "tagMask = NOT (mask 48)"
  by (simp_all add: ptrMask_def tagMask_def mask_eq_exp_minus_1)

lemma untag_tag [simp]: "untag (tag p q h) = untag p"
  unfolding untag_def tag_def Let_def ptr_masks
  by (intro bit_eqI) (auto simp: bit_simps)

lemma untag_untag [simp]: "untag (untag p) = untag p"
  by (simp add: untag_def)

text \<open>The filter compares the hash with itself and so lets every pointer pass.\<close>

lemma filterTagged_untag [simp]: "filterTagged p h = untag p"
  by (simp add: filterTagged_def untag_def Let_def)

section \<open>The string of a VarLen32\<close>

text \<open>Memory is mapped in pages, so whole cache lines are.\<close>

definition mapped_lines :: "memory \<Rightarrow> bool" where
  "mapped_lines m \<longleftrightarrow> (\<forall>a b. a div 64 = b div 64 \<longrightarrow> m a \<noteq> None \<longrightarrow> m b \<noteq> None)"

definition string_at :: "memory \<Rightarrow> nat \<Rightarrow> bytes \<Rightarrow> bool" where
  "string_at m p s \<longleftrightarrow> (\<forall>i < length s. m (p + i) = Some (s ! i))"

lemma load_bytes_string: "string_at m p s \<Longrightarrow> load_bytes m p (length s) = Some s"
proof (induction s arbitrary: p)
  case (Cons b s)
  have "m p = Some b" using Cons.prems by (auto simp: string_at_def)
  moreover have "string_at m (p + 1) s" using Cons.prems by (fastforce simp: string_at_def)
  ultimately show ?case using Cons.IH by simp
qed simp

lemma load_bytes_mapped: "\<forall>i < n. m (p + i) \<noteq> None \<Longrightarrow> \<exists>bs. load_bytes m p n = Some bs \<and> length bs = n"
proof (induction n arbitrary: p)
  case (Suc n)
  obtain b where "m p = Some b" using Suc.prems by (metis add.right_neutral not_None_eq zero_less_Suc)
  moreover have "\<forall>i < n. m (p + 1 + i) \<noteq> None"
    using Suc.prems by (metis Suc_mono add.assoc plus_1_eq_Suc)
  ultimately show ?case using Suc.IH[of "p + 1"] by auto
qed simp

lemma load_bytes_nth: "load_bytes m p n = Some bs \<Longrightarrow> i < n \<Longrightarrow> m (p + i) = Some (bs ! i)"
proof (induction n arbitrary: p bs i)
  case (Suc n)
  then obtain b bs' where "m p = Some b" "load_bytes m (p + 1) n = Some bs'" "bs = b # bs'"
    by (auto simp: Option.bind_eq_Some_conv)
  then show ?case using Suc.IH[of "p + 1" bs' "i - 1"] Suc.prems by (cases i) simp_all
qed simp

lemma load_bytes_length: "load_bytes m p n = Some bs \<Longrightarrow> length bs = n"
  by (induction n arbitrary: p bs) (auto simp: Option.bind_eq_Some_conv)

lemma string_at_take: "string_at m p s \<Longrightarrow> string_at m p (take n s)"
  by (simp add: string_at_def)

lemma string_at_drop: "string_at m p s \<Longrightarrow> n \<le> length s \<Longrightarrow> string_at m (p + n) (drop n s)"
  by (simp add: string_at_def add.assoc)

lemma le_val_append: "le_val (xs @ ys) = le_val xs + 256 ^ length xs * le_val ys"
  by (induction xs) (simp_all add: algebra_simps)

lemma power_bytes: "(2 :: nat) ^ (n * 8) = 256 ^ n"
  using power_mult[of "2 :: nat" 8 n] by (simp add: mult.commute)

lemma le_val_split: "le_val bs = le_val (take n bs) + 2 ^ (n * 8) * le_val (drop n bs)"
proof (cases "n \<le> length bs")
  case True
  then show ?thesis using le_val_append[of "take n bs" "drop n bs"] by (simp add: power_bytes)
qed simp

lemma le_val_take_less: "le_val (take n bs) < 2 ^ (n * 8)"
proof -
  have "le_val (take n bs) < 256 ^ length (take n bs)" by (rule le_val_less)
  also have "\<dots> \<le> 256 ^ n" by (intro power_increasing) simp_all
  finally show ?thesis by (simp add: power_bytes)
qed

lemma le_val_drop: "le_val bs div 2 ^ (n * 8) = le_val (drop n bs)"
proof -
  have "le_val bs div 2 ^ (n * 8) = (le_val (take n bs) + 2 ^ (n * 8) * le_val (drop n bs)) div 2 ^ (n * 8)"
    using le_val_split[of bs n] by simp
  also have "\<dots> = le_val (drop n bs)" using le_val_take_less[of n bs] by simp
  finally show ?thesis .
qed

lemma le_val_take: "le_val bs mod 2 ^ (n * 8) = le_val (take n bs)"
proof -
  have "le_val bs mod 2 ^ (n * 8) = (le_val (take n bs) + 2 ^ (n * 8) * le_val (drop n bs)) mod 2 ^ (n * 8)"
    using le_val_split[of bs n] by simp
  also have "\<dots> = le_val (take n bs)" using le_val_take_less[of n bs] by simp
  finally show ?thesis .
qed

lemma le_bytes_0: "le_bytes n 0 = replicate n 0"
  by (induction n) simp_all

lemma le_bytes_pad: "length bs \<le> n \<Longrightarrow> le_bytes n (le_val bs) = bs @ replicate (n - length bs) 0"
proof -
  have z: "le_val (replicate k 0) = 0" for k by (induction k) simp_all
  assume "length bs \<le> n"
  then show ?thesis
    using le_bytes_le_val[of "bs @ replicate (n - length bs) 0"] by (simp add: le_val_append z)
qed


section \<open>Short loads stay where they may\<close>

lemma load64_string:
  assumes "string_at m p s" and "length s = 8"
  shows "unalignedLoad64 m p = Some (le_val s)"
  using load_bytes_string[OF assms(1)] assms(2) by (simp add: unalignedLoad64_def)

lemma read8PadZero_string:
  assumes m: "mapped_lines m" and s: "string_at m p s" and n: "length s \<le> 8"
  shows "read8PadZero m p (length s) = Some (le_val s)"
proof (cases "length s = 0 \<or> length s = 8")
  case True
  then show ?thesis using load64_string[OF s] by (auto simp: read8PadZero_def)
next
  case False
  let ?n = "length s"
  have n: "0 < ?n" "?n < 8" using False n by auto
  have first: "m p \<noteq> None" using s n by (force simp: string_at_def)
  show ?thesis
  proof (cases "cachelineRemains8 p")
    case True
    have "m (p + i) \<noteq> None" if "i < 8" for i
    proof -
      have "(p + i) div 64 = p div 64" using True that div_add1_eq[of p i 64] by (simp add: cachelineRemains8_def)
      then show ?thesis using m first unfolding mapped_lines_def by metis
    qed
    then obtain bs where bs: "load_bytes m p 8 = Some bs" "length bs = 8"
      using load_bytes_mapped by blast
    have "take ?n bs = s"
      using s bs load_bytes_nth[OF bs(1)] n by (intro nth_equalityI) (force simp: string_at_def)+
    then show ?thesis
      using bs n True le_val_take[of bs ?n] by (simp add: read8PadZero_def unalignedLoad64_def Let_def)
  next
    case False
    then have r: "56 < p mod 64" by (simp add: cachelineRemains8_def)
    then have p: "8 \<le> p" by (metis le_trans less_imp_le_nat mod_less_eq_dividend numeral_le_iff semiring_norm(68) semiring_norm(71) nle_le order_less_le_trans)
    have "m (p + ?n - 8 + i) \<noteq> None" if "i < 8" for i
    proof (cases "i < 8 - ?n")
      case True
      then have "p + ?n - 8 + i < p" "p - 8 < p + ?n - 8 + i" using p n by linarith+
      then have "p + ?n - 8 + i = 64 * (p div 64) + (p mod 64 - (p - (p + ?n - 8 + i)))"
        using r mult_div_mod_eq[of 64 p] by linarith
      moreover have "p mod 64 - (p - (p + ?n - 8 + i)) < 64" using mod_less_divisor[of 64 p] by linarith
      ultimately have "(p + ?n - 8 + i) div 64 = p div 64" by (metis div_mult_self4 div_less add.right_neutral add_0 zero_neq_numeral)
      then show ?thesis using m first unfolding mapped_lines_def by metis
    next
      case False
      then have "p + ?n - 8 + i = p + (i - (8 - ?n))" "i - (8 - ?n) < ?n" using p n that by linarith+
      then show ?thesis using s by (simp add: string_at_def)
    qed
    then obtain bs where bs: "load_bytes m (p + ?n - 8) 8 = Some bs" "length bs = 8"
      using load_bytes_mapped by blast
    have "drop (8 - ?n) bs = s"
    proof (rule nth_equalityI)
      show "length (drop (8 - ?n) bs) = ?n" using bs n by simp
      fix i assume "i < length (drop (8 - ?n) bs)"
      then have i: "i < ?n" using bs n by simp
      then have "m (p + ?n - 8 + (8 - ?n + i)) = Some (bs ! (8 - ?n + i))"
        using load_bytes_nth[OF bs(1), of "8 - ?n + i"] n by simp
      moreover have "p + ?n - 8 + (8 - ?n + i) = p + i" using p n by linarith
      ultimately show "drop (8 - ?n) bs ! i = s ! i" using s i bs n by (simp add: string_at_def)
    qed
    moreover have "64 - ?n * 8 = (8 - ?n) * 8" using n by simp
    ultimately show ?thesis
      using bs n False le_val_drop[of bs "8 - ?n"] by (simp add: read8PadZero_def unalignedLoad64_def)
  qed
qed

lemma mk_varlen_short:
  assumes m: "mapped_lines m" and s: "string_at m p s" and n: "length s \<le> 12"
  shows "mk_varlen m p (length s) = Some \<lparr>vl_len = length s, vl_bytes = s @ replicate (12 - length s) 0\<rparr>"
proof (cases "length s \<le> 8")
  case True
  have "le_val s mod 2 ^ 32 = le_val (take 4 s)" "le_val s div 2 ^ 32 = le_val (drop 4 s)"
    using le_val_take[of s 4] le_val_drop[of s 4] by simp_all
  then have "le_bytes 4 (le_val s mod 2 ^ 32) @ le_bytes 8 (le_val s div 2 ^ 32) = s @ replicate (12 - length s) 0"
  proof (cases "length s \<le> 4")
    case True
    then have "12 - length s = (4 - length s) + 8" by simp
    then have "replicate (12 - length s) (0 :: byte) = replicate (4 - length s) 0 @ replicate 8 0"
      by (simp only: replicate_add)
    then show ?thesis
      using True le_val_take[of s 4] by (simp add: le_bytes_pad le_bytes_0)
  next
    case False
    then show ?thesis
      using \<open>length s \<le> 8\<close> le_val_take[of s 4] le_val_drop[of s 4] by (simp add: le_bytes_pad)
  qed
  then show ?thesis
    using read8PadZero_string[OF m s True] True by (simp add: mk_varlen_def shortLen_def)
next
  case False
  have "load_bytes m p 4 = Some (take 4 s)"
    using load_bytes_string[OF string_at_take[OF s, of 4]] False by simp
  then have "unalignedLoad32 m p = Some (le_val (take 4 s))" by (simp add: unalignedLoad32_def)
  moreover have "unalignedLoad64 m (p + length s - 8) = Some (le_val (drop (length s - 8) s))"
    using load64_string[OF string_at_drop[OF s, of "length s - 8"]] False by simp
  moreover have "le_val (drop (length s - 8) s) div 2 ^ ((12 - length s) * 8) = le_val (drop 4 s)"
    using le_val_drop[of "drop (length s - 8) s" "12 - length s"] False n by simp
  ultimately show ?thesis
    using False n by (simp add: mk_varlen_def shortLen_def le_bytes_pad Let_def)
qed

text \<open>Two cache lines of memory, for the examples.\<close>

definition sample_memory :: memory where
  "sample_memory a = (if a < 128 then Some (of_nat (a mod 5)) else None)"

lemma sample_memory_lines: "mapped_lines sample_memory"
proof -
  have "a div 64 < 2 \<longleftrightarrow> a < 128" for a :: nat by (simp add: div_less_iff_less_mult)
  then show ?thesis unfolding mapped_lines_def sample_memory_def by (metis option.distinct(1))
qed

lemma string_at_simps:
  "string_at m p []"
  "string_at m p (b # s) \<longleftrightarrow> m p = Some b \<and> string_at m (p + 1) s"
  by (auto simp: string_at_def less_Suc_eq_0_disj)

text \<open>C21: Packing a string in memory into a \<^verbatim>\<open>VarLen32\<close> and reading it back gives the string, for every
  length and every address at which it lies: the eight bytes loaded at once for a short string are
  always mapped, bytes that do not belong to it are cut off, and longer strings are found behind
  the pointer.\<close>
theorem varlen_roundtrip:
  assumes "mapped_lines m" and "string_at m p s" and "p < 18446744073709551616" and "length s < 4294967296"
  shows "\<exists>v. mk_varlen m p (length s) = Some v \<and> vl_len v = length s \<and> varlen_str m v = Some s"
proof (cases "length s \<le> 12")
  case True
  then show ?thesis
    using mk_varlen_short[OF assms(1,2)] by (simp add: varlen_str_def shortLen_def)
next
  case False
  have "load_bytes m p 4 = Some (take 4 s)"
    using load_bytes_string[OF string_at_take[OF assms(2), of 4]] False by simp
  then have "mk_varlen m p (length s) = Some \<lparr>vl_len = length s, vl_bytes = le_bytes 4 (le_val (take 4 s)) @ le_bytes 8 p\<rparr>"
    using False by (simp add: mk_varlen_def shortLen_def unalignedLoad32_def)
  then show ?thesis
    using False assms(3) load_bytes_string[OF assms(2)] by (simp add: varlen_str_def shortLen_def)
qed

theorem varlen_roundtrip_witness:
  "\<exists>v. mk_varlen sample_memory 60 (length [0, 1, 2, 3, 4, 0 :: byte]) = Some v \<and>
    vl_len v = length [0, 1, 2, 3, 4, 0 :: byte] \<and> varlen_str sample_memory v = Some [0, 1, 2, 3, 4, 0]"
  by (rule varlen_roundtrip)
    (simp_all add: sample_memory_lines string_at_simps sample_memory_def)

text \<open>Two strings of at most twelve bytes have the same 16-byte representation exactly when they are
  equal, wherever they lie in memory: the bytes behind the string are zero.\<close>
theorem varlen_short_canonical:
  assumes "mapped_lines m" and "string_at m p s" and "string_at m q t" and "length s \<le> 12" and "length t \<le> 12"
  shows "mk_varlen m p (length s) = mk_varlen m q (length t) \<longleftrightarrow> s = t"
  unfolding mk_varlen_short[OF assms(1,2,4)] mk_varlen_short[OF assms(1,3,5)] by auto

theorem varlen_short_canonical_witness:
  "mk_varlen sample_memory 60 (length [0, 1 :: byte]) = mk_varlen sample_memory 5 (length [0, 1 :: byte]) \<longleftrightarrow> [0, 1 :: byte] = [0, 1]"
  by (rule varlen_short_canonical)
    (simp_all add: sample_memory_lines string_at_simps sample_memory_def)

end
