(* ===== verification/Scalar_Runtime.thy ===== *)
theory Scalar_Runtime
  imports Prelude
begin

text \<open>
  Functions on numbers that compiled queries call (\<^verbatim>\<open>src/lib/runtime/IntegerRuntime.cpp\<close>,
  \<^verbatim>\<open>DecimalRuntime.cpp\<close>, \<^verbatim>\<open>DateRuntime.cpp\<close>). Signed integers are mathematical ones; a result
  outside their type is the undefined behaviour of C++.
\<close>

section \<open>Checked signed arithmetic\<close>

definition checked :: "nat \<Rightarrow> int \<Rightarrow> int res" where
  "checked n i = (if in_signed n i then Inr i else Inl Undefined)"

text \<open>Division of C++ truncates.\<close>

definition cdiv :: "int \<Rightarrow> int \<Rightarrow> int" where
  "cdiv a b = sgn a * sgn b * (\<bar>a\<bar> div \<bar>b\<bar>)"

definition cmod :: "int \<Rightarrow> int \<Rightarrow> int" where
  "cmod a b = a - b * cdiv a b"

section \<open>Integers\<close>

text \<open>The loop of \<^verbatim>\<open>IntegerRuntime::pow\<close>: square and multiply.\<close>

function pow_loop :: "int \<Rightarrow> int \<Rightarrow> nat \<Rightarrow> int res" where
  "pow_loop result base n =
    (if n = 0 then Inr result
     else ebind (if n mod 2 = 1 then checked 32 (result * base) else Inr result) (\<lambda>result'.
       ebind (checked 32 (base * base)) (\<lambda>base'. pow_loop result' base' (n div 2))))"
  by pat_completeness auto
termination
  by (relation "measure (\<lambda>(result, base, n). n)") auto

definition int_pow :: "int \<Rightarrow> int \<Rightarrow> int res" where
  "int_pow base n =
    (if base = 0 then Inr 0
     else if n = 0 then Inr 1
     else if n < 0 then
       ebind (checked 32 (- n)) (\<lambda>n'. pow_loop 1 (cdiv 1 base) (nat n'))
     else pow_loop 1 base (nat n))"

text \<open>\<^verbatim>\<open>round64\<close> and its siblings: integers are round already.\<close>

definition int_round :: "int \<Rightarrow> int \<Rightarrow> int res" where
  "int_round value roundByScale = (if roundByScale \<ge> 0 then Inr value else Inl Undefined)"

declare pow_loop.simps [simp del]

lemma pow_loop_0 [simp]: "pow_loop r b 0 = Inr r"
  by (simp add: pow_loop.simps)

text \<open>The number of times the exponent can be halved.\<close>

fun bits :: "nat \<Rightarrow> nat" where
  "bits n = (if n = 0 then 0 else Suc (bits (n div 2)))"

declare bits.simps [simp del]

lemma bits_less: "n < 2 ^ bits n"
proof (induction n rule: less_induct)
  case (less n)
  show ?case
  proof (cases "n = 0")
    case False
    then have "n div 2 < 2 ^ bits (n div 2)" using less by simp
    then show ?thesis using False by (simp add: bits.simps[of n])
  qed (simp add: bits.simps[of 0])
qed

lemma in_signed_abs: "in_signed 32 i \<Longrightarrow> \<bar>j\<bar> \<le> \<bar>i\<bar> \<Longrightarrow> 0 \<le> i \<Longrightarrow> in_signed 32 j"
  by (auto simp: in_signed_def abs_le_iff)

lemma abs_power_mono:
  assumes "(b :: int) \<noteq> 0" and "m \<le> n"
  shows "\<bar>b ^ m\<bar> \<le> \<bar>b ^ n\<bar>"
proof -
  have "1 \<le> \<bar>b\<bar>" using assms(1) by simp
  then show ?thesis using assms(2) by (simp add: power_abs power_increasing)
qed

lemma one_le_abs_power: "(b :: int) \<noteq> 0 \<Longrightarrow> 1 \<le> \<bar>b ^ n\<bar>"
  using abs_power_mono[of b 0 n] by simp

lemma pow_loop_ok:
  assumes "b \<noteq> 0" and "\<bar>r * b ^ n\<bar> \<le> b ^ (2 ^ bits n)" and "in_signed 32 (b ^ (2 ^ bits n))"
  shows "pow_loop r b n = Inr (r * b ^ n)"
  using assms
proof (induction n arbitrary: r b rule: less_induct)
  case (less n)
  show ?case
  proof (cases "n = 0")
    case False
    have sq: "(b * b) ^ k = b ^ (2 * k)" for k by (simp add: power_mult power2_eq_square)
    have top: "(b * b) ^ (2 ^ bits (n div 2)) = b ^ (2 ^ bits n)"
      using False by (simp add: sq bits.simps[of n])
    have pos: "0 \<le> b ^ (2 ^ bits n)" using False by (simp add: bits.simps[of n] zero_le_even_power)
    have "2 \<le> (2::nat) ^ bits n" using False by (simp add: bits.simps[of n] self_le_power)
    then have "\<bar>b ^ 2\<bar> \<le> \<bar>b ^ (2 ^ bits n)\<bar>" by (rule abs_power_mono[OF less.prems(1)])
    then have sq_ok: "in_signed 32 (b * b)"
      using in_signed_abs[OF less.prems(3) _ pos] by (simp add: power2_eq_square)
    define r' where "r' = (if n mod 2 = 1 then r * b else r)"
    have n: "n = 2 * (n div 2) + n mod 2" by simp
    have val: "r' * (b * b) ^ (n div 2) = r * b ^ n"
    proof (cases "n mod 2 = 1")
      case True
      then have "b ^ n = b ^ (2 * (n div 2)) * b" using n by (metis power_Suc2 Suc_eq_plus1)
      then show ?thesis using True by (simp add: r'_def sq mult_ac)
    next
      case False
      then have "n = 2 * (n div 2)" using n by (metis mod_2_eq_odd odd_iff_mod_2_eq_one add.right_neutral even_iff_mod_2_eq_zero)
      then show ?thesis using False by (metis r'_def sq)
    qed
    have "\<bar>r'\<bar> \<le> \<bar>r' * (b * b) ^ (n div 2)\<bar>"
    proof -
      have "1 \<le> \<bar>(b * b) ^ (n div 2)\<bar>" using less.prems(1) by (intro one_le_abs_power) simp
      then show ?thesis using mult_left_mono[of 1 "\<bar>(b * b) ^ (n div 2)\<bar>" "\<bar>r'\<bar>"] by (simp add: abs_mult)
    qed
    then have r_le: "\<bar>r'\<bar> \<le> b ^ (2 ^ bits n)" using val less.prems(2) by simp
    have r_ok: "in_signed 32 r'" using in_signed_abs[OF less.prems(3) _ pos] r_le by simp
    have "pow_loop r' (b * b) (n div 2) = Inr (r' * (b * b) ^ (n div 2))"
      using False less.prems top val by (intro less.IH) simp_all
    then show ?thesis
      using False sq_ok r_ok val
      by (subst pow_loop.simps) (cases "n mod 2 = 1"; simp add: checked_def r'_def)
  qed (use less.prems in simp)
qed

text \<open>Conversely the squares have to stay in range, also the last one, which is not used.\<close>

lemma pow_loop_range:
  assumes "b \<noteq> 0" and "pow_loop r b n = Inr x" and "0 < n"
  shows "in_signed 32 (b ^ (2 ^ bits n))"
  using assms
proof (induction n arbitrary: r b rule: less_induct)
  case (less n)
  obtain r' where sq_ok: "in_signed 32 (b * b)" and rec: "pow_loop r' (b * b) (n div 2) = Inr x"
    using less.prems by (subst (asm) pow_loop.simps) (auto simp: ebind_eq_Inr_iff checked_def split: if_splits)
  have top: "(b * b) ^ (2 ^ bits (n div 2)) = b ^ (2 ^ bits n)"
    using less.prems(3) by (simp add: bits.simps[of n] power_mult power2_eq_square)
  show ?case
  proof (cases "n div 2 = 0")
    case True
    then show ?thesis using sq_ok less.prems(3) by (simp add: bits.simps[of n] bits.simps[of 0] power2_eq_square)
  next
    case False
    then have "in_signed 32 ((b * b) ^ (2 ^ bits (n div 2)))"
      using less.IH[OF _ _ rec] less.prems by simp
    then show ?thesis unfolding top .
  qed
qed

text \<open>C22: For a base other than zero and a positive exponent, \<^verbatim>\<open>IntegerRuntime::pow\<close> computes the power
  exactly when the base raised to the next power of two above the exponent is still a 32-bit number;
  otherwise a multiplication overflows, even where the power itself would fit.\<close>
theorem int_pow_exact:
  assumes "base \<noteq> 0" and "0 < n"
  shows "int_pow base n = (if in_signed 32 (base ^ (2 ^ bits (nat n))) then Inr (base ^ nat n) else Inl Undefined)"
proof (cases "in_signed 32 (base ^ (2 ^ bits (nat n)))")
  case True
  have pos: "0 \<le> base ^ (2 ^ bits (nat n))"
    using assms(2) by (simp add: bits.simps[of "nat n"] zero_le_even_power)
  have "nat n \<le> 2 ^ bits (nat n)" using bits_less less_imp_le by blast
  then have "\<bar>base ^ nat n\<bar> \<le> base ^ (2 ^ bits (nat n))"
    using abs_power_mono[OF assms(1)] pos by (metis abs_of_nonneg)
  then show ?thesis using pow_loop_ok[of base 1 "nat n"] True assms by (simp add: int_pow_def)
next
  case False
  have "pow_loop r b k = Inl e \<Longrightarrow> e = Undefined" for r b k e
    by (induction r b k rule: pow_loop.induct) (subst (asm) pow_loop.simps, auto simp: checked_def ebind_def split: if_splits sum.splits)
  then have "int_pow base n = Inl Undefined"
    using pow_loop_range[of base 1 "nat n"] False assms
    by (cases "pow_loop 1 base (nat n)") (auto simp: int_pow_def)
  then show ?thesis using False by simp
qed

theorem int_pow_exact_witness:
  "int_pow (- 3) 5 = (if in_signed 32 ((- 3) ^ (2 ^ bits (nat 5))) then Inr ((- 3) ^ nat 5) else Inl Undefined)"
  by (rule int_pow_exact) simp_all

text \<open>Ten to the eighth fits, but its computation overflows; zero to the zeroth is zero.\<close>

lemma int_pow_overflow: "int_pow 10 8 = Inl Undefined \<and> in_signed 32 (10 ^ 8)"
  by (simp add: int_pow_def pow_loop.simps checked_def in_signed_def)

lemma int_pow_zero: "int_pow 0 0 = Inr 0"
  by (simp add: int_pow_def)

section \<open>Decimals\<close>

definition powersOfTen :: "int \<Rightarrow> int res" where
  "powersOfTen i = (if 0 \<le> i \<and> i < 19 then Inr (10 ^ nat i) else Inl Undefined)"

definition decimal_round :: "int \<Rightarrow> int \<Rightarrow> int \<Rightarrow> int res" where
  "decimal_round value digits scale =
    (let roundBy = scale - digits
     in if digits \<ge> scale then Inr value
        else ebind (powersOfTen roundBy) (\<lambda>shift.
          let divided = cdiv value shift;
              remainder = cmod value shift;
              res = (if value > 0 then divided + (if remainder > cdiv shift 2 then 1 else 0)
                     else divided - (if - remainder > cdiv shift 2 then 1 else 0))
          in Inr (res * shift)))"

lemma nearest_multiple:
  fixes w q t h s r :: int
  assumes "w = s * q + t" "0 \<le> t" "t < s" "s = 2 * h" "0 < h" "0 \<le> q"
    and "r = q + (if t > h then 1 else 0)"
  shows "2 * \<bar>r * s - w\<bar> \<le> s \<and> (2 * \<bar>r * s - w\<bar> = s \<longrightarrow> \<bar>r * s\<bar> < \<bar>w\<bar>)"
proof -
  define P where "P = s * q"
  have P: "0 \<le> P" "w = P + t" using assms by (simp_all add: P_def)
  have "r * s = P + (if t > h then s else 0)" using assms(7) by (simp add: P_def algebra_simps)
  then show ?thesis using P assms(2-5) by (auto simp: abs_if)
qed



section \<open>Dates\<close>

text \<open>The divisor \<^verbatim>\<open>1000000000ull\<close> is unsigned, so the difference is converted before the division.\<close>

definition dateDiffSeconds :: "int \<Rightarrow> int \<Rightarrow> int res" where
  "dateDiffSeconds start_ns end_ns =
    ebind (checked 64 (end_ns - start_ns)) (\<lambda>diffNanos.
      Inr (to_signed 64 (of_signed 64 diffNanos div 1000000000)))"

lemma dateDiffSeconds_forward:
  assumes "start_ns \<le> end_ns" and "in_signed 64 (end_ns - start_ns)"
  shows "dateDiffSeconds start_ns end_ns = Inr ((end_ns - start_ns) div 1000000000)"
  using assms
  by (simp add: dateDiffSeconds_def checked_def of_signed_def to_signed_def in_signed_def
      nat_div_distrib zdiv_int)

text \<open>Backwards in time the result is not the negative number of seconds.\<close>

lemma dateDiffSeconds_backward: "dateDiffSeconds 1000000000 0 = Inr 18446744072"
  by (simp add: dateDiffSeconds_def checked_def of_signed_def to_signed_def in_signed_def)

end
