(* ===== verification/Flexible_Buffer.thy ===== *)
theory Flexible_Buffer
  imports Runtime_Helpers
begin

text \<open>
  Buffers that grow without moving what they hold (\<^verbatim>\<open>src/include/runtime/Buffer.h\<close>,
  \<^verbatim>\<open>src/lib/runtime/Buffer.cpp\<close>, \<^verbatim>\<open>GrowingBuffer.cpp\<close>). Addresses are numbers; the live heap is the
  list of its regions (first address and size), from which \<^verbatim>\<open>malloc\<close>, a parameter, chooses the
  address of a new one. \<open>None\<close> is an allocation that failed, which the code does not check, or
  \<^verbatim>\<open>back()\<close> of an empty vector.
\<close>

section \<open>The code\<close>

type_synonym region = "nat \<times> nat"
type_synonym malloc = "region list \<Rightarrow> nat \<Rightarrow> nat"

record buffer =
  numElements :: nat
  buf_ptr :: nat

record flexible_buffer =
  totalLen :: nat
  currCapacity :: nat
  buffers :: "buffer list"
  typeSize :: nat

text \<open>\<^verbatim>\<open>malloc\<close> with its null pointer for failure.\<close>

definition alloc :: "malloc \<Rightarrow> nat \<Rightarrow> region list \<Rightarrow> (nat \<times> region list) option" where
  "alloc m n rs = (let p = m rs n in if p = 0 then None else Some (p, (p, n) # rs))"

definition mk_flexible :: "malloc \<Rightarrow> nat \<Rightarrow> nat \<Rightarrow> region list \<Rightarrow> (flexible_buffer \<times> region list) option" where
  "mk_flexible m initialCapacity tSize rs = do {
    (p, rs') \<leftarrow> alloc m (u64 (initialCapacity * tSize)) rs;
    Some (\<lparr>totalLen = 0, currCapacity = initialCapacity, buffers = [\<lparr>numElements = 0, buf_ptr = p\<rparr>], typeSize = tSize\<rparr>, rs') }"

definition nextBuffer :: "malloc \<Rightarrow> flexible_buffer \<Rightarrow> region list \<Rightarrow> (flexible_buffer \<times> region list) option" where
  "nextBuffer m f rs = do {
    let nextCapacity = u64 (currCapacity f * 2);
    (p, rs') \<leftarrow> alloc m (u64 (nextCapacity * typeSize f)) rs;
    Some (f\<lparr>buffers := buffers f @ [\<lparr>numElements = 0, buf_ptr = p\<rparr>], currCapacity := nextCapacity\<rparr>, rs') }"

text \<open>The address of the new element, the buffer and the heap.\<close>

definition flex_insert :: "malloc \<Rightarrow> flexible_buffer \<Rightarrow> region list \<Rightarrow> (nat \<times> flexible_buffer \<times> region list) option" where
  "flex_insert m f rs =
    (if buffers f = [] then None
     else do {
       (f1, rs1) \<leftarrow> (if numElements (last (buffers f)) = currCapacity f then nextBuffer m f rs else Some (f, rs));
       let b = last (buffers f1);
       let res = buf_ptr b + typeSize f1 * numElements b;
       Some (res, f1\<lparr>totalLen := totalLen f1 + 1, buffers := butlast (buffers f1) @ [b\<lparr>numElements := numElements b + 1\<rparr>]\<rparr>, rs1) })"

text \<open>The addresses \<^verbatim>\<open>iterate\<close> hands to its function, in its order.\<close>

definition buffer_slots :: "nat \<Rightarrow> buffer \<Rightarrow> nat list" where
  "buffer_slots ts b = map (\<lambda>i. buf_ptr b + i * ts) [0..<numElements b]"

definition flex_iterate :: "flexible_buffer \<Rightarrow> nat list" where
  "flex_iterate f = concat (map (buffer_slots (typeSize f)) (buffers f))"

text \<open>\<^verbatim>\<open>merge\<close> takes the buffers of the other one over, in front of its own, and leaves it empty.\<close>

definition flex_merge :: "flexible_buffer \<Rightarrow> flexible_buffer \<Rightarrow> flexible_buffer \<times> flexible_buffer" where
  "flex_merge f other =
    (f\<lparr>buffers := buffers other @ buffers f, totalLen := totalLen f + totalLen other\<rparr>,
     other\<lparr>buffers := [], totalLen := 0, currCapacity := 0\<rparr>)"

text \<open>
  \<^verbatim>\<open>iterateBuffersParallel\<close>: a large buffer is fed back to the parallel loop in pieces of at most
  20000 elements. The pieces are listed in the order in which they are fed.
\<close>

definition buffer_chunks :: "nat \<Rightarrow> buffer \<Rightarrow> buffer list" where
  "buffer_chunks ts b =
    (if numElements b \<le> 20000 then [b]
     else map (\<lambda>k. let i = k * 20000; len = min (i + 20000) (numElements b) - i
                    in \<lparr>numElements = len, buf_ptr = buf_ptr b + i * max 1 ts\<rparr>)
            [0..<(numElements b + 19999) div 20000])"

definition iterateBuffersParallel :: "flexible_buffer \<Rightarrow> buffer list" where
  "iterateBuffersParallel f = concat (map (buffer_chunks (typeSize f)) (buffers f))"

text \<open>What the iterator shows to generated code: the buffers with their lengths in bytes.\<close>

definition in_bytes :: "flexible_buffer \<Rightarrow> buffer \<Rightarrow> buffer" where
  "in_bytes f b = \<lparr>numElements = numElements b * max 1 (typeSize f), buf_ptr = buf_ptr b\<rparr>"

definition getCurrentBuffer :: "flexible_buffer \<Rightarrow> nat \<Rightarrow> buffer option" where
  "getCurrentBuffer f currBuffer =
    (if currBuffer < length (buffers f) then Some (in_bytes f (buffers f ! currBuffer)) else None)"

definition iterateEfficient :: "flexible_buffer \<Rightarrow> bool \<Rightarrow> buffer list" where
  "iterateEfficient f parallel =
    map (in_bytes f) (if parallel then iterateBuffersParallel f else buffers f)"

section \<open>GrowingBuffer\<close>

text \<open>\<^verbatim>\<open>asContinuous\<close>: the bytes of all elements in one new block.\<close>

definition asContinuous :: "memory \<Rightarrow> flexible_buffer \<Rightarrow> bytes option" where
  "asContinuous mem f =
    map_option concat (those (map (\<lambda>p. load_bytes mem p (typeSize f)) (flex_iterate f)))"

text \<open>
  \<^verbatim>\<open>sort\<close>: the pointers are sorted by \<^verbatim>\<open>tbb::parallel_sort\<close>, a parameter, and what they point to
  is copied.
\<close>

definition buffer_sort :: "(nat list \<Rightarrow> nat list) \<Rightarrow> memory \<Rightarrow> flexible_buffer \<Rightarrow> bytes option" where
  "buffer_sort parallel_sort mem f =
    map_option concat (those (map (\<lambda>p. load_bytes mem p (typeSize f)) (parallel_sort (flex_iterate f))))"

fun merge_buffers :: "flexible_buffer \<Rightarrow> flexible_buffer list \<Rightarrow> flexible_buffer" where
  "merge_buffers first [] = first"
| "merge_buffers first (b # bs) = merge_buffers (fst (flex_merge first b)) bs"

section \<open>Regions\<close>

definition apart :: "region \<Rightarrow> region \<Rightarrow> bool" where
  "apart r s \<longleftrightarrow> fst r + snd r \<le> fst s \<or> fst s + snd s \<le> fst r"

text \<open>
  What the code relies on: \<^verbatim>\<open>malloc\<close> fails or returns a region of user memory (48-bit addresses) that
  overlaps no live one.
\<close>

definition good_malloc :: "malloc \<Rightarrow> bool" where
  "good_malloc m \<longleftrightarrow> (\<forall>rs n. m rs n = 0 \<or> (m rs n + n \<le> 140737488355328 \<and> (\<forall>r \<in> set rs. apart r (m rs n, n))))"

lemma apart_sym: "apart r s \<Longrightarrow> apart s r"
  by (auto simp: apart_def)

lemma alloc_ok:
  assumes "good_malloc m" and "alloc m n rs = Some (p, rs')"
  shows "rs' = (p, n) # rs \<and> 0 < p \<and> p + n \<le> 140737488355328 \<and> (\<forall>r \<in> set rs. apart r (p, n))"
proof -
  have p: "p = m rs n" "p \<noteq> 0" "rs' = (p, n) # rs" using assms(2) by (auto simp: alloc_def Let_def split: if_splits)
  moreover have "m rs n = 0 \<or> (m rs n + n \<le> 140737488355328 \<and> (\<forall>r \<in> set rs. apart r (m rs n, n)))"
    using assms(1) unfolding good_malloc_def by blast
  ultimately show ?thesis by simp
qed

text \<open>
  \<open>obtained m rs new\<close>: the regions \<open>new\<close> were obtained one after the other from the heap \<open>rs\<close> on.
  \<open>grown m B rs rs'\<close>: at most \<open>B\<close> bytes were obtained between \<open>rs\<close> and \<open>rs'\<close>. An operation that
  fails by \<open>allocation_failed m B rs\<close> fails because \<^verbatim>\<open>malloc\<close> refused a request although no more than
  \<open>B\<close> bytes, the refused ones included, were asked for since the heap was \<open>rs\<close>.
\<close>

definition heap_size :: "region list \<Rightarrow> nat" where
  "heap_size rs = sum_list (map snd rs)"

fun obtained :: "malloc \<Rightarrow> region list \<Rightarrow> region list \<Rightarrow> bool" where
  "obtained m rs [] \<longleftrightarrow> True"
| "obtained m rs (r # new) \<longleftrightarrow> obtained m rs new \<and> alloc m (snd r) (new @ rs) = Some (fst r, r # new @ rs)"

definition grown :: "malloc \<Rightarrow> nat \<Rightarrow> region list \<Rightarrow> region list \<Rightarrow> bool" where
  "grown m B rs rs' \<longleftrightarrow> (\<exists>new. rs' = new @ rs \<and> obtained m rs new \<and> heap_size new \<le> B)"

definition allocation_failed :: "malloc \<Rightarrow> nat \<Rightarrow> region list \<Rightarrow> bool" where
  "allocation_failed m B rs \<longleftrightarrow>
    (\<exists>n new. obtained m rs new \<and> heap_size new + n \<le> B \<and> alloc m n (new @ rs) = None)"

lemma heap_size_simps [simp]: "heap_size [] = 0" "heap_size (r # rs) = snd r + heap_size rs"
  "heap_size (rs @ rs') = heap_size rs + heap_size rs'"
  by (simp_all add: heap_size_def)

lemma obtained_append: "obtained m rs new1 \<Longrightarrow> obtained m (new1 @ rs) new2 \<Longrightarrow> obtained m rs (new2 @ new1)"
  by (induction new2) simp_all

lemma grown_refl [simp]: "grown m B rs rs"
  by (simp add: grown_def)

lemma grown_subset: "grown m B rs rs' \<Longrightarrow> set rs \<subseteq> set rs'"
  by (auto simp: grown_def)

lemma grown_mono: "grown m B rs rs' \<Longrightarrow> B \<le> B' \<Longrightarrow> grown m B' rs rs'"
  by (auto simp: grown_def)

lemma grown_trans:
  assumes "grown m B1 rs rs1" and "grown m B2 rs1 rs2" and "B1 + B2 \<le> B"
  shows "grown m B rs rs2"
proof -
  obtain new1 new2 where "rs1 = new1 @ rs" "obtained m rs new1" "heap_size new1 \<le> B1"
      "rs2 = new2 @ rs1" "obtained m rs1 new2" "heap_size new2 \<le> B2"
    using assms(1,2) by (auto simp: grown_def)
  then show ?thesis using obtained_append[of m rs new1 new2] assms(3)
    by (auto simp: grown_def intro!: exI[of _ "new2 @ new1"])
qed

lemma allocation_failed_mono: "allocation_failed m B rs \<Longrightarrow> B \<le> B' \<Longrightarrow> allocation_failed m B' rs"
  unfolding allocation_failed_def by (meson le_trans)

lemma allocation_failed_later:
  assumes "grown m B1 rs rs1" and "allocation_failed m B2 rs1" and "B1 + B2 \<le> B"
  shows "allocation_failed m B rs"
proof -
  obtain new n new' where n: "rs1 = new @ rs" "obtained m rs new" "heap_size new \<le> B1"
      "obtained m rs1 new'" "heap_size new' + n \<le> B2" "alloc m n (new' @ rs1) = None"
    using assms(1,2) by (auto simp: grown_def allocation_failed_def)
  then have "obtained m rs (new' @ new)" by (intro obtained_append) simp_all
  moreover have "heap_size (new' @ new) + n \<le> B \<and> alloc m n ((new' @ new) @ rs) = None" using n assms(3) by simp
  ultimately show ?thesis unfolding allocation_failed_def by blast
qed

lemma alloc_None: "alloc m n rs = None \<Longrightarrow> n \<le> B \<Longrightarrow> allocation_failed m B rs"
  unfolding allocation_failed_def by (intro exI[of _ n] exI[of _ "[]"]) simp

lemma alloc_obtained: "alloc m n rs = Some (p, rs') \<Longrightarrow> obtained m rs [(p, n)]"
  by (auto simp: alloc_def Let_def split: if_splits)

text \<open>The buffers with the number of elements their regions hold.\<close>

definition buffers_ok :: "nat \<Rightarrow> region list \<Rightarrow> buffer list \<Rightarrow> nat list \<Rightarrow> bool" where
  "buffers_ok ts rs bs caps \<longleftrightarrow>
    list_all2 (\<lambda>b c. numElements b \<le> c \<and> 0 < c \<and> (buf_ptr b, c * ts) \<in> set rs \<and>
      0 < buf_ptr b \<and> buf_ptr b + c * ts \<le> 140737488355328) bs caps \<and>
    sorted_wrt apart (map2 (\<lambda>b c. (buf_ptr b, c * ts)) bs caps)"

definition flex_ok :: "region list \<Rightarrow> flexible_buffer \<Rightarrow> bool" where
  "flex_ok rs f \<longleftrightarrow> 0 < typeSize f \<and> buffers f \<noteq> [] \<and> totalLen f = sum_list (map numElements (buffers f)) \<and>
    (\<exists>caps. buffers_ok (typeSize f) rs (buffers f) caps \<and> last caps = currCapacity f)"


lemma buffers_ok_Nil [simp]: "buffers_ok ts rs [] caps \<longleftrightarrow> caps = []"
  by (auto simp: buffers_ok_def)

lemma buffers_ok_mono: "buffers_ok ts rs bs caps \<Longrightarrow> set rs \<subseteq> set rs' \<Longrightarrow> buffers_ok ts rs' bs caps"
  by (auto simp: buffers_ok_def elim!: list_all2_mono)

lemma buffers_ok_length: "buffers_ok ts rs bs caps \<Longrightarrow> length caps = length bs"
  by (auto simp: buffers_ok_def dest: list_all2_lengthD)

lemma buffers_ok_regions:
  "buffers_ok ts rs bs caps \<Longrightarrow> r \<in> set (map2 (\<lambda>b c. (buf_ptr b, c * ts)) bs caps) \<Longrightarrow> r \<in> set rs"
  by (auto simp: buffers_ok_def list_all2_conv_all_nth in_set_conv_nth)

lemma buffers_ok_append:
  assumes "length bs = length caps"
  shows "buffers_ok ts rs (bs @ bs') (caps @ caps') \<longleftrightarrow>
    buffers_ok ts rs bs caps \<and> buffers_ok ts rs bs' caps' \<and>
    (\<forall>r \<in> set (map2 (\<lambda>b c. (buf_ptr b, c * ts)) bs caps). \<forall>s \<in> set (map2 (\<lambda>b c. (buf_ptr b, c * ts)) bs' caps'). apart r s)"
  using assms by (simp add: buffers_ok_def list_all2_append sorted_wrt_append) blast

lemma buffers_ok_single:
  "buffers_ok ts rs [b] [c] \<longleftrightarrow> numElements b \<le> c \<and> 0 < c \<and> (buf_ptr b, c * ts) \<in> set rs \<and>
      0 < buf_ptr b \<and> buf_ptr b + c * ts \<le> 140737488355328"
  by (simp add: buffers_ok_def)

lemma snoc_eq: "xs \<noteq> [] \<Longrightarrow> xs = butlast xs @ [last xs]"
  by simp

text \<open>The slots of a buffer, and of the buffers together.\<close>

lemma in_buffer_slots: "a \<in> set (buffer_slots ts b) \<longleftrightarrow> (\<exists>i < numElements b. a = buf_ptr b + i * ts)"
  by (auto simp: buffer_slots_def)

lemma slot_in_region:
  assumes "a \<in> set (buffer_slots ts b)" and "numElements b \<le> c"
  shows "buf_ptr b \<le> a \<and> a + ts \<le> buf_ptr b + c * ts"
proof -
  obtain i where i: "i < numElements b" "a = buf_ptr b + i * ts" using assms(1) by (auto simp: in_buffer_slots)
  then have "Suc i * ts \<le> c * ts" using assms(2) by (intro mult_le_mono1) simp
  then show ?thesis using i by simp
qed

lemma buffer_slots_apart: "sorted_wrt (\<lambda>a b. apart (a, ts) (b, ts)) (buffer_slots ts b)"
proof -
  have "apart (buf_ptr b + i * ts, ts) (buf_ptr b + j * ts, ts)" if "i < j" for i j
  proof -
    have "Suc i * ts \<le> j * ts" using that by (intro mult_le_mono1) simp
    then show ?thesis by (simp add: apart_def)
  qed
  then show ?thesis
    unfolding buffer_slots_def sorted_wrt_map by (intro sorted_wrt_mono_rel[OF _ sorted_wrt_upt]) simp
qed

lemma slots_in_regions:
  assumes "buffers_ok ts rs bs caps" and "a \<in> set (concat (map (buffer_slots ts) bs))"
  shows "\<exists>r \<in> set (map2 (\<lambda>b c. (buf_ptr b, c * ts)) bs caps). fst r \<le> a \<and> a + ts \<le> fst r + snd r \<and>
    0 < fst r \<and> fst r + snd r \<le> 140737488355328"
proof -
  have len: "length caps = length bs" using assms(1) by (rule buffers_ok_length)
  obtain k where k: "k < length bs" "a \<in> set (buffer_slots ts (bs ! k))"
    using assms(2) by (metis (no_types, lifting) UN_iff in_set_conv_nth set_concat set_map imageE)
  have "numElements (bs ! k) \<le> caps ! k" "0 < buf_ptr (bs ! k)" "buf_ptr (bs ! k) + caps ! k * ts \<le> 140737488355328"
    using assms(1) k(1) by (auto simp: buffers_ok_def list_all2_conv_all_nth)
  moreover have "(buf_ptr (bs ! k), caps ! k * ts) \<in> set (map2 (\<lambda>b c. (buf_ptr b, c * ts)) bs caps)"
  proof -
    have "(bs ! k, caps ! k) \<in> set (zip bs caps)" using k(1) len by (auto simp: set_zip)
    then show ?thesis by force
  qed
  ultimately show ?thesis using slot_in_region[OF k(2)] by (intro bexI) auto
qed

lemma slots_apart:
  assumes "buffers_ok ts rs bs caps"
  shows "sorted_wrt (\<lambda>a b. apart (a, ts) (b, ts)) (concat (map (buffer_slots ts) bs))"
  using assms
proof (induction bs arbitrary: caps)
  case (Cons b bs)
  have len: "length caps = Suc (length bs)" using buffers_ok_length[OF Cons.prems] by simp
  then obtain c caps' where caps: "caps = c # caps'" by (cases caps) simp_all
  have ok: "buffers_ok ts rs [b] [c]" "buffers_ok ts rs bs caps'"
      "\<forall>s \<in> set (map2 (\<lambda>b c. (buf_ptr b, c * ts)) bs caps'). apart (buf_ptr b, c * ts) s"
    using Cons.prems caps buffers_ok_append[of "[b]" "[c]" ts rs bs caps'] by auto
  have "apart (a, ts) (a', ts)"
    if in1: "a \<in> set (buffer_slots ts b)" and in2: "a' \<in> set (concat (map (buffer_slots ts) bs))" for a a'
  proof -
    have "buf_ptr b \<le> a \<and> a + ts \<le> buf_ptr b + c * ts"
      using slot_in_region[OF in1, of c] ok(1) unfolding buffers_ok_single by blast
    moreover obtain r where "r \<in> set (map2 (\<lambda>b c. (buf_ptr b, c * ts)) bs caps')"
        "fst r \<le> a'" "a' + ts \<le> fst r + snd r"
      using slots_in_regions[OF ok(2) in2] by blast
    ultimately show ?thesis using ok(3) by (auto simp: apart_def)
  qed
  then show ?case
    using Cons.IH[OF ok(2)] buffer_slots_apart by (simp add: sorted_wrt_append)
qed simp

lemma apart_distinct: "0 < ts \<Longrightarrow> sorted_wrt (\<lambda>a b. apart (a, ts) (b, ts)) xs \<Longrightarrow> distinct xs"
  by (induction xs) (auto simp: apart_def)

section \<open>Insertion\<close>

text \<open>
  A buffer owns the regions of a list: \<open>flex_ok own f\<close>, where \<open>own\<close> is a part of the heap. A step
  adds at most one region, which is new to the whole heap.
\<close>

definition fresh_regions :: "region list \<Rightarrow> region list \<Rightarrow> bool" where
  "fresh_regions new rs \<longleftrightarrow> (\<forall>r \<in> set new. \<forall>s \<in> set rs. apart r s)"

lemma fresh_regions_Nil [simp]: "fresh_regions [] rs"
  by (simp add: fresh_regions_def)

lemma mk_flexible_own:
  assumes "good_malloc m" and "0 < n" "0 < ts" "n * ts < 18446744073709551616"
    and "mk_flexible m n ts rs = Some (f, rs')"
  shows "\<exists>r. rs' = r # rs \<and> snd r = n * ts \<and> obtained m rs [r] \<and> fresh_regions [r] rs \<and> flex_ok [r] f \<and> flex_iterate f = [] \<and> typeSize f = ts \<and> currCapacity f = n"
proof -
  obtain p where p: "alloc m (n * ts) rs = Some (p, rs')"
      and f: "f = \<lparr>totalLen = 0, currCapacity = n, buffers = [\<lparr>numElements = 0, buf_ptr = p\<rparr>], typeSize = ts\<rparr>"
    using assms(4,5) by (auto simp: mk_flexible_def u64_def Option.bind_eq_Some_conv)
  note al = alloc_ok[OF assms(1) p] alloc_obtained[OF p]
  then have "buffers_ok ts [(p, n * ts)] [\<lparr>numElements = 0, buf_ptr = p\<rparr>] [n]" using assms(2) by (simp add: buffers_ok_single)
  then show ?thesis
    using f al assms(3)
    by (auto simp: flex_ok_def flex_iterate_def buffer_slots_def fresh_regions_def intro!: exI[of _ "[n]"] intro: apart_sym)
qed

lemma flex_ok_mono: "flex_ok rs f \<Longrightarrow> set rs \<subseteq> set rs' \<Longrightarrow> flex_ok rs' f"
  unfolding flex_ok_def using buffers_ok_mono by blast

lemma mk_flexible_ok:
  assumes "good_malloc m" and "0 < n" "0 < ts" "n * ts < 18446744073709551616"
    and "mk_flexible m n ts rs = Some (f, rs')"
  shows "flex_ok rs' f \<and> flex_iterate f = [] \<and> set rs \<subseteq> set rs' \<and> typeSize f = ts"
proof -
  obtain r where "rs' = r # rs" "flex_ok [r] f" "flex_iterate f = []" "typeSize f = ts"
    using mk_flexible_own[OF assms] by blast
  then show ?thesis using flex_ok_mono[of "[r]" f rs'] by auto
qed

lemma mk_flexible_None: "mk_flexible m n ts rs = None \<Longrightarrow> allocation_failed m (n * ts) rs"
  by (cases "alloc m (u64 (n * ts)) rs") (auto simp: mk_flexible_def u64_def intro: alloc_None)

lemma nextBuffer_own:
  assumes "good_malloc m" and "flex_ok own f" and "set own \<subseteq> set rs" and "nextBuffer m f rs = Some (f', rs')"
  shows "\<exists>r. rs' = r # rs \<and> snd r = currCapacity f * 2 * typeSize f \<and> obtained m rs [r] \<and> fresh_regions [r] rs \<and> flex_ok (r # own) f' \<and> flex_iterate f' = flex_iterate f \<and>
    typeSize f' = typeSize f \<and> numElements (last (buffers f')) < currCapacity f' \<and> totalLen f' = totalLen f"
proof -
  let ?ts = "typeSize f"
  obtain caps where caps: "buffers_ok ?ts own (buffers f) caps" "last caps = currCapacity f"
    and ne: "buffers f \<noteq> []" and ts: "0 < ?ts" and tl: "totalLen f = sum_list (map numElements (buffers f))"
    using assms(2) by (auto simp: flex_ok_def)
  have len: "length caps = length (buffers f)" using caps(1) by (rule buffers_ok_length)
  have "buffers_ok ?ts own [last (buffers f)] [last caps]"
    using caps(1) len ne buffers_ok_append[of "butlast (buffers f)" "butlast caps" ?ts own "[last (buffers f)]" "[last caps]"]
    by (cases caps rule: rev_cases; cases "buffers f" rule: rev_cases) auto
  then have cap: "0 < currCapacity f" "currCapacity f * ?ts \<le> 140737488355328"
    using caps(2) by (simp_all add: buffers_ok_single)
  then have cap': "currCapacity f \<le> 140737488355328" using ts
    by (metis One_nat_def Suc_leI le_trans mult.commute mult_le_mono1 nat_mult_1)
  let ?c = "currCapacity f * 2"
  have w: "u64 ?c = ?c" "u64 (?c * ?ts) = ?c * ?ts" using cap cap' by (simp_all add: u64_def)
  obtain p where p: "alloc m (?c * ?ts) rs = Some (p, rs')"
      and f': "f' = f\<lparr>buffers := buffers f @ [\<lparr>numElements = 0, buf_ptr = p\<rparr>], currCapacity := ?c\<rparr>"
    using assms(4) w by (auto simp: nextBuffer_def Let_def Option.bind_eq_Some_conv)
  note al = alloc_ok[OF assms(1) p] alloc_obtained[OF p]
  let ?own = "(p, ?c * ?ts) # own"
  have "buffers_ok ?ts ?own [\<lparr>numElements = 0, buf_ptr = p\<rparr>] [?c]"
    using al cap by (simp add: buffers_ok_single)
  moreover have "buffers_ok ?ts ?own (buffers f) caps" using buffers_ok_mono[OF caps(1), of ?own] by auto
  moreover have "apart r (p, ?c * ?ts)" if "r \<in> set (map2 (\<lambda>b c. (buf_ptr b, c * ?ts)) (buffers f) caps)" for r
    using buffers_ok_regions[OF caps(1) that] al assms(3) by blast
  ultimately have "buffers_ok ?ts ?own (buffers f') (caps @ [?c])"
    using len f' by (simp add: buffers_ok_append)
  moreover have "fresh_regions [(p, ?c * ?ts)] rs" using al apart_sym by (auto simp: fresh_regions_def)
  ultimately show ?thesis
    using f' ts tl al cap
    by (intro exI[of _ "(p, ?c * ?ts)"]) (auto simp: flex_ok_def flex_iterate_def buffer_slots_def intro!: exI[of _ "caps @ [?c]"])
qed

lemma buffer_slots_Suc:
  "buffer_slots ts (b\<lparr>numElements := numElements b + 1\<rparr>) = buffer_slots ts b @ [buf_ptr b + ts * numElements b]"
  by (simp add: buffer_slots_def mult.commute)

text \<open>
  An insertion hands out the address of a slot that follows all others in the iteration; the
  slots before stay where they are.
\<close>

lemma last_le_totalLen: "flex_ok own f \<Longrightarrow> numElements (last (buffers f)) \<le> totalLen f"
  by (auto simp: flex_ok_def intro: member_le_sum_list)

lemma flex_insert_own:
  assumes "good_malloc m" and "flex_ok own f" and "set own \<subseteq> set rs" and "flex_insert m f rs = Some (a, f', rs')"
  shows "\<exists>new. rs' = new @ rs \<and> heap_size new \<le> 2 * totalLen f * typeSize f \<and> obtained m rs new \<and> fresh_regions new rs \<and> flex_ok (new @ own) f' \<and>
    flex_iterate f' = flex_iterate f @ [a] \<and> typeSize f' = typeSize f \<and> totalLen f' = totalLen f + 1"
proof -
  have ne: "buffers f \<noteq> []" using assms(2) by (simp add: flex_ok_def)
  obtain f1 where f1: "(if numElements (last (buffers f)) = currCapacity f then nextBuffer m f rs else Some (f, rs)) = Some (f1, rs')"
      "a = buf_ptr (last (buffers f1)) + typeSize f1 * numElements (last (buffers f1))"
      "f' = f1\<lparr>totalLen := totalLen f1 + 1,
        buffers := butlast (buffers f1) @ [(last (buffers f1))\<lparr>numElements := numElements (last (buffers f1)) + 1\<rparr>]\<rparr>"
    using assms(4) ne by (auto simp: flex_insert_def Let_def Option.bind_eq_Some_conv)
  have "\<exists>new. rs' = new @ rs \<and> heap_size new \<le> 2 * totalLen f * typeSize f \<and> obtained m rs new \<and> fresh_regions new rs \<and> flex_ok (new @ own) f1 \<and> flex_iterate f1 = flex_iterate f \<and>
      typeSize f1 = typeSize f \<and> totalLen f1 = totalLen f \<and> numElements (last (buffers f1)) < currCapacity f1"
  proof (cases "numElements (last (buffers f)) = currCapacity f")
    case True
    then have "nextBuffer m f rs = Some (f1, rs')" using f1(1) by simp
    from nextBuffer_own[OF assms(1-3) this] obtain r where r: "rs' = r # rs \<and> snd r = currCapacity f * 2 * typeSize f \<and> obtained m rs [r] \<and> fresh_regions [r] rs \<and> flex_ok (r # own) f1 \<and>
        flex_iterate f1 = flex_iterate f \<and> typeSize f1 = typeSize f \<and> numElements (last (buffers f1)) < currCapacity f1 \<and>
        totalLen f1 = totalLen f" by blast
    moreover have "currCapacity f \<le> totalLen f" using last_le_totalLen[OF assms(2)] True by simp
    then have "currCapacity f * 2 * typeSize f \<le> 2 * totalLen f * typeSize f" by simp
    ultimately show ?thesis by (intro exI[of _ "[r]"]) auto
  next
    case False
    obtain caps where caps: "buffers_ok (typeSize f) own (buffers f) caps" "last caps = currCapacity f"
      using assms(2) by (auto simp: flex_ok_def)
    have "numElements (last (buffers f)) \<le> last caps"
      using caps(1) ne buffers_ok_length[OF caps(1)]
      by (cases "buffers f" rule: rev_cases; cases caps rule: rev_cases) (simp_all add: buffers_ok_append buffers_ok_single)
    then show ?thesis using False f1(1) caps(2) assms(2) by simp
  qed
  then obtain new where step: "rs' = new @ rs" "heap_size new \<le> 2 * totalLen f * typeSize f" "obtained m rs new" "fresh_regions new rs" "flex_ok (new @ own) f1" "flex_iterate f1 = flex_iterate f"
      "typeSize f1 = typeSize f" "totalLen f1 = totalLen f" "numElements (last (buffers f1)) < currCapacity f1"
    by blast
  obtain caps where caps: "buffers_ok (typeSize f1) (new @ own) (buffers f1) caps" "last caps = currCapacity f1"
      and ne1: "buffers f1 \<noteq> []" and tl: "totalLen f1 = sum_list (map numElements (buffers f1))" and ts: "0 < typeSize f1"
    using step(5) by (auto simp: flex_ok_def)
  obtain bs b where bs: "buffers f1 = bs @ [b]" using ne1 by (cases "buffers f1" rule: rev_cases) simp_all
  obtain cs c where cs: "caps = cs @ [c]" "length cs = length bs"
    using buffers_ok_length[OF caps(1)] bs by (cases caps rule: rev_cases) simp_all
  let ?b = "b\<lparr>numElements := numElements b + 1\<rparr>"
  have "buffers_ok (typeSize f1) (new @ own) (bs @ [?b]) (cs @ [c])"
    using caps(1) step(9) bs cs caps(2) by (simp add: buffers_ok_append buffers_ok_single)
  then have "flex_ok (new @ own) f'"
    using f1(3) bs cs caps(2) ts tl by (auto simp: flex_ok_def intro!: exI[of _ "cs @ [c]"])
  moreover have "flex_iterate f' = flex_iterate f1 @ [a]"
    using f1(2,3) bs buffer_slots_Suc[of "typeSize f1" b] by (simp add: flex_iterate_def)
  ultimately show ?thesis using step f1(3) by auto
qed

lemma flex_insert_ok:
  assumes "good_malloc m" and "flex_ok rs f" and "flex_insert m f rs = Some (a, f', rs')"
  shows "flex_ok rs' f' \<and> flex_iterate f' = flex_iterate f @ [a] \<and> set rs \<subseteq> set rs' \<and> typeSize f' = typeSize f \<and>
    totalLen f' = totalLen f + 1"
  using flex_insert_own[OF assms(1,2) subset_refl assms(3)] by auto

lemma flex_insert_grown:
  assumes "good_malloc m" and "flex_ok rs f" and "flex_insert m f rs = Some (a, f', rs')"
  shows "grown m (2 * totalLen f * typeSize f) rs rs'"
  using flex_insert_own[OF assms(1,2) subset_refl assms(3)] by (auto simp: grown_def)

text \<open>A full last buffer is what makes an insertion ask for memory.\<close>

lemma flex_insert_None:
  assumes "flex_ok own f" and "flex_insert m f rs = None"
  shows "allocation_failed m (2 * totalLen f * typeSize f) rs"
proof -
  have ne: "buffers f \<noteq> []" using assms(1) by (simp add: flex_ok_def)
  let ?n = "u64 (u64 (currCapacity f * 2) * typeSize f)"
  have none: "numElements (last (buffers f)) = currCapacity f \<and> alloc m ?n rs = None"
  proof (rule ccontr)
    assume "\<not> (numElements (last (buffers f)) = currCapacity f \<and> alloc m ?n rs = None)"
    then have "flex_insert m f rs \<noteq> None"
      using ne by (auto simp: flex_insert_def nextBuffer_def Let_def split: if_splits)
    then show False using assms(2) by simp
  qed
  have "?n \<le> u64 (currCapacity f * 2) * typeSize f" by (simp add: u64_def)
  also have "\<dots> \<le> 2 * currCapacity f * typeSize f" by (intro mult_le_mono1) (simp add: u64_def mult.commute)
  also have "\<dots> \<le> 2 * totalLen f * typeSize f" using last_le_totalLen[OF assms(1)] none by (intro mult_le_mono) simp_all
  finally show ?thesis using none alloc_None by blast
qed

fun insert_many :: "malloc \<Rightarrow> nat \<Rightarrow> flexible_buffer \<Rightarrow> region list \<Rightarrow> (nat list \<times> flexible_buffer \<times> region list) option" where
  "insert_many m 0 f rs = Some ([], f, rs)"
| "insert_many m (Suc k) f rs = do {
    (a, f1, rs1) \<leftarrow> flex_insert m f rs;
    (as, f2, rs2) \<leftarrow> insert_many m k f1 rs1;
    Some (a # as, f2, rs2) }"

lemma insert_many_ok:
  assumes m: "good_malloc m"
  shows "flex_ok rs f \<Longrightarrow> case insert_many m k f rs of
      None \<Rightarrow> allocation_failed m (k * (2 * (totalLen f + k) * typeSize f)) rs
    | Some (as, f', rs') \<Rightarrow> flex_ok rs' f' \<and> flex_iterate f' = flex_iterate f @ as \<and> length as = k \<and>
        typeSize f' = typeSize f \<and> totalLen f' = totalLen f + k"
proof (induction k arbitrary: f rs)
  case (Suc k)
  let ?B = "2 * (totalLen f + Suc k) * typeSize f"
  have b: "2 * totalLen f * typeSize f \<le> ?B" by (intro mult_le_mono) simp_all
  show ?case
  proof (cases "flex_insert m f rs")
    case None
    have "2 * totalLen f * typeSize f \<le> Suc k * ?B" using b by (metis le_add1 le_trans mult_Suc)
    then show ?thesis using flex_insert_None[OF Suc.prems None] None allocation_failed_mono by simp
  next
    case (Some r)
    obtain a f1 rs1 where 1: "flex_insert m f rs = Some (a, f1, rs1)" using Some by (cases r) auto
    note ins = flex_insert_ok[OF m Suc.prems 1]
    then have ok: "flex_ok rs1 f1" by blast
    have "totalLen f1 + k = totalLen f + Suc k" "typeSize f1 = typeSize f" using ins by simp_all
    note IH = Suc.IH[OF ok, unfolded this]
    show ?thesis
    proof (cases "insert_many m k f1 rs1")
      case None
      then have "allocation_failed m (k * ?B) rs1" using IH by simp
      from allocation_failed_later[OF flex_insert_grown[OF m Suc.prems 1] this, of "Suc k * ?B"]
      show ?thesis using b 1 None by simp
    next
      case (Some r')
      then show ?thesis using ins IH 1 by auto
    qed
  qed
qed simp

text \<open>What the slots of a buffer in good order are: separate, non-null and inside live memory.\<close>

definition slots_safe :: "region list \<Rightarrow> nat \<Rightarrow> nat list \<Rightarrow> bool" where
  "slots_safe rs ts as \<longleftrightarrow> sorted_wrt (\<lambda>a b. apart (a, ts) (b, ts)) as \<and>
    (\<forall>a \<in> set as. 0 < a \<and> a + ts \<le> 140737488355328 \<and> (\<exists>r \<in> set rs. fst r \<le> a \<and> a + ts \<le> fst r + snd r))"

lemma flex_ok_slots: "flex_ok rs f \<Longrightarrow> slots_safe rs (typeSize f) (flex_iterate f)"
proof -
  assume "flex_ok rs f"
  then obtain caps where caps: "buffers_ok (typeSize f) rs (buffers f) caps" by (auto simp: flex_ok_def)
  have "0 < a \<and> a + typeSize f \<le> 140737488355328 \<and> (\<exists>r \<in> set rs. fst r \<le> a \<and> a + typeSize f \<le> fst r + snd r)"
    if at: "a \<in> set (flex_iterate f)" for a
  proof -
    obtain r where r: "r \<in> set (map2 (\<lambda>b c. (buf_ptr b, c * typeSize f)) (buffers f) caps)"
        "fst r \<le> a" "a + typeSize f \<le> fst r + snd r" "0 < fst r" "fst r + snd r \<le> 140737488355328"
      using slots_in_regions[OF caps] at unfolding flex_iterate_def by blast
    then show ?thesis using buffers_ok_regions[OF caps r(1)] by auto
  qed
  then show ?thesis
    using slots_apart[OF caps] by (simp add: slots_safe_def flex_iterate_def)
qed

text \<open>C24: From a fresh \<^verbatim>\<open>FlexibleBuffer\<close> with room for at least one element, any number of insertions
  hands out pairwise separate, non-null slots that lie inside memory obtained from \<^verbatim>\<open>malloc\<close>; growing
  moves none of them, \<^verbatim>\<open>iterate\<close> visits exactly them in the order of their insertion, and \<^verbatim>\<open>getLen\<close>
  counts them. The insertions fail only if \<^verbatim>\<open>malloc\<close> does, with a bound on the bytes it was asked for.\<close>
theorem flexible_buffer_slots:
  assumes "good_malloc m" and "0 < n" and "0 < ts" and "n * ts < 18446744073709551616"
  shows "case mk_flexible m n ts rs of
      None \<Rightarrow> allocation_failed m (n * ts) rs
    | Some (f, rs1) \<Rightarrow>
        (case insert_many m k f rs1 of
           None \<Rightarrow> allocation_failed m (2 * k * k * ts) rs1
         | Some (as, f', rs') \<Rightarrow>
             flex_iterate f' = as \<and> length as = k \<and> totalLen f' = k \<and> slots_safe rs' ts as)"
proof (cases "mk_flexible m n ts rs")
  case None
  then show ?thesis using mk_flexible_None by simp
next
  case (Some r)
  obtain f rs1 where mk: "mk_flexible m n ts rs = Some (f, rs1)" using Some by (cases r) auto
  note ok = mk_flexible_ok[OF assms mk]
  have len: "totalLen f = 0" using mk by (auto simp: mk_flexible_def Option.bind_eq_Some_conv)
  from ok have "flex_ok rs1 f" by blast
  note im = insert_many_ok[OF assms(1) this, of k]
  have "slots_safe rs' ts (flex_iterate f')" if "flex_ok rs' f'" "typeSize f' = ts" for rs' f'
    using flex_ok_slots[OF that(1)] that(2) by simp
  then show ?thesis using mk im len ok by (auto simp: mult_ac split: option.splits)
qed

text \<open>An allocator for examples: the next region starts behind the last one.\<close>

fun heap_end :: "region list \<Rightarrow> nat" where
  "heap_end [] = 8"
| "heap_end ((p, k) # rs) = max (p + k) (heap_end rs)"

definition bump :: malloc where
  "bump rs n = (if heap_end rs + n \<le> 140737488355328 then heap_end rs else 0)"

lemma heap_end_ge: "(p, k) \<in> set rs \<Longrightarrow> p + k \<le> heap_end rs"
  by (induction rs rule: heap_end.induct) auto

lemma good_malloc_bump: "good_malloc bump"
  unfolding good_malloc_def bump_def by (auto simp: apart_def dest: heap_end_ge)

text \<open>It fails only when the address space of 47 bits is exhausted.\<close>

lemma bump_obtained: "obtained bump rs new \<Longrightarrow> heap_end (new @ rs) = heap_end rs + heap_size new"
  by (induction new) (auto simp: alloc_def bump_def Let_def max_def split: if_splits)

lemma heap_end_pos: "0 < heap_end rs"
  by (induction rs rule: heap_end.induct) auto

lemma bump_succeeds: "heap_end rs + B \<le> 140737488355328 \<Longrightarrow> \<not> allocation_failed bump B rs"
  using heap_end_pos[of rs] bump_obtained[of rs]
  by (auto simp: allocation_failed_def alloc_def bump_def Let_def split: if_splits)

theorem flexible_buffer_slots_witness:
  "flex_iterate \<lparr>totalLen = 3, currCapacity = 4, buffers = [\<lparr>numElements = 2, buf_ptr = 8\<rparr>, \<lparr>numElements = 1, buf_ptr = 40\<rparr>], typeSize = 16\<rparr>
      = [8, 24, 40] \<and> slots_safe [(40, 64), (8, 32)] 16 [8, 24, 40]"
proof -
  have "mk_flexible bump 2 16 [] =
      Some (\<lparr>totalLen = 0, currCapacity = 2, buffers = [\<lparr>numElements = 0, buf_ptr = 8\<rparr>], typeSize = 16\<rparr>, [(8, 32)])"
    by (simp add: mk_flexible_def alloc_def bump_def u64_def Let_def)
  moreover have "insert_many bump 3 \<lparr>totalLen = 0, currCapacity = 2, buffers = [\<lparr>numElements = 0, buf_ptr = 8\<rparr>], typeSize = 16\<rparr> [(8, 32)] =
      Some ([8, 24, 40], \<lparr>totalLen = 3, currCapacity = 4,
        buffers = [\<lparr>numElements = 2, buf_ptr = 8\<rparr>, \<lparr>numElements = 1, buf_ptr = 40\<rparr>], typeSize = 16\<rparr>, [(40, 64), (8, 32)])"
    unfolding numeral_3_eq_3 by (simp add: flex_insert_def nextBuffer_def alloc_def bump_def u64_def Let_def)
  ultimately show ?thesis
    using flexible_buffer_slots[OF good_malloc_bump, where n = 2 and ts = 16 and rs = "[]" and k = 3] by simp
qed

section \<open>Pieces and copies\<close>

lemma range_chunks:
  assumes "0 < c"
  shows "concat (map (\<lambda>k. [k * c..<min (k * c + c) n]) [0..<(n + (c - 1)) div c]) = [0..<n]"
proof -
  have "concat (map (\<lambda>k. [k * c..<min (k * c + c) n]) [0..<j]) = [0..<min (j * c) n]" for j
  proof (induction j)
    case (Suc j)
    have "[0..<min (j * c) n] @ [j * c..<min (j * c + c) n] = [0..<min (Suc j * c) n]"
    proof (cases "j * c \<le> n")
      case True
      then have "min (j * c + c) n = j * c + min c (n - j * c)" by simp
      then show ?thesis using True upt_add_eq_append[of 0 "j * c" "min c (n - j * c)"] by (simp add: add.commute)
    next
      case False
      then show ?thesis by (simp add: min_def)
    qed
    then show ?case using Suc by simp
  qed simp
  moreover have "n \<le> (n + (c - 1)) div c * c"
  proof -
    have "n + (c - 1) < ((n + (c - 1)) div c + 1) * c" using assms by (metis add.commute dividend_less_div_times mult.commute mult_Suc_right plus_1_eq_Suc add.right_neutral Suc_eq_plus1)
    then show ?thesis using assms by (simp add: algebra_simps)
  qed
  ultimately show ?thesis by (simp add: min_absorb2)
qed


text \<open>A parallel iteration visits every slot once, however the buffers are cut into pieces.\<close>

lemma buffer_chunks_slots:
  assumes "0 < ts"
  shows "concat (map (buffer_slots ts) (buffer_chunks ts b)) = buffer_slots ts b"
proof (cases "numElements b \<le> 20000")
  case False
  let ?n = "numElements b"
  have piece: "buffer_slots ts (let i = k * 20000; len = min (i + 20000) ?n - i
      in \<lparr>numElements = len, buf_ptr = buf_ptr b + i * max 1 ts\<rparr>) =
      map (\<lambda>i. buf_ptr b + i * ts) [k * 20000..<min (k * 20000 + 20000) ?n]" for k
  proof (rule nth_equalityI)
    fix i assume "i < length (buffer_slots ts (let i = k * 20000; len = min (i + 20000) ?n - i
      in \<lparr>numElements = len, buf_ptr = buf_ptr b + i * max 1 ts\<rparr>))"
    then have "i < min (k * 20000 + 20000) ?n - k * 20000" by (simp add: buffer_slots_def Let_def)
    moreover from this have "k * 20000 + i < min (k * 20000 + 20000) ?n" by linarith
    moreover have "max 1 ts = ts" using assms by simp
    ultimately show "buffer_slots ts (let i = k * 20000; len = min (i + 20000) ?n - i
        in \<lparr>numElements = len, buf_ptr = buf_ptr b + i * max 1 ts\<rparr>) ! i =
      map (\<lambda>i. buf_ptr b + i * ts) [k * 20000..<min (k * 20000 + 20000) ?n] ! i"
      by (simp add: buffer_slots_def Let_def distrib_right)
  qed (simp add: buffer_slots_def Let_def)
  have "concat (map (buffer_slots ts) (buffer_chunks ts b)) =
      map (\<lambda>i. buf_ptr b + i * ts) (concat (map (\<lambda>k. [k * 20000..<min (k * 20000 + 20000) ?n]) [0..<(?n + (20000 - 1)) div 20000]))"
    unfolding buffer_chunks_def if_not_P[OF False] map_map comp_def piece map_concat by simp
  also have "\<dots> = map (\<lambda>i. buf_ptr b + i * ts) [0..<?n]" by (subst range_chunks) simp_all
  finally show ?thesis by (simp add: buffer_slots_def)
qed (simp add: buffer_chunks_def)

lemma parallel_iteration:
  assumes "0 < typeSize f"
  shows "concat (map (buffer_slots (typeSize f)) (iterateBuffersParallel f)) = flex_iterate f"
proof -
  have "concat (map (buffer_slots (typeSize f)) (concat (map (buffer_chunks (typeSize f)) bs))) =
      concat (map (buffer_slots (typeSize f)) bs)" for bs
    by (induction bs) (simp_all add: buffer_chunks_slots[OF assms])
  then show ?thesis by (simp add: iterateBuffersParallel_def flex_iterate_def)
qed

text \<open>Merging buffers with memory of their own.\<close>

lemma flex_merge_iterate:
  "typeSize g = typeSize f \<Longrightarrow> flex_iterate (fst (flex_merge f g)) = flex_iterate g @ flex_iterate f"
  by (simp add: flex_merge_def flex_iterate_def)

text \<open>The copy of \<^verbatim>\<open>asContinuous\<close> is the contents of the elements one after the other.\<close>

lemma asContinuous_contents:
  assumes "length cs = length (flex_iterate f)" and "\<forall>i < length cs. string_at mem (flex_iterate f ! i) (cs ! i) \<and> length (cs ! i) = typeSize f"
  shows "asContinuous mem f = Some (concat cs)"
proof -
  have "those (map (\<lambda>p. load_bytes mem p (typeSize f)) as) = Some cs"
    if "length cs = length as" "\<forall>i < length cs. string_at mem (as ! i) (cs ! i) \<and> length (cs ! i) = typeSize f" for as
    using that
  proof (induction cs as rule: list_induct2')
    case (4 c cs a as)
    have "load_bytes mem a (typeSize f) = Some c"
      using 4(3) load_bytes_string[of mem a c] by auto
    moreover have "those (map (\<lambda>p. load_bytes mem p (typeSize f)) as) = Some cs"
      using 4 by fastforce
    ultimately show ?case by simp
  qed simp_all
  then show ?thesis using assms by (simp add: asContinuous_def)
qed

end
