(* ===== verification/Hash_Table.thy ===== *)
theory Hash_Table
  imports Flexible_Buffer
begin

text \<open>
  The chained hash tables of aggregations and joins (\<^verbatim>\<open>src/lib/runtime/Hashtable.cpp\<close>,
  \<^verbatim>\<open>HashMultiMap.cpp\<close>, \<^verbatim>\<open>LazyJoinHashtable.cpp\<close>). Entries live in the slots of a
  \<^verbatim>\<open>FlexibleBuffer\<close>; the memory they occupy is a map from their addresses to their fields. The
  table holds 64-bit pointers with tags, the \<^verbatim>\<open>next\<close> fields pointers without. \<open>None\<close> is an
  access outside the table or to an address that holds no entry.
\<close>

section \<open>Entries and the table\<close>

type_synonym ptr = "64 word"

record 'c ht_entry =
  next_entry :: ptr
  hashValue :: "64 word"
  content :: 'c

record 'c hash_table =
  ht :: "ptr list"
  hashMask :: "64 word"
  ht_values :: flexible_buffer
  cells :: "nat \<rightharpoonup> 'c ht_entry"

definition ptr_at :: "ptr list \<Rightarrow> nat \<Rightarrow> ptr option" where
  "ptr_at t i = (if i < length t then Some (t ! i) else None)"

text \<open>The constructor; the table of \<^verbatim>\<open>LegacyFixedSizedBuffer\<close> is zeroed.\<close>

definition mk_hash_table :: "malloc \<Rightarrow> nat \<Rightarrow> nat \<Rightarrow> region list \<Rightarrow> ('c hash_table \<times> region list) option" where
  "mk_hash_table m initialCapacity tSize rs = do {
    (vals, rs') \<leftarrow> mk_flexible m initialCapacity tSize rs;
    Some (\<lparr>ht = replicate (initialCapacity * 2) 0, hashMask = of_nat initialCapacity * 2 - 1, ht_values = vals, cells = Map.empty\<rparr>, rs') }"

text \<open>The body of the loop in \<^verbatim>\<open>resize\<close>: the entry at address \<open>a\<close> becomes the head of its chain.\<close>

definition link_entry :: "64 word \<Rightarrow> nat \<Rightarrow> ptr list \<times> (nat \<rightharpoonup> 'c ht_entry) \<Rightarrow> (ptr list \<times> (nat \<rightharpoonup> 'c ht_entry)) option" where
  "link_entry hm a tc = do {
    e \<leftarrow> snd tc a;
    let pos = unat (hashValue e AND hm);
    previousPtr \<leftarrow> ptr_at (fst tc) pos;
    Some ((fst tc)[pos := tag (of_nat a) previousPtr (hashValue e)],
          (snd tc)(a \<mapsto> e\<lparr>next_entry := untag previousPtr\<rparr>)) }"

fun link_all :: "64 word \<Rightarrow> nat list \<Rightarrow> ptr list \<times> (nat \<rightharpoonup> 'c ht_entry) \<Rightarrow> (ptr list \<times> (nat \<rightharpoonup> 'c ht_entry)) option" where
  "link_all hm [] tc = Some tc"
| "link_all hm (a # as) tc = do { tc' \<leftarrow> link_entry hm a tc; link_all hm as tc' }"

definition ht_resize :: "'c hash_table \<Rightarrow> 'c hash_table option" where
  "ht_resize T = do {
    let oldHtSize = hashMask T + 1;
    let newHtSize = oldHtSize * 2;
    let hm = newHtSize - 1;
    (t, c) \<leftarrow> link_all hm (flex_iterate (ht_values T)) (replicate (unat newHtSize) 0, cells T);
    Some (T\<lparr>ht := t, hashMask := hm, cells := c\<rparr>) }"

text \<open>\<open>raw\<close> is what the content of the new entry holds before its user writes it.\<close>

definition ht_insert :: "malloc \<Rightarrow> 'c \<Rightarrow> 64 word \<Rightarrow> 'c hash_table \<Rightarrow> region list \<Rightarrow> (nat \<times> 'c hash_table \<times> region list) option" where
  "ht_insert m raw hash T rs = do {
    T1 \<leftarrow> (if totalLen (ht_values T) > unat (hashMask T div 2) then ht_resize T else Some T);
    (a, vals, rs') \<leftarrow> flex_insert m (ht_values T1) rs;
    let pos = unat (hash AND hashMask T1);
    previousPtr \<leftarrow> ptr_at (ht T1) pos;
    Some (a, T1\<lparr>ht := (ht T1)[pos := tag (of_nat a) previousPtr hash], ht_values := vals,
      cells := (cells T1)(a \<mapsto> \<lparr>next_entry = untag previousPtr, hashValue = hash, content = raw\<rparr>)\<rparr>, rs') }"

text \<open>The loop of \<^verbatim>\<open>mergeEntries\<close> over a chain: the first entry with the hash and equal content.\<close>

partial_function (option) find_entry ::
  "('c \<Rightarrow> 'c \<Rightarrow> bool) \<Rightarrow> (nat \<rightharpoonup> 'c ht_entry) \<Rightarrow> 64 word \<Rightarrow> 'c \<Rightarrow> ptr \<Rightarrow> nat option option" where
  "find_entry isEq c hash x candidate =
    (if candidate = 0 then Some None
     else do {
       e \<leftarrow> c (unat candidate);
       if hashValue e = hash \<and> isEq (content e) x then Some (Some (unat candidate))
       else find_entry isEq c hash x (next_entry e) })"

definition merge_entry ::
  "malloc \<Rightarrow> 'c \<Rightarrow> ('c \<Rightarrow> 'c \<Rightarrow> bool) \<Rightarrow> ('c \<Rightarrow> 'c \<Rightarrow> 'c) \<Rightarrow> 'c ht_entry \<Rightarrow> 'c hash_table \<times> region list \<Rightarrow> ('c hash_table \<times> region list) option" where
  "merge_entry m raw isEq mergeFn other Ts = do {
    let T = fst Ts;
    let otherHash = hashValue other;
    slot \<leftarrow> ptr_at (ht T) (unat (otherHash AND hashMask T));
    found \<leftarrow> find_entry isEq (cells T) otherHash (content other) (filterTagged slot otherHash);
    (case found of
       Some a \<Rightarrow> do {
         e \<leftarrow> cells T a;
         Some (T\<lparr>cells := (cells T)(a \<mapsto> e\<lparr>content := mergeFn (content e) (content other)\<rparr>)\<rparr>, snd Ts) }
     | None \<Rightarrow> do {
         (a, T', rs') \<leftarrow> ht_insert m raw otherHash T (snd Ts);
         e \<leftarrow> cells T' a;
         Some (T'\<lparr>cells := (cells T')(a \<mapsto> e\<lparr>content := content other\<rparr>)\<rparr>, rs') }) }"

fun merge_entries_loop ::
  "malloc \<Rightarrow> 'c \<Rightarrow> ('c \<Rightarrow> 'c \<Rightarrow> bool) \<Rightarrow> ('c \<Rightarrow> 'c \<Rightarrow> 'c) \<Rightarrow> (nat \<rightharpoonup> 'c ht_entry) \<Rightarrow> nat list \<Rightarrow> 'c hash_table \<times> region list \<Rightarrow> ('c hash_table \<times> region list) option" where
  "merge_entries_loop m raw isEq mergeFn oc [] Ts = Some Ts"
| "merge_entries_loop m raw isEq mergeFn oc (a # as) Ts = do {
    other \<leftarrow> oc a;
    Ts' \<leftarrow> merge_entry m raw isEq mergeFn other Ts;
    merge_entries_loop m raw isEq mergeFn oc as Ts' }"

definition mergeEntries ::
  "malloc \<Rightarrow> 'c \<Rightarrow> ('c \<Rightarrow> 'c \<Rightarrow> bool) \<Rightarrow> ('c \<Rightarrow> 'c \<Rightarrow> 'c) \<Rightarrow> 'c hash_table \<Rightarrow> 'c hash_table \<times> region list \<Rightarrow> ('c hash_table \<times> region list) option" where
  "mergeEntries m raw isEq mergeFn other Ts =
    merge_entries_loop m raw isEq mergeFn (cells other) (flex_iterate (ht_values other)) Ts"

fun ht_merge ::
  "malloc \<Rightarrow> 'c \<Rightarrow> ('c \<Rightarrow> 'c \<Rightarrow> bool) \<Rightarrow> ('c \<Rightarrow> 'c \<Rightarrow> 'c) \<Rightarrow> 'c hash_table list \<Rightarrow> 'c hash_table \<times> region list \<Rightarrow> ('c hash_table \<times> region list) option" where
  "ht_merge m raw isEq mergeFn [] Ts = Some Ts"
| "ht_merge m raw isEq mergeFn (T # rest) Ts = do {
    Ts' \<leftarrow> mergeEntries m raw isEq mergeFn T Ts;
    ht_merge m raw isEq mergeFn rest Ts' }"

section \<open>Chains\<close>

fun chain_at :: "(nat \<rightharpoonup> 'c ht_entry) \<Rightarrow> ptr \<Rightarrow> nat list \<Rightarrow> bool" where
  "chain_at c w [] \<longleftrightarrow> w = 0"
| "chain_at c w (a # as) \<longleftrightarrow> w = of_nat a \<and> 0 < a \<and> a < 140737488355328 \<and>
    (case c a of None \<Rightarrow> False | Some e \<Rightarrow> chain_at c (next_entry e) as)"

definition hash_of :: "(nat \<rightharpoonup> 'c ht_entry) \<Rightarrow> nat \<Rightarrow> 64 word" where
  "hash_of c a = hashValue (the (c a))"

text \<open>
  Every chain holds the entries of its bucket, the latest first; \<open>as\<close> are the addresses of all
  entries in the order of their insertion, \<open>bucket\<close> the place of a hash in the table of \<open>n\<close> places.
\<close>

definition table_ok :: "(64 word \<Rightarrow> nat) \<Rightarrow> nat \<Rightarrow> ptr list \<Rightarrow> (nat \<rightharpoonup> 'c ht_entry) \<Rightarrow> nat list \<Rightarrow> bool" where
  "table_ok bucket n t c as \<longleftrightarrow> length t = n \<and> (\<forall>h. bucket h < n) \<and>
    (\<forall>p < n. chain_at c (untag (t ! p)) (rev (filter (\<lambda>a. bucket (hash_of c a) = p) as)))"

abbreviation masked :: "64 word \<Rightarrow> 64 word \<Rightarrow> nat" where
  "masked hm h \<equiv> unat (h AND hm)"

abbreviation masked_table_ok :: "64 word \<Rightarrow> ptr list \<Rightarrow> (nat \<rightharpoonup> 'c ht_entry) \<Rightarrow> nat list \<Rightarrow> bool" where
  "masked_table_ok hm \<equiv> table_ok (masked hm) (unat hm + 1)"

lemma chain_at_cong: "(\<And>a. a \<in> set as \<Longrightarrow> map_option next_entry (c' a) = map_option next_entry (c a)) \<Longrightarrow> chain_at c' w as = chain_at c w as"
proof (induction as arbitrary: w)
  case (Cons a as)
  have "map_option next_entry (c' a) = map_option next_entry (c a)" using Cons.prems by simp
  then show ?case using Cons by (cases "c a"; cases "c' a") simp_all
qed simp

lemma untag_address: "a < 140737488355328 \<Longrightarrow> untag (of_nat a) = of_nat a"
proof -
  assume "a < 140737488355328"
  then have "a mod 281474976710656 = a" by simp
  then have "take_bit 48 a = a" by (simp add: take_bit_eq_mod)
  then have "take_bit 48 (of_nat a :: 64 word) = of_nat a" by (metis of_nat_take_bit)
  then show ?thesis by (simp add: untag_def ptr_masks flip: take_bit_eq_mask)
qed

lemma bucket_less: "unat (h AND hm) < unat hm + 1" for h hm :: "64 word"
  using word_and_le1[of h hm] by (simp add: and.commute word_le_nat_alt less_Suc_eq_le)

lemma at_bucket: "length t = unat hm + 1 \<Longrightarrow> ptr_at t (unat (h AND hm)) = Some (t ! unat (h AND hm))"
  for h hm :: "64 word"
  using bucket_less[of h hm] by (simp add: ptr_at_def)


lemma table_chain:
  "table_ok bucket n t c as \<Longrightarrow>
    chain_at c (untag (t ! bucket h)) (rev (filter (\<lambda>a. bucket (hash_of c a) = bucket h) as))"
  by (simp add: table_ok_def)

lemma table_at: "table_ok bucket n t c as \<Longrightarrow> ptr_at t (bucket h) = Some (t ! bucket h)"
  by (simp add: table_ok_def ptr_at_def)

text \<open>Putting a new entry at the head of its chain, with whatever tag.\<close>

lemma table_ok_put:
  assumes ok: "table_ok bucket n t c as" and a: "a \<notin> set as" "0 < a" "a < 140737488355328"
    and e: "hashValue e = h" "next_entry e = untag (t ! bucket h)" and w: "untag w = of_nat a"
  shows "table_ok bucket n (t[bucket h := w]) (c(a \<mapsto> e)) (as @ [a])"
proof -
  let ?p = "bucket h" and ?c = "c(a \<mapsto> e)"
  have len: "length t = n" and p: "?p < n" using ok by (simp_all add: table_ok_def)
  have hash: "hash_of ?c x = hash_of c x" if "x \<in> set as" for x using that a(1) by (auto simp: hash_of_def)
  have ha: "hash_of ?c a = h" using e(1) by (simp add: hash_of_def)
  have old: "chain_at ?c (untag (t ! q)) (rev (filter (\<lambda>x. bucket (hash_of ?c x) = q) as))" if "q < n" for q
  proof -
    have "filter (\<lambda>x. bucket (hash_of ?c x) = q) as = filter (\<lambda>x. bucket (hash_of c x) = q) as"
      using hash by (intro filter_cong) auto
    moreover have "chain_at c (untag (t ! q)) (rev (filter (\<lambda>x. bucket (hash_of c x) = q) as))"
      using ok that by (simp add: table_ok_def)
    ultimately show ?thesis using a(1) by (subst chain_at_cong[where c = c]) auto
  qed
  have "chain_at ?c (untag (t[?p := w] ! q)) (rev (filter (\<lambda>x. bucket (hash_of ?c x) = q) (as @ [a])))"
    if q: "q < n" for q
  proof (cases "q = ?p")
    case True
    have "chain_at ?c (untag (t ! ?p)) (rev (filter (\<lambda>x. bucket (hash_of ?c x) = ?p) as))" by (rule old[OF p])
    then show ?thesis using True p len a(2,3) e(2) ha w by simp
  next
    case False
    then show ?thesis using old[OF q] ha by (simp add: eq_commute)
  qed
  then show ?thesis using len ok by (simp add: table_ok_def)
qed

lemma table_ok_push:
  assumes "table_ok bucket n t c as" and "a \<notin> set as" "0 < a" "a < 140737488355328"
    and "hashValue e = h" "next_entry e = untag (t ! bucket h)"
  shows "table_ok bucket n (t[bucket h := tag (of_nat a) (t ! bucket h) h]) (c(a \<mapsto> e)) (as @ [a])"
  using assms by (intro table_ok_put) (simp_all add: untag_address)

lemma link_entry_ok:
  assumes "masked_table_ok hm t c as" and "a \<notin> set as" "0 < a" "a < 140737488355328" and "c a = Some e"
  shows "\<exists>t' c'. link_entry hm a (t, c) = Some (t', c') \<and> masked_table_ok hm t' c' (as @ [a]) \<and>
    (\<exists>w. c' = c(a \<mapsto> e\<lparr>next_entry := w\<rparr>))"
proof -
  let ?p = "unat (hashValue e AND hm)"
  have "ptr_at t ?p = Some (t ! ?p)" using table_at[OF assms(1), of "hashValue e"] .
  then have "link_entry hm a (t, c) = Some (t[?p := tag (of_nat a) (t ! ?p) (hashValue e)], c(a \<mapsto> e\<lparr>next_entry := untag (t ! ?p)\<rparr>))"
    using assms(5) by (simp add: link_entry_def Let_def)
  then show ?thesis
    using table_ok_push[OF assms(1-4), of "e\<lparr>next_entry := untag (t ! ?p)\<rparr>" "hashValue e"] by auto
qed

text \<open>Hash and content of an entry.\<close>

definition payload :: "(nat \<rightharpoonup> 'c ht_entry) \<Rightarrow> nat \<Rightarrow> (64 word \<times> 'c) option" where
  "payload c a = map_option (\<lambda>e. (hashValue e, content e)) (c a)"

lemma payload_dom: "dom (payload c) = dom c"
  by (auto simp: payload_def)

lemma payload_next: "c a = Some e \<Longrightarrow> payload (c(a \<mapsto> e\<lparr>next_entry := w\<rparr>)) x = payload c x"
  by (simp add: payload_def)

lemma link_all_ok:
  assumes "masked_table_ok hm t c ds" and "distinct (ds @ as)" and "\<forall>a \<in> set as. 0 < a \<and> a < 140737488355328 \<and> a \<in> dom c"
  shows "\<exists>t' c'. link_all hm as (t, c) = Some (t', c') \<and> masked_table_ok hm t' c' (ds @ as) \<and>
    payload c' = payload c"
  using assms
proof (induction as arbitrary: ds t c)
  case (Cons a as)
  obtain e where e: "c a = Some e" using Cons.prems(3) by auto
  obtain t1 c1 w where 1: "link_entry hm a (t, c) = Some (t1, c1)" "masked_table_ok hm t1 c1 (ds @ [a])" "c1 = c(a \<mapsto> e\<lparr>next_entry := w\<rparr>)"
    using link_entry_ok[OF Cons.prems(1) _ _ _ e] Cons.prems(2,3) by auto
  have p1: "payload c1 = payload c" using 1(3) payload_next[of c a e w] e by auto
  have "\<forall>x \<in> set as. 0 < x \<and> x < 140737488355328 \<and> x \<in> dom c1" using Cons.prems(3) 1(3) by auto
  then obtain t' c' where "link_all hm as (t1, c1) = Some (t', c')" "masked_table_ok hm t' c' ((ds @ [a]) @ as)" "payload c' = payload c1"
    using Cons.IH[OF 1(2)] Cons.prems(2) by auto
  then show ?case using 1(1) p1 by auto
qed simp

lemma table_ok_empty: "(\<And>h. bucket h < n) \<Longrightarrow> table_ok bucket n (replicate n 0) c []"
  by (simp add: table_ok_def untag_def)

lemma masked_table_ok_empty: "masked_table_ok hm (replicate (unat hm + 1) 0) c []"
  by (intro table_ok_empty bucket_less)

section \<open>The invariant\<close>

definition ht_ok :: "region list \<Rightarrow> 'c hash_table \<Rightarrow> bool" where
  "ht_ok rs T \<longleftrightarrow> flex_ok rs (ht_values T) \<and> dom (cells T) = set (flex_iterate (ht_values T)) \<and>
    masked_table_ok (hashMask T) (ht T) (cells T) (flex_iterate (ht_values T)) \<and> hashMask T < 2305843009213693952"

text \<open>What a table holds: hashes and contents in the order of insertion.\<close>

definition entries :: "'c hash_table \<Rightarrow> (64 word \<times> 'c) list" where
  "entries T = map (\<lambda>a. the (payload (cells T) a)) (flex_iterate (ht_values T))"

lemma flex_slots:
  assumes "flex_ok rs f"
  shows "distinct (flex_iterate f)" "\<forall>a \<in> set (flex_iterate f). 0 < a \<and> a < 140737488355328"
    "totalLen f = length (flex_iterate f)" "totalLen f \<le> 140737488355328"
proof -
  have ts: "0 < typeSize f" using assms by (simp add: flex_ok_def)
  have s: "slots_safe rs (typeSize f) (flex_iterate f)" using assms by (rule flex_ok_slots)
  show d: "distinct (flex_iterate f)" using s ts apart_distinct by (auto simp: slots_safe_def)
  show b: "\<forall>a \<in> set (flex_iterate f). 0 < a \<and> a < 140737488355328"
    using s ts by (fastforce simp: slots_safe_def)
  show l: "totalLen f = length (flex_iterate f)"
  proof -
    have "length (concat (map (buffer_slots ts) bs)) = sum_list (map numElements bs)" for ts bs
      by (induction bs) (simp_all add: buffer_slots_def)
    then show ?thesis using assms by (simp add: flex_ok_def flex_iterate_def)
  qed
  have "card (set (flex_iterate f)) \<le> card {..<140737488355328 :: nat}"
    using b by (intro card_mono) auto
  then show "totalLen f \<le> 140737488355328" using d l by (simp add: distinct_card)
qed


lemma resize_mask:
  assumes "unat (hm :: 64 word) < 4611686018427387904"
  shows "unat ((hm + 1) * 2) = (unat hm + 1) * 2" and "unat ((hm + 1) * 2 - 1) + 1 = (unat hm + 1) * 2"
proof -
  have a: "unat (hm + 1) = unat hm + 1"
    using assms by (subst unat_add_lem[THEN iffD1]) simp_all
  show b: "unat ((hm + 1) * 2) = (unat hm + 1) * 2"
    using assms a by (subst unat_mult_lem[THEN iffD1]) simp_all
  have "(hm + 1) * 2 \<noteq> 0" using b by (metis add_is_0 mult_is_0 one_neq_zero unat_0 zero_neq_numeral)
  from unat_minus_one[OF this] have "unat ((hm + 1) * 2 - 1) = (unat hm + 1) * 2 - 1"
    by (rule trans) (rule arg_cong[OF b])
  moreover have "(x + 1) * 2 - 1 + 1 = (x + 1) * 2" for x :: nat by simp
  ultimately show "unat ((hm + 1) * 2 - 1) + 1 = (unat hm + 1) * 2" by (simp only:)
qed

lemma ht_resize_ok:
  assumes ok: "ht_ok rs T" and full: "totalLen (ht_values T) > unat (hashMask T div 2)"
  shows "\<exists>T'. ht_resize T = Some T' \<and> ht_ok rs T' \<and> entries T' = entries T \<and> ht_values T' = ht_values T \<and>
    payload (cells T') = payload (cells T)"
proof -
  let ?as = "flex_iterate (ht_values T)"
  have flex: "flex_ok rs (ht_values T)" using ok by (simp add: ht_ok_def)
  note sl = flex_slots[OF flex]
  have "unat (hashMask T) div 2 < 140737488355328"
    using full sl(4) by (simp add: unat_div)
  then have m: "unat (hashMask T) < 281474976710656" by linarith
  define hm where "hm = (hashMask T + 1) * 2 - 1"
  have hm: "unat ((hashMask T + 1) * 2) = unat hm + 1" "unat hm + 1 = (unat (hashMask T) + 1) * 2"
    using resize_mask[of "hashMask T"] m by (simp_all add: hm_def)
  have dom: "dom (cells T) = set ?as" using ok by (simp add: ht_ok_def)
  have "\<forall>a \<in> set ?as. 0 < a \<and> a < 140737488355328 \<and> a \<in> dom (cells T)" using sl(2) dom by blast
  then obtain t c where tc: "link_all hm ?as (replicate (unat hm + 1) 0, cells T) = Some (t, c)"
      "masked_table_ok hm t c ?as" "payload c = payload (cells T)"
    using link_all_ok[OF masked_table_ok_empty[of hm "cells T"], of ?as] sl(1) by auto
  define T' where "T' = T\<lparr>ht := t, hashMask := hm, cells := c\<rparr>"
  have "ht_resize T = Some T'"
    unfolding ht_resize_def T'_def Let_def hm_def[symmetric] hm(1) tc(1) by simp
  moreover have "dom c = dom (cells T)"
    using arg_cong[OF tc(3), of dom] by (simp add: payload_dom)
  moreover have "hm < 2305843009213693952" using hm(2) m by (simp add: word_less_nat_alt)
  ultimately show ?thesis
    using ok tc by (simp add: T'_def ht_ok_def entries_def)
qed

text \<open>What one insertion may ask \<^verbatim>\<open>malloc\<close> for.\<close>

definition room :: "'c hash_table \<Rightarrow> nat" where
  "room T = 2 * totalLen (ht_values T) * typeSize (ht_values T)"

lemma ht_insert_ok:
  assumes m: "good_malloc m" and ok: "ht_ok rs T"
  shows "(\<exists>a T' rs'. ht_insert m raw hash T rs = Some (a, T', rs') \<and> ht_ok rs' T' \<and> grown m (room T) rs rs' \<and>
      typeSize (ht_values T') = typeSize (ht_values T) \<and>
      flex_iterate (ht_values T') = flex_iterate (ht_values T) @ [a] \<and>
      payload (cells T') = (payload (cells T))(a \<mapsto> (hash, raw)) \<and> a \<notin> dom (cells T)) \<or>
    (ht_insert m raw hash T rs = None \<and> allocation_failed m (room T) rs)"
proof -
  obtain T1 where T1: "(if totalLen (ht_values T) > unat (hashMask T div 2) then ht_resize T else Some T) = Some T1"
      "ht_ok rs T1" "ht_values T1 = ht_values T" "payload (cells T1) = payload (cells T)"
    using ht_resize_ok[OF ok] ok by (cases "totalLen (ht_values T) > unat (hashMask T div 2)") auto
  show ?thesis
  proof (cases "flex_insert m (ht_values T) rs")
    case None
    then have "allocation_failed m (room T) rs" using flex_insert_None[of rs "ht_values T"] ok by (auto simp: ht_ok_def room_def)
    then show ?thesis using None T1(1,3) by (simp add: ht_insert_def)
  next
    case (Some r)
    obtain a vals rs' where r: "flex_insert m (ht_values T) rs = Some (a, vals, rs')" using Some by (cases r) auto
    have flex: "flex_ok rs (ht_values T)" using ok by (simp add: ht_ok_def)
    note gr = flex_insert_grown[OF m flex r, folded room_def]
    note ins = flex_insert_ok[OF m flex r]
    then have fo: "flex_ok rs' vals" by blast
    note sl = flex_slots[OF fo]
    let ?as = "flex_iterate (ht_values T)"
    have a: "a \<notin> set ?as" "0 < a" "a < 140737488355328" using ins sl(1,2) by auto
    have tab: "masked_table_ok (hashMask T1) (ht T1) (cells T1) ?as" "dom (cells T1) = set ?as"
      using T1(2,3) by (simp_all add: ht_ok_def)
    let ?p = "unat (hash AND hashMask T1)"
    define e where "e = \<lparr>next_entry = untag (ht T1 ! ?p), hashValue = hash, content = raw\<rparr>"
    define T' where "T' = T1\<lparr>ht := (ht T1)[?p := tag (of_nat a) (ht T1 ! ?p) hash], ht_values := vals, cells := (cells T1)(a \<mapsto> e)\<rparr>"
    have at: "ptr_at (ht T1) ?p = Some (ht T1 ! ?p)" using table_at[OF tab(1), of hash] .
    have run: "ht_insert m raw hash T rs = Some (a, T', rs')"
      using T1(1,3) r at by (simp add: ht_insert_def Let_def T'_def e_def)
    have "masked_table_ok (hashMask T1) (ht T') (cells T') (?as @ [a])"
      using table_ok_push[OF tab(1) a, of e hash] by (simp add: T'_def e_def)
    then have "ht_ok rs' T'"
      using fo ins tab(2) T1(2) by (auto simp: ht_ok_def T'_def)
    moreover have "payload (cells T') = (payload (cells T))(a \<mapsto> (hash, raw))"
      using T1(4) by (auto simp: T'_def e_def payload_def fun_eq_iff)
    ultimately show ?thesis using run ins gr a(1) tab(2) T1 ok by (auto simp: T'_def ht_ok_def)
  qed
qed


section \<open>Search\<close>

definition entry_matches :: "('c \<Rightarrow> 'c \<Rightarrow> bool) \<Rightarrow> 64 word \<Rightarrow> 'c \<Rightarrow> 64 word \<times> 'c \<Rightarrow> bool" where
  "entry_matches isEq h x hc \<longleftrightarrow> fst hc = h \<and> isEq (snd hc) x"

lemma payload_Some: "c a = Some e \<Longrightarrow> payload c a = Some (hashValue e, content e)"
  by (simp add: payload_def)

lemma find_entry_chain:
  assumes "chain_at c w as"
  shows "find_entry isEq c h x w = Some (find (\<lambda>a. entry_matches isEq h x (the (payload c a))) as)"
  using assms
proof (induction as arbitrary: w)
  case Nil
  then show ?case by (subst find_entry.simps) simp
next
  case (Cons a as)
  obtain e where e: "c a = Some e" "chain_at c (next_entry e) as" using Cons.prems by (auto split: option.splits)
  have a: "unat (of_nat a :: 64 word) = a" using Cons.prems by (simp add: unat_of_nat)
  moreover have "0 < a" using Cons.prems by simp
  ultimately have "(of_nat a :: 64 word) \<noteq> 0" by (metis less_irrefl unat_0)
  then show ?case
    using Cons.prems Cons.IH[OF e(2)] e(1) a
    by (subst find_entry.simps) (simp add: entry_matches_def payload_Some)
qed

lemma find_filter: "(\<And>a. a \<in> set as \<Longrightarrow> P a \<Longrightarrow> Q a) \<Longrightarrow> find P (filter Q as) = find P as"
  by (induction as) auto

lemma table_find:
  assumes ok: "table_ok bucket n t c as" and dom: "set as \<subseteq> dom c"
  shows "find_entry isEq c h x (untag (t ! bucket h)) =
    Some (find (\<lambda>a. entry_matches isEq h x (the (payload c a))) (rev as))"
proof -
  have "bucket (hash_of c a) = bucket h" if a: "a \<in> set as" and match: "entry_matches isEq h x (the (payload c a))" for a
  proof -
    obtain e where "c a = Some e" using dom a by auto
    then show ?thesis using match by (simp add: entry_matches_def payload_Some hash_of_def)
  qed
  then have "find (\<lambda>a. entry_matches isEq h x (the (payload c a))) (rev (filter (\<lambda>a. bucket (hash_of c a) = bucket h) as)) =
      find (\<lambda>a. entry_matches isEq h x (the (payload c a))) (rev as)"
    unfolding rev_filter by (intro find_filter) simp
  then show ?thesis using find_entry_chain[OF table_chain[OF ok, of h], of isEq h x] by simp
qed

section \<open>Merging\<close>

text \<open>What \<^verbatim>\<open>mergeEntries\<close> means for the contents: an entry is merged into the latest equal one, or appended.\<close>

fun update_first :: "('b \<Rightarrow> bool) \<Rightarrow> ('b \<Rightarrow> 'b) \<Rightarrow> 'b list \<Rightarrow> 'b list option" where
  "update_first P g [] = None"
| "update_first P g (y # ys) = (if P y then Some (g y # ys) else map_option ((#) y) (update_first P g ys))"

definition absorb :: "('c \<Rightarrow> 'c \<Rightarrow> bool) \<Rightarrow> ('c \<Rightarrow> 'c \<Rightarrow> 'c) \<Rightarrow> 64 word \<times> 'c \<Rightarrow> (64 word \<times> 'c) list \<Rightarrow> (64 word \<times> 'c) list" where
  "absorb isEq mergeFn hc es =
    (case update_first (entry_matches isEq (fst hc) (snd hc)) (\<lambda>(h, y). (h, mergeFn y (snd hc))) (rev es) of
       Some es' \<Rightarrow> rev es' | None \<Rightarrow> es @ [hc])"

lemma update_first_map:
  assumes "distinct as"
  shows "update_first P g (map f as) =
    (case find (\<lambda>a. P (f a)) as of None \<Rightarrow> None | Some a \<Rightarrow> Some (map (f(a := g (f a))) as))"
  using assms
proof (induction as)
  case (Cons a as)
  show ?case
  proof (cases "P (f a)")
    case True
    then show ?thesis using Cons.prems by (auto intro!: map_cong)
  next
    case False
    show ?thesis
    proof (cases "find (\<lambda>a. P (f a)) as")
      case (Some b)
      then have "b \<in> set as" by (auto simp: find_Some_iff in_set_conv_nth)
      then have "b \<noteq> a" using Cons.prems by auto
      then show ?thesis using False Some Cons by simp
    qed (use False Cons in simp)
  qed
qed simp

lemma absorb_map:
  assumes "distinct as"
  shows "absorb isEq mergeFn (h, x) (map f as) =
    (case find (\<lambda>a. entry_matches isEq h x (f a)) (rev as) of
       None \<Rightarrow> map f as @ [(h, x)]
     | Some a \<Rightarrow> map (f(a := (fst (f a), mergeFn (snd (f a)) x))) as)"
proof -
  have "distinct (rev as)" using assms by simp
  then show ?thesis
    using update_first_map[of "rev as" "entry_matches isEq h x" "\<lambda>(h, y). (h, mergeFn y x)" f]
    by (simp add: absorb_def rev_map split_beta split: option.split)
qed

text \<open>Writing the content of an entry.\<close>

lemma table_ok_content:
  assumes "c a = Some e"
  shows "table_ok bucket n t (c(a \<mapsto> e\<lparr>content := x\<rparr>)) as = table_ok bucket n t c as"
proof -
  let ?c = "c(a \<mapsto> e\<lparr>content := x\<rparr>)"
  have "hash_of ?c = hash_of c" using assms by (auto simp: hash_of_def fun_eq_iff)
  moreover have "chain_at ?c w as = chain_at c w as" for w as
    using assms by (intro chain_at_cong) auto
  ultimately show ?thesis by (simp add: table_ok_def)
qed

lemma ht_ok_content:
  "ht_ok rs T \<Longrightarrow> cells T a = Some e \<Longrightarrow> ht_ok rs (T\<lparr>cells := (cells T)(a \<mapsto> e\<lparr>content := x\<rparr>)\<rparr>)"
  by (auto simp: ht_ok_def table_ok_content)

lemma entries_update:
  assumes "cells T a = Some e"
  shows "entries (T\<lparr>cells := (cells T)(a \<mapsto> e\<lparr>content := x\<rparr>)\<rparr>) =
    map ((\<lambda>b. the (payload (cells T) b))(a := (hashValue e, x))) (flex_iterate (ht_values T))"
  using assms by (auto simp: entries_def payload_def)

lemma merge_entry_ok:
  assumes m: "good_malloc m" and ok: "ht_ok rs T"
  shows "(\<exists>T' rs'. merge_entry m raw isEq mergeFn other (T, rs) = Some (T', rs') \<and> ht_ok rs' T' \<and> grown m (room T) rs rs' \<and>
      typeSize (ht_values T') = typeSize (ht_values T) \<and> entries T' = absorb isEq mergeFn (hashValue other, content other) (entries T)) \<or>
    (merge_entry m raw isEq mergeFn other (T, rs) = None \<and> allocation_failed m (room T) rs)"
proof -
  let ?as = "flex_iterate (ht_values T)" and ?h = "hashValue other" and ?x = "content other"
  let ?f = "\<lambda>b. the (payload (cells T) b)"
  have flex: "flex_ok rs (ht_values T)" and dom: "dom (cells T) = set ?as"
    and tab: "masked_table_ok (hashMask T) (ht T) (cells T) ?as"
    using ok by (simp_all add: ht_ok_def)
  note sl = flex_slots[OF flex]
  have "set ?as \<subseteq> dom (cells T)" using dom by simp
  note slot = table_at[OF tab, of ?h] table_find[OF tab this, of isEq ?h ?x]
  have ab: "absorb isEq mergeFn (?h, ?x) (entries T) =
      (case find (\<lambda>a. entry_matches isEq ?h ?x (?f a)) (rev ?as) of
         None \<Rightarrow> entries T @ [(?h, ?x)]
       | Some a \<Rightarrow> map (?f(a := (fst (?f a), mergeFn (snd (?f a)) ?x))) ?as)"
    unfolding entries_def by (rule absorb_map[OF sl(1)])
  show ?thesis
  proof (cases "find (\<lambda>a. entry_matches isEq ?h ?x (?f a)) (rev ?as)")
    case (Some a)
    then have "a \<in> set (rev ?as)" unfolding find_Some_iff by (metis nth_mem)
    then obtain e where e: "cells T a = Some e" using dom by auto
    define T' where "T' = T\<lparr>cells := (cells T)(a \<mapsto> e\<lparr>content := mergeFn (content e) ?x\<rparr>)\<rparr>"
    have "merge_entry m raw isEq mergeFn other (T, rs) = Some (T', rs)"
      using slot Some e by (simp add: merge_entry_def Let_def T'_def)
    moreover have "ht_ok rs T'" unfolding T'_def by (rule ht_ok_content[OF ok e])
    moreover have "entries T' = absorb isEq mergeFn (?h, ?x) (entries T)"
      unfolding T'_def entries_update[OF e] ab using Some e by (simp add: payload_Some)
    moreover have "typeSize (ht_values T') = typeSize (ht_values T)" by (simp add: T'_def)
    ultimately show ?thesis by auto
  next
    case None
    note step = ht_insert_ok[OF m ok, of raw ?h]
    show ?thesis
    proof (cases "ht_insert m raw ?h T rs")
      case (Some r)
      obtain a T1 rs1 where ins: "ht_insert m raw ?h T rs = Some (a, T1, rs1)" "ht_ok rs1 T1" "grown m (room T) rs rs1"
          "flex_iterate (ht_values T1) = ?as @ [a]" "payload (cells T1) = (payload (cells T))(a \<mapsto> (?h, raw))" "a \<notin> dom (cells T)"
          "typeSize (ht_values T1) = typeSize (ht_values T)"
        using step Some by auto
      obtain e where e: "cells T1 a = Some e" "hashValue e = ?h"
        using ins(5) by (auto simp: payload_def fun_eq_iff dest!: spec[of _ a])
      define T' where "T' = T1\<lparr>cells := (cells T1)(a \<mapsto> e\<lparr>content := ?x\<rparr>)\<rparr>"
      have "merge_entry m raw isEq mergeFn other (T, rs) = Some (T', rs1)"
        using slot None ins(1) e by (simp add: merge_entry_def Let_def T'_def)
      moreover have "ht_ok rs1 T'" unfolding T'_def by (rule ht_ok_content[OF ins(2) e(1)])
      moreover have "entries T' = entries T @ [(?h, ?x)]"
        unfolding T'_def entries_update[OF e(1)] ins(4,5) using ins(6) dom e(2)
        by (auto simp: entries_def)
      moreover have "typeSize (ht_values T') = typeSize (ht_values T)" using ins(7) by (simp add: T'_def)
      ultimately show ?thesis using ins(3) ab None by auto
    next
      case no: None
      then have "allocation_failed m (room T) rs" using step by auto
      moreover have "merge_entry m raw isEq mergeFn other (T, rs) = None"
        using slot None no by (simp add: merge_entry_def Let_def)
      ultimately show ?thesis by blast
    qed
  qed
qed


lemma absorb_length: "length (absorb isEq mergeFn hc es) \<le> Suc (length es)"
proof -
  have "update_first P g xs = Some ys \<Longrightarrow> length ys = length xs" for P g and xs ys :: "(64 word \<times> 'a) list"
    by (induction xs arbitrary: ys) (auto split: if_splits)
  from this[of _ _ "rev es"] show ?thesis by (auto simp: absorb_def split: option.split)
qed

lemma room_entries: "ht_ok rs T \<Longrightarrow> room T = 2 * length (entries T) * typeSize (ht_values T)"
  using flex_slots(3)[of rs "ht_values T"] by (simp add: room_def ht_ok_def entries_def)

text \<open>\<open>N\<close> bounds the number of entries in the end.\<close>

lemma merge_entries_loop_ok:
  assumes m: "good_malloc m" and "set as \<subseteq> dom oc" and "ht_ok rs T" and "length (entries T) + length as \<le> N"
  shows "case merge_entries_loop m raw isEq mergeFn oc as (T, rs) of
      None \<Rightarrow> allocation_failed m (length as * (2 * N * typeSize (ht_values T))) rs
    | Some (T', rs') \<Rightarrow> ht_ok rs' T' \<and>
        entries T' = fold (absorb isEq mergeFn) (map (\<lambda>a. the (payload oc a)) as) (entries T)"
  using assms(2-)
proof (induction as arbitrary: T rs)
  case (Cons a as)
  obtain e where e: "oc a = Some e" using Cons.prems(1) by auto
  let ?B = "2 * N * typeSize (ht_values T)"
  have room: "room T \<le> ?B" unfolding room_entries[OF Cons.prems(2)] using Cons.prems(3) by (intro mult_le_mono) simp_all
  note step = merge_entry_ok[OF m Cons.prems(2), of raw isEq mergeFn e]
  show ?case
  proof (cases "merge_entry m raw isEq mergeFn e (T, rs)")
    case None
    then have "allocation_failed m (room T) rs" using step by auto
    moreover have "room T \<le> length (a # as) * ?B" using room by simp
    ultimately show ?thesis using None e allocation_failed_mono by fastforce
  next
    case (Some r)
    then obtain T1 rs1 where 1: "merge_entry m raw isEq mergeFn e (T, rs) = Some (T1, rs1)" "ht_ok rs1 T1" "grown m (room T) rs rs1"
        "entries T1 = absorb isEq mergeFn (hashValue e, content e) (entries T)" "typeSize (ht_values T1) = typeSize (ht_values T)"
      using step by auto
    have "length (entries T1) + length as \<le> N"
      using Cons.prems(3) absorb_length[of isEq mergeFn "(hashValue e, content e)" "entries T"] 1(4) by simp
    with Cons.prems(1) have IH: "case merge_entries_loop m raw isEq mergeFn oc as (T1, rs1) of
        None \<Rightarrow> allocation_failed m (length as * ?B) rs1
      | Some (T', rs') \<Rightarrow> ht_ok rs' T' \<and>
          entries T' = fold (absorb isEq mergeFn) (map (\<lambda>a. the (payload oc a)) as) (entries T1)"
      unfolding 1(5)[symmetric] by (intro Cons.IH[OF _ 1(2)]) simp_all
    show ?thesis
    proof (cases "merge_entries_loop m raw isEq mergeFn oc as (T1, rs1)")
      case None
      have "room T + length as * ?B \<le> length (a # as) * ?B" using room by simp
      then show ?thesis using IH e 1(1) None allocation_failed_later[OF 1(3)] by fastforce
    next
      case (Some r')
      then show ?thesis using IH e 1 by (cases r') (auto simp: payload_Some)
    qed
  qed
qed simp

lemma mk_hash_table_ok:
  assumes "good_malloc m" and "0 < n" "0 < ts" "n * ts < 18446744073709551616" "n \<le> 1152921504606846976"
    and "mk_hash_table m n ts rs = Some (T, rs')"
  shows "ht_ok rs' T \<and> entries T = []"
proof -
  obtain vals where vals: "mk_flexible m n ts rs = Some (vals, rs')"
      and T: "T = \<lparr>ht = replicate (n * 2) 0, hashMask = of_nat n * 2 - 1, ht_values = vals, cells = Map.empty\<rparr>"
    using assms(6) by (auto simp: mk_hash_table_def Option.bind_eq_Some_conv)
  note fl = mk_flexible_ok[OF assms(1-4) vals]
  have e: "of_nat n * 2 - 1 = (of_nat (n * 2 - 1) :: 64 word)" using assms(2) by (simp add: of_nat_diff)
  have u: "unat (of_nat (n * 2 - 1) :: 64 word) = n * 2 - 1" using assms(5) by (simp add: unat_of_nat)
  have r: "n * 2 = unat (of_nat (n * 2 - 1) :: 64 word) + 1" unfolding u using assms(2) by simp
  have "masked_table_ok (of_nat (n * 2 - 1)) (replicate (n * 2) 0) Map.empty []"
    by (subst (3) r) (rule masked_table_ok_empty)
  moreover have "(of_nat (n * 2 - 1) :: 64 word) < 2305843009213693952"
    using u assms(2,5) by (simp add: word_less_nat_alt)
  ultimately show ?thesis using fl T e by (simp add: ht_ok_def entries_def)
qed

section \<open>Properties\<close>

text \<open>A table with one entry, for the examples.\<close>

definition sample_buffer :: flexible_buffer where
  "sample_buffer = \<lparr>totalLen = 0, currCapacity = 1, buffers = [\<lparr>numElements = 0, buf_ptr = 8\<rparr>], typeSize = 32\<rparr>"

definition empty_table :: "bytes hash_table" where
  "empty_table = \<lparr>ht = [0, 0], hashMask = 1, ht_values = sample_buffer, cells = Map.empty\<rparr>"

definition sample_table :: "bytes hash_table" where
  "sample_table = fst (snd (the (ht_insert bump [7] 5 empty_table [(8, 32)])))"

definition sample_regions :: "region list" where
  "sample_regions = snd (snd (the (ht_insert bump [7] 5 empty_table [(8, 32)])))"

lemma sample_table_ok: "ht_ok sample_regions sample_table"
proof -
  have "mk_hash_table bump 1 32 [] = Some (empty_table, [(8, 32)])"
    by (simp add: empty_table_def sample_buffer_def mk_hash_table_def mk_flexible_def alloc_def bump_def
        Let_def u64_def numeral_2_eq_2)
  from mk_hash_table_ok[OF good_malloc_bump _ _ _ _ this] have ok: "ht_ok [(8, 32)] empty_table" by simp
  have "\<not> allocation_failed bump (room empty_table) [(8, 32)]"
    by (intro bump_succeeds) (simp add: room_def empty_table_def sample_buffer_def)
  then obtain a T' rs' where "ht_insert bump [7] 5 empty_table [(8, 32)] = Some (a, T', rs')" "ht_ok rs' T'"
    using ht_insert_ok[OF good_malloc_bump ok, of "[7]" 5] by auto
  then show ?thesis by (simp add: sample_table_def sample_regions_def)
qed

lemma sample_values:
  "sample_regions = [(8, 32)]" "entries sample_table = [(5, [7])]"
  "ht_values sample_table = \<lparr>totalLen = 1, currCapacity = 1, buffers = [\<lparr>numElements = 1, buf_ptr = 8\<rparr>], typeSize = 32\<rparr>"
  by (simp_all add: sample_regions_def sample_table_def ht_insert_def empty_table_def sample_buffer_def flex_insert_def
      ptr_at_def Let_def entries_def payload_def flex_iterate_def buffer_slots_def)

text \<open>C25: Inserting into a hash table either fails because \<^verbatim>\<open>malloc\<close> does, or appends exactly one entry with
  the hash in a fresh slot and keeps the invariant: every entry is in the chain of its bucket, no chain is
  cyclic or shares entries with another, also when the table was doubled and all chains rebuilt;
  hash and content of all other entries stay the same.\<close>
theorem hash_table_insert:
  assumes "good_malloc m" and "ht_ok rs T"
  shows "case ht_insert m raw hash T rs of
      None \<Rightarrow> allocation_failed m (2 * length (entries T) * typeSize (ht_values T)) rs
    | Some (a, T', rs') \<Rightarrow> ht_ok rs' T' \<and> entries T' = entries T @ [(hash, raw)] \<and>
        flex_iterate (ht_values T') = flex_iterate (ht_values T) @ [a]"
proof -
  have dom: "dom (cells T) = set (flex_iterate (ht_values T))" using assms(2) by (simp add: ht_ok_def)
  show ?thesis
    using ht_insert_ok[OF assms, of raw hash] dom room_entries[OF assms(2)]
    by (auto simp: entries_def split: option.split)
qed

theorem hash_table_insert_witness:
  "\<exists>a T' rs'. ht_insert bump [1, 2] 77 sample_table sample_regions = Some (a, T', rs') \<and> ht_ok rs' T' \<and>
    entries T' = [(5, [7]), (77, [1, 2])] \<and> flex_iterate (ht_values T') = flex_iterate (ht_values sample_table) @ [a]"
proof -
  have "\<not> allocation_failed bump (2 * length (entries sample_table) * typeSize (ht_values sample_table)) sample_regions"
    by (intro bump_succeeds) (simp add: sample_values)
  with hash_table_insert[OF good_malloc_bump sample_table_ok, where raw = "[1, 2]" and hash = 77] show ?thesis
    by (cases "ht_insert bump [1, 2] 77 sample_table sample_regions") (auto simp: sample_values(2))
qed

text \<open>C26: Following the chain of a bucket ends for every hash and key, stays among the entries, and finds
  the latest entry with that hash and an equal content, if there is one; none is missed.\<close>
theorem hash_table_search:
  assumes "ht_ok rs T"
  shows "\<exists>slot. ptr_at (ht T) (unat (h AND hashMask T)) = Some slot \<and>
    find_entry isEq (cells T) h x (filterTagged slot h) =
      Some (find (\<lambda>a. entry_matches isEq h x (the (payload (cells T) a))) (rev (flex_iterate (ht_values T)))) \<and>
    (find_entry isEq (cells T) h x (filterTagged slot h) = Some None \<longleftrightarrow>
      (\<forall>hc \<in> set (entries T). \<not> entry_matches isEq h x hc))"
proof -
  have "set (flex_iterate (ht_values T)) \<subseteq> dom (cells T)" using assms by (simp add: ht_ok_def)
  then show ?thesis
    using table_find[of "masked (hashMask T)" _ "ht T" "cells T" _ isEq h x] table_at[of "masked (hashMask T)" _ "ht T" "cells T" _ h] assms
    by (fastforce simp: ht_ok_def entries_def find_None_iff)
qed

theorem hash_table_search_witness:
  "\<exists>slot. ptr_at (ht sample_table) (unat (5 AND hashMask sample_table)) = Some slot \<and>
    find_entry (=) (cells sample_table) 5 [7] (filterTagged slot 5) =
      Some (find (\<lambda>a. entry_matches (=) 5 [7] (the (payload (cells sample_table) a))) (rev (flex_iterate (ht_values sample_table)))) \<and>
    (find_entry (=) (cells sample_table) 5 [7] (filterTagged slot 5) = Some None \<longleftrightarrow>
      (\<forall>hc \<in> set (entries sample_table). \<not> entry_matches (=) 5 [7] hc))"
  by (rule hash_table_search[OF sample_table_ok])

text \<open>What a merge may ask \<^verbatim>\<open>malloc\<close> for, at the most.\<close>

definition merge_bytes :: "'c hash_table \<Rightarrow> 'c hash_table \<Rightarrow> nat" where
  "merge_bytes T other = length (entries other) *
    (2 * (length (entries T) + length (entries other)) * typeSize (ht_values T))"

text \<open>C27: Merging the hash table of one thread into that of another refines the merge of their contents as
  lists: entry by entry, in the order of insertion, the content is merged into the latest entry with an
  equal hash and key, or appended; unless \<^verbatim>\<open>malloc\<close> fails it returns, and the result is in order.\<close>
theorem hash_table_merge:
  assumes "good_malloc m" and "ht_ok rs T" and "ht_ok rs2 other"
  shows "case mergeEntries m raw isEq mergeFn other (T, rs) of
      None \<Rightarrow> allocation_failed m (merge_bytes T other) rs
    | Some (T', rs') \<Rightarrow> ht_ok rs' T' \<and> entries T' = fold (absorb isEq mergeFn) (entries other) (entries T)"
proof -
  have "set (flex_iterate (ht_values other)) \<subseteq> dom (cells other)" using assms(3) by (simp add: ht_ok_def)
  from merge_entries_loop_ok[OF assms(1) this assms(2) order_refl, where raw = raw and isEq = isEq and mergeFn = mergeFn]
  show ?thesis by (auto simp: mergeEntries_def merge_bytes_def entries_def split: option.splits)
qed

theorem hash_table_merge_witness:
  "\<exists>T' rs'. mergeEntries bump [] (=) (\<lambda>x y. x @ y) sample_table (sample_table, sample_regions) = Some (T', rs') \<and>
    ht_ok rs' T' \<and> entries T' = [(5, [7, 7])]"
proof -
  have "\<not> allocation_failed bump (merge_bytes sample_table sample_table) sample_regions"
    by (intro bump_succeeds) (simp add: sample_values merge_bytes_def)
  with hash_table_merge[OF good_malloc_bump sample_table_ok sample_table_ok, where raw = "[]" and isEq = "(=)" and mergeFn = "\<lambda>x y. x @ y"] show ?thesis
    by (cases "mergeEntries bump [] (=) (\<lambda>x y. x @ y) sample_table (sample_table, sample_regions)")
      (auto simp: sample_values(2) absorb_def entry_matches_def)
qed

end
