(* ===== verification/Hash_Multi_Map.thy ===== *)
theory Hash_Multi_Map
  imports Hash_Table
begin

text \<open>
  The multi map (\<^verbatim>\<open>src/lib/runtime/HashMultiMap.cpp\<close>): a chained hash table of keys, each with a
  list of values in a buffer of their own. The statements of \<^verbatim>\<open>insertEntry\<close> and \<^verbatim>\<open>resize\<close> are those
  of the hash table, and the new entry has no values; so its entries are a \<open>hash_table\<close> whose
  contents hold the head of the list and the key.
\<close>

section \<open>The code\<close>

record 'k key_entry =
  valueList :: ptr
  keyContent :: 'k

record 'v value_cell =
  nextValue :: ptr
  valueContent :: 'v

record ('k, 'v) multi_map =
  mm_entries :: "'k key_entry hash_table"
  mm_values :: flexible_buffer
  value_cells :: "nat \<rightharpoonup> 'v value_cell"

definition mk_multi_map :: "malloc \<Rightarrow> nat \<Rightarrow> nat \<Rightarrow> nat \<Rightarrow> region list \<Rightarrow> (('k, 'v) multi_map \<times> region list) option" where
  "mk_multi_map m entryTypeSize valueTypeSize initialCapacity rs = do {
    (T, rs1) \<leftarrow> mk_hash_table m initialCapacity entryTypeSize rs;
    (vals, rs2) \<leftarrow> mk_flexible m initialCapacity valueTypeSize rs1;
    Some (\<lparr>mm_entries = T, mm_values = vals, value_cells = Map.empty\<rparr>, rs2) }"

definition insertEntry ::
  "malloc \<Rightarrow> 'k \<Rightarrow> 64 word \<Rightarrow> ('k, 'v) multi_map \<Rightarrow> region list \<Rightarrow> (nat \<times> ('k, 'v) multi_map \<times> region list) option" where
  "insertEntry m raw hash M rs = do {
    (res, T, rs') \<leftarrow> ht_insert m \<lparr>valueList = 0, keyContent = raw\<rparr> hash (mm_entries M) rs;
    Some (res, M\<lparr>mm_entries := T\<rparr>, rs') }"

definition insertValue ::
  "malloc \<Rightarrow> 'v \<Rightarrow> nat \<Rightarrow> ('k, 'v) multi_map \<Rightarrow> region list \<Rightarrow> (nat \<times> ('k, 'v) multi_map \<times> region list) option" where
  "insertValue m raw entry M rs = do {
    (res, vals, rs') \<leftarrow> flex_insert m (mm_values M) rs;
    let T = mm_entries M;
    e \<leftarrow> cells T entry;
    Some (res, M\<lparr>mm_values := vals,
      value_cells := (value_cells M)(res \<mapsto> \<lparr>nextValue = valueList (content e), valueContent = raw\<rparr>),
      mm_entries := T\<lparr>cells := (cells T)(entry \<mapsto> e\<lparr>content := (content e)\<lparr>valueList := of_nat res\<rparr>\<rparr>)\<rparr>\<rparr>, rs') }"

section \<open>The lists of values\<close>

text \<open>What a reader finds who follows a list of values.\<close>

partial_function (option) values_from :: "(nat \<rightharpoonup> 'v value_cell) \<Rightarrow> ptr \<Rightarrow> 'v list option" where
  "values_from c w =
    (if w = 0 then Some []
     else do { v \<leftarrow> c (unat w); xs \<leftarrow> values_from c (nextValue v); Some (valueContent v # xs) })"

fun value_chain :: "(nat \<rightharpoonup> 'v value_cell) \<Rightarrow> ptr \<Rightarrow> nat list \<Rightarrow> bool" where
  "value_chain c w [] \<longleftrightarrow> w = 0"
| "value_chain c w (a # as) \<longleftrightarrow> w = of_nat a \<and> 0 < a \<and> a < 140737488355328 \<and>
    (case c a of None \<Rightarrow> False | Some v \<Rightarrow> value_chain c (nextValue v) as)"

lemma value_chain_values:
  "value_chain c w as \<Longrightarrow> values_from c w = Some (map (\<lambda>a. valueContent (the (c a))) as)"
proof (induction as arbitrary: w)
  case Nil
  then show ?case by (subst values_from.simps) simp
next
  case (Cons a as)
  then obtain v where v: "c a = Some v" "value_chain c (nextValue v) as" by (auto split: option.splits)
  have "unat w = a" "w \<noteq> 0" using Cons.prems by (auto simp: unat_of_nat word_unat_eq_iff)
  then show ?case using Cons.IH[OF v(2)] v(1) by (subst values_from.simps) simp
qed

lemma value_chain_dom: "value_chain c w as \<Longrightarrow> set as \<subseteq> dom c"
  by (induction as arbitrary: w) (auto split: option.splits)

lemma value_chain_fresh: "a \<notin> dom c \<Longrightarrow> value_chain c w as \<Longrightarrow> value_chain (c(a \<mapsto> v)) w as"
proof (induction as arbitrary: w)
  case (Cons b as)
  then show ?case by (cases "c b") auto
qed simp

section \<open>The contents of a map\<close>

text \<open>The entries in the order of insertion, each with its values, the latest first.\<close>

definition entry_at :: "('k, 'v) multi_map \<Rightarrow> nat \<Rightarrow> 64 word \<times> 'k \<times> 'v list option" where
  "entry_at M a = (case the (payload (cells (mm_entries M)) a) of
    (h, kc) \<Rightarrow> (h, keyContent kc, values_from (value_cells M) (valueList kc)))"

definition slots_of :: "('k, 'v) multi_map \<Rightarrow> nat list" where
  "slots_of M = flex_iterate (ht_values (mm_entries M))"

text \<open>Both buffers and the table are in order, and every list of values ends and stays in the buffer of values.\<close>

definition multi_map_ok :: "region list \<Rightarrow> ('k, 'v) multi_map \<Rightarrow> bool" where
  "multi_map_ok rs M \<longleftrightarrow> ht_ok rs (mm_entries M) \<and> flex_ok rs (mm_values M) \<and>
    dom (value_cells M) = set (flex_iterate (mm_values M)) \<and>
    (\<forall>a e. cells (mm_entries M) a = Some e \<longrightarrow> (\<exists>vs. value_chain (value_cells M) (valueList (content e)) vs))"

lemma multi_map_chain:
  assumes "multi_map_ok rs M" and "cells (mm_entries M) a = Some e"
  shows "\<exists>vs. value_chain (value_cells M) (valueList (content e)) vs"
  using assms unfolding multi_map_ok_def by meson

lemma ht_ok_mono: "ht_ok rs T \<Longrightarrow> set rs \<subseteq> set rs' \<Longrightarrow> ht_ok rs' T"
  by (auto simp: ht_ok_def flex_ok_mono)

text \<open>Every key has a list of values that can be read to its end.\<close>

theorem multi_map_values:
  assumes "multi_map_ok rs M" and "a \<in> set (slots_of M)"
  shows "\<exists>h k xs. entry_at M a = (h, k, Some xs)"
proof -
  have "a \<in> dom (cells (mm_entries M))" using assms by (simp add: multi_map_ok_def ht_ok_def slots_of_def)
  then obtain e where e: "cells (mm_entries M) a = Some e" by blast
  then show ?thesis
    using assms(1) value_chain_values by (fastforce simp: multi_map_ok_def entry_at_def payload_def)
qed

theorem insertEntry_ok:
  assumes m: "good_malloc m" and ok: "multi_map_ok rs M"
  shows "case insertEntry m raw hash M rs of
      None \<Rightarrow> allocation_failed m (room (mm_entries M)) rs
    | Some (a, M', rs') \<Rightarrow> multi_map_ok rs' M' \<and> slots_of M' = slots_of M @ [a] \<and>
        entry_at M' = (entry_at M)(a := (hash, raw, Some []))"
proof -
  have T: "ht_ok rs (mm_entries M)" using ok by (simp add: multi_map_ok_def)
  note step = ht_insert_ok[OF m T, of "\<lparr>valueList = 0, keyContent = raw\<rparr>" hash]
  show ?thesis
  proof (cases "ht_insert m \<lparr>valueList = 0, keyContent = raw\<rparr> hash (mm_entries M) rs")
    case None
    then show ?thesis using step by (simp add: insertEntry_def)
  next
    case (Some r)
    then obtain a T' rs' where r: "ht_insert m \<lparr>valueList = 0, keyContent = raw\<rparr> hash (mm_entries M) rs = Some (a, T', rs')"
        "ht_ok rs' T'" "grown m (room (mm_entries M)) rs rs'" "flex_iterate (ht_values T') = flex_iterate (ht_values (mm_entries M)) @ [a]"
        "payload (cells T') = (payload (cells (mm_entries M)))(a \<mapsto> (hash, \<lparr>valueList = 0, keyContent = raw\<rparr>))"
      using step by auto
    have "\<exists>vs. value_chain (value_cells M) (valueList (content e)) vs" if e: "cells T' b = Some e" for b e
    proof (cases "b = a")
      case True
      then have "content e = \<lparr>valueList = 0, keyContent = raw\<rparr>" using r(5) e payload_Some[of "cells T'" b e] by simp
      then show ?thesis by (intro exI[of _ "[]"]) simp
    next
      case False
      then have "payload (cells (mm_entries M)) b = Some (hashValue e, content e)" using r(5) e payload_Some[of "cells T'" b e] by simp
      then obtain z where "cells (mm_entries M) b = Some z" "content z = content e" by (auto simp: payload_def)
      then show ?thesis using multi_map_chain[OF ok] by metis
    qed
    then have "multi_map_ok rs' (M\<lparr>mm_entries := T'\<rparr>)"
      using ok r(2) flex_ok_mono grown_subset[OF r(3)] by (auto simp: multi_map_ok_def)
    moreover have "entry_at (M\<lparr>mm_entries := T'\<rparr>) = (entry_at M)(a := (hash, raw, Some []))"
      unfolding entry_at_def using r(5) by (auto simp: fun_eq_iff values_from.simps)
    ultimately show ?thesis using r(1,4) by (simp add: insertEntry_def slots_of_def)
  qed
qed

theorem insertValue_ok:
  assumes m: "good_malloc m" and ok: "multi_map_ok rs M" and a: "a \<in> set (slots_of M)"
  shows "case insertValue m raw a M rs of
      None \<Rightarrow> allocation_failed m (2 * totalLen (mm_values M) * typeSize (mm_values M)) rs
    | Some (v, M', rs') \<Rightarrow> multi_map_ok rs' M' \<and> slots_of M' = slots_of M \<and>
        (\<exists>h k xs. entry_at M a = (h, k, Some xs) \<and>
          (\<forall>b \<in> set (slots_of M). entry_at M' b = (if b = a then (h, k, Some (raw # xs)) else entry_at M b)))"
proof -
  let ?T = "mm_entries M" and ?vc = "value_cells M"
  have T: "ht_ok rs ?T" and F: "flex_ok rs (mm_values M)" and dom: "dom ?vc = set (flex_iterate (mm_values M))"
    using ok by (simp_all add: multi_map_ok_def)
  have doms: "dom (cells ?T) = set (slots_of M)" using T by (simp add: ht_ok_def slots_of_def)
  obtain e where e: "cells ?T a = Some e" using a doms by blast
  obtain vs where vs: "value_chain ?vc (valueList (content e)) vs" using multi_map_chain[OF ok e] by blast
  show ?thesis
  proof (cases "flex_insert m (mm_values M) rs")
    case None
    then show ?thesis using flex_insert_None[OF F None] by (simp add: insertValue_def)
  next
    case (Some r)
    obtain v buf rs' where r: "flex_insert m (mm_values M) rs = Some (v, buf, rs')" using Some by (cases r) auto
    note ins = flex_insert_ok[OF m F r]
    then have fo: "flex_ok rs' buf" by blast
    have v: "v \<notin> dom ?vc" "0 < v" "v < 140737488355328" using ins flex_slots(1,2)[OF fo] dom by auto
    define x where "x = \<lparr>nextValue = valueList (content e), valueContent = raw\<rparr>"
    define kc where "kc = (content e)\<lparr>valueList := of_nat v\<rparr>"
    define M' where "M' = M\<lparr>mm_values := buf, value_cells := ?vc(v \<mapsto> x), mm_entries := ?T\<lparr>cells := (cells ?T)(a \<mapsto> e\<lparr>content := kc\<rparr>)\<rparr>\<rparr>"
    have run: "insertValue m raw a M rs = Some (v, M', rs')"
      using r e by (simp add: insertValue_def Let_def M'_def x_def kc_def)
    have new: "value_chain (?vc(v \<mapsto> x)) (of_nat v) (v # vs)"
      using value_chain_fresh[OF v(1) vs, of x] v(2,3) by (simp add: x_def)
    have "\<exists>us. value_chain (?vc(v \<mapsto> x)) (valueList (content f)) us" if "cells (mm_entries M') b = Some f" for b f
    proof (cases "b = a")
      case True
      then have "valueList (content f) = of_nat v" using that by (auto simp: M'_def kc_def)
      then show ?thesis using new by metis
    next
      case False
      then have "cells ?T b = Some f" using that by (simp add: M'_def)
      then obtain us where "value_chain ?vc (valueList (content f)) us" using multi_map_chain[OF ok] by blast
      then show ?thesis using value_chain_fresh[OF v(1)] by blast
    qed
    moreover have "ht_ok rs' (mm_entries M')"
      using ht_ok_content[OF ht_ok_mono[OF T] e, of rs' kc] ins by (simp add: M'_def)
    moreover have "dom (value_cells M') = set (flex_iterate buf)" using ins dom by (simp add: M'_def)
    ultimately have ok': "multi_map_ok rs' M'" using fo by (simp add: multi_map_ok_def M'_def)
    have same: "values_from (?vc(v \<mapsto> x)) w = values_from ?vc w" if "value_chain ?vc w us" for w us
    proof -
      have "v \<notin> set us" using v(1) value_chain_dom[OF that] by blast
      then have "map (\<lambda>b. valueContent (the ((?vc(v \<mapsto> x)) b))) us = map (\<lambda>b. valueContent (the (?vc b))) us" by auto
      then show ?thesis using value_chain_values[OF that] value_chain_values[OF value_chain_fresh[OF v(1) that, of x]] by simp
    qed
    have here: "entry_at M a = (hashValue e, keyContent (content e), Some (map (\<lambda>b. valueContent (the (?vc b))) vs))"
      using e value_chain_values[OF vs] by (simp add: entry_at_def payload_def)
    have "values_from (?vc(v \<mapsto> x)) (of_nat v) = Some (raw # map (\<lambda>b. valueContent (the (?vc b))) vs)"
    proof -
      have "v \<notin> set vs" using v(1) value_chain_dom[OF vs] by blast
      then show ?thesis using value_chain_values[OF new] by (auto simp: x_def)
    qed
    then have "entry_at M' a = (hashValue e, keyContent (content e), Some (raw # map (\<lambda>b. valueContent (the (?vc b))) vs))"
      by (simp add: entry_at_def payload_def M'_def kc_def)
    moreover have "entry_at M' b = entry_at M b" if b: "b \<in> set (slots_of M)" "b \<noteq> a" for b
    proof -
      obtain f where f: "cells ?T b = Some f" using b(1) doms by blast
      then obtain us where "value_chain ?vc (valueList (content f)) us" using multi_map_chain[OF ok] by blast
      then show ?thesis using f b(2) same by (simp add: entry_at_def payload_def M'_def)
    qed
    ultimately show ?thesis using run ok' here by (simp add: slots_of_def M'_def)
  qed
qed

lemma mk_multi_map_ok:
  assumes m: "good_malloc m" and n: "0 < n" "0 < ets" "0 < vts" "n * ets < 18446744073709551616" "n * vts < 18446744073709551616"
      "n \<le> 1152921504606846976"
    and mk: "mk_multi_map m ets vts n rs = Some (M, rs')"
  shows "multi_map_ok rs' M \<and> slots_of M = []"
proof -
  obtain T rs1 vals where 1: "mk_hash_table m n ets rs = Some (T, rs1)" "mk_flexible m n vts rs1 = Some (vals, rs')"
      "M = \<lparr>mm_entries = T, mm_values = vals, value_cells = Map.empty\<rparr>"
    using mk by (auto simp: mk_multi_map_def Option.bind_eq_Some_conv)
  have T: "ht_ok rs1 T" "entries T = []" using mk_hash_table_ok[OF m n(1,2,4,6) 1(1)] by simp_all
  have "cells T = Map.empty" using T by (auto simp: ht_ok_def entries_def)
  then show ?thesis
    using T mk_flexible_ok[OF m n(1,3,5) 1(2)] ht_ok_mono[OF T(1)] 1(3)
    by (auto simp: multi_map_ok_def slots_of_def entries_def)
qed

end
