(* ===== verification/Join_Tables.thy ===== *)
theory Join_Tables
  imports Hash_Table
begin

text \<open>
  The size of a hash table that is built at once (\<^verbatim>\<open>nextPow2\<close> of \<^verbatim>\<open>LazyJoinHashtable.h\<close>,
  \<^verbatim>\<open>HashIndex.cpp\<close> and \<^verbatim>\<open>PreAggregationHashtable.cpp\<close>), and the table of a hash join, whose
  builders run in parallel without locks (\<^verbatim>\<open>src/lib/runtime/LazyJoinHashtable.cpp\<close>). An
  interleaving is a sequence of atomic steps: a load of the slot, the write of the entry's
  \<^verbatim>\<open>next\<close> field, a compare-and-exchange that succeeds or fails (for no reason too, as the weak
  form may). The \<^verbatim>\<open>next\<close> fields keep the tags here, and readers strip them at each hop.
\<close>

section \<open>The size of a table\<close>

definition smear :: "nat \<Rightarrow> 64 word \<Rightarrow> 64 word" where
  "smear k v = v OR drop_bit k v"

definition nextPow2 :: "64 word \<Rightarrow> 64 word" where
  "nextPow2 v0 =
    (let v1 = v0 - 1;
         v2 = smear 1 v1;
         v3 = smear 2 v2;
         v4 = smear 4 v3;
         v5 = smear 8 v4;
         v6 = smear 16 v5;
         v7 = smear 32 v6
     in v7 + 1)"

text \<open>Each step doubles the window of higher bits that reach a bit.\<close>

definition window :: "nat \<Rightarrow> 64 word \<Rightarrow> 64 word \<Rightarrow> bool" where
  "window n v w \<longleftrightarrow> (\<forall>i. bit w i \<longleftrightarrow> (\<exists>j < n. bit v (i + j)))"

lemma window_1: "window 1 v v"
  by (simp add: window_def)

lemma window_smear: "window n v w \<Longrightarrow> window (n + n) v (smear n w)"
  unfolding window_def smear_def bit_or_iff bit_drop_bit_eq comp_def
proof (intro allI)
  fix i assume w: "\<forall>i. bit w i \<longleftrightarrow> (\<exists>j < n. bit v (i + j))"
  have "(\<exists>j < n + n. bit v (i + j)) \<longleftrightarrow> (\<exists>j < n. bit v (i + j)) \<or> (\<exists>j < n. bit v (n + i + j))"
  proof
    assume "\<exists>j < n + n. bit v (i + j)"
    then obtain j where j: "j < n + n" "bit v (i + j)" by blast
    show "(\<exists>j < n. bit v (i + j)) \<or> (\<exists>j < n. bit v (n + i + j))"
    proof (cases "j < n")
      case False
      then have "bit v (n + i + (j - n))" using j by (simp add: add.commute add.left_commute)
      then show ?thesis using j False by (intro disjI2 exI[of _ "j - n"]) auto
    qed (use j in blast)
  next
    assume "(\<exists>j < n. bit v (i + j)) \<or> (\<exists>j < n. bit v (n + i + j))"
    then show "\<exists>j < n + n. bit v (i + j)"
      by (metis add.assoc add.commute nat_add_left_cancel_less trans_less_add1)
  qed
  then show "(bit w i \<or> bit w (n + i)) = (\<exists>j < n + n. bit v (i + j))" using w by simp
qed

lemma window_step: "window n v w \<Longrightarrow> m = n + n \<Longrightarrow> window m v (smear n w)"
  using window_smear by blast

lemma window_all:
  assumes "window 64 v w" and "unat v < 2 ^ k" and "k = 0 \<or> 2 ^ (k - 1) \<le> unat v"
  shows "w = mask k"
proof (rule bit_word_eqI)
  fix i assume i: "i < LENGTH(64)"
  have bit: "bit v j \<longleftrightarrow> bit (unat v) j" for j
    by (auto simp: bit_unsigned_iff bit_imp_le_length)
  have high: "\<not> bit v j" if "k \<le> j" for j
  proof -
    have "unat v < 2 ^ j" using assms(2) that by (meson order_less_le_trans one_le_numeral power_increasing)
    then have "unat v div 2 ^ j = 0" by (rule div_less)
    then show ?thesis by (metis bit bit_iff_odd even_zero)
  qed
  have top: "bit v (k - 1)" if "0 < k"
  proof -
    have "2 ^ (k - 1) \<le> unat v" "unat v < 2 * 2 ^ (k - 1)"
      using assms(2,3) that by (simp_all add: power_eq_if)
    then have "unat v div 2 ^ (k - 1) = 1" by (intro div_nat_eqI) simp_all
    then show ?thesis by (metis bit bit_iff_odd odd_one)
  qed
  have "(\<exists>j < 64. bit v (i + j)) \<longleftrightarrow> i < k"
  proof
    assume "\<exists>j < 64. bit v (i + j)"
    then show "i < k" using high by (meson not_le trans_le_add1)
  next
    assume "i < k"
    moreover have "k - 1 < 64"
      using top[of] bit_imp_le_length[of v "k - 1"] \<open>i < k\<close> by simp
    ultimately have "k - 1 - i < 64" "bit v (i + (k - 1 - i))" using top by simp_all
    then show "\<exists>j < 64. bit v (i + j)" by blast
  qed
  then show "bit w i \<longleftrightarrow> bit (mask k :: 64 word) i"
    using assms(1) i by (simp add: window_def bit_mask_iff)
qed

lemma log2_bound: "\<exists>k. n < 2 ^ k \<and> (k = 0 \<or> 2 ^ (k - 1) \<le> n)" for n :: nat
proof -
  define k where "k = (LEAST k. n < 2 ^ k)"
  have "n < 2 ^ k" unfolding k_def by (rule LeastI[of _ n]) (rule less_exp)
  moreover have "k = 0 \<or> \<not> n < 2 ^ (k - 1)" unfolding k_def using not_less_Least[of "k - 1" "\<lambda>k. n < 2 ^ k"] k_def by auto
  ultimately show ?thesis by auto
qed

text \<open>For every number from 1 to \<^verbatim>\<open>2^63\<close> the bit trick behind the table sizes yields the least power of
  two that is not below it; for 0 it yields 0.\<close>
theorem nextPow2_least:
  assumes "1 \<le> v" and "v \<le> 9223372036854775808"
  shows "(\<exists>k < 64. unat (nextPow2 v) = 2 ^ k \<and> unat v \<le> 2 ^ k \<and> (\<forall>l. unat v \<le> 2 ^ l \<longrightarrow> k \<le> l)) \<and> nextPow2 0 = 0"
proof
  have zero: "smear k (- 1) = - 1" for k by (simp add: smear_def)
  show "nextPow2 0 = 0" by (simp add: nextPow2_def zero Let_def)
  obtain k where k: "unat (v - 1) < 2 ^ k" "k = 0 \<or> 2 ^ (k - 1) \<le> unat (v - 1)" using log2_bound by blast
  have "v \<noteq> 0" using assms(1) by auto
  then have v: "unat v = unat (v - 1) + 1" "unat v \<le> 9223372036854775808"
    using assms unat_minus_one[OF \<open>v \<noteq> 0\<close>] by (simp_all add: word_le_nat_alt unat_gt_0 Suc_leI)
  have k63: "k \<le> 63"
  proof (rule ccontr)
    assume "\<not> k \<le> 63"
    then have "(2::nat) ^ 63 \<le> 2 ^ (k - 1)" by (intro power_increasing) simp_all
    then show False using k(2) v \<open>\<not> k \<le> 63\<close> by simp
  qed
  have "window 64 (v - 1) (smear 32 (smear 16 (smear 8 (smear 4 (smear 2 (smear 1 (v - 1)))))))"
    by (intro window_step window_1) simp_all
  then have "smear 32 (smear 16 (smear 8 (smear 4 (smear 2 (smear 1 (v - 1)))))) = mask k"
    using k by (rule window_all)
  then have "nextPow2 v = mask k + 1" by (simp add: nextPow2_def Let_def)
  then have "nextPow2 v = 2 ^ k" by (simp add: mask_eq_exp_minus_1)
  moreover have "unat (2 ^ k :: 64 word) = 2 ^ k"
  proof -
    have "(2 :: nat) ^ k < 2 ^ 64" using k63 by (intro power_strict_increasing) simp_all
    then have "unat (of_nat (2 ^ k) :: 64 word) = 2 ^ k" by (subst unat_of_nat) simp
    then show ?thesis by simp
  qed
  moreover have "k \<le> l" if "unat v \<le> 2 ^ l" for l
  proof (rule ccontr)
    assume "\<not> k \<le> l"
    then have "(2::nat) ^ l \<le> 2 ^ (k - 1)" by (intro power_increasing) simp_all
    then show False using k(2) v(1) that \<open>\<not> k \<le> l\<close> by linarith
  qed
  ultimately show "\<exists>k < 64. unat (nextPow2 v) = 2 ^ k \<and> unat v \<le> 2 ^ k \<and> (\<forall>l. unat v \<le> 2 ^ l \<longrightarrow> k \<le> l)"
    using k63 k(1) v(1) by (intro exI[of _ k]) auto
qed

theorem nextPow2_least_witness:
  "(\<exists>k < 64. unat (nextPow2 13) = 2 ^ k \<and> unat (13 :: 64 word) \<le> 2 ^ k \<and> (\<forall>l. unat (13 :: 64 word) \<le> 2 ^ l \<longrightarrow> k \<le> l)) \<and> nextPow2 0 = 0"
  by (rule nextPow2_least) simp_all

section \<open>Building the view of a hash join\<close>

text \<open>
  The size of the table for \<open>n\<close> entries. The code multiplies by 1.25 in \<^verbatim>\<open>double\<close> and truncates,
  which is exact for the at most \<^verbatim>\<open>2^47\<close> entries that fit in memory.
\<close>

definition tableSize :: "nat \<Rightarrow> 64 word" where
  "tableSize n = max (nextPow2 (of_nat (n * 5 div 4))) 1"

text \<open>Where the function that inserts one entry stands; \<open>Loaded w\<close> is \<^verbatim>\<open>current = w\<close>.\<close>

datatype builder = Waiting | Loaded ptr | Linked ptr | Published

record 'c view_build =
  slots :: "ptr list"
  view_cells :: "nat \<rightharpoonup> 'c ht_entry"
  builders :: "nat \<rightharpoonup> builder"

definition view_init :: "nat list \<Rightarrow> (nat \<rightharpoonup> 'c ht_entry) \<Rightarrow> 'c view_build" where
  "view_init as c =
    \<lparr>slots = replicate (unat (tableSize (length as))) 0, view_cells = c,
     builders = (\<lambda>a. if a \<in> set as then Some Waiting else None)\<rparr>"

abbreviation htMask :: "nat list \<Rightarrow> 64 word" where
  "htMask as \<equiv> tableSize (length as) - 1"

inductive build_step :: "64 word \<Rightarrow> 'c view_build \<Rightarrow> 'c view_build \<Rightarrow> bool" for hm where
  load: "builders s a = Some Waiting \<Longrightarrow> view_cells s a = Some e \<Longrightarrow>
    ptr_at (slots s) (masked hm (hashValue e)) = Some w \<Longrightarrow>
    build_step hm s (s\<lparr>builders := (builders s)(a \<mapsto> Loaded w)\<rparr>)"
| link: "builders s a = Some (Loaded w) \<Longrightarrow> view_cells s a = Some e \<Longrightarrow>
    build_step hm s (s\<lparr>view_cells := (view_cells s)(a \<mapsto> e\<lparr>next_entry := w\<rparr>), builders := (builders s)(a \<mapsto> Linked w)\<rparr>)"
| exchange: "builders s a = Some (Linked w) \<Longrightarrow> view_cells s a = Some e \<Longrightarrow>
    ptr_at (slots s) (masked hm (hashValue e)) = Some w \<Longrightarrow>
    build_step hm s (s\<lparr>slots := (slots s)[masked hm (hashValue e) := tag (of_nat a) w (hashValue e)],
      builders := (builders s)(a \<mapsto> Published)\<rparr>)"
| retry: "builders s a = Some (Linked w) \<Longrightarrow> view_cells s a = Some e \<Longrightarrow>
    ptr_at (slots s) (masked hm (hashValue e)) = Some w' \<Longrightarrow>
    build_step hm s (s\<lparr>builders := (builders s)(a \<mapsto> Loaded w')\<rparr>)"

inductive_cases build_stepE: "build_step hm s s'"

abbreviation interleaving :: "64 word \<Rightarrow> 'c view_build \<Rightarrow> 'c view_build \<Rightarrow> bool" where
  "interleaving hm \<equiv> (build_step hm)\<^sup>*\<^sup>*"

text \<open>The entries as a reader sees them.\<close>

definition untagged :: "(nat \<rightharpoonup> 'c ht_entry) \<Rightarrow> nat \<rightharpoonup> 'c ht_entry" where
  "untagged c a = map_option (\<lambda>e. e\<lparr>next_entry := untag (next_entry e)\<rparr>) (c a)"

definition published :: "'c view_build \<Rightarrow> nat set" where
  "published s = {a. builders s a = Some Published}"

text \<open>
  In every reachable state the chains hold the published entries in the order in which they were
  published; an entry that waits for its exchange points to what it will displace.
\<close>

definition view_ok :: "64 word \<Rightarrow> nat list \<Rightarrow> (nat \<rightharpoonup> 'c ht_entry) \<Rightarrow> 'c view_build \<Rightarrow> bool" where
  "view_ok hm as c s \<longleftrightarrow>
    dom (builders s) = set as \<and> (\<forall>a \<in> set as. 0 < a \<and> a < 140737488355328) \<and> set as \<subseteq> dom c \<and>
    payload (view_cells s) = payload c \<and>
    (\<forall>a w. builders s a = Some (Linked w) \<longrightarrow> map_option next_entry (view_cells s a) = Some w) \<and>
    (\<exists>pub. distinct pub \<and> set pub = published s \<and> masked_table_ok hm (slots s) (untagged (view_cells s)) pub)"

lemma payload_untagged [simp]: "payload (untagged c) = payload c"
  by (auto simp: payload_def untagged_def fun_eq_iff option.map_comp comp_def)

lemma untagged_dom [simp]: "dom (untagged c) = dom c"
  by (auto simp: untagged_def)

lemma untagged_update: "untagged (c(a \<mapsto> e)) = (untagged c)(a \<mapsto> e\<lparr>next_entry := untag (next_entry e)\<rparr>)"
  by (auto simp: untagged_def)

lemma hash_of_frame: "a \<notin> set as \<Longrightarrow> b \<in> set as \<Longrightarrow> hash_of (c(a \<mapsto> e)) b = hash_of c b"
  by (auto simp: hash_of_def)

lemma table_ok_frame:
  assumes "a \<notin> set as" shows "table_ok bucket n t (c(a \<mapsto> e)) as = table_ok bucket n t c as"
proof -
  have "filter (\<lambda>b. bucket (hash_of (c(a \<mapsto> e)) b) = p) as = filter (\<lambda>b. bucket (hash_of c b) = p) as" for p
    using assms by (intro filter_cong) (auto simp: hash_of_frame)
  moreover have "chain_at (c(a \<mapsto> e)) w (rev (filter P as)) = chain_at c w (rev (filter P as))" for w P
    using assms by (intro chain_at_cong) auto
  ultimately show ?thesis by (simp add: table_ok_def)
qed

lemma view_init_ok:
  assumes "\<forall>a \<in> set as. 0 < a \<and> a < 140737488355328" and "set as \<subseteq> dom c"
  shows "view_ok (htMask as) as c (view_init as c)"
proof -
  have "tableSize (length as) \<noteq> 0" by (auto simp: tableSize_def max_def)
  then have "unat (tableSize (length as)) = unat (htMask as) + 1"
    by (simp add: unat_minus_one unat_gt_0 Suc_leI)
  then have "masked_table_ok (htMask as) (slots (view_init as c)) (untagged c) []"
    using masked_table_ok_empty[of "htMask as"] by (simp add: view_init_def)
  moreover have "published (view_init as c) = {}" by (simp add: published_def view_init_def)
  ultimately show ?thesis using assms
    by (auto simp: view_ok_def view_init_def intro!: exI[of _ "[]"] split: if_splits)
qed

lemma published_same: "published (s\<lparr>builders := (builders s)(a \<mapsto> b)\<rparr>) = published s"
  if "builders s a \<noteq> Some Published" "b \<noteq> Published"
  using that by (auto simp: published_def)

lemma view_ok_local:
  assumes "view_ok hm as c s" and "builders s a = Some b" "b \<noteq> Published" and "b' \<noteq> Published" "\<And>w. b' \<noteq> Linked w"
  shows "view_ok hm as c (s\<lparr>builders := (builders s)(a \<mapsto> b')\<rparr>)"
  using assms published_same[of s a b'] by (auto simp: view_ok_def)

lemma view_ok_link:
  assumes ok: "view_ok hm as c s" and b: "builders s a = Some (Loaded w)" and e: "view_cells s a = Some e"
  shows "view_ok hm as c (s\<lparr>view_cells := (view_cells s)(a \<mapsto> e\<lparr>next_entry := w\<rparr>), builders := (builders s)(a \<mapsto> Linked w)\<rparr>)"
    (is "view_ok hm as c ?s")
proof -
  obtain pub where pub: "distinct pub" "set pub = published s" "masked_table_ok hm (slots s) (untagged (view_cells s)) pub"
    using ok by (auto simp: view_ok_def)
  have a: "a \<notin> set pub" using b pub(2) by (auto simp: published_def)
  have "masked_table_ok hm (slots ?s) (untagged (view_cells ?s)) pub"
    using pub(3) by (simp add: untagged_update table_ok_frame[OF a])
  moreover have "published ?s = set pub" using b pub(2) by (auto simp: published_def)
  moreover have "payload (view_cells ?s) = payload c"
    using ok payload_next[of "view_cells s" a e w] e by (auto simp: view_ok_def)
  moreover have "map_option next_entry (view_cells ?s x) = Some w'" if "builders ?s x = Some (Linked w')" for x w'
    using that ok by (auto simp: view_ok_def split: if_splits)
  ultimately show ?thesis using ok b pub(1) by (auto simp: view_ok_def)
qed

lemma view_ok_exchange:
  assumes ok: "view_ok hm as c s" and b: "builders s a = Some (Linked w)" and e: "view_cells s a = Some e"
    and w: "ptr_at (slots s) (masked hm (hashValue e)) = Some w"
  shows "view_ok hm as c (s\<lparr>slots := (slots s)[masked hm (hashValue e) := tag (of_nat a) w (hashValue e)],
      builders := (builders s)(a \<mapsto> Published)\<rparr>)" (is "view_ok hm as c ?s")
proof -
  obtain pub where pub: "distinct pub" "set pub = published s" "masked_table_ok hm (slots s) (untagged (view_cells s)) pub"
    using ok by (auto simp: view_ok_def)
  have a: "a \<notin> set pub" using b pub(2) by (auto simp: published_def)
  have "a \<in> set as" using ok b by (auto simp: view_ok_def)
  then have bounds: "0 < a" "a < 140737488355328" using ok by (auto simp: view_ok_def)
  let ?e = "e\<lparr>next_entry := untag (next_entry e)\<rparr>" and ?p = "masked hm (hashValue e)"
  have same: "(untagged (view_cells s))(a \<mapsto> ?e) = untagged (view_cells s)"
    using e by (auto simp: untagged_def)
  have "next_entry e = w" using ok b e by (fastforce simp: view_ok_def)
  moreover have "slots s ! ?p = w" using w by (simp add: ptr_at_def split: if_splits)
  ultimately have "masked_table_ok hm ((slots s)[?p := tag (of_nat a) w (hashValue e)]) (untagged (view_cells s)) (pub @ [a])"
    using table_ok_push[OF pub(3) a bounds, of ?e "hashValue e"] same by simp
  moreover have "published ?s = set (pub @ [a])" using pub(2) by (auto simp: published_def)
  ultimately show ?thesis using ok b pub(1) a
    by (auto simp: view_ok_def intro!: exI[of _ "pub @ [a]"])
qed

lemma build_step_ok: "build_step hm s s' \<Longrightarrow> view_ok hm as c s \<Longrightarrow> view_ok hm as c s'"
  by (erule build_stepE) (auto intro!: view_ok_local view_ok_link view_ok_exchange)

lemma interleaving_ok: "interleaving hm s s' \<Longrightarrow> view_ok hm as c s \<Longrightarrow> view_ok hm as c s'"
  by (induction rule: rtranclp_induct) (auto intro: build_step_ok)

section \<open>Progress\<close>

lemma view_slot:
  assumes "view_ok hm as c s" and "a \<in> set as"
  obtains e b where "view_cells s a = Some e" "builders s a = Some b"
    "ptr_at (slots s) (masked hm (hashValue e)) = Some (slots s ! masked hm (hashValue e))"
proof -
  have "a \<in> dom (view_cells s)"
    using assms payload_dom[of "view_cells s"] payload_dom[of c] by (auto simp: view_ok_def)
  then obtain e where e: "view_cells s a = Some e" by blast
  have "\<exists>b. builders s a = Some b" using assms by (auto simp: view_ok_def)
  then obtain b where b: "builders s a = Some b" by blast
  obtain pub where tab: "masked_table_ok hm (slots s) (untagged (view_cells s)) pub"
    using assms(1) by (auto simp: view_ok_def)
  show thesis by (rule that[OF e b table_at[OF tab]])
qed

lemma view_doms:
  assumes "view_ok hm as c s" shows "dom (view_cells s) = dom c" "published s \<subseteq> set as" "set as \<subseteq> dom c"
  using assms payload_dom[of c] payload_dom[of "view_cells s"] by (auto simp: view_ok_def published_def)

text \<open>The entry \<open>a\<close> has loaded the present content of its slot.\<close>

definition fresh_load :: "64 word \<Rightarrow> nat \<Rightarrow> 'c view_build \<Rightarrow> bool" where
  "fresh_load hm a s \<longleftrightarrow> (\<exists>e w. view_cells s a = Some e \<and> builders s a = Some (Loaded w) \<and>
    ptr_at (slots s) (masked hm (hashValue e)) = Some w)"

lemma reach_retry:
  assumes "view_ok hm as c s" and "a \<in> set as" and "builders s a = Some (Linked w)"
  shows "\<exists>s'. build_step hm s s' \<and> fresh_load hm a s' \<and> published s' = published s"
proof -
  obtain e b where "view_cells s a = Some e" "builders s a = Some b"
      "ptr_at (slots s) (masked hm (hashValue e)) = Some (slots s ! masked hm (hashValue e))"
    by (rule view_slot[OF assms(1,2)])
  note s = this
  define s1 where "s1 = s\<lparr>builders := (builders s)(a \<mapsto> Loaded (slots s ! masked hm (hashValue e)))\<rparr>"
  have "build_step hm s s1" unfolding s1_def using build_step.retry[OF assms(3) s(1,3)] by simp
  moreover have "fresh_load hm a s1" using s by (simp add: s1_def fresh_load_def)
  moreover have "published s1 = published s" unfolding s1_def using assms(3) by (intro published_same) simp_all
  ultimately show ?thesis by blast
qed

lemma reach_load:
  assumes ok: "view_ok hm as c s" and a: "a \<in> set as" "a \<notin> published s"
  shows "\<exists>s'. interleaving hm s s' \<and> fresh_load hm a s' \<and> published s' = published s"
proof -
  obtain e b where s: "view_cells s a = Some e" "builders s a = Some b"
      "ptr_at (slots s) (masked hm (hashValue e)) = Some (slots s ! masked hm (hashValue e))"
    by (rule view_slot[OF ok a(1)])
  show ?thesis
  proof (cases b)
    case Waiting
    define s1 where "s1 = s\<lparr>builders := (builders s)(a \<mapsto> Loaded (slots s ! masked hm (hashValue e)))\<rparr>"
    have "build_step hm s s1" unfolding s1_def using s Waiting by (intro build_step.load) simp_all
    moreover have "fresh_load hm a s1" using s by (simp add: s1_def fresh_load_def)
    moreover have "published s1 = published s" unfolding s1_def using s Waiting by (intro published_same) simp_all
    ultimately show ?thesis by blast
  next
    case (Loaded w)
    define s1 where "s1 = s\<lparr>view_cells := (view_cells s)(a \<mapsto> e\<lparr>next_entry := w\<rparr>), builders := (builders s)(a \<mapsto> Linked w)\<rparr>"
    have 1: "build_step hm s s1" unfolding s1_def using s Loaded by (intro build_step.link) simp_all
    have "published s1 = published s" using s Loaded by (auto simp: s1_def published_def)
    moreover have "builders s1 a = Some (Linked w)" by (simp add: s1_def)
    ultimately show ?thesis using reach_retry[OF build_step_ok[OF 1 ok] a(1)] 1
      by (metis converse_rtranclp_into_rtranclp r_into_rtranclp)
  next
    case (Linked w)
    then show ?thesis using reach_retry[OF ok a(1)] s(2) by blast
  next
    case Published
    then show ?thesis using a(2) s(2) by (simp add: published_def)
  qed
qed

lemma reach_publish:
  assumes "fresh_load hm a s"
  shows "\<exists>s'. interleaving hm s s' \<and> published s' = insert a (published s)"
proof -
  obtain e w where s: "view_cells s a = Some e" "builders s a = Some (Loaded w)"
      "ptr_at (slots s) (masked hm (hashValue e)) = Some w"
    using assms by (auto simp: fresh_load_def)
  define s1 where "s1 = s\<lparr>view_cells := (view_cells s)(a \<mapsto> e\<lparr>next_entry := w\<rparr>), builders := (builders s)(a \<mapsto> Linked w)\<rparr>"
  define s2 where "s2 = s1\<lparr>slots := (slots s1)[masked hm (hashValue e) := tag (of_nat a) w (hashValue e)], builders := (builders s1)(a \<mapsto> Published)\<rparr>"
  have "build_step hm s s1" unfolding s1_def using s by (intro build_step.link)
  moreover have "build_step hm s1 s2"
    unfolding s2_def using s build_step.exchange[of s1 a w "e\<lparr>next_entry := w\<rparr>" hm] by (simp add: s1_def)
  ultimately have "interleaving hm s s2" by (meson converse_rtranclp_into_rtranclp r_into_rtranclp)
  moreover have "published s2 = insert a (published s)" using s by (auto simp: s2_def s1_def published_def)
  ultimately show ?thesis by blast
qed

lemma reach_all:
  assumes "view_ok hm as c s"
  shows "\<exists>s'. interleaving hm s s' \<and> published s' = set as"
  using assms
proof (induction "card (set as - published s)" arbitrary: s rule: less_induct)
  case less
  have sub: "published s \<subseteq> set as" using less.prems by (auto simp: view_ok_def published_def)
  show ?case
  proof (cases "published s = set as")
    case False
    then obtain a where a: "a \<in> set as" "a \<notin> published s" using sub by blast
    obtain s1 where s1: "interleaving hm s s1" "fresh_load hm a s1" "published s1 = published s"
      using reach_load[OF less.prems a] by blast
    obtain s2 where s2: "interleaving hm s1 s2" "published s2 = insert a (published s1)"
      using reach_publish[OF s1(2)] by blast
    have run: "interleaving hm s s2" using s1(1) s2(1) by simp
    have "card (set as - published s2) < card (set as - published s)"
      using a s1(3) s2(2) by (intro psubset_card_mono) auto
    then show ?thesis using less.hyps interleaving_ok[OF run less.prems] run
      by (meson rtranclp_trans)
  qed blast
qed

section \<open>Properties of the view\<close>

lemma buffer_view_ok:
  assumes "flex_ok rs f" and "set (flex_iterate f) \<subseteq> dom c"
    and "interleaving (htMask (flex_iterate f)) (view_init (flex_iterate f) c) s"
  shows "view_ok (htMask (flex_iterate f)) (flex_iterate f) c s"
  using interleaving_ok[OF assms(3) view_init_ok[OF _ assms(2)]] flex_slots(2)[OF assms(1)] by blast

text \<open>C38: However the functions that enter the tuples of a join's build side into the table are interleaved,
  and whenever their compare-and-exchange fails, at every moment the entries that were published, and only
  these, are found: the chain of every bucket ends and holds each of its published entries once, and a search
  by hash and key yields the latest match; no entry's hash or content changes.\<close>
theorem view_build_safe:
  assumes "flex_ok rs f" and "set (flex_iterate f) \<subseteq> dom c"
    and "interleaving (htMask (flex_iterate f)) (view_init (flex_iterate f) c) s"
  shows "\<exists>pub. distinct pub \<and> set pub = published s \<and> payload (view_cells s) = payload c \<and>
    masked_table_ok (htMask (flex_iterate f)) (slots s) (untagged (view_cells s)) pub \<and>
    (\<forall>isEq h x. find_entry isEq (untagged (view_cells s)) h x (untag (slots s ! masked (htMask (flex_iterate f)) h)) =
      Some (find (\<lambda>a. entry_matches isEq h x (the (payload c a))) (rev pub)))"
proof -
  note ok = buffer_view_ok[OF assms]
  then obtain pub where pub: "distinct pub" "set pub = published s"
      "masked_table_ok (htMask (flex_iterate f)) (slots s) (untagged (view_cells s)) pub"
    by (auto simp: view_ok_def)
  have pl: "payload (view_cells s) = payload c" using ok by (simp add: view_ok_def)
  have "set pub \<subseteq> dom (untagged (view_cells s))"
    using view_doms[OF ok] pub(2) by simp
  then have "find_entry isEq (untagged (view_cells s)) h x (untag (slots s ! masked (htMask (flex_iterate f)) h)) =
      Some (find (\<lambda>a. entry_matches isEq h x (the (payload c a))) (rev pub))" for isEq h x
    using table_find[OF pub(3), of isEq h x] pl by simp
  then show ?thesis using pub pl by blast
qed

theorem view_build_safe_witness:
  "let as = flex_iterate (ht_values sample_table); c = cells sample_table
   in \<exists>s. interleaving (htMask as) (view_init as c) s \<and> published s = set as \<and>
    (\<exists>pub. distinct pub \<and> set pub = set as \<and>
      (\<forall>isEq h x. find_entry isEq (untagged (view_cells s)) h x (untag (slots s ! masked (htMask as) h)) =
        Some (find (\<lambda>a. entry_matches isEq h x (the (payload c a))) (rev pub))))"
proof -
  let ?as = "flex_iterate (ht_values sample_table)" and ?c = "cells sample_table"
  have ok: "flex_ok sample_regions (ht_values sample_table)" "set ?as \<subseteq> dom ?c"
    using sample_table_ok by (simp_all add: ht_ok_def)
  obtain s where s: "interleaving (htMask ?as) (view_init ?as ?c) s" "published s = set ?as"
    using reach_all[OF buffer_view_ok[OF ok rtranclp.rtrancl_refl]] by blast
  show ?thesis using view_build_safe[OF ok s(1)] s unfolding Let_def by metis
qed

text \<open>C39: No interleaving of the builders gets stuck: from every state they can reach, all entries can still be
  published.\<close>
theorem view_build_progress:
  assumes "flex_ok rs f" and "set (flex_iterate f) \<subseteq> dom c"
    and "interleaving (htMask (flex_iterate f)) (view_init (flex_iterate f) c) s"
  shows "\<exists>s'. interleaving (htMask (flex_iterate f)) s s' \<and> published s' = set (flex_iterate f)"
  by (rule reach_all[OF buffer_view_ok[OF assms]])

theorem view_build_progress_witness:
  "let as = flex_iterate (ht_values sample_table); s = view_init as (cells sample_table)
   in \<exists>s'. interleaving (htMask as) s s' \<and> published s' = set as"
proof -
  have "flex_ok sample_regions (ht_values sample_table)" "set (flex_iterate (ht_values sample_table)) \<subseteq> dom (cells sample_table)"
    using sample_table_ok by (simp_all add: ht_ok_def)
  from view_build_progress[OF this rtranclp.rtrancl_refl] show ?thesis unfolding Let_def .
qed

end
