(* ===== verification/Hash_Index.thy ===== *)
theory Hash_Index
  imports Join_Tables
begin

text \<open>
  The hash index of a relation (\<^verbatim>\<open>src/lib/runtime/HashIndex.cpp\<close>, \<^verbatim>\<open>RecordBatchInfo.cpp\<close>): its
  table of chained entries, one per row, which it builds from the hashes of the indexed columns,
  the files it keeps them in, and the lookup that hands generated code one row at a time. Arrow
  and the query that computes the hashes are parameters, the functions of the record \<open>arrow\<close>.
  \<open>None\<close> is undefined behaviour: a null pointer followed, an access outside an array, the overflow
  of an \<^verbatim>\<open>int\<close>; also an allocation that failed. Entries of earlier builds stay in the buffer of the
  index; only those of the last one are in its chains.
\<close>

section \<open>Arrow\<close>

text \<open>
  What the code reads of a column: its offset and the addresses of its buffers, which may be null.
  \<open>read_batches\<close> are the batches of a \<^verbatim>\<open>TableBatchReader\<close> until it ends, \<open>run_query\<close> is the column
  a query over a relation \<^verbatim>\<open>tmp\<close> with the rows of the table returns.
\<close>

record array_data =
  array_offset :: nat
  array_buffers :: "nat option list"

record ('t, 'b) arrow =
  num_rows :: "'t \<Rightarrow> nat"
  read_batches :: "'t \<Rightarrow> 'b list"
  batch_rows :: "'b \<Rightarrow> nat"
  combineChunksToBatch :: "'t \<Rightarrow> 'b"
  fromRecordBatches :: "'b list \<Rightarrow> 't"
  columnNames :: "'t \<Rightarrow> string list"
  column_data :: "'b \<Rightarrow> nat \<Rightarrow> array_data"
  run_query :: "string \<Rightarrow> 't \<Rightarrow> 64 word list"

text \<open>
  What the code relies on: the reader delivers all rows of a table, the two combining functions
  neither drop nor invent any, a query has a result per row, and every column has a first buffer
  (the one of its validity bits, null if it has none).
\<close>

definition arrow_ok :: "('t, 'b) arrow \<Rightarrow> bool" where
  "arrow_ok A \<longleftrightarrow>
    (\<forall>t. sum_list (map (batch_rows A) (read_batches A t)) = num_rows A t) \<and>
    (\<forall>t. batch_rows A (combineChunksToBatch A t) = num_rows A t) \<and>
    (\<forall>bs. num_rows A (fromRecordBatches A bs) = sum_list (map (batch_rows A) bs)) \<and>
    (\<forall>q t. length (run_query A q t) = num_rows A t) \<and>
    (\<forall>b c. array_buffers (column_data A b c) \<noteq> [])"

section \<open>The index\<close>

text \<open>
  The entry of a row: an entry of a chain (\<open>hashValue\<close> is \<^verbatim>\<open>hash\<close>, \<open>next_entry\<close> is \<^verbatim>\<open>next\<close>) with the
  batch of the row and its position there. \<open>dataFile\<close> is the content of the file with the hashes,
  if there is one.
\<close>

record index_row =
  recordBatch :: nat
  row_offset :: nat

record ('t, 'b) hash_index =
  index_ht :: "ptr list"
  index_mask :: "64 word"
  index_buffer :: flexible_buffer
  index_cells :: "nat \<rightharpoonup> index_row ht_entry"
  hashData :: "64 word list option"
  index_table :: "'t option"
  recordBatches :: "'b list"
  indexedColumns :: "string list"
  persist :: bool
  dataFile :: "64 word list option"

text \<open>The body of the loop over the rows of a batch; the last component is \<^verbatim>\<open>totalOffset\<close>.\<close>

definition enter_row ::
  "malloc \<Rightarrow> nat \<Rightarrow> nat \<Rightarrow> ('t, 'b) hash_index \<times> region list \<times> nat \<Rightarrow> (('t, 'b) hash_index \<times> region list \<times> nat) option" where
  "enter_row m currRecordBatch additionalOffset s = (case s of (ix, rs, totalOffset) \<Rightarrow> do {
    hashValues \<leftarrow> hashData ix;
    h \<leftarrow> (if totalOffset < length hashValues then Some (hashValues ! totalOffset) else None);
    let i = unat (h AND index_mask ix);
    pos \<leftarrow> ptr_at (index_ht ix) i;
    (a, buf, rs') \<leftarrow> flex_insert m (index_buffer ix) rs;
    Some (ix\<lparr>index_ht := (index_ht ix)[i := of_nat a], index_buffer := buf,
        index_cells := (index_cells ix)(a \<mapsto> \<lparr>next_entry = pos, hashValue = h,
          content = \<lparr>recordBatch = currRecordBatch, row_offset = additionalOffset\<rparr>\<rparr>)\<rparr>,
      rs', totalOffset + 1) })"

fun enter_rows ::
  "malloc \<Rightarrow> nat \<Rightarrow> nat list \<Rightarrow> ('t, 'b) hash_index \<times> region list \<times> nat \<Rightarrow> (('t, 'b) hash_index \<times> region list \<times> nat) option" where
  "enter_rows m k [] s = Some s"
| "enter_rows m k (i # is) s = do { s' \<leftarrow> enter_row m k i s; enter_rows m k is s' }"

text \<open>
  The counter of the rows is an \<^verbatim>\<open>int\<close>; with more rows in a batch than it can count, the loop does not
  end before it overflows.
\<close>

fun enter_batches ::
  "malloc \<Rightarrow> ('t, 'b) arrow \<Rightarrow> 'b list \<Rightarrow> ('t, 'b) hash_index \<times> region list \<times> nat \<Rightarrow> (('t, 'b) hash_index \<times> region list \<times> nat) option" where
  "enter_batches m A [] s = Some s"
| "enter_batches m A (b # bs) s = (case s of (ix, rs, totalOffset) \<Rightarrow> do {
    let currRecordBatch = length (recordBatches ix);
    s' \<leftarrow> (if batch_rows A b \<le> 2147483647
          then enter_rows m currRecordBatch [0..<batch_rows A b]
            (ix\<lparr>recordBatches := recordBatches ix @ [b]\<rparr>, rs, totalOffset)
          else None);
    enter_batches m A bs s' })"

definition index_build ::
  "malloc \<Rightarrow> ('t, 'b) arrow \<Rightarrow> ('t, 'b) hash_index \<times> region list \<Rightarrow> (('t, 'b) hash_index \<times> region list) option" where
  "index_build m A s = (case s of (ix, rs) \<Rightarrow> do {
    t \<leftarrow> index_table ix;
    let htSize = nextPow2 (of_nat (num_rows A t));
    (ix', rs', _) \<leftarrow> enter_batches m A (read_batches A t)
      (ix\<lparr>index_ht := replicate (unat htSize) 0, index_mask := htSize - 1\<rparr>, rs, 0);
    Some (ix', rs') })"

text \<open>The query for the hashes; a comma is left out when the text so far ends with a parenthesis.\<close>

definition ends_with :: "string \<Rightarrow> string \<Rightarrow> bool" where
  "ends_with s e \<longleftrightarrow> length e \<le> length s \<and> drop (length s - length e) s = e"

definition add_column :: "string \<Rightarrow> string \<Rightarrow> string" where
  "add_column c query = (if ends_with query ''('' then query else query @ '','') @ c"

definition hash_query :: "string list \<Rightarrow> string" where
  "hash_query cols = fold add_column cols ''select hash('' @ '') from tmp''"

definition computeHashes :: "('t, 'b) arrow \<Rightarrow> ('t, 'b) hash_index \<Rightarrow> ('t, 'b) hash_index option" where
  "computeHashes A ix = do {
    t \<leftarrow> index_table ix;
    Some (ix\<lparr>hashData := Some (if num_rows A t = 0 then [] else run_query A (hash_query (indexedColumns ix)) t)\<rparr>) }"

definition index_flush :: "('t, 'b) hash_index \<Rightarrow> ('t, 'b) hash_index option" where
  "index_flush ix =
    (if persist ix then do { hs \<leftarrow> hashData ix; Some (ix\<lparr>dataFile := Some hs\<rparr>) } else Some ix)"

definition setPersist :: "bool \<Rightarrow> ('t, 'b) hash_index \<Rightarrow> ('t, 'b) hash_index option" where
  "setPersist v ix = index_flush (ix\<lparr>persist := v\<rparr>)"

text \<open>\<open>t\<close> is the table of the relation.\<close>

definition ensureLoaded ::
  "malloc \<Rightarrow> ('t, 'b) arrow \<Rightarrow> 't \<Rightarrow> ('t, 'b) hash_index \<times> region list \<Rightarrow> (('t, 'b) hash_index \<times> region list) option" where
  "ensureLoaded m A t s = (case s of (ix, rs) \<Rightarrow> do {
    let ix1 = ix\<lparr>index_table := Some t\<rparr>;
    ix2 \<leftarrow> (case dataFile ix of Some hs \<Rightarrow> Some (ix1\<lparr>hashData := Some hs\<rparr>) | None \<Rightarrow> computeHashes A ix1);
    index_build m A (ix2, rs) })"

definition appendRows ::
  "malloc \<Rightarrow> ('t, 'b) arrow \<Rightarrow> 't \<Rightarrow> ('t, 'b) hash_index \<times> region list \<Rightarrow> (('t, 'b) hash_index \<times> region list) option" where
  "appendRows m A toAppend s = (case s of (ix, rs) \<Rightarrow> do {
    t \<leftarrow> index_table ix;
    let newTableBatches = (if num_rows A t \<noteq> 0 then [combineChunksToBatch A t] else []) @ [combineChunksToBatch A toAppend];
    ix1 \<leftarrow> computeHashes A (ix\<lparr>index_table := Some (fromRecordBatches A newTableBatches)\<rparr>);
    (ix2, rs') \<leftarrow> index_build m A (ix1, rs);
    ix3 \<leftarrow> index_flush ix2;
    Some (ix3, rs') })"

section \<open>Lookups\<close>

record column_info =
  offset :: nat
  validMultiplier :: nat
  validBuffer :: nat
  dataBuffer :: nat
  varLenBuffer :: nat

record batch_info =
  numRows :: nat
  columnInfo :: "column_info list"

record index_access =
  colIds :: "nat list"
  recordBatchInfos :: "batch_info list"

text \<open>\<open>alternative\<close> is the address of the static byte of ones.\<close>

definition info_buffer :: "nat \<Rightarrow> array_data \<Rightarrow> nat \<Rightarrow> nat" where
  "info_buffer alternative d bufferId =
    (if bufferId < length (array_buffers d)
     then (case array_buffers d ! bufferId of Some p \<Rightarrow> p | None \<Rightarrow> alternative)
     else alternative)"

fun find_column :: "string list \<Rightarrow> string \<Rightarrow> nat \<Rightarrow> nat option" where
  "find_column [] columnToMap columnId = None"
| "find_column (column # cs) columnToMap columnId =
    (if column = columnToMap then Some columnId else find_column cs columnToMap (columnId + 1))"

fun map_columns :: "string list \<Rightarrow> string list \<Rightarrow> string + nat list" where
  "map_columns names [] = Inr []"
| "map_columns names (c # cs) =
    (case find_column names c 0 of
       None \<Rightarrow> Inl (''column not found: '' @ c)
     | Some k \<Rightarrow> (case map_columns names cs of Inl e \<Rightarrow> Inl e | Inr ks \<Rightarrow> Inr (k # ks)))"

definition mk_column_info :: "nat \<Rightarrow> array_data \<Rightarrow> column_info option" where
  "mk_column_info alternative d =
    (case array_buffers d of
       [] \<Rightarrow> None
     | valid # _ \<Rightarrow> Some \<lparr>offset = array_offset d, validMultiplier = (if valid \<noteq> None then 1 else 0),
         validBuffer = info_buffer alternative d 0, dataBuffer = info_buffer alternative d 1,
         varLenBuffer = info_buffer alternative d 2\<rparr>)"

definition mk_batch_info :: "('t, 'b) arrow \<Rightarrow> nat \<Rightarrow> nat list \<Rightarrow> 'b \<Rightarrow> batch_info option" where
  "mk_batch_info A alternative cols b = do {
    infos \<leftarrow> those (map (\<lambda>c. mk_column_info alternative (column_data A b c)) cols);
    Some \<lparr>numRows = 1, columnInfo = infos\<rparr> }"

text \<open>The constructor of \<^verbatim>\<open>HashIndexAccess\<close>, which throws for an unknown column.\<close>

definition mk_access :: "('t, 'b) arrow \<Rightarrow> nat \<Rightarrow> ('t, 'b) hash_index \<Rightarrow> string list \<Rightarrow> (string + index_access) option" where
  "mk_access A alternative ix cols = do {
    ids \<leftarrow> (if cols = [] then Some (Inr [])
           else do { t \<leftarrow> index_table ix; Some (map_columns (columnNames A t) cols) });
    (case ids of
       Inl e \<Rightarrow> Some (Inl e)
     | Inr ks \<Rightarrow> do {
         infos \<leftarrow> those (map (mk_batch_info A alternative ks) (recordBatches ix));
         Some (Inr \<lparr>colIds = ks, recordBatchInfos = infos\<rparr>) }) }"

record iteration =
  it_hash :: "64 word"
  it_current :: ptr

definition index_lookup :: "('t, 'b) hash_index \<Rightarrow> 64 word \<Rightarrow> iteration option" where
  "index_lookup ix h = do {
    w \<leftarrow> ptr_at (index_ht ix) (unat (h AND index_mask ix));
    Some \<lparr>it_hash = h, it_current = w\<rparr> }"

partial_function (option) hasNext :: "(nat \<rightharpoonup> index_row ht_entry) \<Rightarrow> iteration \<Rightarrow> (bool \<times> iteration) option" where
  "hasNext c it =
    (if it_current it = 0 then Some (False, it)
     else do {
       e \<leftarrow> c (unat (it_current it));
       if hashValue e = it_hash it then Some (True, it)
       else hasNext c (it\<lparr>it_current := next_entry e\<rparr>) })"

definition consumeRecordBatch ::
  "(nat \<rightharpoonup> index_row ht_entry) \<Rightarrow> index_access \<Rightarrow> iteration \<Rightarrow> (batch_info \<times> iteration) option" where
  "consumeRecordBatch c acc it = do {
    e \<leftarrow> (if it_current it = 0 then None else c (unat (it_current it)));
    let k = recordBatch (content e);
    targetInfo \<leftarrow> (if k < length (recordBatchInfos acc) then Some (recordBatchInfos acc ! k) else None);
    Some (targetInfo\<lparr>columnInfo := map (\<lambda>ci. ci\<lparr>offset := offset ci + row_offset (content e)\<rparr>) (columnInfo targetInfo)\<rparr>,
      it\<lparr>it_current := next_entry e\<rparr>) }"

text \<open>The loop that is generated around them.\<close>

partial_function (option) consume_all ::
  "(nat \<rightharpoonup> index_row ht_entry) \<Rightarrow> index_access \<Rightarrow> iteration \<Rightarrow> batch_info list option" where
  "consume_all c acc it = do {
    (cont, it1) \<leftarrow> hasNext c it;
    if cont then do {
      (info, it2) \<leftarrow> consumeRecordBatch c acc it1;
      infos \<leftarrow> consume_all c acc it2;
      Some (info # infos) }
    else Some [] }"

section \<open>Allocation through several steps\<close>

text \<open>
  A step fails only because \<^verbatim>\<open>malloc\<close> does, and otherwise obtains at most \<open>B\<close> bytes and ends as \<open>Q\<close>
  says; \<open>hp\<close> is the heap in its result.
\<close>

definition allocates ::
  "malloc \<Rightarrow> nat \<Rightarrow> region list \<Rightarrow> ('x \<Rightarrow> region list) \<Rightarrow> 'x option \<Rightarrow> ('x \<Rightarrow> bool) \<Rightarrow> bool" where
  "allocates m B rs hp r Q \<longleftrightarrow>
    (case r of None \<Rightarrow> allocation_failed m B rs | Some x \<Rightarrow> grown m B rs (hp x) \<and> Q x)"

lemma allocates_return: "hp x = rs \<Longrightarrow> Q x \<Longrightarrow> allocates m B rs hp (Some x) Q"
  by (simp add: allocates_def)

lemma allocates_bind:
  assumes "allocates m B1 rs hp r Q1" and "\<And>x. Q1 x \<Longrightarrow> allocates m B2 (hp x) hp' (f x) Q" and "B1 + B2 \<le> B"
  shows "allocates m B rs hp' (Option.bind r f) Q"
proof (cases r)
  case None
  then show ?thesis using assms(1,3) allocation_failed_mono[of m B1 rs B] by (simp add: allocates_def)
next
  case (Some x)
  then have x: "grown m B1 rs (hp x)" "Q1 x" using assms(1) by (simp_all add: allocates_def)
  show ?thesis
    using assms(2)[OF x(2)] Some grown_trans[OF x(1) _ assms(3)] allocation_failed_later[OF x(1) _ assms(3)]
    by (auto simp: allocates_def split: option.splits)
qed

lemma allocates_mono:
  "allocates m B rs hp r Q \<Longrightarrow> B \<le> B' \<Longrightarrow> (\<And>x. Q x \<Longrightarrow> Q' x) \<Longrightarrow> allocates m B' rs hp r Q'"
  by (auto simp: allocates_def split: option.splits intro: allocation_failed_mono grown_mono)

section \<open>Building\<close>

text \<open>
  The state while the entries are entered: those of the build are \<open>as\<close>, \<open>pre\<close> are older ones. A table
  without rows has no place, and \<open>tab\<close> is false then.
\<close>

definition index_building :: "bool \<Rightarrow> region list \<Rightarrow> nat list \<Rightarrow> nat list \<Rightarrow> ('t, 'b) hash_index \<Rightarrow> bool" where
  "index_building tab rs pre as ix \<longleftrightarrow> flex_ok rs (index_buffer ix) \<and> flex_iterate (index_buffer ix) = pre @ as \<and>
    set as \<subseteq> dom (index_cells ix) \<and> (\<forall>w \<in> set (index_ht ix). untag w = w) \<and>
    (tab \<longrightarrow> table_ok (masked (index_mask ix)) (length (index_ht ix)) (index_ht ix) (index_cells ix) as)"

definition index_entries :: "('t, 'b) hash_index \<Rightarrow> nat list \<Rightarrow> (64 word \<times> index_row) list" where
  "index_entries ix as = map (\<lambda>a. the (payload (index_cells ix) a)) as"

text \<open>What a build leaves alone.\<close>

definition index_settings ::
  "('t, 'b) hash_index \<Rightarrow> 64 word \<times> 64 word list option \<times> 't option \<times> string list \<times> bool \<times> 64 word list option" where
  "index_settings ix = (index_mask ix, hashData ix, index_table ix, indexedColumns ix, persist ix, dataFile ix)"

definition index_bytes :: "nat \<Rightarrow> ('t, 'b) hash_index \<Rightarrow> nat" where
  "index_bytes N ix = 2 * N * typeSize (index_buffer ix)"

text \<open>From a state that holds \<open>as\<close>, the rows \<open>ys\<close> were entered.\<close>

definition entered ::
  "bool \<Rightarrow> nat list \<Rightarrow> nat list \<Rightarrow> (64 word \<times> index_row) list \<Rightarrow> ('t, 'b) hash_index \<Rightarrow> nat \<Rightarrow>
    ('t, 'b) hash_index \<times> region list \<times> nat \<Rightarrow> bool" where
  "entered tab pre as ys ix n s \<longleftrightarrow> (case s of (ix', rs', k) \<Rightarrow> \<exists>bs. index_building tab rs' pre (as @ bs) ix' \<and>
    index_entries ix' (as @ bs) = index_entries ix as @ ys \<and> index_settings ix' = index_settings ix \<and> k = n + length ys \<and>
    typeSize (index_buffer ix') = typeSize (index_buffer ix) \<and> length bs = length ys)"

abbreviation heap_of :: "('t, 'b) hash_index \<times> region list \<times> nat \<Rightarrow> region list" where
  "heap_of s \<equiv> fst (snd s)"

lemma enter_row_ok:
  assumes m: "good_malloc m" and b: "index_building True rs pre as ix" and hs: "hashData ix = Some hs" "n < length hs"
    and N: "length (pre @ as) \<le> N"
  shows "allocates m (index_bytes N ix) rs heap_of (enter_row m k i (ix, rs, n))
    (\<lambda>s. entered True pre as [(hs ! n, \<lparr>recordBatch = k, row_offset = i\<rparr>)] ix n s \<and> recordBatches (fst s) = recordBatches ix)"
proof -
  let ?h = "hs ! n" and ?f = "index_buffer ix"
  let ?p = "unat (?h AND index_mask ix)"
  have flex: "flex_ok rs ?f" and it: "flex_iterate ?f = pre @ as" and dom: "set as \<subseteq> dom (index_cells ix)"
    and pure: "\<forall>w \<in> set (index_ht ix). untag w = w"
    and tab: "table_ok (masked (index_mask ix)) (length (index_ht ix)) (index_ht ix) (index_cells ix) as"
    using b by (simp_all add: index_building_def)
  have B: "2 * totalLen ?f * typeSize ?f \<le> index_bytes N ix"
    using N flex_slots(3)[OF flex] it by (auto simp: index_bytes_def intro!: mult_le_mono)
  have at: "ptr_at (index_ht ix) ?p = Some (index_ht ix ! ?p)" by (rule table_at[OF tab])
  show ?thesis
  proof (cases "flex_insert m ?f rs")
    case None
    then show ?thesis
      using allocation_failed_mono[OF flex_insert_None[OF flex None] B] hs at
      by (simp add: enter_row_def Let_def allocates_def)
  next
    case (Some r)
    obtain a buf rs' where r: "flex_insert m ?f rs = Some (a, buf, rs')" using Some by (cases r) auto
    note ins = flex_insert_ok[OF m flex r]
    then have fo: "flex_ok rs' buf" by blast
    have a: "a \<notin> set as" "0 < a" "a < 140737488355328" using ins flex_slots(1,2)[OF fo] it by auto
    define e where "e = \<lparr>next_entry = index_ht ix ! ?p, hashValue = ?h, content = \<lparr>recordBatch = k, row_offset = i\<rparr>\<rparr>"
    define ix' where "ix' = ix\<lparr>index_ht := (index_ht ix)[?p := of_nat a], index_buffer := buf, index_cells := (index_cells ix)(a \<mapsto> e)\<rparr>"
    have run: "enter_row m k i (ix, rs, n) = Some (ix', rs', n + 1)"
      using hs at r by (simp add: enter_row_def Let_def ix'_def e_def)
    have "?p < length (index_ht ix)" using at by (simp add: ptr_at_def split: if_splits)
    then have w: "untag (index_ht ix ! ?p) = index_ht ix ! ?p" using pure nth_mem by blast
    have "index_building True rs' pre (as @ [a]) ix'"
      using table_ok_put[OF tab a, of e ?h "of_nat a"] w a(3) ins fo it dom pure
      by (auto simp: index_building_def ix'_def e_def untag_address dest: set_update_subset_insert[THEN subsetD])
    moreover have "index_entries ix' (as @ [a]) = index_entries ix as @ [(?h, \<lparr>recordBatch = k, row_offset = i\<rparr>)]"
      using a(1) by (auto simp: index_entries_def ix'_def e_def payload_def)
    moreover have "index_settings ix' = index_settings ix" "recordBatches ix' = recordBatches ix"
        "typeSize (index_buffer ix') = typeSize ?f"
      using ins by (simp_all add: index_settings_def ix'_def)
    ultimately show ?thesis
      using run grown_mono[OF flex_insert_grown[OF m flex r] B]
      by (auto simp: allocates_def entered_def intro!: exI[of _ "[a]"])
  qed
qed

lemma entered_Nil: "index_building tab rs pre as ix \<Longrightarrow> entered tab pre as [] ix n (ix, rs, n)"
  by (simp add: entered_def)

lemma entered_append:
  assumes "entered tab pre as ys ix n (ix1, rs1, n1)"
    and "index_building tab rs1 pre (as @ bs) ix1" and "entered tab pre (as @ bs) zs ix1 n1 s"
  shows "entered tab pre as (ys @ zs) ix n s"
proof -
  have bs: "index_entries ix1 (as @ bs) = index_entries ix as @ ys" "length bs = length ys"
      "index_settings ix1 = index_settings ix" "n1 = n + length ys" "typeSize (index_buffer ix1) = typeSize (index_buffer ix)"
    using assms(1,2) by (auto simp: entered_def index_building_def)
  obtain ix' rs' k where s: "s = (ix', rs', k)" by (cases s)
  obtain cs where "index_building tab rs' pre ((as @ bs) @ cs) ix'" "index_entries ix' ((as @ bs) @ cs) = index_entries ix1 (as @ bs) @ zs"
      "length cs = length zs" "index_settings ix' = index_settings ix1" "k = n1 + length zs"
      "typeSize (index_buffer ix') = typeSize (index_buffer ix1)"
    using assms(3) s by (auto simp: entered_def)
  then show ?thesis using bs s by (auto simp: entered_def intro!: exI[of _ "bs @ cs"])
qed

text \<open>The rows of a batch with their hashes, \<open>n\<close> hashes having been read before.\<close>

definition row_place :: "nat \<Rightarrow> nat \<Rightarrow> index_row" where
  "row_place k i = \<lparr>recordBatch = k, row_offset = i\<rparr>"

abbreviation hashed :: "64 word list \<Rightarrow> nat \<Rightarrow> index_row list \<Rightarrow> (64 word \<times> index_row) list" where
  "hashed hs n rows \<equiv> zip (drop n hs) rows"

lemma hashed_Cons: "n < length hs \<Longrightarrow> hashed hs n (r # rows) = [(hs ! n, r)] @ hashed hs (n + 1) rows"
  by (simp flip: Cons_nth_drop_Suc)

lemma hashed_append:
  assumes "n + length rows \<le> length hs"
  shows "hashed hs n (rows @ rows') = hashed hs n rows @ hashed hs (n + length rows) rows'"
proof -
  have "zip (drop n hs) rows = zip (take (length rows) (drop n hs)) rows"
    using zip_append2[of "drop n hs" rows "[]"] by simp
  then show ?thesis unfolding zip_append2 by (simp add: add.commute)
qed

lemma enter_rows_ok:
  assumes m: "good_malloc m" and "index_building tab rs pre as ix" and "is \<noteq> [] \<Longrightarrow> tab" and "hashData ix = Some hs"
    and "n + length is \<le> length hs" and "length (pre @ as) + length is \<le> N"
  shows "allocates m (length is * index_bytes N ix) rs heap_of (enter_rows m k is (ix, rs, n))
    (\<lambda>s. entered tab pre as (hashed hs n (map (row_place k) is)) ix n s \<and> recordBatches (fst s) = recordBatches ix)"
  using assms(2-)
proof (induction "is" arbitrary: as ix rs n)
  case Nil
  then show ?case by (auto intro!: allocates_return entered_Nil)
next
  case (Cons i "is")
  have tab: "tab" using Cons.prems(2) by simp
  have "allocates m (index_bytes N ix + length is * index_bytes N ix) rs heap_of
      (Option.bind (enter_row m k i (ix, rs, n)) (\<lambda>s'. enter_rows m k is s'))
      (\<lambda>s. entered tab pre as ([(hs ! n, row_place k i)] @ hashed hs (n + 1) (map (row_place k) is)) ix n s \<and> recordBatches (fst s) = recordBatches ix)"
  proof (rule allocates_bind[OF enter_row_ok[OF m _ Cons.prems(3)] _ order_refl])
    show "index_building True rs pre as ix" "n < length hs" "length (pre @ as) \<le> N" using Cons.prems tab by simp_all
    fix s1
    assume "entered True pre as [(hs ! n, \<lparr>recordBatch = k, row_offset = i\<rparr>)] ix n s1 \<and> recordBatches (fst s1) = recordBatches ix"
    moreover obtain ix1 rs1 n1 where s1: "s1 = (ix1, rs1, n1)" by (cases s1)
    ultimately have e: "entered tab pre as [(hs ! n, row_place k i)] ix n (ix1, rs1, n1)" and rb: "recordBatches ix1 = recordBatches ix"
      using tab by (simp_all add: row_place_def)
    then obtain a where a: "index_building tab rs1 pre (as @ [a]) ix1" "index_settings ix1 = index_settings ix" "n1 = n + 1"
        "typeSize (index_buffer ix1) = typeSize (index_buffer ix)"
      by (auto simp: entered_def length_Suc_conv)
    have "hashData ix1 = Some hs" using a(2) Cons.prems(3) by (simp add: index_settings_def)
    moreover have "index_bytes N ix1 = index_bytes N ix" using a(4) by (simp add: index_bytes_def)
    ultimately have IH: "allocates m (length is * index_bytes N ix) rs1 heap_of (enter_rows m k is (ix1, rs1, n1))
        (\<lambda>s. entered tab pre (as @ [a]) (hashed hs n1 (map (row_place k) is)) ix1 n1 s \<and> recordBatches (fst s) = recordBatches ix1)"
      using Cons.IH[of rs1 "as @ [a]" ix1 n1] Cons.prems a(1,3) tab by auto
    show "allocates m (length is * index_bytes N ix) (heap_of s1) heap_of (enter_rows m k is s1)
      (\<lambda>s. entered tab pre as ([(hs ! n, row_place k i)] @ hashed hs (n + 1) (map (row_place k) is)) ix n s \<and> recordBatches (fst s) = recordBatches ix)"
      unfolding s1 fst_conv snd_conv a(3)[symmetric]
      by (rule allocates_mono[OF IH order_refl]) (use entered_append[OF e a(1)] rb in simp)
  qed
  then show ?case using Cons.prems(4) by (simp add: hashed_Cons)
qed

text \<open>The rows of all batches, \<open>k\<close> of which came before.\<close>

fun row_places :: "('t, 'b) arrow \<Rightarrow> nat \<Rightarrow> 'b list \<Rightarrow> index_row list" where
  "row_places A k [] = []"
| "row_places A k (b # bs) = map (row_place k) [0..<batch_rows A b] @ row_places A (Suc k) bs"

lemma row_places_length: "length (row_places A k bs) = sum_list (map (batch_rows A) bs)"
  by (induction bs arbitrary: k) simp_all

lemma enter_batches_ok:
  assumes m: "good_malloc m" and "index_building tab rs pre as ix" and "row_places A (length (recordBatches ix)) bs \<noteq> [] \<Longrightarrow> tab"
    and "hashData ix = Some hs" and "n + sum_list (map (batch_rows A) bs) \<le> length hs"
    and "length (pre @ as) + sum_list (map (batch_rows A) bs) \<le> N" and "\<forall>b \<in> set bs. batch_rows A b \<le> 2147483647"
  shows "allocates m (sum_list (map (batch_rows A) bs) * index_bytes N ix) rs heap_of (enter_batches m A bs (ix, rs, n))
    (\<lambda>s. entered tab pre as (hashed hs n (row_places A (length (recordBatches ix)) bs)) ix n s \<and>
      recordBatches (fst s) = recordBatches ix @ bs)"
  using assms(2-)
proof (induction bs arbitrary: as ix rs n)
  case Nil
  then show ?case by (auto intro!: allocates_return entered_Nil)
next
  case (Cons b bs)
  let ?k = "length (recordBatches ix)" and ?r = "batch_rows A b"
  let ?rows = "map (row_place ?k) [0..<?r]" and ?rest = "sum_list (map (batch_rows A) bs)"
  define ix0 where "ix0 = ix\<lparr>recordBatches := recordBatches ix @ [b]\<rparr>"
  have ix0: "index_building tab rs pre as ix0" "hashData ix0 = Some hs" "index_bytes N ix0 = index_bytes N ix"
      "recordBatches ix0 = recordBatches ix @ [b]" "entered tab pre as ys ix0 = entered tab pre as ys ix" for ys
    using Cons.prems by (auto simp: ix0_def index_building_def index_bytes_def entered_def index_settings_def index_entries_def fun_eq_iff)
  have "allocates m (?r * index_bytes N ix + ?rest * index_bytes N ix) rs heap_of
      (Option.bind (enter_rows m ?k [0..<?r] (ix0, rs, n)) (enter_batches m A bs))
      (\<lambda>s. entered tab pre as (hashed hs n ?rows @ hashed hs (n + ?r) (row_places A (Suc ?k) bs)) ix0 n s \<and>
        recordBatches (fst s) = recordBatches ix @ b # bs)"
  proof (rule allocates_bind[OF _ _ order_refl])
    show "allocates m (?r * index_bytes N ix) rs heap_of (enter_rows m ?k [0..<?r] (ix0, rs, n))
        (\<lambda>s. entered tab pre as (hashed hs n ?rows) ix0 n s \<and> recordBatches (fst s) = recordBatches ix @ [b])"
      using enter_rows_ok[OF m ix0(1) _ ix0(2), of "[0..<?r]" n N ?k] Cons.prems ix0(3,4) by auto
    fix s1
    assume "entered tab pre as (hashed hs n ?rows) ix0 n s1 \<and> recordBatches (fst s1) = recordBatches ix @ [b]"
    moreover obtain ix1 rs1 n1 where s1: "s1 = (ix1, rs1, n1)" by (cases s1)
    ultimately have e: "entered tab pre as (hashed hs n ?rows) ix0 n (ix1, rs1, n1)" and rb: "recordBatches ix1 = recordBatches ix @ [b]"
      by simp_all
    have len: "length (hashed hs n ?rows) = ?r" using Cons.prems(4) by simp
    obtain cs where cs: "index_building tab rs1 pre (as @ cs) ix1" "index_settings ix1 = index_settings ix0" "n1 = n + ?r" "length cs = ?r"
        "typeSize (index_buffer ix1) = typeSize (index_buffer ix0)"
      using e len by (auto simp: entered_def)
    have "hashData ix1 = Some hs" using cs(2) ix0(2) by (simp add: index_settings_def)
    moreover have "index_bytes N ix1 = index_bytes N ix" using cs(5) ix0(3) by (simp add: index_bytes_def)
    ultimately have IH: "allocates m (?rest * index_bytes N ix) rs1 heap_of (enter_batches m A bs (ix1, rs1, n1))
        (\<lambda>s. entered tab pre (as @ cs) (hashed hs n1 (row_places A (Suc ?k) bs)) ix1 n1 s \<and>
          recordBatches (fst s) = (recordBatches ix @ [b]) @ bs)"
      using Cons.IH[of rs1 "as @ cs" ix1 n1] Cons.prems cs(1,3,4) rb by auto
    show "allocates m (?rest * index_bytes N ix) (heap_of s1) heap_of (enter_batches m A bs s1)
        (\<lambda>s. entered tab pre as (hashed hs n ?rows @ hashed hs (n + ?r) (row_places A (Suc ?k) bs)) ix0 n s \<and>
          recordBatches (fst s) = recordBatches ix @ b # bs)"
      unfolding s1 fst_conv snd_conv cs(3)[symmetric]
      by (rule allocates_mono[OF IH order_refl]) (use entered_append[OF e cs(1)] in auto)
  qed
  then show ?case
    using Cons.prems(4,6) ix0(5) hashed_append[of n ?rows hs "row_places A (Suc ?k) bs"]
    by (simp add: ix0_def Let_def add_mult_distrib)
qed

section \<open>The invariant of a loaded index\<close>

text \<open>
  There is an entry for each row of the table, with its hash and its place, in the order of the
  rows, and it is in its chain. The batches of earlier builds come first in \<open>recordBatches\<close>.
\<close>

definition index_ok :: "('t, 'b) arrow \<Rightarrow> region list \<Rightarrow> ('t, 'b) hash_index \<Rightarrow> bool" where
  "index_ok A rs ix \<longleftrightarrow> (\<exists>t hs old pre as. index_table ix = Some t \<and> hashData ix = Some hs \<and> length hs = num_rows A t \<and>
    recordBatches ix = old @ read_batches A t \<and> index_building (0 < num_rows A t) rs pre as ix \<and>
    index_entries ix as = zip hs (row_places A (length old) (read_batches A t)))"

lemma index_table_size:
  assumes "1 \<le> n" and "n \<le> 2147483647"
  shows "0 < unat (nextPow2 (of_nat n))"
proof -
  have u: "unat (of_nat n :: 64 word) = n" using assms(2) by (simp add: unat_of_nat)
  then have "1 \<le> (of_nat n :: 64 word)" "(of_nat n :: 64 word) \<le> 9223372036854775808"
    using assms by (simp_all add: word_le_nat_alt)
  from nextPow2_least[OF this] show ?thesis by auto
qed

lemma index_build_ok:
  assumes m: "good_malloc m" and A: "arrow_ok A" and f: "flex_ok rs (index_buffer ix)"
    and t: "index_table ix = Some t" "hashData ix = Some hs" "length hs = num_rows A t" "num_rows A t \<le> 2147483647"
    and N: "totalLen (index_buffer ix) + num_rows A t \<le> N"
  shows "allocates m (num_rows A t * index_bytes N ix) rs snd (index_build m A (ix, rs))
    (\<lambda>(ix', rs'). index_ok A rs' ix' \<and> index_table ix' = Some t \<and> hashData ix' = Some hs \<and> persist ix' = persist ix \<and>
      indexedColumns ix' = indexedColumns ix \<and> dataFile ix' = dataFile ix)"
proof -
  let ?n = "num_rows A t" and ?bs = "read_batches A t" and ?pre = "flex_iterate (index_buffer ix)"
  let ?size = "nextPow2 (of_nat ?n)"
  define ix0 where "ix0 = ix\<lparr>index_ht := replicate (unat ?size) 0, index_mask := ?size - 1\<rparr>"
  have rows: "sum_list (map (batch_rows A) ?bs) = ?n" using A by (simp add: arrow_ok_def)
  have small: "\<forall>b \<in> set ?bs. batch_rows A b \<le> 2147483647"
  proof
    fix b assume "b \<in> set ?bs"
    then have "batch_rows A b \<le> sum_list (map (batch_rows A) ?bs)" by (intro member_le_sum_list) simp_all
    then show "batch_rows A b \<le> 2147483647" using rows t(4) by simp
  qed
  have b: "index_building (0 < ?n) rs ?pre [] ix0"
  proof -
    have "table_ok (masked (?size - 1)) (unat ?size) (replicate (unat ?size) 0) (index_cells ix) []" if "0 < ?n"
    proof -
      have "0 < unat ?size" using index_table_size t(4) that by simp
      then have "unat (?size - 1) + 1 = unat ?size" by (subst unat_minus_one) (auto simp: word_neq_0_conv unat_gt_0)
      then show ?thesis using bucket_less[of _ "?size - 1"] by (auto intro!: table_ok_empty)
    qed
    then show ?thesis using f by (simp add: index_building_def ix0_def untag_def)
  qed
  have N': "length (?pre @ []) + sum_list (map (batch_rows A) ?bs) \<le> N"
    using N rows flex_slots(3)[OF f] by simp
  have e: "index_bytes N ix0 = index_bytes N ix" "hashData ix0 = Some hs" "recordBatches ix0 = recordBatches ix"
    using t(2) by (simp_all add: index_bytes_def ix0_def)
  have fit: "0 + sum_list (map (batch_rows A) ?bs) \<le> length hs" using rows t(3) by simp
  have any: "0 < ?n" if "row_places A (length (recordBatches ix0)) ?bs \<noteq> []"
    using that row_places_length[of A "length (recordBatches ix0)" ?bs] rows by (metis length_greater_0_conv)
  note run = enter_batches_ok[OF m b any e(2) fit N' small, unfolded rows e(1)]
  have "allocates m (?n * index_bytes N ix + 0) rs snd
      (Option.bind (enter_batches m A ?bs (ix0, rs, 0)) (\<lambda>(ix', rs', _). Some (ix', rs')))
      (\<lambda>(ix', rs'). index_ok A rs' ix' \<and> index_table ix' = Some t \<and> hashData ix' = Some hs \<and> persist ix' = persist ix \<and>
        indexedColumns ix' = indexedColumns ix \<and> dataFile ix' = dataFile ix)"
  proof (rule allocates_bind[OF run _ order_refl])
    fix s
    assume s: "entered (0 < ?n) ?pre [] (hashed hs 0 (row_places A (length (recordBatches ix0)) ?bs)) ix0 0 s \<and>
      recordBatches (fst s) = recordBatches ix0 @ ?bs"
    obtain ix' rs' k where s': "s = (ix', rs', k)" by (cases s)
    obtain as where as: "index_building (0 < ?n) rs' ?pre as ix'" "index_settings ix' = index_settings ix0"
        "index_entries ix' as = zip hs (row_places A (length (recordBatches ix)) ?bs)"
      using s s' e(3) by (auto simp: entered_def index_entries_def)
    have "index_ok A rs' ix'"
      unfolding index_ok_def using as s s' t e
      by (intro exI[of _ t] exI[of _ hs] exI[of _ "recordBatches ix"] exI[of _ ?pre] exI[of _ as])
        (simp add: index_settings_def ix0_def)
    then show "allocates m 0 (heap_of s) snd (case s of (ix', rs', _) \<Rightarrow> Some (ix', rs'))
      (\<lambda>(ix', rs'). index_ok A rs' ix' \<and> index_table ix' = Some t \<and> hashData ix' = Some hs \<and> persist ix' = persist ix \<and>
        indexedColumns ix' = indexedColumns ix \<and> dataFile ix' = dataFile ix)"
      using as(2) s' t by (auto intro!: allocates_return simp: index_settings_def ix0_def)
  qed
  then show ?thesis by (simp add: index_build_def t(1) Let_def ix0_def)
qed

section \<open>Loading and appending\<close>

text \<open>What an index knows after its hashes were computed: those of the query, or none for a table without rows.\<close>

definition table_hashes :: "('t, 'b) arrow \<Rightarrow> string list \<Rightarrow> 't \<Rightarrow> 64 word list" where
  "table_hashes A cols t = (if num_rows A t = 0 then [] else run_query A (hash_query cols) t)"

lemma table_hashes_length: "arrow_ok A \<Longrightarrow> length (table_hashes A cols t) = num_rows A t"
  by (simp add: table_hashes_def arrow_ok_def)

lemma computeHashes_eq:
  "index_table ix = Some t \<Longrightarrow> computeHashes A ix = Some (ix\<lparr>hashData := Some (table_hashes A (indexedColumns ix) t)\<rparr>)"
  by (simp add: computeHashes_def table_hashes_def)

theorem ensureLoaded_ok:
  assumes m: "good_malloc m" and A: "arrow_ok A" and f: "flex_ok rs (index_buffer ix)"
    and t: "num_rows A t \<le> 2147483647" and stored: "\<And>hs. dataFile ix = Some hs \<Longrightarrow> length hs = num_rows A t"
    and N: "totalLen (index_buffer ix) + num_rows A t \<le> N"
  shows "allocates m (num_rows A t * index_bytes N ix) rs snd (ensureLoaded m A t (ix, rs))
    (\<lambda>(ix', rs'). index_ok A rs' ix' \<and> index_table ix' = Some t \<and>
      hashData ix' = Some (case dataFile ix of Some hs \<Rightarrow> hs | None \<Rightarrow> table_hashes A (indexedColumns ix) t))"
proof -
  define hs where "hs = (case dataFile ix of Some hs \<Rightarrow> hs | None \<Rightarrow> table_hashes A (indexedColumns ix) t)"
  define ix1 where "ix1 = ix\<lparr>index_table := Some t, hashData := Some hs\<rparr>"
  have run: "ensureLoaded m A t (ix, rs) = index_build m A (ix1, rs)"
    by (auto simp: ensureLoaded_def ix1_def hs_def computeHashes_eq split: option.split)
  have "length hs = num_rows A t" using stored table_hashes_length[OF A] by (auto simp: hs_def split: option.split)
  moreover have "flex_ok rs (index_buffer ix1)" "totalLen (index_buffer ix1) + num_rows A t \<le> N" "index_bytes N ix1 = index_bytes N ix"
    using f N by (simp_all add: ix1_def index_bytes_def)
  ultimately show ?thesis
    using index_build_ok[OF m A, of rs ix1 t hs N] t unfolding run hs_def[symmetric]
    by (auto simp: ix1_def intro: allocates_mono)
qed

lemma index_ok_flush: "index_ok A rs ix \<Longrightarrow> \<exists>hs. hashData ix = Some hs \<and> index_flush ix = Some (ix\<lparr>dataFile := (if persist ix then Some hs else dataFile ix)\<rparr>)"
  by (auto simp: index_ok_def index_flush_def)

lemma index_ok_file: "index_ok A rs ix \<Longrightarrow> index_ok A rs (ix\<lparr>dataFile := f\<rparr>)"
  by (simp add: index_ok_def index_building_def index_entries_def)

text \<open>The table \<^verbatim>\<open>appendRows\<close> combines.\<close>

definition appended :: "('t, 'b) arrow \<Rightarrow> 't \<Rightarrow> 't \<Rightarrow> 't" where
  "appended A t t' = fromRecordBatches A
    ((if num_rows A t \<noteq> 0 then [combineChunksToBatch A t] else []) @ [combineChunksToBatch A t'])"

lemma appended_rows: "arrow_ok A \<Longrightarrow> num_rows A (appended A t t') = num_rows A t + num_rows A t'"
  by (simp add: arrow_ok_def appended_def)

lemma appendRows_ok:
  assumes m: "good_malloc m" and A: "arrow_ok A" and ok: "index_ok A rs ix" and t: "index_table ix = Some t"
    and n: "num_rows A t + num_rows A t' \<le> 2147483647"
    and N: "totalLen (index_buffer ix) + num_rows A t + num_rows A t' \<le> N"
  shows "allocates m ((num_rows A t + num_rows A t') * index_bytes N ix) rs snd (appendRows m A t' (ix, rs))
    (\<lambda>(ix', rs'). index_ok A rs' ix' \<and> index_table ix' = Some (appended A t t') \<and>
      hashData ix' = Some (table_hashes A (indexedColumns ix) (appended A t t')) \<and>
      dataFile ix' = (if persist ix then hashData ix' else dataFile ix))"
proof -
  define t2 where "t2 = appended A t t'"
  define hs where "hs = table_hashes A (indexedColumns ix) t2"
  define ix1 where "ix1 = ix\<lparr>index_table := Some t2, hashData := Some hs\<rparr>"
  have t2: "num_rows A t2 = num_rows A t + num_rows A t'" unfolding t2_def by (rule appended_rows[OF A])
  have f: "flex_ok rs (index_buffer ix1)" using ok by (auto simp: index_ok_def index_building_def ix1_def)
  have e: "index_bytes N ix1 = index_bytes N ix" "index_buffer ix1 = index_buffer ix" by (simp_all add: ix1_def index_bytes_def)
  have len: "length hs = num_rows A t2" using table_hashes_length[OF A] by (simp add: hs_def)
  have tab: "index_table ix1 = Some t2" "hashData ix1 = Some hs" by (simp_all add: ix1_def)
  have sizes: "num_rows A t2 \<le> 2147483647" "totalLen (index_buffer ix1) + num_rows A t2 \<le> N" using n N e t2 by simp_all
  note built = index_build_ok[OF m A f tab len sizes, unfolded e(1) t2]
  have "appendRows m A t' (ix, rs) = Option.bind (index_build m A (ix1, rs)) (\<lambda>(ix2, rs'). Option.bind (index_flush ix2) (\<lambda>ix3. Some (ix3, rs')))"
    by (simp add: appendRows_def t Let_def computeHashes_eq t2_def appended_def hs_def ix1_def)
  moreover have "allocates m ((num_rows A t + num_rows A t') * index_bytes N ix + 0) rs snd
      (Option.bind (index_build m A (ix1, rs)) (\<lambda>(ix2, rs'). Option.bind (index_flush ix2) (\<lambda>ix3. Some (ix3, rs'))))
      (\<lambda>(ix', rs'). index_ok A rs' ix' \<and> index_table ix' = Some (appended A t t') \<and>
        hashData ix' = Some (table_hashes A (indexedColumns ix) (appended A t t')) \<and>
        dataFile ix' = (if persist ix then hashData ix' else dataFile ix))"
  proof (rule allocates_bind[OF built _ order_refl])
    fix s
    assume "case s of (ix', rs') \<Rightarrow> index_ok A rs' ix' \<and> index_table ix' = Some t2 \<and> hashData ix' = Some hs \<and>
      persist ix' = persist ix1 \<and> indexedColumns ix' = indexedColumns ix1 \<and> dataFile ix' = dataFile ix1"
    moreover obtain ix2 rs2 where s: "s = (ix2, rs2)" by (cases s)
    ultimately have 2: "index_ok A rs2 ix2" "index_table ix2 = Some t2" "hashData ix2 = Some hs" "persist ix2 = persist ix"
        "dataFile ix2 = dataFile ix"
      by (simp_all add: ix1_def)
    have "index_flush ix2 = Some (ix2\<lparr>dataFile := (if persist ix then Some hs else dataFile ix)\<rparr>)"
      using index_ok_flush[OF 2(1)] 2(3-5) by auto
    then show "allocates m 0 (snd s) snd (case s of (ix2, rs') \<Rightarrow> Option.bind (index_flush ix2) (\<lambda>ix3. Some (ix3, rs')))
      (\<lambda>(ix', rs'). index_ok A rs' ix' \<and> index_table ix' = Some (appended A t t') \<and>
        hashData ix' = Some (table_hashes A (indexedColumns ix) (appended A t t')) \<and>
        dataFile ix' = (if persist ix then hashData ix' else dataFile ix))"
      using s 2 index_ok_file[OF 2(1)] by (auto simp: hs_def t2_def intro!: allocates_return)
  qed
  ultimately show ?thesis by simp
qed

section \<open>Following a chain\<close>

text \<open>The row at an entry, as generated code gets it.\<close>

definition at_row :: "nat \<Rightarrow> batch_info \<Rightarrow> batch_info" where
  "at_row i info = info\<lparr>columnInfo := map (\<lambda>ci. ci\<lparr>offset := offset ci + i\<rparr>) (columnInfo info)\<rparr>"

lemma consume_all_chain:
  assumes "chain_at c w as" and "\<And>a. a \<in> set as \<Longrightarrow> recordBatch (content (the (c a))) < length (recordBatchInfos acc)"
  shows "consume_all c acc \<lparr>it_hash = h, it_current = w\<rparr> =
    Some (map (\<lambda>a. let r = content (the (c a)) in at_row (row_offset r) (recordBatchInfos acc ! recordBatch r))
      (filter (\<lambda>a. hash_of c a = h) as))"
  using assms
proof (induction as arbitrary: w)
  case Nil
  then show ?case by (simp add: consume_all.simps[of c acc] hasNext.simps[of c])
next
  case (Cons a as)
  obtain e where e: "c a = Some e" "chain_at c (next_entry e) as" using Cons.prems(1) by (auto split: option.splits)
  have w: "unat w = a" "w \<noteq> 0" using Cons.prems(1) by (auto simp: unat_of_nat word_unat_eq_iff)
  have k: "recordBatch (content e) < length (recordBatchInfos acc)" using Cons.prems(2)[of a] e(1) by simp
  have IH: "consume_all c acc \<lparr>it_hash = h, it_current = next_entry e\<rparr> =
      Some (map (\<lambda>a. let r = content (the (c a)) in at_row (row_offset r) (recordBatchInfos acc ! recordBatch r))
        (filter (\<lambda>a. hash_of c a = h) as))"
    using Cons.IH[OF e(2)] Cons.prems(2) by simp
  show ?case
  proof (cases "hashValue e = h")
    case True
    then have "hasNext c \<lparr>it_hash = h, it_current = w\<rparr> = Some (True, \<lparr>it_hash = h, it_current = w\<rparr>)"
      using e(1) w by (simp add: hasNext.simps[of c])
    moreover have "consumeRecordBatch c acc \<lparr>it_hash = h, it_current = w\<rparr> =
        Some (at_row (row_offset (content e)) (recordBatchInfos acc ! recordBatch (content e)), \<lparr>it_hash = h, it_current = next_entry e\<rparr>)"
      using e(1) w k by (simp add: consumeRecordBatch_def at_row_def Let_def)
    ultimately show ?thesis
      using IH e(1) True by (subst consume_all.simps) (simp add: hash_of_def Let_def)
  next
    case False
    then have "hasNext c \<lparr>it_hash = h, it_current = w\<rparr> = hasNext c \<lparr>it_hash = h, it_current = next_entry e\<rparr>"
      using e(1) w by (subst hasNext.simps) simp
    then have "consume_all c acc \<lparr>it_hash = h, it_current = w\<rparr> = consume_all c acc \<lparr>it_hash = h, it_current = next_entry e\<rparr>"
      by (subst (1 2) consume_all.simps) simp
    then show ?thesis using IH e(1) False by (simp add: hash_of_def)
  qed
qed

section \<open>What a lookup means\<close>

text \<open>The rows of a table, and the description of a row: its columns start at its place.\<close>

definition index_rows :: "('t, 'b) arrow \<Rightarrow> 't \<Rightarrow> ('b \<times> nat) list" where
  "index_rows A t = concat (map (\<lambda>b. map (Pair b) [0..<batch_rows A b]) (read_batches A t))"

definition row_info :: "('t, 'b) arrow \<Rightarrow> nat \<Rightarrow> nat list \<Rightarrow> 'b \<times> nat \<Rightarrow> batch_info" where
  "row_info A alternative ks r =
    \<lparr>numRows = 1, columnInfo = map (\<lambda>c. let d = column_data A (fst r) c in
      \<lparr>offset = array_offset d + snd r, validMultiplier = (if hd (array_buffers d) \<noteq> None then 1 else 0),
       validBuffer = info_buffer alternative d 0, dataBuffer = info_buffer alternative d 1,
       varLenBuffer = info_buffer alternative d 2\<rparr>) ks\<rparr>"

definition rows_with_hash :: "('t, 'b) arrow \<Rightarrow> 't \<Rightarrow> 64 word list \<Rightarrow> 64 word \<Rightarrow> ('b \<times> nat) list" where
  "rows_with_hash A t hs h = rev (map snd (filter (\<lambda>hr. fst hr = h) (zip hs (index_rows A t))))"

text \<open>An access to the columns, a lookup and the loop over its results.\<close>

definition lookup_rows ::
  "('t, 'b) arrow \<Rightarrow> nat \<Rightarrow> ('t, 'b) hash_index \<Rightarrow> string list \<Rightarrow> 64 word \<Rightarrow> (string + batch_info list) option" where
  "lookup_rows A alternative ix cols h = do {
    r \<leftarrow> mk_access A alternative ix cols;
    (case r of
       Inl e \<Rightarrow> Some (Inl e)
     | Inr acc \<Rightarrow> do {
         it \<leftarrow> index_lookup ix h;
         infos \<leftarrow> consume_all (index_cells ix) acc it;
         Some (Inr infos) }) }"

lemma find_column_Some: "c \<in> set names \<Longrightarrow> \<exists>j < length names. names ! j = c \<and> find_column names c k = Some (k + j)"
proof (induction names arbitrary: k)
  case (Cons x names)
  show ?case
  proof (cases "x = c")
    case True
    then show ?thesis by (intro exI[of _ 0]) simp
  next
    case False
    then obtain j where "j < length names" "names ! j = c" "find_column names c (k + 1) = Some (k + 1 + j)"
      using Cons.IH[of "k + 1"] Cons.prems by auto
    then show ?thesis using False by (intro exI[of _ "Suc j"]) simp
  qed
qed simp

lemma map_columns_Inr:
  "set cols \<subseteq> set names \<Longrightarrow> \<exists>ks. map_columns names cols = Inr ks \<and> list_all2 (\<lambda>k c. k < length names \<and> names ! k = c) ks cols"
proof (induction cols)
  case (Cons c cols)
  then obtain ks where "map_columns names cols = Inr ks" "list_all2 (\<lambda>k c. k < length names \<and> names ! k = c) ks cols" by auto
  moreover obtain j where "j < length names" "names ! j = c" "find_column names c 0 = Some j"
    using find_column_Some[of c names 0] Cons.prems by auto
  ultimately show ?case by simp
qed simp

text \<open>A column that the table does not have is an error, not undefined.\<close>

lemma map_columns_Inl: "\<not> set cols \<subseteq> set names \<Longrightarrow> \<exists>c \<in> set cols. c \<notin> set names \<and> map_columns names cols = Inl (''column not found: '' @ c)"
proof (induction cols)
  case (Cons c cols)
  show ?case
  proof (cases "c \<in> set names")
    case True
    then have "\<not> set cols \<subseteq> set names" using Cons.prems by simp
    then show ?thesis using Cons.IH find_column_Some[OF True, of 0] by auto
  next
    case False
    then have "find_column names c k = None" for k by (induction names arbitrary: k) auto
    then show ?thesis using False by simp
  qed
qed simp

lemma mk_batch_info_Some:
  assumes "arrow_ok A"
  shows "mk_batch_info A alternative ks b = Some (row_info A alternative ks (b, 0))"
proof -
  have "mk_column_info alternative (column_data A b c) =
      Some (let d = column_data A b c in \<lparr>offset = array_offset d, validMultiplier = (if hd (array_buffers d) \<noteq> None then 1 else 0),
       validBuffer = info_buffer alternative d 0, dataBuffer = info_buffer alternative d 1, varLenBuffer = info_buffer alternative d 2\<rparr>)" for c
    using assms by (cases "array_buffers (column_data A b c)") (auto simp: mk_column_info_def arrow_ok_def Let_def)
  moreover have "those (map (\<lambda>c. Some (f c)) ks) = Some (map f ks)" for f :: "nat \<Rightarrow> column_info"
    by (induction ks) simp_all
  ultimately show ?thesis by (simp add: mk_batch_info_def row_info_def)
qed

lemma those_Some: "(\<And>x. x \<in> set xs \<Longrightarrow> f x = Some (g x)) \<Longrightarrow> those (map f xs) = Some (map g xs)"
  by (induction xs) simp_all

lemma at_row_row_info: "at_row i (row_info A alternative ks (b, 0)) = row_info A alternative ks (b, i)"
  by (simp add: at_row_def row_info_def Let_def)

text \<open>The places of the entries name the rows of the table.\<close>

lemma places_rows:
  "map (\<lambda>r. (bs0 ! recordBatch r, row_offset r)) (row_places A (length old) bs) = concat (map (\<lambda>b. map (Pair b) [0..<batch_rows A b]) bs)
    \<and> (\<forall>r \<in> set (row_places A (length old) bs). recordBatch r < length bs0)" if "bs0 = old @ bs"
  using that
proof (induction bs arbitrary: old)
  case (Cons b bs)
  then show ?case using Cons.IH[of "old @ [b]"] by (auto simp: row_place_def nth_append)
qed simp

lemma lookup_rows_ok:
  assumes A: "arrow_ok A" and ok: "index_ok A rs ix" and t: "index_table ix = Some t" "hashData ix = Some hs" "0 < num_rows A t"
    and cols: "set cols \<subseteq> set (columnNames A t)"
  shows "\<exists>ks. list_all2 (\<lambda>k c. k < length (columnNames A t) \<and> columnNames A t ! k = c) ks cols \<and>
    (\<forall>h. lookup_rows A alternative ix cols h = Some (Inr (map (row_info A alternative ks) (rows_with_hash A t hs h))))"
proof -
  obtain old pre as where inv: "recordBatches ix = old @ read_batches A t" "index_building True rs pre as ix"
      "index_entries ix as = zip hs (row_places A (length old) (read_batches A t))" "length hs = num_rows A t"
    using ok t by (auto simp: index_ok_def)
  let ?bs = "recordBatches ix" and ?c = "index_cells ix" and ?places = "row_places A (length old) (read_batches A t)"
  obtain ks where ks: "map_columns (columnNames A t) cols = Inr ks"
      "list_all2 (\<lambda>k c. k < length (columnNames A t) \<and> columnNames A t ! k = c) ks cols"
    using map_columns_Inr[OF cols] by blast
  define acc where "acc = \<lparr>colIds = ks, recordBatchInfos = map (\<lambda>b. row_info A alternative ks (b, 0)) ?bs\<rparr>"
  have "those (map (mk_batch_info A alternative ks) ?bs) = Some (map (\<lambda>b. row_info A alternative ks (b, 0)) ?bs)"
    using mk_batch_info_Some[OF A] by (intro those_Some)
  then have acc: "mk_access A alternative ix cols = Some (Inr acc)"
    using ks(1) t(1) by (cases "cols = []") (simp_all add: mk_access_def acc_def)
  have tab: "table_ok (masked (index_mask ix)) (length (index_ht ix)) (index_ht ix) ?c as" and dom: "set as \<subseteq> dom ?c"
    and pure: "\<forall>w \<in> set (index_ht ix). untag w = w"
    using inv(2) by (simp_all add: index_building_def)
  note pl = places_rows[OF inv(1), of A]
  have cell: "the (payload ?c a) = (hash_of ?c a, content (the (?c a)))" if "a \<in> set as" for a
    using dom that by (auto simp: payload_def hash_of_def)
  have c: "map (\<lambda>a. (hash_of ?c a, content (the (?c a)))) as = zip hs ?places"
    using inv(3) cell by (simp add: index_entries_def cong: map_cong)
  have bound: "recordBatch (content (the (?c a))) < length (recordBatchInfos acc)" if "a \<in> set as" for a
  proof -
    have "(hash_of ?c a, content (the (?c a))) \<in> set (zip hs ?places)" unfolding c[symmetric] using that by simp
    then have "content (the (?c a)) \<in> set ?places" by (rule set_zip_rightD)
    then show ?thesis using pl by (simp add: acc_def)
  qed
  have rows: "zip hs (index_rows A t) = map (\<lambda>a. (hash_of ?c a, ?bs ! recordBatch (content (the (?c a))), row_offset (content (the (?c a))))) as"
  proof -
    have "zip hs (index_rows A t) = map (\<lambda>(h, r). (h, ?bs ! recordBatch r, row_offset r)) (zip hs ?places)"
      using conjunct1[OF pl, symmetric] by (simp add: index_rows_def zip_map2)
    then show ?thesis unfolding c[symmetric] by simp
  qed
  have "lookup_rows A alternative ix cols h = Some (Inr (map (row_info A alternative ks) (rows_with_hash A t hs h)))" for h
  proof -
    let ?p = "masked (index_mask ix) h"
    let ?chain = "rev (filter (\<lambda>a. masked (index_mask ix) (hash_of ?c a) = ?p) as)"
    have at: "ptr_at (index_ht ix) ?p = Some (index_ht ix ! ?p)" by (rule table_at[OF tab])
    then have "untag (index_ht ix ! ?p) = index_ht ix ! ?p" using pure by (simp add: ptr_at_def split: if_splits)
    then have chain: "chain_at ?c (index_ht ix ! ?p) ?chain" using table_chain[OF tab, of h] by simp
    have same: "filter (\<lambda>a. hash_of ?c a = h) ?chain = rev (filter (\<lambda>a. hash_of ?c a = h) as)"
      by (auto simp: rev_filter intro!: filter_cong)
    have "consume_all ?c acc \<lparr>it_hash = h, it_current = index_ht ix ! ?p\<rparr> =
        Some (map (\<lambda>a. let r = content (the (?c a)) in at_row (row_offset r) (recordBatchInfos acc ! recordBatch r))
          (rev (filter (\<lambda>a. hash_of ?c a = h) as)))"
      using consume_all_chain[OF chain, of acc h] bound unfolding same by simp
    moreover have "map (\<lambda>a. let r = content (the (?c a)) in at_row (row_offset r) (recordBatchInfos acc ! recordBatch r))
          (rev (filter (\<lambda>a. hash_of ?c a = h) as)) =
        map (row_info A alternative ks) (rows_with_hash A t hs h)"
    proof -
      have "at_row (row_offset (content (the (?c a)))) (recordBatchInfos acc ! recordBatch (content (the (?c a)))) =
          row_info A alternative ks (?bs ! recordBatch (content (the (?c a))), row_offset (content (the (?c a))))"
        if "a \<in> set as" for a
        using bound[OF that] by (simp add: acc_def at_row_row_info)
      then show ?thesis
        by (auto simp: rows_with_hash_def rows filter_map comp_def rev_map Let_def intro!: map_cong)
    qed
    ultimately show ?thesis by (simp add: lookup_rows_def acc index_lookup_def at)
  qed
  then show ?thesis using ks(2) by blast
qed

section \<open>The empty index\<close>

lemma enter_batches_empty:
  "\<forall>b \<in> set bs. batch_rows A b = 0 \<Longrightarrow> enter_batches m A bs (ix, rs, n) = Some (ix\<lparr>recordBatches := recordBatches ix @ bs\<rparr>, rs, n)"
  by (induction bs arbitrary: ix) (simp_all add: Let_def)

text \<open>
  The table of an index without rows has no place, and its mask all bits: a lookup reads outside it,
  whatever the hash.
\<close>

theorem empty_index_lookup:
  assumes "arrow_ok A" and "index_table ix = Some t" and "num_rows A t = 0"
  shows "\<exists>ix'. index_build m A (ix, rs) = Some (ix', rs) \<and> (\<forall>h. index_lookup ix' h = None)"
proof -
  have "sum_list (map (batch_rows A) (read_batches A t)) = 0" using assms(1,3) by (simp add: arrow_ok_def)
  then have "\<forall>b \<in> set (read_batches A t). batch_rows A b = 0" by simp
  moreover have "nextPow2 0 = 0" using nextPow2_least[of 1] by simp
  ultimately show ?thesis
    using assms(2,3) by (simp add: index_build_def Let_def enter_batches_empty index_lookup_def ptr_at_def)
qed

section \<open>The query for the hashes\<close>

lemma ends_with_snoc: "ends_with (s @ c) e \<longleftrightarrow> ends_with c e" if "length e \<le> length c"
  using that by (auto simp: ends_with_def)

text \<open>The names of the columns, separated by commas, as long as none is empty or ends with a parenthesis.\<close>

lemma add_columns:
  assumes "\<not> ends_with q ''(''" and "\<forall>c \<in> set cols. c \<noteq> [] \<and> \<not> ends_with c ''(''"
  shows "fold add_column cols q = q @ concat (map (\<lambda>c. '','' @ c) cols)"
  using assms
proof (induction cols arbitrary: q)
  case (Cons c cols)
  have "\<not> ends_with (q @ '','' @ c) ''(''"
    using Cons.prems ends_with_snoc[of "''(''" c "q @ '',''"] by (cases c) auto
  then show ?case using Cons by (simp add: add_column_def)
qed simp

theorem hash_query_commas:
  assumes "\<forall>c' \<in> set (c # cols). c' \<noteq> [] \<and> \<not> ends_with c' ''(''"
  shows "hash_query (c # cols) = ''select hash('' @ c @ concat (map (\<lambda>c. '','' @ c) cols) @ '') from tmp''"
proof -
  have "\<not> ends_with (''select hash('' @ c) ''(''"
    using assms ends_with_snoc[of "''(''" c "''select hash(''"] by (cases c) auto
  then show ?thesis
    using assms add_columns[of "''select hash('' @ c" cols] by (simp add: hash_query_def add_column_def ends_with_def)
qed

section \<open>Properties\<close>

text \<open>What a rebuild for \<open>n\<close> rows may ask \<^verbatim>\<open>malloc\<close> for, at the most.\<close>

definition append_bytes :: "nat \<Rightarrow> ('t, 'b) hash_index \<Rightarrow> nat" where
  "append_bytes n ix = n * index_bytes (totalLen (index_buffer ix) + n) ix"


text \<open>Tables of one column whose values are their hashes, as an example.\<close>

definition sample_arrow :: "(64 word list list, 64 word list) arrow" where
  "sample_arrow = \<lparr>num_rows = (\<lambda>t. length (concat t)), read_batches = (\<lambda>t. t), batch_rows = length,
    combineChunksToBatch = concat, fromRecordBatches = (\<lambda>bs. bs), columnNames = (\<lambda>t. [''k'']),
    column_data = (\<lambda>b c. \<lparr>array_offset = 3, array_buffers = [None, Some 4096]\<rparr>), run_query = (\<lambda>q t. concat t)\<rparr>"

definition sample_index :: "(64 word list list, 64 word list) hash_index" where
  "sample_index = \<lparr>index_ht = [], index_mask = - 1,
    index_buffer = \<lparr>totalLen = 0, currCapacity = 16, buffers = [\<lparr>numElements = 0, buf_ptr = 8\<rparr>], typeSize = 32\<rparr>,
    index_cells = Map.empty, hashData = Some [], index_table = Some [], recordBatches = [],
    indexedColumns = [''k''], persist = True, dataFile = None\<rparr>"


end
