(* ===== verification/Entry_Lock.thy ===== *)
theory Entry_Lock
  imports Runtime_Helpers
begin

text \<open>
  The lock of an entry (\<^verbatim>\<open>lock\<close> and \<^verbatim>\<open>unlock\<close> of \<^verbatim>\<open>src/lib/runtime/Hashtable.cpp\<close> and
  \<^verbatim>\<open>PreAggregationHashtable.cpp\<close>): the 16 tag bits of its \<^verbatim>\<open>next\<close> field. Threads are numbers; what
  they do is a sequence of atomic steps: the reads of the field and the exchange or store that
  follows are separate.
\<close>

section \<open>The code\<close>

text \<open>One turn of the loop of \<^verbatim>\<open>lock\<close>: whether it is the last one, and the new field.\<close>

definition lock_exchange :: "64 word \<Rightarrow> 64 word \<Rightarrow> bool \<times> 64 word" where
  "lock_exchange seen current = (\<not> (current AND tagMask \<noteq> 0), seen OR tagMask)"

definition unlock_value :: "64 word \<Rightarrow> 64 word" where
  "unlock_value seen = seen AND NOT tagMask"

datatype locker = Outside | Locking "64 word" | Spinning | Inside | Unlocking "64 word"

record lock_state =
  next_field :: "64 word"
  lockers :: "nat \<Rightarrow> locker"

inductive lock_step :: "lock_state \<Rightarrow> lock_state \<Rightarrow> bool" where
  read: "lockers s t \<in> {Outside, Spinning} \<Longrightarrow>
    lock_step s (s\<lparr>lockers := (lockers s)(t := Locking (next_field s))\<rparr>)"
| exchange: "lockers s t = Locking v \<Longrightarrow> lock_exchange v (next_field s) = (won, w) \<Longrightarrow>
    lock_step s (s\<lparr>next_field := w, lockers := (lockers s)(t := (if won then Inside else Spinning))\<rparr>)"
| unlock_read: "lockers s t = Inside \<Longrightarrow>
    lock_step s (s\<lparr>lockers := (lockers s)(t := Unlocking (next_field s))\<rparr>)"
| store: "lockers s t = Unlocking v \<Longrightarrow>
    lock_step s (s\<lparr>next_field := unlock_value v, lockers := (lockers s)(t := Outside)\<rparr>)"

inductive_cases lock_stepE: "lock_step s s'"

definition lock_init :: "64 word \<Rightarrow> lock_state" where
  "lock_init p = \<lparr>next_field = p, lockers = (\<lambda>t. Outside)\<rparr>"

section \<open>The invariant\<close>

definition holds :: "lock_state \<Rightarrow> nat \<Rightarrow> bool" where
  "holds s t \<longleftrightarrow> (case lockers s t of Inside \<Rightarrow> True | Unlocking v \<Rightarrow> True | _ \<Rightarrow> False)"

definition lock_ok :: "64 word \<Rightarrow> lock_state \<Rightarrow> bool" where
  "lock_ok p s \<longleftrightarrow>
    (\<forall>t u. holds s t \<longrightarrow> holds s u \<longrightarrow> t = u) \<and>
    next_field s = (if \<exists>t. holds s t then p OR tagMask else p) \<and>
    (\<forall>t v. lockers s t = Locking v \<longrightarrow> v = p \<or> v = p OR tagMask) \<and>
    (\<forall>t v. lockers s t = Unlocking v \<longrightarrow> v = p OR tagMask)"

lemma tag_bits:
  assumes "p AND tagMask = 0"
  shows "(p OR tagMask) AND tagMask = tagMask" "p OR tagMask OR tagMask = p OR tagMask"
    "(p OR tagMask) AND NOT tagMask = p" "tagMask \<noteq> 0"
proof -
  show "(p OR tagMask) AND tagMask = tagMask" by (simp add: word_ao_absorbs)
  show "p OR tagMask OR tagMask = p OR tagMask" by simp
  have "p = p AND (tagMask OR NOT tagMask)" by simp
  also have "\<dots> = (p AND tagMask) OR (p AND NOT tagMask)" by (simp only: bit.conj_disj_distrib)
  finally have "p AND NOT tagMask = p" using assms by simp
  then show "(p OR tagMask) AND NOT tagMask = p" using assms by (simp add: bit.conj_disj_distrib2)
  show "tagMask \<noteq> 0" by (simp add: tagMask_def)
qed

lemma holds_upd: "holds (s\<lparr>lockers := (lockers s)(t := l)\<rparr>) u \<longleftrightarrow>
    (if u = t then (case l of Inside \<Rightarrow> True | Unlocking v \<Rightarrow> True | _ \<Rightarrow> False) else holds s u)"
  "holds (s\<lparr>next_field := w, lockers := (lockers s)(t := l)\<rparr>) u \<longleftrightarrow>
    (if u = t then (case l of Inside \<Rightarrow> True | Unlocking v \<Rightarrow> True | _ \<Rightarrow> False) else holds s u)"
  by (simp_all add: holds_def)

lemma lock_step_ok:
  assumes "lock_step s s'" and p: "p AND tagMask = 0" and ok: "lock_ok p s"
  shows "lock_ok p s'"
  using assms(1)
proof cases
  case (read t)
  then have "\<not> holds s t" by (auto simp: holds_def)
  then have "holds s' u = holds s u" for u using read by (simp add: holds_upd)
  then show ?thesis using ok read by (auto simp: lock_ok_def split: if_splits)
next
  case (exchange t v won w)
  have "v = p \<or> v = p OR tagMask" using ok exchange(2) unfolding lock_ok_def by blast
  then have w: "w = p OR tagMask" using exchange(3) tag_bits(2)[OF p] by (auto simp: lock_exchange_def)
  have "next_field s = (if \<exists>t. holds s t then p OR tagMask else p)" using ok unfolding lock_ok_def by blast
  then have won: "won \<longleftrightarrow> \<not> (\<exists>t. holds s t)"
    using exchange(3) p tag_bits(1,4)[OF p]
    by (cases "\<exists>t. holds s t") (simp_all add: lock_exchange_def)
  have "\<not> holds s t" using exchange(2) by (simp add: holds_def)
  then have h: "holds s' u \<longleftrightarrow> (u = t \<and> won) \<or> holds s u" for u
    using exchange(1) by (auto simp: holds_upd)
  have one: "\<forall>x u. holds s' x \<longrightarrow> holds s' u \<longrightarrow> x = u" using ok won h unfolding lock_ok_def by metis
  have "\<exists>x. holds s' x" using won h by blast
  then have f: "next_field s' = (if \<exists>t. holds s' t then p OR tagMask else p)" using w exchange(1) by simp
  have l: "\<forall>x v. lockers s' x = Locking v \<longrightarrow> v = p \<or> v = p OR tagMask"
    using ok exchange(1) unfolding lock_ok_def by simp
  have u: "\<forall>x v. lockers s' x = Unlocking v \<longrightarrow> v = p OR tagMask"
    using ok exchange(1) unfolding lock_ok_def by simp
  show ?thesis unfolding lock_ok_def by (intro conjI one f l u)
next
  case (unlock_read t)
  then have "holds s t" by (simp add: holds_def)
  then have h: "holds s' u = holds s u" for u using unlock_read by (simp add: holds_upd)
  show ?thesis using ok unlock_read \<open>holds s t\<close> h by (auto simp: lock_ok_def split: if_splits)
next
  case (store t v)
  have "holds s t" using store by (simp add: holds_def)
  then have h: "\<not> holds s' u" for u using ok store(1) unfolding lock_ok_def by (auto simp: holds_upd)
  have "v = p OR tagMask" using ok store(2) unfolding lock_ok_def by blast
  then have "next_field s' = p" using store(1) tag_bits(3)[OF p] by (simp add: unlock_value_def)
  then have f: "next_field s' = (if \<exists>t. holds s' t then p OR tagMask else p)" using h by simp
  have l: "\<forall>x v. lockers s' x = Locking v \<longrightarrow> v = p \<or> v = p OR tagMask"
    using ok store(1) unfolding lock_ok_def by simp
  have u: "\<forall>x v. lockers s' x = Unlocking v \<longrightarrow> v = p OR tagMask"
    using ok store(1) unfolding lock_ok_def by simp
  show ?thesis unfolding lock_ok_def using h by (intro conjI f l u) simp
qed

lemma lock_steps_ok: "lock_step\<^sup>*\<^sup>* s s' \<Longrightarrow> p AND tagMask = 0 \<Longrightarrow> lock_ok p s \<Longrightarrow> lock_ok p s'"
  by (induction rule: rtranclp_induct) (auto intro: lock_step_ok)

lemma lock_init_ok: "lock_ok p (lock_init p)"
  by (simp add: lock_ok_def lock_init_def holds_def)

text \<open>C40: At every moment of every interleaving at most one thread holds the lock of an entry, from the end of
  its \<^verbatim>\<open>lock\<close> to the store of its \<^verbatim>\<open>unlock\<close>; the \<^verbatim>\<open>next\<close> pointer survives under the tag bits, is as it was
  when nobody holds the lock, and then the next exchange of any thread wins.\<close>
theorem entry_lock_exclusive:
  assumes "p AND tagMask = 0" and "lock_step\<^sup>*\<^sup>* (lock_init p) s"
  shows "(\<forall>t u. holds s t \<longrightarrow> holds s u \<longrightarrow> t = u) \<and> untag (next_field s) = untag p \<and>
    ((\<exists>t. holds s t) \<or> next_field s = p \<and> (\<forall>v. fst (lock_exchange v (next_field s))))"
proof -
  have ok: "lock_ok p s" by (rule lock_steps_ok[OF assms(2,1) lock_init_ok])
  have "untag (p OR tagMask) = untag p"
    unfolding untag_def ptr_masks by (intro bit_eqI) (auto simp: bit_simps)
  then show ?thesis using ok assms(1) by (auto simp: lock_ok_def lock_exchange_def)
qed

text \<open>Two threads of which the second one came too late.\<close>

theorem entry_lock_exclusive_witness:
  "let s = \<lparr>next_field = 0xffff000000001234, lockers = (\<lambda>t. Outside)(0 := Inside, 1 := Spinning)\<rparr>
   in lock_step\<^sup>*\<^sup>* (lock_init 0x1234) s \<and> untag (next_field s) = untag 0x1234 \<and> holds s 0 \<and> \<not> holds s 1"
proof -
  let ?L = "\<lambda>t. Outside"
  define s1 where "s1 = \<lparr>next_field = 0x1234, lockers = ?L(0 := Locking 0x1234)\<rparr>"
  define s2 where "s2 = \<lparr>next_field = 0x1234, lockers = ?L(0 := Locking 0x1234, 1 := Locking 0x1234)\<rparr>"
  define s3 where "s3 = \<lparr>next_field = 0xffff000000001234, lockers = ?L(0 := Inside, 1 := Locking 0x1234)\<rparr>"
  define s4 where "s4 = \<lparr>next_field = 0xffff000000001234, lockers = ?L(0 := Inside, 1 := Spinning)\<rparr>"
  have "lock_step (lock_init 0x1234) s1"
    using lock_step.read[of "lock_init 0x1234" 0] by (simp add: s1_def lock_init_def)
  moreover have "lock_step s1 s2" using lock_step.read[of s1 1] by (simp add: s1_def s2_def)
  moreover have "lock_step s2 s3"
  proof -
    have "s3 = s2\<lparr>next_field := 0xffff000000001234, lockers := (lockers s2)(0 := (if True then Inside else Spinning))\<rparr>"
      by (auto simp: s2_def s3_def fun_eq_iff)
    then show ?thesis using lock_step.exchange[where s = s2 and t = 0 and v = "0x1234"]
      by (simp add: s2_def lock_exchange_def tagMask_def)
  qed
  moreover have "lock_step s3 s4"
  proof -
    have "s4 = s3\<lparr>next_field := 0xffff000000001234, lockers := (lockers s3)(1 := (if False then Inside else Spinning))\<rparr>"
      by (auto simp: s3_def s4_def fun_eq_iff)
    then show ?thesis using lock_step.exchange[where s = s3 and t = 1 and v = "0x1234" and won = False]
      by (simp add: s3_def lock_exchange_def tagMask_def)
  qed
  ultimately have run: "lock_step\<^sup>*\<^sup>* (lock_init 0x1234) s4"
    by (meson converse_rtranclp_into_rtranclp r_into_rtranclp)
  have "(0x1234 :: 64 word) AND tagMask = 0" by (simp add: tagMask_def)
  from entry_lock_exclusive[OF this run] run show ?thesis
    by (simp add: s4_def holds_def Let_def)
qed

end
