(* ===== verification/Pre_Aggregation.thy ===== *)
theory Pre_Aggregation
  imports Join_Tables
begin

text \<open>
  Parallel aggregation (\<^verbatim>\<open>src/lib/runtime/PreAggregationHashtable.cpp\<close>): every thread collects
  groups in a fragment, whose entries go to 64 outputs by the lower six bits of the hash; the merge
  builds one hash table per output from the outputs of all threads, reusing the entries. All
  entries live in one memory \<open>cells\<close>. \<^verbatim>\<open>tbb::parallel_for_each\<close> is the list of the partitions in the
  order in which they run.
\<close>

section \<open>Fragments\<close>

record fragment =
  frag_ht :: "ptr list"
  frag_typeSize :: nat
  frag_len :: nat
  outputs :: "flexible_buffer option list"

definition mk_fragment :: "nat \<Rightarrow> fragment" where
  "mk_fragment tSize = \<lparr>frag_ht = replicate 1024 0, frag_typeSize = tSize, frag_len = 0, outputs = replicate 64 None\<rparr>"

abbreviation outputIdx :: "64 word \<Rightarrow> nat" where
  "outputIdx hash \<equiv> unat (hash AND 63)"

definition fragment_insert ::
  "malloc \<Rightarrow> 'c \<Rightarrow> 64 word \<Rightarrow> fragment \<times> (nat \<rightharpoonup> 'c ht_entry) \<times> region list \<Rightarrow> (nat \<times> fragment \<times> (nat \<rightharpoonup> 'c ht_entry) \<times> region list) option" where
  "fragment_insert m raw hash FCR = do {
    let (F, c, rs) = FCR;
    (out, rs1) \<leftarrow> (case outputs F ! outputIdx hash of
        None \<Rightarrow> mk_flexible m 256 (frag_typeSize F) rs
      | Some f \<Rightarrow> Some (f, rs));
    (a, out', rs2) \<leftarrow> flex_insert m out rs1;
    let c' = c(a \<mapsto> \<lparr>next_entry = 0, hashValue = hash, content = raw\<rparr>);
    Some (a,
      F\<lparr>frag_len := frag_len F + 1, outputs := (outputs F)[outputIdx hash := Some out'],
        frag_ht := (frag_ht F)[unat (drop_bit 6 hash AND 1023) := of_nat a]\<rparr>, c', rs2) }"

section \<open>The merge of a partition\<close>

text \<open>
  \<open>stored\<close> is what the slots of the local buffers hold: pointers to entries.
\<close>

record 'c partition_state =
  p_ht :: "ptr list"
  p_cells :: "nat \<rightharpoonup> 'c ht_entry"
  localBuffer :: flexible_buffer
  stored :: "nat \<rightharpoonup> ptr"

abbreviation shifted :: "64 word \<Rightarrow> 64 word \<Rightarrow> nat" where
  "shifted hm h \<equiv> unat (drop_bit 6 h AND hm)"

definition merge_curr ::
  "malloc \<Rightarrow> ('c \<Rightarrow> 'c \<Rightarrow> bool) \<Rightarrow> ('c \<Rightarrow> 'c \<Rightarrow> 'c) \<Rightarrow> 64 word \<Rightarrow> nat \<Rightarrow> 'c partition_state \<times> region list \<Rightarrow> ('c partition_state \<times> region list) option" where
  "merge_curr m eq combine hm en Sr = do {
    let (S, rs) = Sr;
    e \<leftarrow> p_cells S en;
    let pos = shifted hm (hashValue e);
    previousPtr \<leftarrow> ptr_at (p_ht S) pos;
    found \<leftarrow> find_entry eq (p_cells S) (hashValue e) (content e) (untag previousPtr);
    (case found of
       Some a \<Rightarrow> do {
         d \<leftarrow> p_cells S a;
         Some (S\<lparr>p_cells := (p_cells S)(a \<mapsto> d\<lparr>content := combine (content d) (content e)\<rparr>)\<rparr>, rs) }
     | None \<Rightarrow> do {
         (loc, buf, rs') \<leftarrow> flex_insert m (localBuffer S) rs;
         Some (S\<lparr>localBuffer := buf, stored := (stored S)(loc \<mapsto> of_nat en),
           p_ht := (p_ht S)[pos := tag (of_nat en) previousPtr (hashValue e)],
           p_cells := (p_cells S)(en \<mapsto> e\<lparr>next_entry := untag previousPtr\<rparr>)\<rparr>, rs') }) }"

fun merge_currs ::
  "malloc \<Rightarrow> ('c \<Rightarrow> 'c \<Rightarrow> bool) \<Rightarrow> ('c \<Rightarrow> 'c \<Rightarrow> 'c) \<Rightarrow> 64 word \<Rightarrow> nat list \<Rightarrow> 'c partition_state \<times> region list \<Rightarrow> ('c partition_state \<times> region list) option" where
  "merge_currs m eq combine hm [] Sr = Some Sr"
| "merge_currs m eq combine hm (a # as) Sr = do {
    Sr' \<leftarrow> merge_curr m eq combine hm a Sr;
    merge_currs m eq combine hm as Sr' }"

text \<open>\<open>minValues\<close> is assigned in every turn: only the last output counts.\<close>

definition merge_partition ::
  "malloc \<Rightarrow> ('c \<Rightarrow> 'c \<Rightarrow> bool) \<Rightarrow> ('c \<Rightarrow> 'c \<Rightarrow> 'c) \<Rightarrow> flexible_buffer list \<Rightarrow> (nat \<rightharpoonup> 'c ht_entry) \<Rightarrow> (nat \<rightharpoonup> ptr) \<Rightarrow> region list
    \<Rightarrow> (64 word \<times> 'c partition_state \<times> region list) option" where
  "merge_partition m eq combine input c st rs = do {
    let totalValues = sum_list (map totalLen input);
    let minValues = fold (\<lambda>f n. totalLen f) input 0;
    (buf, rs1) \<leftarrow> mk_flexible m minValues 8 rs;
    let htSize = tableSize totalValues;
    let hm = htSize - 1;
    (S, rs2) \<leftarrow> merge_currs m eq combine hm (concat (map flex_iterate input))
      (\<lparr>p_ht = replicate (unat htSize) 0, p_cells = c, localBuffer = buf, stored = st\<rparr>, rs1);
    Some (hm, S, rs2) }"

section \<open>The table\<close>

record 'c preagg =
  parts :: "(ptr list \<times> 64 word) option list"
  pa_buffer :: flexible_buffer
  pa_stored :: "nat \<rightharpoonup> ptr"
  pa_cells :: "nat \<rightharpoonup> 'c ht_entry"

text \<open>The outputs of a partition in the order of the threads.\<close>

definition partition_input :: "fragment list \<Rightarrow> nat \<Rightarrow> flexible_buffer list" where
  "partition_input Fs i = List.map_filter (\<lambda>F. outputs F ! i) Fs"

fun merge_partitions ::
  "malloc \<Rightarrow> ('c \<Rightarrow> 'c \<Rightarrow> bool) \<Rightarrow> ('c \<Rightarrow> 'c \<Rightarrow> 'c) \<Rightarrow> fragment list \<Rightarrow> nat list \<Rightarrow> 'c preagg \<times> region list \<Rightarrow> ('c preagg \<times> region list) option" where
  "merge_partitions m eq combine Fs [] Pr = Some Pr"
| "merge_partitions m eq combine Fs (i # ids) Pr = do {
    let (P, rs) = Pr;
    (hm, S, rs') \<leftarrow> merge_partition m eq combine (partition_input Fs i) (pa_cells P) (pa_stored P) rs;
    merge_partitions m eq combine Fs ids
      (P\<lparr>parts := (parts P)[i := Some (p_ht S, hm)], pa_buffer := fst (flex_merge (pa_buffer P) (localBuffer S)),
         pa_stored := stored S, pa_cells := p_cells S\<rparr>, rs') }"

definition preagg_merge ::
  "malloc \<Rightarrow> ('c \<Rightarrow> 'c \<Rightarrow> bool) \<Rightarrow> ('c \<Rightarrow> 'c \<Rightarrow> 'c) \<Rightarrow> nat list \<Rightarrow> fragment list \<Rightarrow> (nat \<rightharpoonup> 'c ht_entry) \<Rightarrow> region list \<Rightarrow> ('c preagg \<times> region list) option" where
  "preagg_merge m eq combine ids Fs c rs = do {
    (buf, rs1) \<leftarrow> mk_flexible m 1 8 rs;
    merge_partitions m eq combine Fs ids
      (\<lparr>parts = replicate 64 None, pa_buffer = buf, pa_stored = Map.empty, pa_cells = c\<rparr>, rs1) }"

definition preagg_lookup :: "'c preagg \<Rightarrow> 64 word \<Rightarrow> ptr option" where
  "preagg_lookup P hash =
    (case parts P ! outputIdx hash of
       None \<Rightarrow> Some 0
     | Some (t, hm) \<Rightarrow> map_option (\<lambda>w. filterTagged w hash) (ptr_at t (unat (hm AND drop_bit 6 hash))))"

section \<open>A partition\<close>

lemma table_ok_cong:
  assumes "\<And>a. a \<in> set as \<Longrightarrow> c' a = c a"
  shows "table_ok bucket n t c' as = table_ok bucket n t c as"
proof -
  have "filter (\<lambda>b. bucket (hash_of c' b) = p) as = filter (\<lambda>b. bucket (hash_of c b) = p) as" for p
    using assms by (intro filter_cong) (auto simp: hash_of_def)
  moreover have "chain_at c' w (rev (filter P as)) = chain_at c w (rev (filter P as))" for w P
    using assms by (intro chain_at_cong) auto
  ultimately show ?thesis by (simp add: table_ok_def)
qed

lemma chain_dom: "chain_at c w as \<Longrightarrow> set as \<subseteq> dom c"
  by (induction as arbitrary: w) (auto split: option.splits)

lemma chain_bounds: "chain_at c w as \<Longrightarrow> a \<in> set as \<Longrightarrow> a < 140737488355328"
  by (induction as arbitrary: w) (auto split: option.splits)

lemma table_ok_dom:
  assumes "table_ok bucket n t c as" shows "set as \<subseteq> dom c"
proof
  fix a assume "a \<in> set as"
  then show "a \<in> dom c" using chain_dom[OF table_chain[OF assms, of "hash_of c a"]] by auto
qed

lemma table_ok_bounds:
  assumes "table_ok bucket n t c as" and "a \<in> set as" shows "a < 140737488355328"
  by (rule chain_bounds[OF table_chain[OF assms(1), of "hash_of c a"]]) (use assms(2) in simp)

text \<open>A slot for a pointer that lies in one of the regions.\<close>

definition in_regions :: "region list \<Rightarrow> nat \<Rightarrow> bool" where
  "in_regions rs x \<longleftrightarrow> (\<exists>r \<in> set rs. fst r \<le> x \<and> x + 8 \<le> fst r + snd r)"

lemma in_regions_mono: "in_regions rs x \<Longrightarrow> set rs \<subseteq> set rs' \<Longrightarrow> in_regions rs' x"
  by (auto simp: in_regions_def)

lemma in_regions_fresh: "fresh_regions own rs \<Longrightarrow> in_regions own x \<Longrightarrow> \<not> in_regions rs x"
  by (fastforce simp: fresh_regions_def in_regions_def apart_def)

lemma flex_slots_in_regions: "flex_ok own f \<Longrightarrow> typeSize f = 8 \<Longrightarrow> a \<in> set (flex_iterate f) \<Longrightarrow> in_regions own a"
  using flex_ok_slots[of own f] by (auto simp: slots_safe_def in_regions_def)

text \<open>
  After the entries \<open>ds\<close>: the entries \<open>ls\<close> are in the table, the others untouched, and their
  contents are those of \<open>ds\<close> absorbed one after the other; \<open>c\<close>, \<open>st\<close> and \<open>rs\<close> are the memory, the
  stored pointers and the heap before.
\<close>

definition part_ok ::
  "('c \<Rightarrow> 'c \<Rightarrow> bool) \<Rightarrow> ('c \<Rightarrow> 'c \<Rightarrow> 'c) \<Rightarrow> 64 word \<Rightarrow> (nat \<rightharpoonup> 'c ht_entry) \<Rightarrow> (nat \<rightharpoonup> ptr) \<Rightarrow> region list \<Rightarrow> nat list \<Rightarrow>
    'c partition_state \<Rightarrow> nat list \<Rightarrow> bool" where
  "part_ok eq combine hm c st rs ds S ls \<longleftrightarrow>
    distinct ls \<and> set ls \<subseteq> set ds \<and> table_ok (shifted hm) (unat hm + 1) (p_ht S) (p_cells S) ls \<and>
    map (\<lambda>a. the (payload (p_cells S) a)) ls = fold (absorb eq combine) (map (\<lambda>a. the (payload c a)) ds) [] \<and>
    dom (p_cells S) = dom c \<and> (\<forall>x. x \<notin> set ls \<longrightarrow> p_cells S x = c x) \<and>
    map (stored S) (flex_iterate (localBuffer S)) = map (\<lambda>a. Some (of_nat a)) ls \<and>
    (\<forall>x. in_regions rs x \<longrightarrow> stored S x = st x)"

definition local_ok :: "region list \<Rightarrow> region list \<Rightarrow> flexible_buffer \<Rightarrow> bool" where
  "local_ok rs rs' f \<longleftrightarrow> typeSize f = 8 \<and> set rs \<subseteq> set rs' \<and>
    (\<exists>own. flex_ok own f \<and> set own \<subseteq> set rs' \<and> fresh_regions own rs)"

lemma local_ok_insert:
  assumes "good_malloc m" and "local_ok rs0 rs f" and "flex_insert m f rs = Some (a, f', rs')"
  shows "local_ok rs0 rs' f' \<and> grown m (16 * totalLen f) rs rs' \<and> totalLen f' = totalLen f + 1 \<and>
    flex_iterate f' = flex_iterate f @ [a] \<and> a \<notin> set (flex_iterate f) \<and> \<not> in_regions rs0 a"
proof -
  obtain own where own: "flex_ok own f" "set own \<subseteq> set rs" "fresh_regions own rs0" and ts: "typeSize f = 8"
      and sub: "set rs0 \<subseteq> set rs"
    using assms(2) by (auto simp: local_ok_def)
  obtain new where new: "rs' = new @ rs" "fresh_regions new rs" "flex_ok (new @ own) f'"
      "flex_iterate f' = flex_iterate f @ [a]" "typeSize f' = typeSize f" "totalLen f' = totalLen f + 1"
      "obtained m rs new" "heap_size new \<le> 2 * totalLen f * typeSize f"
    using flex_insert_own[OF assms(1) own(1,2) assms(3)] by blast
  then have gr: "grown m (16 * totalLen f) rs rs'" using ts by (auto simp: grown_def)
  have fresh: "fresh_regions (new @ own) rs0" using new(2) own(3) sub by (auto simp: fresh_regions_def)
  then have "local_ok rs0 rs' f'" using new own(2) ts sub unfolding local_ok_def
    by (intro conjI exI[of _ "new @ own"]) auto
  moreover have "in_regions (new @ own) a" using flex_slots_in_regions[OF new(3)] new(4,5) ts by simp
  then have "\<not> in_regions rs0 a" using fresh in_regions_fresh by blast
  moreover have "a \<notin> set (flex_iterate f)" using flex_slots(1)[OF new(3)] new(4) by simp
  ultimately show ?thesis using new gr by simp
qed

lemma local_length:
  assumes "part_ok eq combine hm c st rs0 ds S ls" and "local_ok rs0 rs (localBuffer S)"
  shows "totalLen (localBuffer S) \<le> length ds"
proof -
  obtain own where own: "flex_ok own (localBuffer S)" using assms(2) by (auto simp: local_ok_def)
  have ls: "distinct ls" "set ls \<subseteq> set ds" "map (stored S) (flex_iterate (localBuffer S)) = map (\<lambda>a. Some (of_nat a)) ls"
    using assms(1) by (simp_all add: part_ok_def)
  have "totalLen (localBuffer S) = length ls"
    using flex_slots(3)[OF own] arg_cong[OF ls(3), of length] by simp
  also have "\<dots> = card (set ls)" using ls(1) by (simp add: distinct_card)
  also have "\<dots> \<le> card (set ds)" using ls(2) by (intro card_mono) simp_all
  also have "\<dots> \<le> length ds" by (rule card_length)
  finally show ?thesis .
qed

lemma merge_curr_ok:
  assumes m: "good_malloc m" and ok: "part_ok eq combine hm c st rs0 ds S ls" and loc: "local_ok rs0 rs (localBuffer S)"
    and a: "a \<notin> set ds" "0 < a" "a < 140737488355328" "a \<in> dom c"
  shows "(\<exists>S' rs' ls'. merge_curr m eq combine hm a (S, rs) = Some (S', rs') \<and>
      part_ok eq combine hm c st rs0 (ds @ [a]) S' ls' \<and> local_ok rs0 rs' (localBuffer S') \<and> grown m (16 * length ds) rs rs') \<or>
    (merge_curr m eq combine hm a (S, rs) = None \<and> allocation_failed m (16 * length ds) rs)"
proof -
  have few: "totalLen (localBuffer S) \<le> length ds" by (rule local_length[OF ok loc])
  have ls: "distinct ls" "set ls \<subseteq> set ds" and tab: "table_ok (shifted hm) (unat hm + 1) (p_ht S) (p_cells S) ls"
    and abs: "map (\<lambda>a. the (payload (p_cells S) a)) ls = fold (absorb eq combine) (map (\<lambda>a. the (payload c a)) ds) []"
    and dom: "dom (p_cells S) = dom c" and frame: "\<And>x. x \<notin> set ls \<Longrightarrow> p_cells S x = c x"
    and sto: "map (stored S) (flex_iterate (localBuffer S)) = map (\<lambda>a. Some (of_nat a)) ls"
    and old: "\<And>x. in_regions rs0 x \<Longrightarrow> stored S x = st x"
    using ok by (simp_all add: part_ok_def)
  have al: "a \<notin> set ls" using a(1) ls(2) by blast
  obtain e where e: "c a = Some e" "p_cells S a = Some e" using a(4) frame[OF al] by auto
  let ?h = "hashValue e" and ?x = "content e" and ?f = "\<lambda>b. the (payload (p_cells S) b)"
  have sub: "set ls \<subseteq> dom (p_cells S)" by (rule table_ok_dom[OF tab])
  note slot = table_at[OF tab, of ?h] table_find[OF tab sub, of eq ?h ?x]
  have step: "fold (absorb eq combine) (map (\<lambda>a. the (payload c a)) (ds @ [a])) [] = absorb eq combine (?h, ?x) (map ?f ls)"
    using abs e(1) by (simp add: payload_Some)
  note ab = absorb_map[OF ls(1), of eq combine ?h ?x ?f]
  show ?thesis
  proof (cases "find (\<lambda>b. entry_matches eq ?h ?x (?f b)) (rev ls)")
    case (Some b)
    then have b: "b \<in> set ls" unfolding find_Some_iff by (metis nth_mem set_rev)
    then obtain d where d: "p_cells S b = Some d" using sub by auto
    define S' where "S' = S\<lparr>p_cells := (p_cells S)(b \<mapsto> d\<lparr>content := combine (content d) ?x\<rparr>)\<rparr>"
    have run: "merge_curr m eq combine hm a (S, rs) = Some (S', rs)"
      using slot Some d e by (simp add: merge_curr_def Let_def S'_def)
    have "map (\<lambda>y. the (payload (p_cells S') y)) ls = fold (absorb eq combine) (map (\<lambda>a. the (payload c a)) (ds @ [a])) []"
      unfolding step ab using Some d by (auto simp: S'_def payload_def)
    moreover have "dom (p_cells S') = dom c" using dom d by (auto simp: S'_def)
    ultimately have "part_ok eq combine hm c st rs0 (ds @ [a]) S' ls"
      using ls tab frame sto old b by (auto simp: part_ok_def S'_def table_ok_content[where c = "p_cells S", OF d])
    then show ?thesis using run loc by (auto simp: S'_def)
  next
    case None
    show ?thesis
    proof (cases "flex_insert m (localBuffer S) rs")
      case no: None
      have "merge_curr m eq combine hm a (S, rs) = None"
        using slot None no e by (simp add: merge_curr_def Let_def)
      moreover have "allocation_failed m (2 * totalLen (localBuffer S) * typeSize (localBuffer S)) rs"
        using loc flex_insert_None[OF _ no] by (auto simp: local_ok_def)
      then have "allocation_failed m (16 * length ds) rs"
        by (rule allocation_failed_mono) (use few loc in \<open>simp add: local_ok_def\<close>)
      ultimately show ?thesis by blast
    next
      case (Some r)
      obtain l buf rs' where ins: "flex_insert m (localBuffer S) rs = Some (l, buf, rs')" using Some by (cases r) auto
      note lo = local_ok_insert[OF m loc ins]
      have gr: "grown m (16 * length ds) rs rs'" using lo few grown_mono by fastforce
      define S' where "S' = S\<lparr>localBuffer := buf, stored := (stored S)(l \<mapsto> of_nat a),
           p_ht := (p_ht S)[shifted hm ?h := tag (of_nat a) (p_ht S ! shifted hm ?h) ?h],
           p_cells := (p_cells S)(a \<mapsto> e\<lparr>next_entry := untag (p_ht S ! shifted hm ?h)\<rparr>)\<rparr>"
      have run: "merge_curr m eq combine hm a (S, rs) = Some (S', rs')"
        using slot None ins e by (simp add: merge_curr_def Let_def S'_def)
      have "table_ok (shifted hm) (unat hm + 1) (p_ht S') (p_cells S') (ls @ [a])"
        unfolding S'_def using table_ok_push[OF tab al a(2,3), of "e\<lparr>next_entry := untag (p_ht S ! shifted hm ?h)\<rparr>" ?h] by simp
      moreover have "map (\<lambda>y. the (payload (p_cells S') y)) (ls @ [a]) =
          fold (absorb eq combine) (map (\<lambda>a. the (payload c a)) (ds @ [a])) []"
        unfolding step ab using None al e by (auto simp: S'_def payload_def)
      moreover have "map (stored S') (flex_iterate (localBuffer S')) = map (\<lambda>a. Some (of_nat a)) (ls @ [a])"
        using sto lo by (auto simp: S'_def)
      moreover have "dom (p_cells S') = dom c" using dom a(4) by (auto simp: S'_def)
      ultimately have "part_ok eq combine hm c st rs0 (ds @ [a]) S' (ls @ [a])"
        using ls al frame old lo by (auto simp: part_ok_def S'_def)
      then show ?thesis using run lo gr by (auto simp: S'_def)
    qed
  qed
qed

lemma merge_currs_ok:
  assumes m: "good_malloc m" and "part_ok eq combine hm c st rs0 ds S ls" and "local_ok rs0 rs (localBuffer S)"
    and "distinct (ds @ as)" and "\<forall>a \<in> set as. 0 < a \<and> a < 140737488355328 \<and> a \<in> dom c" and "length ds + length as \<le> N"
  shows "case merge_currs m eq combine hm as (S, rs) of
      None \<Rightarrow> allocation_failed m (length as * (16 * N)) rs
    | Some (S', rs') \<Rightarrow> (\<exists>ls'. part_ok eq combine hm c st rs0 (ds @ as) S' ls') \<and> local_ok rs0 rs' (localBuffer S') \<and>
        grown m (length as * (16 * N)) rs rs'"
  using assms(2-)
proof (induction as arbitrary: ds S ls rs)
  case Nil
  then show ?case by auto
next
  case (Cons a as)
  have a: "a \<notin> set ds" "0 < a" "a < 140737488355328" "a \<in> dom c" using Cons.prems(3,4) by auto
  have b: "16 * length ds + length as * (16 * N) \<le> length (a # as) * (16 * N)" using Cons.prems(5) by simp
  note step = merge_curr_ok[OF m Cons.prems(1,2) a]
  show ?case
  proof (cases "merge_curr m eq combine hm a (S, rs)")
    case None
    then have "allocation_failed m (16 * length ds) rs" using step by auto
    then show ?thesis using None b allocation_failed_mono[of m "16 * length ds"] by simp
  next
    case (Some r)
    then obtain S1 rs1 ls1 where 1: "merge_curr m eq combine hm a (S, rs) = Some (S1, rs1)"
        "part_ok eq combine hm c st rs0 (ds @ [a]) S1 ls1" "local_ok rs0 rs1 (localBuffer S1)" "grown m (16 * length ds) rs rs1"
      using step by auto
    have IH: "case merge_currs m eq combine hm as (S1, rs1) of
        None \<Rightarrow> allocation_failed m (length as * (16 * N)) rs1
      | Some (S', rs') \<Rightarrow> (\<exists>ls'. part_ok eq combine hm c st rs0 ((ds @ [a]) @ as) S' ls') \<and> local_ok rs0 rs' (localBuffer S') \<and>
          grown m (length as * (16 * N)) rs1 rs'"
      using Cons.IH[OF 1(2,3)] Cons.prems(3-5) by simp
    show ?thesis
    proof (cases "merge_currs m eq combine hm as (S1, rs1)")
      case None
      then show ?thesis using IH 1(1) allocation_failed_later[OF 1(4) _ b] by simp
    next
      case (Some r')
      then show ?thesis using IH 1 grown_trans[OF 1(4) _ b] by (cases r') auto
    qed
  qed
qed

lemma tableSize_mask: "unat (tableSize n) = unat (tableSize n - 1) + 1"
proof -
  have "tableSize n \<noteq> 0" by (auto simp: tableSize_def max_def)
  then show ?thesis by (simp add: unat_minus_one unat_gt_0 Suc_leI)
qed

lemma shifted_table_ok_empty: "table_ok (shifted hm) (unat hm + 1) (replicate (unat hm + 1) 0) c []"
  by (intro table_ok_empty bucket_less)

text \<open>What may be given to the merge of a partition.\<close>

definition inputs_ok :: "flexible_buffer list \<Rightarrow> (nat \<rightharpoonup> 'c ht_entry) \<Rightarrow> bool" where
  "inputs_ok input c \<longleftrightarrow> (\<forall>f \<in> set input. (\<exists>own. flex_ok own f) \<and> 0 < totalLen f) \<and>
    distinct (concat (map flex_iterate input)) \<and> set (concat (map flex_iterate input)) \<subseteq> dom c"

text \<open>The state in which a partition ends.\<close>

definition part_done ::
  "('c \<Rightarrow> 'c \<Rightarrow> bool) \<Rightarrow> ('c \<Rightarrow> 'c \<Rightarrow> 'c) \<Rightarrow> 64 word \<Rightarrow> (nat \<rightharpoonup> 'c ht_entry) \<Rightarrow> (nat \<rightharpoonup> ptr) \<Rightarrow> region list \<Rightarrow> nat list \<Rightarrow>
    'c partition_state \<Rightarrow> region list \<Rightarrow> bool" where
  "part_done eq combine hm c st rs as S rs' \<longleftrightarrow>
    (\<exists>ls. part_ok eq combine hm c st rs as S ls) \<and> typeSize (localBuffer S) = 8 \<and> set rs \<subseteq> set rs' \<and>
    (\<forall>x \<in> set (flex_iterate (localBuffer S)). in_regions rs' x)"

lemma fold_last: "fold (\<lambda>f n. totalLen f) fs 0 = (if fs = [] then 0 else totalLen (last fs))"
  by (induction fs rule: rev_induct) simp_all

text \<open>What the merge of \<open>n\<close> entries may ask \<^verbatim>\<open>malloc\<close> for.\<close>

definition partition_bytes :: "nat \<Rightarrow> nat" where
  "partition_bytes n = 8 * n + n * (16 * n)"

lemma mk_flexible_grown:
  assumes "mk_flexible m n ts rs = Some (f, rs')" shows "grown m (n * ts) rs rs'"
proof -
  obtain p where "alloc m (u64 (n * ts)) rs = Some (p, rs')" using assms by (auto simp: mk_flexible_def Option.bind_eq_Some_conv)
  then have "rs' = [(p, u64 (n * ts))] @ rs" "obtained m rs [(p, u64 (n * ts))]"
    by (auto simp: alloc_def Let_def split: if_splits)
  then show ?thesis unfolding grown_def by (intro exI[of _ "[(p, u64 (n * ts))]"]) (simp add: u64_def)
qed

lemma merge_partition_ok:
  assumes m: "good_malloc m" and inp: "inputs_ok input c"
  shows "case merge_partition m eq combine input c st rs of
      None \<Rightarrow> allocation_failed m (partition_bytes (length (concat (map flex_iterate input)))) rs
    | Some (hm, S, rs') \<Rightarrow> part_done eq combine hm c st rs (concat (map flex_iterate input)) S rs' \<and>
        grown m (partition_bytes (length (concat (map flex_iterate input)))) rs rs'"
proof -
  let ?as = "concat (map flex_iterate input)" and ?n = "sum_list (map totalLen input)"
  let ?min = "fold (\<lambda>f n. totalLen f) input 0" and ?hm = "tableSize (sum_list (map totalLen input)) - 1"
  let ?N = "length (concat (map flex_iterate input))"
  have len: "totalLen f = length (flex_iterate f) \<and> totalLen f \<le> 140737488355328 \<and> 0 < totalLen f \<and>
      (\<forall>a \<in> set (flex_iterate f). 0 < a \<and> a < 140737488355328)" if "f \<in> set input" for f
    using that inp flex_slots[of _ f] unfolding inputs_ok_def by metis
  have min: "?min \<le> ?N"
  proof (cases "input = []")
    case False
    then have "length (flex_iterate (last input)) \<le> sum_list (map (\<lambda>f. length (flex_iterate f)) input)"
      by (intro member_le_sum_list) auto
    then show ?thesis using False len[of "last input"] by (simp add: fold_last length_concat comp_def)
  qed (simp add: fold_last)
  then have bytes: "?min * 8 + ?N * (16 * ?N) \<le> partition_bytes ?N" "?min * 8 \<le> partition_bytes ?N"
    by (simp_all add: partition_bytes_def)
  show ?thesis
  proof (cases "mk_flexible m ?min 8 rs")
    case None
    then show ?thesis using allocation_failed_mono[OF mk_flexible_None[OF None] bytes(2)] by (simp add: merge_partition_def Let_def)
  next
    case (Some r)
    obtain buf rs1 where mk: "mk_flexible m ?min 8 rs = Some (buf, rs1)" using Some by (cases r) auto
    define S where "S = \<lparr>p_ht = replicate (unat (tableSize ?n)) 0, p_cells = c, localBuffer = buf, stored = st\<rparr>"
    have empty: "flex_iterate buf = []" "typeSize buf = 8"
      using mk by (auto simp: mk_flexible_def flex_iterate_def buffer_slots_def Option.bind_eq_Some_conv)
    note gr = mk_flexible_grown[OF mk]
    note sub = grown_subset[OF gr]
    have start: "part_ok eq combine ?hm c st rs [] S []"
      using empty shifted_table_ok_empty[of ?hm c] by (simp add: part_ok_def S_def tableSize_mask)
    have run: "merge_partition m eq combine input c st rs =
        map_option (\<lambda>(S', rs'). (?hm, S', rs')) (merge_currs m eq combine ?hm ?as (S, rs1))"
      using mk by (cases "merge_currs m eq combine ?hm ?as (S, rs1)") (auto simp: merge_partition_def Let_def S_def)
    show ?thesis
    proof (cases "input = []")
      case True
      then show ?thesis using run start empty sub grown_mono[OF gr bytes(2)] by (auto simp: part_done_def S_def)
    next
      case False
      have "0 < ?min" "?min * 8 < 18446744073709551616"
        using len[of "last input"] False by (auto simp: fold_last)
      from mk_flexible_own[OF m this(1) _ this(2) mk] obtain q where q: "rs1 = q # rs" "fresh_regions [q] rs" "flex_ok [q] buf"
        by auto
      have "local_ok rs rs1 (localBuffer S)"
        using q empty sub unfolding local_ok_def S_def by (intro conjI exI[of _ "[q]"]) auto
      moreover have "distinct ([] @ ?as)" using inp by (simp add: inputs_ok_def)
      moreover have "\<forall>a \<in> set ?as. 0 < a \<and> a < 140737488355328 \<and> a \<in> dom c"
        using len inp unfolding inputs_ok_def by auto
      moreover have "length ([] :: nat list) + length ?as \<le> ?N" by simp
      ultimately have loop: "case merge_currs m eq combine ?hm ?as (S, rs1) of
          None \<Rightarrow> allocation_failed m (?N * (16 * ?N)) rs1
        | Some (S', rs') \<Rightarrow> (\<exists>ls'. part_ok eq combine ?hm c st rs ([] @ ?as) S' ls') \<and> local_ok rs rs' (localBuffer S') \<and>
            grown m (?N * (16 * ?N)) rs1 rs'"
        by (rule merge_currs_ok[OF m start])
      show ?thesis
      proof (cases "merge_currs m eq combine ?hm ?as (S, rs1)")
        case None
        then show ?thesis using loop run allocation_failed_later[OF gr _ bytes(1)] by simp
      next
        case (Some r')
        obtain S' rs' where r': "r' = (S', rs')" by (cases r')
        have lo: "\<exists>ls'. part_ok eq combine ?hm c st rs ?as S' ls'" "local_ok rs rs' (localBuffer S')"
            "grown m (partition_bytes ?N) rs rs'"
          using loop Some r' grown_trans[OF gr _ bytes(1)] by simp_all
        then obtain own where own: "flex_ok own (localBuffer S')" "set own \<subseteq> set rs'" "typeSize (localBuffer S') = 8"
          by (auto simp: local_ok_def)
        then have "\<forall>x \<in> set (flex_iterate (localBuffer S')). in_regions rs' x"
          using flex_slots_in_regions in_regions_mono by blast
        then show ?thesis using lo own(3) run Some r' grown_subset[OF lo(3)] by (auto simp: part_done_def)
      qed
    qed
  qed
qed

section \<open>All partitions\<close>

text \<open>The entries of a partition, in the order of the threads, and what their merge shall be.\<close>

definition partition_slots :: "fragment list \<Rightarrow> nat \<Rightarrow> nat list" where
  "partition_slots Fs i = concat (map flex_iterate (partition_input Fs i))"

definition partition_groups ::
  "('c \<Rightarrow> 'c \<Rightarrow> bool) \<Rightarrow> ('c \<Rightarrow> 'c \<Rightarrow> 'c) \<Rightarrow> fragment list \<Rightarrow> (nat \<rightharpoonup> 'c ht_entry) \<Rightarrow> nat \<Rightarrow> (64 word \<times> 'c) list" where
  "partition_groups eq combine Fs c i =
    fold (absorb eq combine) (map (\<lambda>a. the (payload c a)) (partition_slots Fs i)) []"

definition fragments_ok :: "fragment list \<Rightarrow> (nat \<rightharpoonup> 'c ht_entry) \<Rightarrow> bool" where
  "fragments_ok Fs c \<longleftrightarrow>
    (\<forall>i < 64. inputs_ok (partition_input Fs i) c \<and> (\<forall>a \<in> set (partition_slots Fs i). outputIdx (hash_of c a) = i))"

lemma partition_slots_disjoint:
  assumes "fragments_ok Fs c" and "i < 64" "j < 64" "a \<in> set (partition_slots Fs i)" "a \<in> set (partition_slots Fs j)"
  shows "i = j"
  using assms unfolding fragments_ok_def by metis

text \<open>After the partitions \<open>js\<close>; \<open>LS j\<close> are the entries in the table of partition \<open>j\<close>.\<close>

definition parts_ok ::
  "('c \<Rightarrow> 'c \<Rightarrow> bool) \<Rightarrow> ('c \<Rightarrow> 'c \<Rightarrow> 'c) \<Rightarrow> fragment list \<Rightarrow> (nat \<rightharpoonup> 'c ht_entry) \<Rightarrow> nat list \<Rightarrow> 'c preagg \<Rightarrow> region list \<Rightarrow> (nat \<Rightarrow> nat list) \<Rightarrow> bool" where
  "parts_ok eq combine Fs c js P rs LS \<longleftrightarrow>
    length (parts P) = 64 \<and>
    (\<forall>j \<in> set js. \<exists>t hm. parts P ! j = Some (t, hm) \<and> table_ok (shifted hm) (unat hm + 1) t (pa_cells P) (LS j) \<and>
      set (LS j) \<subseteq> set (partition_slots Fs j) \<and> distinct (LS j) \<and>
      map (\<lambda>a. the (payload (pa_cells P) a)) (LS j) = partition_groups eq combine Fs c j) \<and>
    dom (pa_cells P) = dom c \<and> (\<forall>x. (\<forall>j \<in> set js. x \<notin> set (LS j)) \<longrightarrow> pa_cells P x = c x) \<and>
    typeSize (pa_buffer P) = 8 \<and> (\<forall>x \<in> set (flex_iterate (pa_buffer P)). in_regions rs x) \<and>
    map (pa_stored P) (flex_iterate (pa_buffer P)) = map (\<lambda>a. Some (of_nat a)) (concat (map LS (rev js)))"

lemma parts_ok_step:
  assumes frags: "fragments_ok Fs c" and ok: "parts_ok eq combine Fs c js P rs LS"
    and i: "i < 64" "i \<notin> set js" "\<forall>j \<in> set js. j < 64"
    and fin: "part_done eq combine hm (pa_cells P) (pa_stored P) rs (partition_slots Fs i) S rs'"
  shows "\<exists>ls. parts_ok eq combine Fs c (js @ [i])
      (P\<lparr>parts := (parts P)[i := Some (p_ht S, hm)], pa_buffer := fst (flex_merge (pa_buffer P) (localBuffer S)),
         pa_stored := stored S, pa_cells := p_cells S\<rparr>) rs' (LS(i := ls))" (is "\<exists>ls. parts_ok _ _ _ _ _ ?P _ _")
proof -
  have P: "length (parts P) = 64" "dom (pa_cells P) = dom c" "typeSize (pa_buffer P) = 8"
      "map (pa_stored P) (flex_iterate (pa_buffer P)) = map (\<lambda>a. Some (of_nat a)) (concat (map LS (rev js)))"
    and inr: "\<And>x. x \<in> set (flex_iterate (pa_buffer P)) \<Longrightarrow> in_regions rs x"
    and frame: "\<And>x. (\<forall>j \<in> set js. x \<notin> set (LS j)) \<Longrightarrow> pa_cells P x = c x"
    and tabs: "\<And>j. j \<in> set js \<Longrightarrow> \<exists>t hm. parts P ! j = Some (t, hm) \<and> table_ok (shifted hm) (unat hm + 1) t (pa_cells P) (LS j) \<and>
      set (LS j) \<subseteq> set (partition_slots Fs j) \<and> distinct (LS j) \<and>
      map (\<lambda>a. the (payload (pa_cells P) a)) (LS j) = partition_groups eq combine Fs c j"
    using ok by (simp_all add: parts_ok_def)
  obtain ls where ls: "part_ok eq combine hm (pa_cells P) (pa_stored P) rs (partition_slots Fs i) S ls"
    using fin by (auto simp: part_done_def)
  have D: "typeSize (localBuffer S) = 8" "set rs \<subseteq> set rs'" "\<And>x. x \<in> set (flex_iterate (localBuffer S)) \<Longrightarrow> in_regions rs' x"
    using fin by (simp_all add: part_done_def)
  have S: "distinct ls" "set ls \<subseteq> set (partition_slots Fs i)" "table_ok (shifted hm) (unat hm + 1) (p_ht S) (p_cells S) ls"
      "map (\<lambda>a. the (payload (p_cells S) a)) ls = fold (absorb eq combine) (map (\<lambda>a. the (payload (pa_cells P) a)) (partition_slots Fs i)) []"
      "dom (p_cells S) = dom (pa_cells P)"
      "map (stored S) (flex_iterate (localBuffer S)) = map (\<lambda>a. Some (of_nat a)) ls"
    and same: "\<And>x. x \<notin> set ls \<Longrightarrow> p_cells S x = pa_cells P x"
    and old: "\<And>x. in_regions rs x \<Longrightarrow> stored S x = pa_stored P x"
    using ls by (simp_all add: part_ok_def)
  have LS: "set (LS j) \<subseteq> set (partition_slots Fs j)" if "j \<in> set js" for j using tabs[OF that] by blast
  have mine: "pa_cells P x = c x" if "x \<in> set (partition_slots Fs i)" for x
    using that LS i partition_slots_disjoint[OF frags i(1)] by (intro frame) blast
  have other: "p_cells S x = pa_cells P x" if "x \<in> set (LS j)" "j \<in> set js" for x j
    using that LS[OF that(2)] i S(2) partition_slots_disjoint[OF frags i(1)] by (intro same) blast
  have groups: "map (\<lambda>a. the (payload (p_cells S) a)) ls = partition_groups eq combine Fs c i"
  proof -
    have "map (\<lambda>a. the (payload (pa_cells P) a)) (partition_slots Fs i) = map (\<lambda>a. the (payload c a)) (partition_slots Fs i)"
      using mine by (intro map_cong) (auto simp: payload_def)
    then show ?thesis using S(4) unfolding partition_groups_def by (simp only:)
  qed
  have new: "\<exists>t hm'. parts ?P ! j = Some (t, hm') \<and> table_ok (shifted hm') (unat hm' + 1) t (pa_cells ?P) ((LS(i := ls)) j) \<and>
      set ((LS(i := ls)) j) \<subseteq> set (partition_slots Fs j) \<and> distinct ((LS(i := ls)) j) \<and>
      map (\<lambda>a. the (payload (pa_cells ?P) a)) ((LS(i := ls)) j) = partition_groups eq combine Fs c j"
    if j: "j \<in> set (js @ [i])" for j
  proof (cases "j = i")
    case True
    then show ?thesis using S groups P(1) i(1) by simp
  next
    case False
    then have js: "j \<in> set js" using j by simp
    obtain t hm' where t: "parts P ! j = Some (t, hm')" "table_ok (shifted hm') (unat hm' + 1) t (pa_cells P) (LS j)"
        "distinct (LS j)" "map (\<lambda>a. the (payload (pa_cells P) a)) (LS j) = partition_groups eq combine Fs c j"
      using tabs[OF js] by blast
    have "map (\<lambda>a. the (payload (p_cells S) a)) (LS j) = map (\<lambda>a. the (payload (pa_cells P) a)) (LS j)"
      using other[OF _ js] by (intro map_cong) (auto simp: payload_def)
    moreover have "table_ok (shifted hm') (unat hm' + 1) t (p_cells S) (LS j)"
      using t(2) other[OF _ js] by (subst table_ok_cong[where c = "pa_cells P"]) auto
    ultimately show ?thesis using False t LS[OF js] by simp
  qed
  have notin: "i \<notin> set (rev js)" using i(2) by simp
  have "map (stored S) (flex_iterate (pa_buffer P)) = map (pa_stored P) (flex_iterate (pa_buffer P))"
    using old inr by (intro map_cong) auto
  then have "map (stored S) (flex_iterate (pa_buffer ?P)) = map (\<lambda>a. Some (of_nat a)) (concat (map (LS(i := ls)) (rev (js @ [i]))))"
    using S(6) P(4) D(1) P(3) notin by (simp add: flex_merge_iterate map_fun_upd)
  moreover have "\<forall>x \<in> set (flex_iterate (pa_buffer ?P)). in_regions rs' x"
    using D(1,3) in_regions_mono[OF inr D(2)] P(3) by (auto simp: flex_merge_iterate)
  moreover have "\<forall>x. (\<forall>j \<in> set (js @ [i]). x \<notin> set ((LS(i := ls)) j)) \<longrightarrow> p_cells S x = c x"
    using same frame i(2) by (metis Un_iff fun_upd_apply list.set_intros(1) set_append)
  moreover have "typeSize (pa_buffer ?P) = 8" using P(3) by (simp add: flex_merge_def)
  ultimately show ?thesis using new P(1,2) S(5) unfolding parts_ok_def by (intro exI[of _ ls]) simp
qed

definition partitions_bytes :: "fragment list \<Rightarrow> nat list \<Rightarrow> nat" where
  "partitions_bytes Fs ids = sum_list (map (\<lambda>i. partition_bytes (length (partition_slots Fs i))) ids)"

lemma merge_partitions_ok:
  assumes m: "good_malloc m" and frags: "fragments_ok Fs c" and "parts_ok eq combine Fs c js P rs LS"
    and "distinct (js @ ids)" and "\<forall>j \<in> set (js @ ids). j < 64"
  shows "case merge_partitions m eq combine Fs ids (P, rs) of
      None \<Rightarrow> allocation_failed m (partitions_bytes Fs ids) rs
    | Some (P', rs') \<Rightarrow> \<exists>LS. parts_ok eq combine Fs c (js @ ids) P' rs' LS"
  using assms(3-)
proof (induction ids arbitrary: js P rs LS)
  case Nil
  then show ?case by auto
next
  case (Cons i ids)
  have i: "i < 64" "i \<notin> set js" "\<forall>j \<in> set js. j < 64" using Cons.prems(2,3) by auto
  have dom: "dom (pa_cells P) = dom c" using Cons.prems(1) by (simp add: parts_ok_def)
  then have "inputs_ok (partition_input Fs i) (pa_cells P)" using frags i(1) by (auto simp: fragments_ok_def inputs_ok_def)
  note step = merge_partition_ok[OF m this, where eq = eq and combine = combine and st = "pa_stored P" and rs = rs]
  show ?case
  proof (cases "merge_partition m eq combine (partition_input Fs i) (pa_cells P) (pa_stored P) rs")
    case None
    then show ?thesis using step allocation_failed_mono[of m "partition_bytes (length (partition_slots Fs i))" rs "partitions_bytes Fs (i # ids)"]
      by (simp add: partition_slots_def partitions_bytes_def)
  next
    case (Some r)
    obtain hm S rs1 where r: "r = (hm, S, rs1)" by (cases r)
    then have fin: "part_done eq combine hm (pa_cells P) (pa_stored P) rs (partition_slots Fs i) S rs1"
      using step Some by (simp add: partition_slots_def)
    have gr: "grown m (partition_bytes (length (partition_slots Fs i))) rs rs1"
      using step Some r by (simp add: partition_slots_def)
    have sum: "partition_bytes (length (partition_slots Fs i)) + partitions_bytes Fs ids \<le> partitions_bytes Fs (i # ids)"
      by (simp add: partitions_bytes_def)
    obtain ls where ok: "parts_ok eq combine Fs c (js @ [i])
      (P\<lparr>parts := (parts P)[i := Some (p_ht S, hm)], pa_buffer := fst (flex_merge (pa_buffer P) (localBuffer S)),
         pa_stored := stored S, pa_cells := p_cells S\<rparr>) rs1 (LS(i := ls))"
      using parts_ok_step[OF frags Cons.prems(1) i fin] by blast
    have "distinct ((js @ [i]) @ ids)" "\<forall>j \<in> set ((js @ [i]) @ ids). j < 64" using Cons.prems(2,3) by auto
    note IH = Cons.IH[OF ok this]
    then show ?thesis
      using Some r allocation_failed_later[OF gr _ sum] by (auto split: option.splits)
  qed
qed

section \<open>What the threads hand over\<close>

text \<open>\<open>own t i\<close> are the regions of output \<open>i\<close> of thread \<open>t\<close>.\<close>

definition output_ok :: "region list \<Rightarrow> (nat \<rightharpoonup> 'c ht_entry) \<Rightarrow> nat \<Rightarrow> flexible_buffer option \<Rightarrow> bool" where
  "output_ok own c i out \<longleftrightarrow> (case out of None \<Rightarrow> True
    | Some f \<Rightarrow> flex_ok own f \<and> 0 < totalLen f \<and> (\<forall>a \<in> set (flex_iterate f). \<exists>e. c a = Some e \<and> outputIdx (hashValue e) = i))"

definition fragment_ok :: "fragment \<Rightarrow> bool" where
  "fragment_ok F \<longleftrightarrow> length (outputs F) = 64 \<and> length (frag_ht F) = 1024 \<and>
    0 < frag_typeSize F \<and> 256 * frag_typeSize F < 18446744073709551616 \<and>
    (\<forall>f. Some f \<in> set (outputs F) \<longrightarrow> typeSize f = frag_typeSize F)"

definition owned_ok :: "region list \<Rightarrow> fragment list \<Rightarrow> (nat \<rightharpoonup> 'c ht_entry) \<Rightarrow> (nat \<Rightarrow> nat \<Rightarrow> region list) \<Rightarrow> bool" where
  "owned_ok rs Fs c own \<longleftrightarrow>
    (\<forall>t < length Fs. fragment_ok (Fs ! t) \<and>
      (\<forall>i < 64. set (own t i) \<subseteq> set rs \<and> output_ok (own t i) c i (outputs (Fs ! t) ! i))) \<and>
    (\<forall>t < length Fs. \<forall>u < length Fs. \<forall>i < 64. \<forall>j < 64. (t, i) \<noteq> (u, j) \<longrightarrow> fresh_regions (own t i) (own u j))"

definition threads_ok :: "region list \<Rightarrow> fragment list \<Rightarrow> (nat \<rightharpoonup> 'c ht_entry) \<Rightarrow> bool" where
  "threads_ok rs Fs c \<longleftrightarrow> (\<exists>own. owned_ok rs Fs c own)"

definition output_slots :: "nat \<Rightarrow> fragment \<Rightarrow> nat list" where
  "output_slots i F = (case outputs F ! i of None \<Rightarrow> [] | Some f \<Rightarrow> flex_iterate f)"

lemma partition_slots_outputs: "partition_slots Fs i = concat (map (output_slots i) Fs)"
  by (induction Fs) (auto simp: partition_slots_def partition_input_def output_slots_def List.map_filter_simps split: option.splits)

lemma owned_disjoint:
  assumes "flex_ok own1 f" "flex_ok own2 g" "fresh_regions own1 own2"
  shows "set (flex_iterate f) \<inter> set (flex_iterate g) = {}"
proof -
  have "0 < typeSize f" "0 < typeSize g" using assms(1,2) by (simp_all add: flex_ok_def)
  then show ?thesis
    using flex_ok_slots[OF assms(1)] flex_ok_slots[OF assms(2)] assms(3)
    by (fastforce simp: slots_safe_def fresh_regions_def apart_def)
qed

lemma outputs_disjoint:
  assumes "owned_ok rs Fs c own" and "t < length Fs" "u < length Fs" "i < 64" "j < 64" "(t, i) \<noteq> (u, j)"
  shows "set (output_slots i (Fs ! t)) \<inter> set (output_slots j (Fs ! u)) = {}"
proof -
  have "output_ok (own t i) c i (outputs (Fs ! t) ! i)" "output_ok (own u j) c j (outputs (Fs ! u) ! j)"
    "fresh_regions (own t i) (own u j)"
    using assms unfolding owned_ok_def by blast+
  then show ?thesis
    by (auto simp: output_slots_def output_ok_def split: option.splits dest: owned_disjoint)
qed

lemma distinct_concat_nth:
  assumes "\<And>t. t < length xs \<Longrightarrow> distinct (g (xs ! t))"
    and "\<And>t u. t < length xs \<Longrightarrow> u < length xs \<Longrightarrow> t \<noteq> u \<Longrightarrow> set (g (xs ! t)) \<inter> set (g (xs ! u)) = {}"
  shows "distinct (concat (map g xs))"
  using assms
proof (induction xs rule: rev_induct)
  case (snoc x xs)
  have "distinct (concat (map g xs))"
  proof (rule snoc.IH)
    show "distinct (g (xs ! t))" if "t < length xs" for t
      using snoc.prems(1)[of t] that by (simp add: nth_append)
    show "set (g (xs ! t)) \<inter> set (g (xs ! u)) = {}" if "t < length xs" "u < length xs" "t \<noteq> u" for t u
      using snoc.prems(2)[of t u] that by (simp add: nth_append)
  qed
  moreover have "distinct (g x)" using snoc.prems(1)[of "length xs"] by simp
  moreover have "set (g y) \<inter> set (g x) = {}" if "y \<in> set xs" for y
  proof -
    obtain t where "t < length xs" "xs ! t = y" using \<open>y \<in> set xs\<close> by (auto simp: in_set_conv_nth)
    then show ?thesis using snoc.prems(2)[of t "length xs"] by (simp add: nth_append)
  qed
  ultimately show ?case by fastforce
qed simp

lemma threads_fragments:
  assumes "threads_ok rs Fs c" shows "fragments_ok Fs c"
proof -
  obtain own where own: "owned_ok rs Fs c own" using assms by (auto simp: threads_ok_def)
  have out: "output_ok (own t i) c i (outputs (Fs ! t) ! i)" if "t < length Fs" "i < 64" for t i
    using own that unfolding owned_ok_def by blast
  have "distinct (partition_slots Fs i)" if "i < 64" for i
    unfolding partition_slots_outputs
  proof (rule distinct_concat_nth)
    show "distinct (output_slots i (Fs ! t))" if "t < length Fs" for t
      using out[OF that \<open>i < 64\<close>] flex_slots(1)
      by (auto simp: output_slots_def output_ok_def split: option.splits)
    show "set (output_slots i (Fs ! t)) \<inter> set (output_slots i (Fs ! u)) = {}" if "t < length Fs" "u < length Fs" "t \<noteq> u" for t u
      using outputs_disjoint[OF own that(1,2) \<open>i < 64\<close> \<open>i < 64\<close>] that(3) by simp
  qed
  moreover have in_out: "\<exists>e. c a = Some e \<and> outputIdx (hashValue e) = i" if i: "i < 64" and a: "a \<in> set (partition_slots Fs i)" for i a
  proof -
    obtain F where F: "F \<in> set Fs" "a \<in> set (output_slots i F)"
      using a unfolding partition_slots_outputs by auto
    then obtain t where t: "t < length Fs" "a \<in> set (output_slots i (Fs ! t))"
      unfolding in_set_conv_nth[of F] by blast
    then show ?thesis using out[OF t(1) i] by (auto simp: output_slots_def output_ok_def split: option.splits)
  qed
  moreover have "(\<exists>own. flex_ok own f) \<and> 0 < totalLen f" if i: "i < 64" and f: "f \<in> set (partition_input Fs i)" for i f
  proof -
    obtain F where "F \<in> set Fs" "outputs F ! i = Some f"
      using f by (auto simp: partition_input_def List.map_filter_def)
    then obtain t where "t < length Fs" "outputs (Fs ! t) ! i = Some f" by (auto simp: in_set_conv_nth)
    then show ?thesis using out[of t i] i by (auto simp: output_ok_def)
  qed
  ultimately show ?thesis
    unfolding fragments_ok_def inputs_ok_def partition_slots_def[symmetric]
    by (fastforce simp: hash_of_def)
qed

text \<open>An insertion.\<close>

lemma output_ok_frame:
  assumes "output_ok own c i out" and "\<And>f a. out = Some f \<Longrightarrow> a \<in> set (flex_iterate f) \<Longrightarrow> map_option hashValue (c' a) = map_option hashValue (c a)"
  shows "output_ok own c' i out"
proof -
  have "\<exists>e. c' a = Some e \<and> outputIdx (hashValue e) = i" if f: "out = Some f" "a \<in> set (flex_iterate f)" for f a
  proof -
    obtain e where "c a = Some e" "outputIdx (hashValue e) = i"
      using assms(1) f by (auto simp: output_ok_def)
    then show ?thesis using assms(2)[OF f] by (cases "c' a") auto
  qed
  then show ?thesis using assms(1) by (auto simp: output_ok_def split: option.splits)
qed

lemma output_target:
  assumes m: "good_malloc m" and F: "fragment_ok F" and out: "output_ok own c i (outputs F ! i)" and sub: "set own \<subseteq> set rs" and i: "i < 64"
  shows "case (case outputs F ! i of None \<Rightarrow> mk_flexible m 256 (frag_typeSize F) rs | Some f \<Rightarrow> Some (f, rs)) of
      None \<Rightarrow> allocation_failed m (256 * frag_typeSize F) rs
    | Some (f, rs1) \<Rightarrow> grown m (256 * frag_typeSize F) rs rs1 \<and> typeSize f = frag_typeSize F \<and>
        (\<exists>own1 new. rs1 = new @ rs \<and> fresh_regions new rs \<and> flex_ok own1 f \<and> set own1 \<subseteq> set (new @ own) \<and>
        flex_iterate f = output_slots i F)"
proof (cases "outputs F ! i")
  case (Some f)
  then have "Some f \<in> set (outputs F)" using F i by (metis fragment_ok_def nth_mem)
  then have "typeSize f = frag_typeSize F" using F by (simp add: fragment_ok_def)
  then show ?thesis using out Some
    by (auto simp: output_ok_def output_slots_def intro!: exI[of _ own])
next
  case None
  show ?thesis
  proof (cases "mk_flexible m 256 (frag_typeSize F) rs")
    case no: None
    then show ?thesis using None mk_flexible_None by simp
  next
    case (Some r)
    obtain f rs1 where mk: "mk_flexible m 256 (frag_typeSize F) rs = Some (f, rs1)" using Some by (cases r) auto
    obtain q where "rs1 = q # rs" "fresh_regions [q] rs" "flex_ok [q] f" "flex_iterate f = []" "typeSize f = frag_typeSize F"
      using mk_flexible_own[OF m _ _ _ mk] F by (auto simp: fragment_ok_def)
    then show ?thesis using None mk mk_flexible_grown[OF mk]
      by (auto simp: output_slots_def intro!: exI[of _ "[q]"])
  qed
qed

text \<open>What one insertion may ask \<^verbatim>\<open>malloc\<close> for when the output holds \<open>n\<close> entries of \<open>ts\<close> bytes.\<close>

definition insert_bytes :: "nat \<Rightarrow> nat \<Rightarrow> nat" where
  "insert_bytes n ts = 256 * ts + 2 * n * ts"

lemma fragment_insert_step:
  assumes m: "good_malloc m" and F: "fragment_ok F" and out: "output_ok own c (outputIdx hash) (outputs F ! outputIdx hash)"
    and sub: "set own \<subseteq> set rs" and k: "outputIdx hash < 64"
  shows "case fragment_insert m raw hash (F, c, rs) of
      None \<Rightarrow> allocation_failed m (insert_bytes (length (output_slots (outputIdx hash) F)) (frag_typeSize F)) rs
    | Some (a, F', c', rs') \<Rightarrow>
        grown m (insert_bytes (length (output_slots (outputIdx hash) F)) (frag_typeSize F)) rs rs' \<and>
        (\<exists>own' new f. rs' = new @ rs \<and> fresh_regions new rs \<and> set own' \<subseteq> set (new @ own) \<and>
        flex_ok own' f \<and> flex_iterate f = output_slots (outputIdx hash) F @ [a] \<and>
        outputs F' = (outputs F)[outputIdx hash := Some f] \<and> fragment_ok F' \<and> frag_typeSize F' = frag_typeSize F \<and>
        c' = c(a \<mapsto> \<lparr>next_entry = 0, hashValue = hash, content = raw\<rparr>))"
proof -
  let ?tgt = "case outputs F ! outputIdx hash of None \<Rightarrow> mk_flexible m 256 (frag_typeSize F) rs | Some f \<Rightarrow> Some (f, rs)"
  let ?n = "length (output_slots (outputIdx hash) F)" and ?ts = "frag_typeSize F"
  note tgt = output_target[OF m F out sub k]
  show ?thesis
  proof (cases ?tgt)
    case None
    then have "allocation_failed m (256 * ?ts) rs" using tgt by simp
    from allocation_failed_mono[OF this, of "insert_bytes ?n ?ts"]
    show ?thesis using None by (simp add: fragment_insert_def insert_bytes_def)
  next
    case (Some r)
    obtain f rs1 where r: "?tgt = Some (f, rs1)" using Some by (cases r) auto
    have gr1: "grown m (256 * ?ts) rs rs1" and ts: "typeSize f = ?ts" using tgt unfolding r by simp_all
    obtain own1 new1 where 1: "rs1 = new1 @ rs" "fresh_regions new1 rs" "flex_ok own1 f" "set own1 \<subseteq> set (new1 @ own)"
        "flex_iterate f = output_slots (outputIdx hash) F"
      using tgt unfolding r by auto
    have sub1: "set own1 \<subseteq> set rs1" using 1(1,4) sub by auto
    have bytes: "256 * ?ts + 2 * totalLen f * typeSize f \<le> insert_bytes ?n ?ts"
      using flex_slots(3)[OF 1(3)] 1(5) ts by (simp add: insert_bytes_def)
    show ?thesis
    proof (cases "flex_insert m f rs1")
      case None
      then have "fragment_insert m raw hash (F, c, rs) = None" using r by (simp add: fragment_insert_def Let_def)
      then show ?thesis using allocation_failed_later[OF gr1 flex_insert_None[OF 1(3) None] bytes] by simp
    next
      case (Some r2)
      obtain a f' rs2 where ins: "flex_insert m f rs1 = Some (a, f', rs2)" using Some by (cases r2) auto
      obtain new2 where 2: "rs2 = new2 @ rs1" "fresh_regions new2 rs1" "flex_ok (new2 @ own1) f'"
          "flex_iterate f' = flex_iterate f @ [a]" "typeSize f' = typeSize f" "obtained m rs1 new2" "heap_size new2 \<le> 2 * totalLen f * typeSize f"
        using flex_insert_own[OF m 1(3) sub1 ins] by blast
      have "grown m (2 * totalLen f * typeSize f) rs1 rs2" using 2(1,6,7) by (auto simp: grown_def)
      note gr = grown_trans[OF gr1 this bytes]
      have "fresh_regions (new2 @ new1) rs" using 1(1,2) 2(2) by (auto simp: fresh_regions_def)
      moreover have "rs2 = (new2 @ new1) @ rs" using 1(1) 2(1) by simp
      moreover have "set (new2 @ own1) \<subseteq> set ((new2 @ new1) @ own)" using 1(4) by auto
      moreover define F' where "F' = F\<lparr>frag_len := frag_len F + 1, outputs := (outputs F)[outputIdx hash := Some f'],
        frag_ht := (frag_ht F)[unat (drop_bit 6 hash AND 1023) := of_nat a]\<rparr>"
      moreover have "Some g \<in> set ((outputs F)[outputIdx hash := Some f']) \<Longrightarrow> typeSize g = ?ts" for g
        using set_update_subset_insert[of "outputs F" "outputIdx hash" "Some f'"] F 2(5) ts by (auto simp: fragment_ok_def)
      then have "fragment_ok F'" using F by (simp add: F'_def fragment_ok_def)
      moreover have "fragment_insert m raw hash (F, c, rs) =
          Some (a, F', c(a \<mapsto> \<lparr>next_entry = 0, hashValue = hash, content = raw\<rparr>), rs2)"
        using r ins by (simp add: fragment_insert_def Let_def F'_def)
      moreover have "outputs F' = (outputs F)[outputIdx hash := Some f']" "frag_typeSize F' = ?ts" by (simp_all add: F'_def)
      moreover have "flex_iterate f' = output_slots (outputIdx hash) F @ [a]" using 1(5) 2(4) by simp
      ultimately show ?thesis using 2(3) gr by (simp only: option.case prod.case) blast
    qed
  qed
qed

lemma fresh_sym: "fresh_regions xs ys \<Longrightarrow> fresh_regions ys xs"
  using apart_sym by (auto simp: fresh_regions_def)

lemma fresh_replaced:
  assumes "fresh_regions new rs" "set own' \<subseteq> set (new @ own)" "set other \<subseteq> set rs" "fresh_regions own other"
  shows "fresh_regions own' other"
  using assms by (fastforce simp: fresh_regions_def)

lemma output_ok_insert:
  assumes "output_ok own c (outputIdx hash) (outputs F ! outputIdx hash)" and "flex_ok own' f"
    and "flex_iterate f = output_slots (outputIdx hash) F @ [a]"
  shows "output_ok own' (c(a \<mapsto> \<lparr>next_entry = 0, hashValue = hash, content = raw\<rparr>)) (outputIdx hash) (Some f)"
proof -
  have "\<exists>e. c b = Some e \<and> outputIdx (hashValue e) = outputIdx hash" if "b \<in> set (output_slots (outputIdx hash) F)" for b
    using that assms(1) by (auto simp: output_ok_def output_slots_def split: option.splits)
  moreover have "totalLen f = length (flex_iterate f)" by (rule flex_slots(3)[OF assms(2)])
  ultimately show ?thesis using assms(2,3) by (auto simp: output_ok_def)
qed

lemma fragment_insert_ok:
  assumes m: "good_malloc m" and ok: "threads_ok rs Fs c" and t: "t < length Fs"
  shows "case fragment_insert m raw hash (Fs ! t, c, rs) of
      None \<Rightarrow> allocation_failed m (insert_bytes (length (output_slots (outputIdx hash) (Fs ! t))) (frag_typeSize (Fs ! t))) rs
    | Some (a, F', c', rs') \<Rightarrow> threads_ok rs' (Fs[t := F']) c' \<and>
        grown m (insert_bytes (length (output_slots (outputIdx hash) (Fs ! t))) (frag_typeSize (Fs ! t))) rs rs' \<and>
        frag_typeSize F' = frag_typeSize (Fs ! t) \<and> payload c' = (payload c)(a \<mapsto> (hash, raw)) \<and>
        (\<forall>i < 64. output_slots i F' = output_slots i (Fs ! t) @ (if i = outputIdx hash then [a] else [])) \<and>
        (\<forall>u < length Fs. \<forall>i < 64. a \<notin> set (output_slots i (Fs ! u)))"
proof -
  let ?k = "outputIdx hash"
  have k: "?k < 64" using word_and_le1[of hash 63] by (simp add: and.commute word_le_nat_alt)
  obtain own where own: "owned_ok rs Fs c own" using ok by (auto simp: threads_ok_def)
  have F: "fragment_ok (Fs ! u)" and out: "\<And>i. i < 64 \<Longrightarrow> output_ok (own u i) c i (outputs (Fs ! u) ! i)"
    and sub: "\<And>i. i < 64 \<Longrightarrow> set (own u i) \<subseteq> set rs" if "u < length Fs" for u
    using own that unfolding owned_ok_def by blast+
  have fresh: "fresh_regions (own u i) (own v j)" if "u < length Fs" "v < length Fs" "i < 64" "j < 64" "(u, i) \<noteq> (v, j)" for u v i j
    using own that unfolding owned_ok_def by blast
  note step = fragment_insert_step[OF m F[OF t] out[OF t k] sub[OF t k] k, of raw]
  show ?thesis
  proof (cases "fragment_insert m raw hash (Fs ! t, c, rs)")
    case None
    then show ?thesis using step by simp
  next
    case (Some r)
    obtain a F' c' rs' where r: "fragment_insert m raw hash (Fs ! t, c, rs) = Some (a, F', c', rs')"
      using Some by (cases r) auto
    obtain own' new f where S: "rs' = new @ rs" "fresh_regions new rs" "set own' \<subseteq> set (new @ own t ?k)" "flex_ok own' f"
        "flex_iterate f = output_slots ?k (Fs ! t) @ [a]" "outputs F' = (outputs (Fs ! t))[?k := Some f]" "fragment_ok F'"
        "c' = c(a \<mapsto> \<lparr>next_entry = 0, hashValue = hash, content = raw\<rparr>)" "frag_typeSize F' = frag_typeSize (Fs ! t)"
        "grown m (insert_bytes (length (output_slots ?k (Fs ! t))) (frag_typeSize (Fs ! t))) rs rs'"
      using step unfolding r by auto
    have len: "length (outputs (Fs ! t)) = 64" using F[OF t] by (simp add: fragment_ok_def)
    define own2 where "own2 = own(t := (own t)(?k := own'))"
    have own2: "own2 u i = (if u = t \<and> i = ?k then own' else own u i)" for u i by (simp add: own2_def)
    have target: "output_ok own' c' ?k (Some f)"
      unfolding S(8) by (rule output_ok_insert[OF out[OF t k] S(4,5)])
    have fr': "fresh_regions own' (own u i)" if "u < length Fs" "i < 64" "(u, i) \<noteq> (t, ?k)" for u i
      using fresh_replaced[OF S(2,3) sub[OF that(1,2)]] fresh[OF t that(1) k that(2)] that(3) by auto
    have notin: "a \<notin> set (output_slots i (Fs ! u))" if "u < length Fs" "i < 64" for u i
    proof (cases "(u, i) = (t, ?k)")
      case True
      then show ?thesis using flex_slots(1)[OF S(4)] S(5) by simp
    next
      case False
      then show ?thesis using owned_disjoint[OF S(4) _ fr'[OF that False]] S(5) out[OF that]
        by (fastforce simp: output_slots_def output_ok_def split: option.splits)
    qed
    have "output_ok (own2 u i) c' i (outputs (Fs[t := F'] ! u) ! i)" if "u < length Fs" "i < 64" for u i
    proof (cases "(u, i) = (t, ?k)")
      case True
      then show ?thesis using target S(6) k len t by (simp add: own2)
    next
      case False
      then have "outputs (Fs[t := F'] ! u) ! i = outputs (Fs ! u) ! i" using S(6) t by (cases "u = t") simp_all
      moreover have "output_ok (own u i) c' i (outputs (Fs ! u) ! i)"
        using notin[OF that] S(8) by (intro output_ok_frame[OF out[OF that]]) (auto simp: output_slots_def)
      ultimately show ?thesis using False by (auto simp: own2)
    qed
    moreover have "set (own2 u i) \<subseteq> set rs'" if "u < length Fs" "i < 64" for u i
      using that sub S(1,3) t k by (auto simp: own2)
    moreover have "fragment_ok (Fs[t := F'] ! u)" if "u < length Fs" for u
      using that F S(7) by (cases "u = t") simp_all
    moreover have "fresh_regions (own2 u i) (own2 v j)" if "u < length Fs" "v < length Fs" "i < 64" "j < 64" "(u, i) \<noteq> (v, j)" for u v i j
      using that fresh[OF that] fr' fresh_sym by (auto simp: own2)
    ultimately have "owned_ok rs' (Fs[t := F']) c' own2" unfolding owned_ok_def by simp
    then have "threads_ok rs' (Fs[t := F']) c'" by (auto simp: threads_ok_def)
    moreover have "payload c' = (payload c)(a \<mapsto> (hash, raw))" using S(8) by (auto simp: payload_def)
    moreover have "\<forall>i < 64. output_slots i F' = output_slots i (Fs ! t) @ (if i = ?k then [a] else [])"
    proof (intro allI impI)
      fix i :: nat assume "i < 64"
      show "output_slots i F' = output_slots i (Fs ! t) @ (if i = ?k then [a] else [])"
      proof (cases "i = ?k")
        case True
        then show ?thesis using S(5,6) k len by (simp add: output_slots_def)
      qed (use S(6) in \<open>simp add: output_slots_def\<close>)
    qed
    ultimately show ?thesis using r notin S(9,10) by simp
  qed
qed

text \<open>Writing the content of an entry, and fresh fragments.\<close>

lemma threads_ok_content:
  assumes "threads_ok rs Fs c" and "c a = Some e"
  shows "threads_ok rs Fs (c(a \<mapsto> e\<lparr>content := x\<rparr>))"
proof -
  obtain own where own: "owned_ok rs Fs c own" using assms(1) by (auto simp: threads_ok_def)
  have "output_ok o' (c(a \<mapsto> e\<lparr>content := x\<rparr>)) i out" if "output_ok o' c i out" for o' i out
    using that by (rule output_ok_frame) (simp add: assms(2))
  then have "owned_ok rs Fs (c(a \<mapsto> e\<lparr>content := x\<rparr>)) own"
    using own unfolding owned_ok_def by blast
  then show ?thesis by (auto simp: threads_ok_def)
qed

lemma threads_ok_init:
  assumes "\<forall>ts \<in> set sizes. 0 < ts \<and> 256 * ts < 18446744073709551616"
  shows "threads_ok rs (map mk_fragment sizes) Map.empty"
  using assms unfolding threads_ok_def owned_ok_def
  by (intro exI[of _ "\<lambda>t i. []"]) (auto simp: mk_fragment_def fragment_ok_def output_ok_def)

section \<open>From the inserted rows to the groups\<close>

text \<open>
  Thread \<open>t\<close> inserts an entry with the hash \<open>h\<close> and writes its content; the order of the list is the
  order in which the threads are scheduled.
\<close>

fun insert_rows ::
  "malloc \<Rightarrow> 'c \<Rightarrow> (nat \<times> 64 word \<times> 'c) list \<Rightarrow> fragment list \<times> (nat \<rightharpoonup> 'c ht_entry) \<times> region list \<Rightarrow>
    (fragment list \<times> (nat \<rightharpoonup> 'c ht_entry) \<times> region list) option" where
  "insert_rows m raw [] FCR = Some FCR"
| "insert_rows m raw ((t, h, x) # rows) (Fs, c, rs) = do {
    (a, F, c', rs') \<leftarrow> fragment_insert m raw h (Fs ! t, c, rs);
    e \<leftarrow> c' a;
    insert_rows m raw rows (Fs[t := F], c'(a \<mapsto> e\<lparr>content := x\<rparr>), rs') }"

definition preaggregate ::
  "malloc \<Rightarrow> 'c \<Rightarrow> ('c \<Rightarrow> 'c \<Rightarrow> bool) \<Rightarrow> ('c \<Rightarrow> 'c \<Rightarrow> 'c) \<Rightarrow> nat list \<Rightarrow> nat list \<Rightarrow> (nat \<times> 64 word \<times> 'c) list \<Rightarrow> region list \<Rightarrow>
    ('c preagg \<times> region list) option" where
  "preaggregate m raw eq combine ids sizes rows rs = do {
    (Fs, c, rs1) \<leftarrow> insert_rows m raw rows (map mk_fragment sizes, Map.empty, rs);
    preagg_merge m eq combine ids Fs c rs1 }"

text \<open>The rows of a thread that belong to a partition, and the groups they shall form.\<close>

definition rows_of :: "(nat \<times> 64 word \<times> 'c) list \<Rightarrow> nat \<Rightarrow> nat \<Rightarrow> (64 word \<times> 'c) list" where
  "rows_of rows i t = map snd (filter (\<lambda>(u, h, x). u = t \<and> outputIdx h = i) rows)"

definition groups :: "('c \<Rightarrow> 'c \<Rightarrow> bool) \<Rightarrow> ('c \<Rightarrow> 'c \<Rightarrow> 'c) \<Rightarrow> nat \<Rightarrow> (nat \<times> 64 word \<times> 'c) list \<Rightarrow> nat \<Rightarrow> (64 word \<times> 'c) list" where
  "groups eq combine threads rows i = fold (absorb eq combine) (concat (map (rows_of rows i) [0..<threads])) []"

definition holds_rows :: "fragment list \<Rightarrow> (nat \<rightharpoonup> 'c ht_entry) \<Rightarrow> (nat \<times> 64 word \<times> 'c) list \<Rightarrow> bool" where
  "holds_rows Fs c rows \<longleftrightarrow>
    (\<forall>t < length Fs. \<forall>i < 64. map (\<lambda>a. the (payload c a)) (output_slots i (Fs ! t)) = rows_of rows i t)"

lemma rows_of_snoc: "rows_of (rows @ [(t, h, x)]) i u = rows_of rows i u @ (if u = t \<and> i = outputIdx h then [(h, x)] else [])"
  by (auto simp: rows_of_def)

lemma insert_rows_ok:
  assumes m: "good_malloc m" and "threads_ok rs Fs c" and "holds_rows Fs c before" and "\<forall>(t, h, x) \<in> set rows. t < length Fs"
    and "\<forall>F \<in> set Fs. frag_typeSize F \<le> ts" and "length before + length rows \<le> N"
  shows "case insert_rows m raw rows (Fs, c, rs) of
      None \<Rightarrow> allocation_failed m (length rows * insert_bytes N ts) rs
    | Some (Fs', c', rs') \<Rightarrow> threads_ok rs' Fs' c' \<and> grown m (length rows * insert_bytes N ts) rs rs' \<and> holds_rows Fs' c' (before @ rows) \<and> length Fs' = length Fs"
  using assms(2-)
proof (induction rows arbitrary: Fs c rs before)
  case (Cons row rows)
  obtain t h x where row: "row = (t, h, x)" by (cases row) auto
  have t: "t < length Fs" using Cons.prems(3) row by simp
  have k: "outputIdx h < 64" using word_and_le1[of h 63] by (simp add: and.commute word_le_nat_alt)
  have "length (output_slots (outputIdx h) (Fs ! t)) = length (rows_of before (outputIdx h) t)"
    using Cons.prems(2) t k unfolding holds_rows_def by (metis length_map)
  also have "\<dots> \<le> length before" by (simp add: rows_of_def)
  finally have few: "length (output_slots (outputIdx h) (Fs ! t)) \<le> N" "frag_typeSize (Fs ! t) \<le> ts"
    using Cons.prems(4,5) t by auto
  let ?b = "insert_bytes (length (output_slots (outputIdx h) (Fs ! t))) (frag_typeSize (Fs ! t))"
  have "?b \<le> insert_bytes N ts" unfolding insert_bytes_def by (intro add_mono mult_le_mono order_refl few)
  then have b: "?b + length rows * insert_bytes N ts \<le> length (row # rows) * insert_bytes N ts" by simp
  note step = fragment_insert_ok[OF m Cons.prems(1) t, where raw = raw and hash = h]
  show ?case
  proof (cases "fragment_insert m raw h (Fs ! t, c, rs)")
    case None
    then have "allocation_failed m ?b rs" using step by simp
    then have "allocation_failed m (length (row # rows) * insert_bytes N ts) rs"
      by (rule allocation_failed_mono) (use b in linarith)
    then show ?thesis using None row by simp
  next
    case (Some r)
    obtain a F c1 rs1 where r: "fragment_insert m raw h (Fs ! t, c, rs) = Some (a, F, c1, rs1)" using Some by (cases r) auto
    have S: "threads_ok rs1 (Fs[t := F]) c1" "grown m ?b rs rs1" "payload c1 = (payload c)(a \<mapsto> (h, raw))"
        "frag_typeSize F = frag_typeSize (Fs ! t)"
      and slots: "\<And>i. i < 64 \<Longrightarrow> output_slots i F = output_slots i (Fs ! t) @ (if i = outputIdx h then [a] else [])"
      and new: "\<And>u i. u < length Fs \<Longrightarrow> i < 64 \<Longrightarrow> a \<notin> set (output_slots i (Fs ! u))"
      using step unfolding r by auto
    obtain e where e: "c1 a = Some e" "hashValue e = h"
      using S(3) by (auto simp: payload_def fun_eq_iff dest!: spec[of _ a])
    let ?c = "c1(a \<mapsto> e\<lparr>content := x\<rparr>)"
    have p: "payload ?c = (payload c)(a \<mapsto> (h, x))" using S(3) e by (auto simp: payload_def fun_eq_iff)
    have "holds_rows (Fs[t := F]) ?c (before @ [(t, h, x)])"
      unfolding holds_rows_def
    proof (intro allI impI)
      fix u i assume u: "u < length (Fs[t := F])" and i: "i < (64 :: nat)"
      have old: "map (\<lambda>b. the (payload ?c b)) (output_slots i (Fs ! u)) = rows_of before i u"
      proof -
        have "map (\<lambda>b. the (payload ?c b)) (output_slots i (Fs ! u)) = map (\<lambda>b. the (payload c b)) (output_slots i (Fs ! u))"
          using new[of u i] u i p by (intro map_cong) auto
        also have "\<dots> = rows_of before i u"
          using Cons.prems(2) u i unfolding holds_rows_def length_list_update by blast
        finally show ?thesis .
      qed
      show "map (\<lambda>b. the (payload ?c b)) (output_slots i (Fs[t := F] ! u)) = rows_of (before @ [(t, h, x)]) i u"
        using old slots[OF i] p t by (cases "u = t") (simp_all add: rows_of_snoc)
    qed
    moreover have "threads_ok rs1 (Fs[t := F]) ?c" by (rule threads_ok_content[OF S(1) e(1)])
    moreover have "\<forall>(t', h, x) \<in> set rows. t' < length (Fs[t := F])" using Cons.prems(3) by (auto split: prod.splits)
    moreover have "\<forall>G \<in> set (Fs[t := F]). frag_typeSize G \<le> ts"
      using set_update_subset_insert[of Fs t F] Cons.prems(4) S(4) few(2) by auto
    moreover have "length (before @ [(t, h, x)]) + length rows \<le> N" using Cons.prems(5) by simp
    ultimately have IH: "case insert_rows m raw rows (Fs[t := F], ?c, rs1) of
        None \<Rightarrow> allocation_failed m (length rows * insert_bytes N ts) rs1
      | Some (Fs', c', rs') \<Rightarrow> threads_ok rs' Fs' c' \<and> grown m (length rows * insert_bytes N ts) rs1 rs' \<and> holds_rows Fs' c' ((before @ [(t, h, x)]) @ rows) \<and> length Fs' = length (Fs[t := F])"
      by (intro Cons.IH)
    then show ?thesis using row r e grown_trans[OF S(2) _ b] allocation_failed_later[OF S(2) _ b] by (auto split: option.splits)
  qed
qed simp

lemma find_map: "map_option f (find (\<lambda>a. P (f a)) xs) = find P (map f xs)"
  by (induction xs) auto

lemma holds_rows_groups:
  assumes "holds_rows Fs c rows" and "i < 64"
  shows "partition_groups eq combine Fs c i = groups eq combine (length Fs) rows i"
proof -
  have "map (\<lambda>a. the (payload c a)) (partition_slots Fs i) =
      concat (map (\<lambda>F. map (\<lambda>a. the (payload c a)) (output_slots i F)) Fs)"
    by (simp add: partition_slots_outputs map_concat comp_def)
  also have "map (\<lambda>F. map (\<lambda>a. the (payload c a)) (output_slots i F)) Fs = map (rows_of rows i) [0..<length Fs]"
    using assms by (intro nth_equalityI) (simp_all add: holds_rows_def)
  finally show ?thesis by (simp add: partition_groups_def groups_def)
qed

lemma parts_ok_init:
  assumes "good_malloc m" and "mk_flexible m 1 8 rs = Some (buf, rs1)"
  shows "parts_ok eq combine Fs c [] \<lparr>parts = replicate 64 None, pa_buffer = buf, pa_stored = Map.empty, pa_cells = c\<rparr> rs1 LS"
proof -
  from mk_flexible_ok[OF assms(1) _ _ _ assms(2)] have "flex_iterate buf = []" "typeSize buf = 8" by simp_all
  then show ?thesis by (simp add: parts_ok_def)
qed

lemma preagg_merge_ok:
  assumes m: "good_malloc m" and ok: "threads_ok rs Fs c" and ids: "distinct ids" "set ids = {..<64}"
  shows "case preagg_merge m eq combine ids Fs c rs of
      None \<Rightarrow> allocation_failed m (8 + partitions_bytes Fs ids) rs
    | Some (P, rs') \<Rightarrow> \<exists>LS. parts_ok eq combine Fs c ids P rs' LS"
proof (cases "mk_flexible m 1 8 rs")
  case None
  from allocation_failed_mono[OF mk_flexible_None[OF this], of "8 + partitions_bytes Fs ids"]
  show ?thesis using None by (simp add: preagg_merge_def)
next
  case (Some r)
  obtain buf rs1 where r: "mk_flexible m 1 8 rs = Some (buf, rs1)" using Some by (cases r) auto
  from mk_flexible_grown[OF r] have gr: "grown m 8 rs rs1" by simp
  have "distinct ([] @ ids)" "\<forall>j \<in> set ([] @ ids). j < 64" using ids by auto
  note loop = merge_partitions_ok[OF m threads_fragments[OF ok] parts_ok_init[OF m r] this]
  from loop[of eq combine] show ?thesis
    using r allocation_failed_later[OF gr _ order_refl] by (auto simp: preagg_merge_def split: option.splits)
qed

lemma preagg_lookup_ok:
  assumes "parts_ok eq combine Fs c ids P rs LS" and "set ids = {..<64}"
  shows "\<exists>w r. preagg_lookup P h = Some w \<and> find_entry eq (pa_cells P) h x w = Some r \<and>
    map_option (\<lambda>a. the (payload (pa_cells P) a)) r =
      find (entry_matches eq h x) (rev (partition_groups eq combine Fs c (outputIdx h)))"
proof -
  have "outputIdx h < 64" using word_and_le1[of h 63] by (simp add: and.commute word_le_nat_alt)
  then have "outputIdx h \<in> set ids" using assms(2) by simp
  then obtain t hm where t: "parts P ! outputIdx h = Some (t, hm)" "table_ok (shifted hm) (unat hm + 1) t (pa_cells P) (LS (outputIdx h))"
      "map (\<lambda>a. the (payload (pa_cells P) a)) (LS (outputIdx h)) = partition_groups eq combine Fs c (outputIdx h)"
    using assms(1) unfolding parts_ok_def by blast
  have "preagg_lookup P h = Some (untag (t ! shifted hm h))"
    using t(1) table_at[OF t(2), of h] by (simp add: preagg_lookup_def and.commute)
  moreover note table_find[OF t(2) table_ok_dom[OF t(2)], of eq h x]
  ultimately show ?thesis
    using find_map[of "\<lambda>a. the (payload (pa_cells P) a)" "entry_matches eq h x" "rev (LS (outputIdx h))"] t(3)
    by (simp flip: rev_map)
qed

lemma preagg_iterate_ok:
  assumes "parts_ok eq combine Fs c ids P rs LS"
  shows "map (\<lambda>s. the (payload (pa_cells P) (unat (the (pa_stored P s))))) (flex_iterate (pa_buffer P)) =
    concat (map (partition_groups eq combine Fs c) (rev ids))"
proof -
  let ?g = "\<lambda>w :: ptr option. the (payload (pa_cells P) (unat (the w)))"
  have LS: "map (\<lambda>a. ?g (Some (of_nat a))) (LS j) = partition_groups eq combine Fs c j" if j: "j \<in> set ids" for j
  proof -
    obtain t hm where t: "table_ok (shifted hm) (unat hm + 1) t (pa_cells P) (LS j)"
        "map (\<lambda>a. the (payload (pa_cells P) a)) (LS j) = partition_groups eq combine Fs c j"
      using assms j unfolding parts_ok_def by blast
    have "unat (of_nat a :: ptr) = a" if "a \<in> set (LS j)" for a
      using table_ok_bounds[OF t(1) that] by (simp add: unat_of_nat)
    then have "map (\<lambda>a. ?g (Some (of_nat a))) (LS j) = map (\<lambda>a. the (payload (pa_cells P) a)) (LS j)"
      by (intro map_cong) auto
    then show ?thesis using t(2) by simp
  qed
  have "map (pa_stored P) (flex_iterate (pa_buffer P)) = map (\<lambda>a. Some (of_nat a)) (concat (map LS (rev ids)))"
    using assms by (simp add: parts_ok_def)
  from arg_cong[OF this, of "map ?g"]
  have "map (\<lambda>s. ?g (pa_stored P s)) (flex_iterate (pa_buffer P)) = concat (map (\<lambda>j. map (\<lambda>a. ?g (Some (of_nat a))) (LS j)) (rev ids))"
    by (simp add: map_concat comp_def)
  also have "\<dots> = concat (map (partition_groups eq combine Fs c) (rev ids))"
    using LS by (intro arg_cong[of _ _ concat] map_cong) auto
  finally show ?thesis .
qed

text \<open>What the aggregation of \<open>n\<close> rows with entries of at most \<open>ts\<close> bytes may ask \<^verbatim>\<open>malloc\<close> for.\<close>

definition preagg_bytes :: "nat \<Rightarrow> nat \<Rightarrow> nat" where
  "preagg_bytes n ts = n * insert_bytes n ts + (8 + 64 * partition_bytes n)"

lemma rows_of_length: "length (concat (map (rows_of rows i) [0..<n])) \<le> length rows"
proof (induction rows)
  case (Cons row rows)
  obtain t h x where row: "row = (t, h, x)" by (cases row) auto
  have "length (rows_of (row # rows) i u) = (if u = t then if outputIdx h = i then 1 else 0 else 0) + length (rows_of rows i u)" for u
    by (auto simp: rows_of_def row)
  then have "length (concat (map (rows_of (row # rows) i) [0..<n])) =
      (\<Sum>u \<in> {0..<n}. (if u = t then if outputIdx h = i then 1 else 0 else 0) + length (rows_of rows i u))"
    by (simp add: length_concat comp_def interv_sum_list_conv_sum_set_nat)
  also have "\<dots> = (\<Sum>u \<in> {0..<n}. (if u = t then if outputIdx h = i then 1 else 0 else 0)) + (\<Sum>u \<in> {0..<n}. length (rows_of rows i u))"
    by (rule sum.distrib)
  also have "(\<Sum>u \<in> {0..<n}. (if u = t then if outputIdx h = i then 1 else 0 else 0)) \<le> (1 :: nat)"
    by (simp add: sum.delta)
  also have "(\<Sum>u \<in> {0..<n}. length (rows_of rows i u)) = length (concat (map (rows_of rows i) [0..<n]))"
    by (simp add: length_concat comp_def interv_sum_list_conv_sum_set_nat)
  finally show ?case using Cons.IH by simp
qed (simp add: rows_of_def length_concat comp_def)

lemma partition_bytes_mono: "n \<le> k \<Longrightarrow> partition_bytes n \<le> partition_bytes k"
  unfolding partition_bytes_def by (intro add_mono mult_le_mono order_refl)

lemma holds_rows_bytes:
  assumes "holds_rows Fs c rows" and "set ids = {..<64}" "distinct ids"
  shows "partitions_bytes Fs ids \<le> 64 * partition_bytes (length rows)"
proof -
  have "length (partition_slots Fs i) \<le> length rows" if i: "i < 64" for i
  proof -
    have "map (\<lambda>F. length (output_slots i F)) Fs = map (\<lambda>t. length (rows_of rows i t)) [0..<length Fs]"
    proof (rule nth_equalityI)
      fix t assume "t < length (map (\<lambda>F. length (output_slots i F)) Fs)"
      then have t: "t < length Fs" by simp
      then have "map (\<lambda>a. the (payload c a)) (output_slots i (Fs ! t)) = rows_of rows i t"
        using assms(1) i unfolding holds_rows_def by blast
      from arg_cong[OF this, of length]
      show "map (\<lambda>F. length (output_slots i F)) Fs ! t = map (\<lambda>t. length (rows_of rows i t)) [0..<length Fs] ! t"
        using t by simp
    qed simp
    then have "length (partition_slots Fs i) = length (concat (map (rows_of rows i) [0..<length Fs]))"
      by (simp add: partition_slots_outputs length_concat comp_def)
    then show ?thesis using rows_of_length by simp
  qed
  then have "partitions_bytes Fs ids \<le> sum_list (map (\<lambda>i. partition_bytes (length rows)) ids)"
    unfolding partitions_bytes_def using assms(2) by (intro sum_list_mono partition_bytes_mono) auto
  also have "\<dots> = length ids * partition_bytes (length rows)" by (simp add: sum_list_triv)
  also have "length ids = 64" using assms(2,3) distinct_card[of ids] by simp
  finally show ?thesis .
qed

text \<open>C37: Parallel aggregation from end to end: however the threads' insertions are interleaved, and in
  whatever order the 64 partitions are merged, the resulting hash table holds the groups that one gets by
  absorbing the rows of each partition one by one, thread after thread; a lookup follows its chain to the
  group of a key or finds that there is none, and the iteration visits every group once. The only way to fail
  is a failing \<^verbatim>\<open>malloc\<close>.\<close>
theorem preaggregate_correct:
  assumes "good_malloc m" and "\<forall>s \<in> set sizes. 0 < s \<and> 256 * s < 18446744073709551616"
    and "\<forall>(t, h, x) \<in> set rows. t < length sizes" and "distinct ids" and "set ids = {..<64}"
  shows "case preaggregate m raw eq combine ids sizes rows rs of
      None \<Rightarrow> allocation_failed m (preagg_bytes (length rows) (sum_list sizes)) rs
    | Some (P, rs') \<Rightarrow>
        (\<forall>h x. \<exists>w r. preagg_lookup P h = Some w \<and> find_entry eq (pa_cells P) h x w = Some r \<and>
          map_option (\<lambda>a. the (payload (pa_cells P) a)) r =
            find (entry_matches eq h x) (rev (groups eq combine (length sizes) rows (outputIdx h)))) \<and>
        map (\<lambda>s. the (payload (pa_cells P) (unat (the (pa_stored P s))))) (flex_iterate (pa_buffer P)) =
          concat (map (groups eq combine (length sizes) rows) (rev ids))"
proof -
  let ?Fs = "map mk_fragment sizes"
  have "holds_rows ?Fs Map.empty []"
    by (auto simp: holds_rows_def rows_of_def mk_fragment_def output_slots_def)
  moreover have "\<forall>(t, h, x) \<in> set rows. t < length ?Fs" using assms(3) by simp
  moreover have "\<forall>F \<in> set ?Fs. frag_typeSize F \<le> sum_list sizes"
    by (auto simp: mk_fragment_def intro: member_le_sum_list)
  moreover have "length ([] :: (nat \<times> 64 word \<times> 'a) list) + length rows \<le> length rows" by simp
  ultimately have ins: "case insert_rows m raw rows (?Fs, Map.empty, rs) of
      None \<Rightarrow> allocation_failed m (length rows * insert_bytes (length rows) (sum_list sizes)) rs
    | Some (Fs', c', rs') \<Rightarrow> threads_ok rs' Fs' c' \<and> grown m (length rows * insert_bytes (length rows) (sum_list sizes)) rs rs' \<and> holds_rows Fs' c' ([] @ rows) \<and> length Fs' = length ?Fs"
    by (rule insert_rows_ok[OF assms(1) threads_ok_init[OF assms(2)]])
  show ?thesis
  proof (cases "insert_rows m raw rows (?Fs, Map.empty, rs)")
    case None
    then have "allocation_failed m (length rows * insert_bytes (length rows) (sum_list sizes)) rs" using ins by simp
    then have "allocation_failed m (preagg_bytes (length rows) (sum_list sizes)) rs"
      by (rule allocation_failed_mono) (simp add: preagg_bytes_def)
    then show ?thesis using None by (simp add: preaggregate_def)
  next
    case (Some r)
    obtain Fs c rs1 where r: "insert_rows m raw rows (?Fs, Map.empty, rs) = Some (Fs, c, rs1)" using Some by (cases r) auto
    have S: "threads_ok rs1 Fs c" "grown m (length rows * insert_bytes (length rows) (sum_list sizes)) rs rs1" "holds_rows Fs c rows" "length Fs = length sizes" using ins unfolding r by simp_all
    have bytes: "length rows * insert_bytes (length rows) (sum_list sizes) + (8 + partitions_bytes Fs ids)
        \<le> preagg_bytes (length rows) (sum_list sizes)"
      using holds_rows_bytes[OF S(3) assms(5,4)] by (simp add: preagg_bytes_def)
    note merge = preagg_merge_ok[OF assms(1) S(1) assms(4,5), of eq combine]
    show ?thesis
    proof (cases "preagg_merge m eq combine ids Fs c rs1")
      case None
      then show ?thesis using merge r allocation_failed_later[OF S(2) _ bytes] by (simp add: preaggregate_def)
    next
      case (Some q)
      then obtain P rs2 LS where q: "preagg_merge m eq combine ids Fs c rs1 = Some (P, rs2)" "parts_ok eq combine Fs c ids P rs2 LS"
        using merge by auto
      have g: "partition_groups eq combine Fs c i = groups eq combine (length sizes) rows i" if "i < 64" for i
        using holds_rows_groups[OF S(3) that] S(4) by simp
      have "outputIdx h < 64" for h using word_and_le1[of h 63] by (simp add: and.commute word_le_nat_alt)
      moreover have m: "map (partition_groups eq combine Fs c) (rev ids) = map (groups eq combine (length sizes) rows) (rev ids)"
        using g assms(5) by (intro map_cong) auto
      ultimately show ?thesis
        using r q(1) preagg_lookup_ok[OF q(2) assms(5)] trans[OF preagg_iterate_ok[OF q(2)] arg_cong[OF m, of concat]] g
        by (simp add: preaggregate_def del: map_eq_conv)
    qed
  qed
qed

text \<open>Two threads, three rows, two groups: key and value are bytes, the values are added.\<close>

definition sample_rows :: "(nat \<times> 64 word \<times> bytes) list" where
  "sample_rows = [(0, 5, [1, 10]), (1, 7, [2, 20]), (1, 5, [1, 30])]"

definition same_key :: "bytes \<Rightarrow> bytes \<Rightarrow> bool" where
  "same_key x y \<longleftrightarrow> hd x = hd y"

definition add_values :: "bytes \<Rightarrow> bytes \<Rightarrow> bytes" where
  "add_values x y = [hd x, x ! 1 + y ! 1]"

theorem preaggregate_correct_witness:
  "\<exists>P rs'. preaggregate bump [] same_key add_values [0..<64] [32, 32] sample_rows [] = Some (P, rs') \<and>
     (\<exists>w a. preagg_lookup P 5 = Some w \<and> find_entry same_key (pa_cells P) 5 [1, 0] w = Some (Some a) \<and> the (payload (pa_cells P) a) = (5, [1, 40])) \<and>
     (\<exists>w. preagg_lookup P 9 = Some w \<and> find_entry same_key (pa_cells P) 9 [1, 0] w = Some None)"
proof -
  let ?run = "preaggregate bump [] same_key add_values [0..<64] [32, 32] sample_rows []"
  have "\<not> allocation_failed bump (preagg_bytes (length sample_rows) (sum_list [32, 32])) []"
    by (intro bump_succeeds) (simp add: preagg_bytes_def insert_bytes_def partition_bytes_def sample_rows_def)
  moreover have hyps: "\<forall>s \<in> set [32, 32]. 0 < s \<and> 256 * s < (18446744073709551616 :: nat)"
      "\<forall>(t, h, x) \<in> set sample_rows. t < length [32, 32 :: nat]" "distinct [0..<64]" "set [0..<64] = {..<64}"
    by (auto simp: sample_rows_def)
  note all = preaggregate_correct[OF good_malloc_bump hyps, where raw = "[]" and eq = same_key and combine = add_values and rs = "[]"]
  ultimately obtain P rs' where run: "?run = Some (P, rs')" by (cases ?run) auto
  have find: "\<exists>w r. preagg_lookup P h = Some w \<and> find_entry same_key (pa_cells P) h x w = Some r \<and>
          map_option (\<lambda>a. the (payload (pa_cells P) a)) r =
            find (entry_matches same_key h x) (rev (groups same_key add_values (length [32, 32 :: nat]) sample_rows (outputIdx h)))" for h x
    using all unfolding run by simp
  have g: "groups same_key add_values (length [32, 32 :: nat]) sample_rows 5 = [(5, [1, 40])]"
      "groups same_key add_values (length [32, 32 :: nat]) sample_rows 9 = []"
    by (simp_all add: groups_def rows_of_def absorb_def entry_matches_def upt_rec sample_rows_def same_key_def add_values_def)
  show ?thesis
    using run find[of 5 "[1, 0]"] find[of 9 "[1, 0]"] g by (auto simp: entry_matches_def same_key_def)
qed

end
