(* ===== verification/Node_Set.thy ===== *)
theory Node_Set
  imports Prelude "HOL-Library.Monad_Syntax"
begin

text \<open>
  The bit sets of the join ordering (\<^verbatim>\<open>NodeSet\<close> in
  \<^verbatim>\<open>src/include/mlir/Dialect/RelAlg/Transforms/queryopt/utils.h\<close>, \<^verbatim>\<open>utils.cpp\<close>). A set is the set of
  its bits; the operations that depend on the size of the \<^verbatim>\<open>llvm::SmallBitVector\<close> take it as an
  argument.
\<close>

section \<open>The code\<close>

type_synonym nodeset = "nat set"

definition ones :: "nat \<Rightarrow> nodeset" where
  "ones n = {0..<n}"

definition fillUntil :: "nat \<Rightarrow> nat \<Rightarrow> nodeset" where
  "fillUntil n i = {0..<i + 1}"

definition single :: "nat \<Rightarrow> nodeset" where
  "single i = {i}"

definition flip :: "nat \<Rightarrow> nodeset \<Rightarrow> nodeset" where
  "flip n s = {0..<n} - s"

definition findFirst :: "nodeset \<Rightarrow> nat" where
  "findFirst s = Min s"

definition intersects :: "nodeset \<Rightarrow> nodeset \<Rightarrow> bool" where
  "intersects s t \<longleftrightarrow> s \<inter> t \<noteq> {}"

text \<open>
  \<^verbatim>\<open>find_first\<close> of an empty vector is -1, which the addition of 1 brings to 0.
\<close>

definition negate :: "nat \<Rightarrow> nodeset \<Rightarrow> nodeset" where
  "negate n s =
    (let after = (if s = {} then 0 else findFirst s + 1);
         flipLen = n - after
     in if flipLen \<noteq> 0 then (s - {after..<n}) \<union> ({after..<n} - s) else s)"

text \<open>The sets that \<^verbatim>\<open>iterateSubsets\<close> hands to its function, in order.\<close>

partial_function (option) subsets_loop :: "nat \<Rightarrow> nodeset \<Rightarrow> nodeset \<Rightarrow> nodeset list option" where
  "subsets_loop n s s1 =
    (if s1 = s then Some [s]
     else do {
       let s1flipped = flip n s1;
       let s2 = s \<inter> s1flipped;
       rest \<leftarrow> subsets_loop n s (s \<inter> negate n s2);
       Some (s1 # rest) })"

declare subsets_loop.simps [code]

definition iterateSubsets :: "nat \<Rightarrow> nodeset \<Rightarrow> nodeset list option" where
  "iterateSubsets n s = (if s = {} then Some [] else subsets_loop n s (s \<inter> negate n s))"

text \<open>\<^verbatim>\<open>iterateSetDec\<close> goes through a set from its greatest element to its least.\<close>

definition iterateSetDec :: "nodeset \<Rightarrow> nat list" where
  "iterateSetDec s = rev (sorted_list_of_set s)"

section \<open>Subsets in the order of their numbers\<close>

text \<open>One step is an increment: the least absent element comes in, what is below it goes.\<close>

definition next_subset :: "nodeset \<Rightarrow> nodeset \<Rightarrow> nodeset" where
  "next_subset s t = insert (Min (s - t)) {i \<in> t. Min (s - t) < i}"

lemma min_missing:
  fixes s t :: nodeset
  assumes "s \<subseteq> {0..<n}" and "t \<subset> s"
  shows "Min (s - t) \<in> s" and "Min (s - t) \<notin> t" and "\<And>i. i \<in> s \<Longrightarrow> i \<notin> t \<Longrightarrow> Min (s - t) \<le> i"
proof -
  have fin: "finite (s - t)" by (rule finite_subset[of _ "{0..<n}"]) (use assms(1) in auto)
  moreover have "s - t \<noteq> {}" using assms(2) by blast
  ultimately have "Min (s - t) \<in> s - t" by (rule Min_in)
  then show "Min (s - t) \<in> s" and "Min (s - t) \<notin> t" by auto
  show "\<And>i. i \<in> s \<Longrightarrow> i \<notin> t \<Longrightarrow> Min (s - t) \<le> i" using fin by auto
qed

lemma negate_step:
  assumes "s \<subseteq> {0..<n}" and "t \<subset> s"
  shows "s \<inter> negate n (s \<inter> flip n t) = next_subset s t"
proof -
  note m = min_missing[OF assms]
  have eq: "s \<inter> flip n t = s - t" using assms(1) by (auto simp: flip_def)
  have "s - t \<noteq> {}" using m by blast
  then have "negate n (s - t) = (s - t - {Min (s - t) + 1..<n}) \<union> ({Min (s - t) + 1..<n} - (s - t))"
    using m(1) assms(1) by (auto simp: negate_def findFirst_def Let_def)
  moreover have "s \<inter> ((s - t - {k + 1..<n}) \<union> ({k + 1..<n} - (s - t))) = insert k {i \<in> t. k < i}"
    if k: "k \<in> s" "k \<notin> t" "\<And>i. i \<in> s \<Longrightarrow> i \<notin> t \<Longrightarrow> k \<le> i" for k
  proof (intro set_eqI)
    fix i
    have "i < n" if "i \<in> s" using assms(1) that by auto
    moreover have "i \<in> t \<Longrightarrow> i \<in> s" using assms(2) by blast
    moreover have "k = i \<or> k < i" if "i \<in> s" "i \<notin> t" using k(3)[OF that] by linarith
    ultimately show "i \<in> s \<inter> ((s - t - {k + 1..<n}) \<union> ({k + 1..<n} - (s - t)))
        \<longleftrightarrow> i \<in> insert k {i \<in> t. k < i}"
      using k(1,2) by (cases "i = k"; cases "i \<in> t"; cases "i \<in> s") auto
  qed
  ultimately show ?thesis using eq m by (simp add: next_subset_def)
qed

lemma next_subset_between:
  assumes "s \<subseteq> {0..<n}" and "t \<subset> s"
  shows "next_subset s t \<subseteq> s" and "next_subset s t \<noteq> {}"
  using min_missing(1)[OF assms] assms(2) by (auto simp: next_subset_def)

lemma subsets_loop_step:
  assumes "s \<subseteq> {0..<n}" and "t \<subset> s"
  shows "subsets_loop n s t = map_option ((#) t) (subsets_loop n s (next_subset s t))"
proof -
  have "t \<noteq> s" using assms(2) by blast
  then show ?thesis
    by (subst subsets_loop.simps) (simp add: negate_step[OF assms] Let_def map_conv_bind_option comp_def)
qed

lemma subsets_loop_end: "subsets_loop n s s = Some [s]"
  by (subst subsets_loop.simps) simp

lemma subsets_loop_Some:
  assumes "s \<subseteq> {0..<n}" and "t \<subseteq> s" and "subsets_loop n s t = Some ts"
  obtains "t = s" and "ts = [s]"
  | ts' where "t \<subset> s" and "ts = t # ts'" and "subsets_loop n s (next_subset s t) = Some ts'"
proof (cases "t = s")
  case False
  then have "t \<subset> s" using assms(2) by blast
  then show thesis using that(2) subsets_loop_step[OF assms(1)] assms(3) by auto
qed (use that(1) assms(3) in \<open>auto simp: subsets_loop_end\<close>)

text \<open>The non-empty subsets of the elements of a list, the sets without its first element first.\<close>

fun subsets_of :: "nat list \<Rightarrow> nodeset list" where
  "subsets_of [] = []"
| "subsets_of (a # as) = subsets_of as @ {a} # map (insert a) (subsets_of as)"

lemma set_subsets_of: "set (subsets_of as) = {t. t \<subseteq> set as \<and> t \<noteq> {}}"
proof (induction as)
  case (Cons a as)
  have "t \<in> set (subsets_of (a # as))" if t: "t \<subseteq> set (a # as)" "t \<noteq> {}" for t
  proof (cases "a \<in> t")
    case True
    then have t': "insert a (t - {a}) = t" by (rule insert_Diff)
    have "t - {a} \<subseteq> set as" using t by auto
    show ?thesis
    proof (cases "t - {a} = {}")
      case True
      then have "t = {a}" using True \<open>a \<in> t\<close> by blast
      then show ?thesis by simp
    next
      case False
      then have "t - {a} \<in> set (subsets_of as)" using Cons.IH \<open>t - {a} \<subseteq> set as\<close> by blast
      then have "t \<in> insert a ` set (subsets_of as)" by (rule rev_image_eqI) (rule t'[symmetric])
      then show ?thesis by simp
    qed
  qed (use t Cons.IH in auto)
  then show ?case using Cons.IH by auto
qed simp

lemma sorted_subsets_of: "distinct as \<Longrightarrow> sorted_wrt (\<lambda>s t. \<not> t \<subseteq> s) (subsets_of as)"
proof (induction as)
  case (Cons a as)
  have a: "a \<notin> t \<and> t \<noteq> {}" if "t \<in> set (subsets_of as)" for t
    using that Cons.prems by (auto simp: set_subsets_of)
  have IH: "sorted_wrt (\<lambda>s t. \<not> t \<subseteq> s) (subsets_of as)" using Cons by simp
  have "sorted_wrt (\<lambda>s t. \<not> insert a t \<subseteq> insert a s) (subsets_of as)"
  proof (rule sorted_wrt_mono_rel[OF _ IH])
    fix s t assume "s \<in> set (subsets_of as)" "t \<in> set (subsets_of as)" "\<not> t \<subseteq> s"
    then show "\<not> insert a t \<subseteq> insert a s" using a by blast
  qed
  moreover have "\<not> insert a t \<subseteq> s \<and> \<not> {a} \<subseteq> s \<and> \<not> insert a t \<subseteq> {a}"
    if "s \<in> set (subsets_of as)" "t \<in> set (subsets_of as)" for s t using that a by blast
  ultimately show ?case using IH by (simp add: sorted_wrt_append sorted_wrt_map)
qed simp

lemma subsets_loop_below:
  assumes sub: "insert a s \<subseteq> {0..<n}" and less: "\<And>i. i \<in> s \<Longrightarrow> i < a" and "t \<subseteq> s"
    and "subsets_loop n s t = Some ts"
  shows "subsets_loop n (insert a s) t = map_option ((@) ts) (subsets_loop n (insert a s) {a})"
  using assms(3,4)
proof (induction ts arbitrary: t)
  case Nil
  have "s \<subseteq> {0..<n}" using sub by blast
  then show ?case using Nil by (cases rule: subsets_loop_Some) simp_all
next
  case (Cons t' ts)
  have "s \<subseteq> {0..<n}" and "a \<notin> s" using sub less by auto
  then have t: "t \<subset> insert a s" using Cons.prems(1) by auto
  show ?case using \<open>s \<subseteq> {0..<n}\<close> Cons.prems
  proof (cases rule: subsets_loop_Some)
    case 1
    then have "insert a s - t = {a}" using \<open>a \<notin> s\<close> by auto
    moreover have "{i \<in> t. a < i} = {}" using less 1(1) by (auto dest: less_asym)
    ultimately have "next_subset (insert a s) t = {a}" by (auto simp: next_subset_def)
    then have "subsets_loop n (insert a s) t = map_option ((#) t) (subsets_loop n (insert a s) {a})"
      using subsets_loop_step[OF sub t] by simp
    moreover have "(@) (t' # ts) = (#) t" using 1 by auto
    ultimately show ?thesis by simp
  next
    case (2 ts')
    note m = min_missing[OF \<open>s \<subseteq> {0..<n}\<close> \<open>t \<subset> s\<close>]
    have "finite (insert a s - t)" by (rule finite_subset[of _ "{0..<n}"]) (use sub in auto)
    then have "Min (insert a s - t) = Min (s - t)"
      using m(1,2) less[OF m(1)] by (intro Min_eqI) (auto intro: m(3) less_imp_le)
    then have "next_subset (insert a s) t = next_subset s t" by (simp add: next_subset_def)
    then have "subsets_loop n (insert a s) t
        = map_option ((#) t) (map_option ((@) ts') (subsets_loop n (insert a s) {a}))"
      using subsets_loop_step[OF sub t] 2 Cons.IH[of "next_subset s t"]
        next_subset_between(1)[OF \<open>s \<subseteq> {0..<n}\<close> \<open>t \<subset> s\<close>] by simp
    then show ?thesis using 2(2) by (simp add: option.map_comp comp_def)
  qed
qed

lemma subsets_loop_above:
  assumes sub: "insert a s \<subseteq> {0..<n}" and less: "\<And>i. i \<in> s \<Longrightarrow> i < a" and "t \<subseteq> s"
    and "subsets_loop n s t = Some ts"
  shows "subsets_loop n (insert a s) (insert a t) = Some (map (insert a) ts)"
  using assms(3,4)
proof (induction ts arbitrary: t)
  case Nil
  have "s \<subseteq> {0..<n}" using sub by blast
  then show ?case using Nil by (cases rule: subsets_loop_Some) simp_all
next
  case (Cons t' ts)
  have "s \<subseteq> {0..<n}" and "a \<notin> s" using sub less by auto
  show ?case using \<open>s \<subseteq> {0..<n}\<close> Cons.prems
  proof (cases rule: subsets_loop_Some)
    case 1
    then show ?thesis by (simp add: subsets_loop_end)
  next
    case (2 ts')
    note m = min_missing[OF \<open>s \<subseteq> {0..<n}\<close> \<open>t \<subset> s\<close>]
    have "insert a s - insert a t = s - t" using \<open>a \<notin> s\<close> by auto
    then have "next_subset (insert a s) (insert a t) = insert a (next_subset s t)"
      using less[OF m(1)] by (auto simp: next_subset_def)
    moreover have "insert a t \<subset> insert a s" using \<open>t \<subset> s\<close> \<open>a \<notin> s\<close> by auto
    ultimately show ?thesis
      using subsets_loop_step[OF sub, of "insert a t"] 2(2,3) Cons.IH[of "next_subset s t"]
        next_subset_between(1)[OF \<open>s \<subseteq> {0..<n}\<close> \<open>t \<subset> s\<close>] by simp
  qed
qed

lemma subsets_loop_all:
  assumes "finite s" and "s \<subseteq> {0..<n}"
  shows "subsets_loop n s {} = Some ({} # subsets_of (rev (sorted_list_of_set s)))"
  using assms
proof (induction rule: finite_linorder_max_induct)
  case empty
  then show ?case by (simp add: subsets_loop_end)
next
  case (insert a s)
  have "sorted_list_of_set (insert a s) = sorted_list_of_set s @ [a]"
    using insert.hyps
    by (intro sorted_distinct_set_unique)
      (auto simp: sorted_append less_imp_le simp del: sorted_list_of_set_insert_remove)
  then show ?case
    using insert subsets_loop_below[of a s n "{}"] subsets_loop_above[of a s n "{}"]
    by (simp del: sorted_list_of_set_insert_remove)
qed

section \<open>What \<open>iterateSubsets\<close> goes through\<close>

lemma iterateSubsets_eq:
  assumes "s \<subseteq> {0..<n}"
  shows "iterateSubsets n s = Some (subsets_of (rev (sorted_list_of_set s)))"
proof (cases "s = {}")
  case False
  then have "{} \<subset> s" by auto
  moreover have "s \<inter> flip n {} = s" using assms by (auto simp: flip_def)
  ultimately have "iterateSubsets n s = subsets_loop n s (next_subset s {})"
    using False negate_step[OF assms, of "{}"] by (simp add: iterateSubsets_def)
  then show ?thesis
    using subsets_loop_all[OF _ assms] subsets_loop_step[OF assms \<open>{} \<subset> s\<close>] assms finite_subset by auto
qed (simp add: iterateSubsets_def)

text \<open>C35: \<^verbatim>\<open>NodeSet::iterateSubsets\<close> (negation and intersection of bit vectors) returns, and hands
  its function every non-empty subset exactly once, no set after one that contains it.\<close>
theorem iterateSubsets_correct:
  assumes "s \<subseteq> {0..<n}"
  shows "\<exists>ts. iterateSubsets n s = Some ts \<and> distinct ts \<and> set ts = {t. t \<subseteq> s \<and> t \<noteq> {}}
    \<and> (\<forall>i j. i < j \<and> j < length ts \<longrightarrow> \<not> ts ! j \<subseteq> ts ! i)"
proof -
  let ?ts = "subsets_of (rev (sorted_list_of_set s))"
  have sorted: "sorted_wrt (\<lambda>s t. \<not> t \<subseteq> s) ?ts" by (intro sorted_subsets_of) simp
  have "distinct ts" if "sorted_wrt (\<lambda>s t. \<not> t \<subseteq> s) ts" for ts :: "nodeset list"
    using that by (induction ts) auto
  then have "distinct ?ts" using sorted .
  moreover have "set ?ts = {t. t \<subseteq> s \<and> t \<noteq> {}}"
    using set_subsets_of assms finite_subset[of s "{0..<n}"] by simp
  ultimately show ?thesis
    using iterateSubsets_eq[OF assms] sorted by (auto simp: sorted_wrt_iff_nth_less)
qed

lemma iterateSubsets_correct_witness:
  "\<exists>ts. iterateSubsets 5 {0, 2, 3} = Some ts \<and> distinct ts \<and> set ts = {t. t \<subseteq> {0, 2, 3} \<and> t \<noteq> {}}
    \<and> (\<forall>i j. i < j \<and> j < length ts \<longrightarrow> \<not> ts ! j \<subseteq> ts ! i)"
  by (rule iterateSubsets_correct) auto

end
