(* ===== verification/RelAlg_Operators.thy ===== *)
theory RelAlg_Operators
  imports Prelude
begin

text \<open>
  The kinds of relational operators and what the optimizer knows about reordering them:
  \<^verbatim>\<open>BinaryOperatorType\<close>, \<^verbatim>\<open>UnaryOperatorType\<close> and the compatibility tables of
  \<^verbatim>\<open>src/include/mlir/Dialect/RelAlg/IR/RelAlgOpsInterfaces.h\<close>, the classification of an
  operation in \<^verbatim>\<open>src/lib/RelAlg/OperatorInterfaceImpl.cpp\<close>. An operation is known by its class;
  \<open>ProjectionOp\<close> carries whether its set semantics is distinct.
\<close>

section \<open>Kinds of operations\<close>

datatype op_kind = UnionOp | IntersectOp | ExceptOp | CrossProductOp | InnerJoinOp | SemiJoinOp
  | AntiSemiJoinOp | SingleJoinOp | MarkJoinOp | CollectionJoinOp | OuterJoinOp | FullOuterJoinOp
  | SelectionOp | MapOp | ProjectionOp bool | AggregationOp | BaseTableOp | OtherOp

datatype binary_type = NoBinary | UnionType | IntersectionType | ExceptType | CPType | InnerJoinType
  | SemiJoinType | AntiSemiJoinType | OuterJoinType | FullOuterJoinType | MarkJoinType
  | CollectionJoinType

datatype unary_type = NoUnary | DistinctProjectionType | ProjectionType | MapType | SelectionType
  | AggregationType

fun getBinaryOperatorType :: "op_kind \<Rightarrow> binary_type" where
  "getBinaryOperatorType UnionOp = UnionType"
| "getBinaryOperatorType IntersectOp = IntersectionType"
| "getBinaryOperatorType ExceptOp = ExceptType"
| "getBinaryOperatorType CrossProductOp = CPType"
| "getBinaryOperatorType InnerJoinOp = InnerJoinType"
| "getBinaryOperatorType SemiJoinOp = SemiJoinType"
| "getBinaryOperatorType AntiSemiJoinOp = AntiSemiJoinType"
| "getBinaryOperatorType SingleJoinOp = OuterJoinType"
| "getBinaryOperatorType MarkJoinOp = MarkJoinType"
| "getBinaryOperatorType CollectionJoinOp = CollectionJoinType"
| "getBinaryOperatorType OuterJoinOp = OuterJoinType"
| "getBinaryOperatorType FullOuterJoinOp = FullOuterJoinType"
| "getBinaryOperatorType _ = NoBinary"

fun getUnaryOperatorType :: "op_kind \<Rightarrow> unary_type" where
  "getUnaryOperatorType SelectionOp = SelectionType"
| "getUnaryOperatorType MapOp = MapType"
| "getUnaryOperatorType (ProjectionOp dist) = (if dist then DistinctProjectionType else ProjectionType)"
| "getUnaryOperatorType AggregationOp = AggregationType"
| "getUnaryOperatorType _ = NoUnary"

text \<open>The numbers of the enumeration; a join is what lies between the inner and the collection join.\<close>

fun binary_number :: "binary_type \<Rightarrow> nat" where
  "binary_number NoBinary = 0"
| "binary_number UnionType = 1"
| "binary_number IntersectionType = 2"
| "binary_number ExceptType = 3"
| "binary_number CPType = 4"
| "binary_number InnerJoinType = 5"
| "binary_number SemiJoinType = 6"
| "binary_number AntiSemiJoinType = 7"
| "binary_number OuterJoinType = 8"
| "binary_number FullOuterJoinType = 9"
| "binary_number MarkJoinType = 10"
| "binary_number CollectionJoinType = 11"

definition isJoin :: "op_kind \<Rightarrow> bool" where
  "isJoin op \<longleftrightarrow> (let opType = binary_number (getBinaryOperatorType op)
     in binary_number InnerJoinType \<le> opType \<and> opType \<le> binary_number CollectionJoinType)"

section \<open>Compatibility tables\<close>

definition assoc :: "(binary_type \<times> binary_type) list" where
  "assoc =
    [(UnionType, UnionType), (IntersectionType, IntersectionType),
     (IntersectionType, SemiJoinType), (IntersectionType, AntiSemiJoinType), (CPType, CPType),
     (CPType, InnerJoinType), (CPType, SemiJoinType), (CPType, AntiSemiJoinType),
     (CPType, OuterJoinType), (CPType, MarkJoinType), (CPType, CollectionJoinType),
     (InnerJoinType, CPType), (InnerJoinType, InnerJoinType), (InnerJoinType, SemiJoinType),
     (InnerJoinType, AntiSemiJoinType), (InnerJoinType, OuterJoinType),
     (InnerJoinType, MarkJoinType), (InnerJoinType, CollectionJoinType)]"

definition lAsscom :: "(binary_type \<times> binary_type) list" where
  "lAsscom =
    [(UnionType, UnionType), (IntersectionType, IntersectionType),
     (IntersectionType, SemiJoinType), (IntersectionType, AntiSemiJoinType),
     (ExceptType, SemiJoinType), (ExceptType, AntiSemiJoinType), (CPType, CPType),
     (CPType, InnerJoinType), (CPType, SemiJoinType), (CPType, AntiSemiJoinType),
     (CPType, OuterJoinType), (CPType, MarkJoinType), (CPType, CollectionJoinType),
     (InnerJoinType, CPType), (InnerJoinType, InnerJoinType), (InnerJoinType, SemiJoinType),
     (InnerJoinType, AntiSemiJoinType), (InnerJoinType, OuterJoinType),
     (InnerJoinType, MarkJoinType), (InnerJoinType, CollectionJoinType),
     (SemiJoinType, IntersectionType), (SemiJoinType, ExceptType), (SemiJoinType, CPType),
     (SemiJoinType, InnerJoinType), (SemiJoinType, SemiJoinType), (SemiJoinType, AntiSemiJoinType),
     (SemiJoinType, OuterJoinType), (SemiJoinType, MarkJoinType),
     (SemiJoinType, CollectionJoinType), (AntiSemiJoinType, IntersectionType),
     (AntiSemiJoinType, ExceptType), (AntiSemiJoinType, CPType), (AntiSemiJoinType, InnerJoinType),
     (AntiSemiJoinType, SemiJoinType), (AntiSemiJoinType, AntiSemiJoinType),
     (AntiSemiJoinType, OuterJoinType), (AntiSemiJoinType, MarkJoinType),
     (AntiSemiJoinType, CollectionJoinType), (OuterJoinType, CPType),
     (OuterJoinType, InnerJoinType), (OuterJoinType, SemiJoinType),
     (OuterJoinType, AntiSemiJoinType), (OuterJoinType, OuterJoinType),
     (OuterJoinType, MarkJoinType), (OuterJoinType, CollectionJoinType), (MarkJoinType, CPType),
     (MarkJoinType, InnerJoinType), (MarkJoinType, SemiJoinType), (MarkJoinType, AntiSemiJoinType),
     (MarkJoinType, OuterJoinType), (MarkJoinType, CollectionJoinType),
     (MarkJoinType, MarkJoinType), (CollectionJoinType, CPType),
     (CollectionJoinType, InnerJoinType), (CollectionJoinType, SemiJoinType),
     (CollectionJoinType, AntiSemiJoinType), (CollectionJoinType, OuterJoinType),
     (CollectionJoinType, MarkJoinType), (CollectionJoinType, CollectionJoinType)]"

definition rAsscom :: "(binary_type \<times> binary_type) list" where
  "rAsscom =
    [(UnionType, UnionType), (IntersectionType, IntersectionType), (CPType, CPType),
     (CPType, InnerJoinType)]"

definition lPushable :: "(unary_type \<times> binary_type) list" where
  "lPushable =
    [(DistinctProjectionType, IntersectionType), (DistinctProjectionType, ExceptType),
     (DistinctProjectionType, SemiJoinType), (DistinctProjectionType, AntiSemiJoinType),
     (ProjectionType, SemiJoinType), (ProjectionType, AntiSemiJoinType),
     (SelectionType, IntersectionType), (SelectionType, ExceptType), (SelectionType, CPType),
     (SelectionType, InnerJoinType), (SelectionType, SemiJoinType),
     (SelectionType, AntiSemiJoinType), (SelectionType, OuterJoinType), (MapType, CPType),
     (MapType, InnerJoinType), (MapType, SemiJoinType), (MapType, AntiSemiJoinType),
     (MapType, OuterJoinType), (AggregationType, SemiJoinType),
     (AggregationType, AntiSemiJoinType)]"

definition rPushable :: "(unary_type \<times> binary_type) list" where
  "rPushable =
    [(DistinctProjectionType, IntersectionType), (MapType, CPType), (MapType, InnerJoinType),
     (SelectionType, IntersectionType), (SelectionType, CPType), (SelectionType, InnerJoinType)]"

definition reorderable :: "(unary_type \<times> unary_type) list" where
  "reorderable =
    [(DistinctProjectionType, DistinctProjectionType), (DistinctProjectionType, SelectionType),
     (DistinctProjectionType, MapType), (ProjectionType, SelectionType), (ProjectionType, MapType),
     (SelectionType, DistinctProjectionType), (SelectionType, ProjectionType),
     (SelectionType, SelectionType), (SelectionType, MapType), (MapType, DistinctProjectionType),
     (MapType, ProjectionType), (MapType, SelectionType), (MapType, MapType)]"

definition contains :: "('a \<times> 'b) list \<Rightarrow> 'a \<Rightarrow> 'b \<Rightarrow> bool" where
  "contains table a b \<longleftrightarrow> (a, b) \<in> set table"

text \<open>The questions the operators ask of the tables (\<^verbatim>\<open>RelAlgInterfaces.td\<close>).\<close>

definition isAssoc :: "op_kind \<Rightarrow> op_kind \<Rightarrow> bool" where
  "isAssoc a b \<longleftrightarrow> contains assoc (getBinaryOperatorType a) (getBinaryOperatorType b)"

definition isLAsscom :: "op_kind \<Rightarrow> op_kind \<Rightarrow> bool" where
  "isLAsscom a b \<longleftrightarrow> contains lAsscom (getBinaryOperatorType a) (getBinaryOperatorType b)"

definition isRAsscom :: "op_kind \<Rightarrow> op_kind \<Rightarrow> bool" where
  "isRAsscom a b \<longleftrightarrow> contains rAsscom (getBinaryOperatorType a) (getBinaryOperatorType b)"

end
