(* ===== verification/Query_Graph.thy ===== *)
theory Query_Graph
  imports Node_Set RelAlg_Operators IEEE_Float
begin

text \<open>
  The query graph (\<^verbatim>\<open>src/include/mlir/Dialect/RelAlg/Transforms/queryopt/QueryGraph.h\<close>). Relations are
  nodes, predicates over two sides are join edges, the other predicates selection edges; a pseudo
  node stands for the columns a join creates. Of an MLIR operation the graph keeps what the optimizer
  reads: its identity, its kind, the columns it makes available and, for a predicate, the operations
  of its block in the order they are walked. Doubles are the bit patterns of binary64. The selectivities a
  selection edge has cached are kept outside the graph (\<open>Join_Plan\<close>): nothing else of it changes
  while plans are enumerated.
\<close>

section \<open>Data\<close>

text \<open>
  The operations of a predicate block; results and operands are numbered values. A comparison is
  \<^verbatim>\<open>db.compare\<close> with its predicate, or one of the \<^verbatim>\<open>arith\<close> dialect, of which only matters whether it is
  an equality. \<^verbatim>\<open>isa\<close> is the equality under which NULL equals NULL.
\<close>

datatype cmp_predicate = EqP | NeqP | LtP | LteP | GtP | GteP | IsaP

datatype cmp_op = DbCmp cmp_predicate | ArithCmp bool

fun isEqualityPred :: "cmp_op \<Rightarrow> bool \<Rightarrow> bool" where
  "isEqualityPred (DbCmp p) nullsAreEqual \<longleftrightarrow> p = EqP \<or> (if nullsAreEqual then p = IsaP else False)"
| "isEqualityPred (ArithCmp eq) nullsAreEqual \<longleftrightarrow> eq"

datatype block_op = GetColumnOp (res_value: nat) (col: nat)
  | CmpOp (res_value: nat) (cmp: cmp_op) (lhs: nat) (rhs: nat)
  | PlainOp (res_values: "nat list") (args: "nat list")

fun results_of :: "block_op \<Rightarrow> nat list" where
  "results_of (GetColumnOp r c) = [r]"
| "results_of (CmpOp r p x y) = [r]"
| "results_of (PlainOp rs as) = rs"

fun columns_read :: "block_op \<Rightarrow> nat set" where
  "columns_read (GetColumnOp r c) = {c}"
| "columns_read b = {}"

record table_meta =
  primaryKey :: "nat set"
  numRows :: nat
  tableIdentifier :: string

record operator =
  op_id :: nat
  op_kind :: op_kind
  availableColumns :: "nat set"
  createdColumns :: "nat set"
  mappedColumns :: "nat set"
  predicateBlock :: "block_op list option"
  returned :: "nat list"
  baseTable :: "table_meta option"
  rowsAttr :: "nat option"

text \<open>
  The columns an operator uses: those its block reads, and those its mapping takes over.
\<close>

definition usedColumns :: "operator \<Rightarrow> nat set" where
  "usedColumns op = (case predicateBlock op of None \<Rightarrow> {} | Some bs \<Rightarrow> \<Union> (set (map columns_read bs))) \<union> mappedColumns op"

record selection_edge =
  se_id :: nat
  required :: nodeset
  se_op :: operator
  se_selectivity :: nat

record join_edge =
  je_op :: "operator option"
  je_right :: nodeset
  je_left :: nodeset
  je_selectivity :: nat
  createdNode :: "nat option"
  equality :: "(nat \<times> nat) option"

record qnode =
  qn_id :: nat
  qn_op :: operator
  additionalPredicates :: "operator list"
  qn_selectivity :: nat
  qn_rows :: nat
  edges :: "nat list"
  node_selections :: "nat list"

record query_graph =
  numNodes :: nat
  pseudoNodes :: nat
  normalNodesMask :: nodeset
  maskSize :: nat
  nodes :: "qnode list"
  joins :: "join_edge list"
  selections :: "selection_edge list"
  pseudoNodeOwner :: "nat \<rightharpoonup> nat"

definition new_graph :: "nat \<Rightarrow> query_graph" where
  "new_graph n = \<lparr>numNodes = n, pseudoNodes = 0, normalNodesMask = {}, maskSize = 0, nodes = [],
     joins = [], selections = [], pseudoNodeOwner = Map.empty\<rparr>"

section \<open>Edges\<close>

definition se_connects :: "selection_edge \<Rightarrow> nodeset \<Rightarrow> nodeset \<Rightarrow> bool" where
  "se_connects e s1 s2 \<longleftrightarrow>
     required e \<subseteq> s1 \<union> s2 \<and> \<not> required e \<subseteq> s1 \<and> \<not> required e \<subseteq> s2"

definition se_connects2 :: "selection_edge \<Rightarrow> nodeset \<Rightarrow> nodeset \<Rightarrow> nodeset \<Rightarrow> bool" where
  "se_connects2 e complete s1 s2 \<longleftrightarrow>
     required e \<subseteq> complete \<and> \<not> required e \<subseteq> s1 \<and> \<not> required e \<subseteq> s2"

definition se_findNeighbor :: "nat \<Rightarrow> selection_edge \<Rightarrow> nodeset \<Rightarrow> nodeset \<Rightarrow> nat option" where
  "se_findNeighbor n e s x =
    (let remaining = required e \<inter> flip n s
     in if \<not> intersects x remaining \<and> remaining \<noteq> {} then Some (findFirst remaining) else None)"

definition je_connects :: "join_edge \<Rightarrow> nodeset \<Rightarrow> nodeset \<Rightarrow> bool" where
  "je_connects e s1 s2 \<longleftrightarrow>
    (if \<not> (je_left e \<noteq> {} \<and> je_right e \<noteq> {}) then False
     else if je_left e \<subseteq> s1 \<and> je_right e \<subseteq> s2 then True
     else if je_left e \<subseteq> s2 \<and> je_right e \<subseteq> s1 then True
     else False)"

definition je_findNeighbor :: "join_edge \<Rightarrow> nodeset \<Rightarrow> nodeset \<Rightarrow> nat option" where
  "je_findNeighbor e s x =
    (if je_left e \<subseteq> s \<and> \<not> intersects s (je_right e) then
       let otherside = je_right e
       in if \<not> intersects x otherside \<and> otherside \<noteq> {} then Some (findFirst otherside) else None
     else if je_right e \<subseteq> s \<and> \<not> intersects s (je_left e) then
       let otherside = je_left e
       in if \<not> intersects x otherside \<and> otherside \<noteq> {} then Some (findFirst otherside) else None
     else None)"

section \<open>Building the graph\<close>

definition addPseudoNode :: "query_graph \<Rightarrow> nat \<times> query_graph" where
  "addPseudoNode g =
    (let p = pseudoNodes g + 1
     in (numNodes g - p,
         g\<lparr>pseudoNodes := p, normalNodesMask := {0..<numNodes g - p}, maskSize := numNodes g\<rparr>))"

text \<open>
  The equality of two columns a predicate returns: the defining operation of the first returned
  value is an equality of \<^verbatim>\<open>db.compare\<close> between two columns.
\<close>

definition getDefiningOp :: "block_op list \<Rightarrow> nat \<Rightarrow> block_op option" where
  "getDefiningOp bs v = find (\<lambda>b. v \<in> set (results_of b)) bs"

definition column_of :: "block_op list \<Rightarrow> nat \<Rightarrow> nat option" where
  "column_of bs v = (case getDefiningOp bs v of Some (GetColumnOp r c) \<Rightarrow> Some c | _ \<Rightarrow> None)"

definition analyzePredicate :: "operator \<Rightarrow> (nat \<times> nat) option" where
  "analyzePredicate sel =
    (case predicateBlock sel of
       None \<Rightarrow> None
     | Some bs \<Rightarrow>
        (case returned sel of
           [] \<Rightarrow> None
         | v # _ \<Rightarrow>
            (case getDefiningOp bs v of
               Some (CmpOp r (DbCmp p) x y) \<Rightarrow>
                 if \<not> isEqualityPred (DbCmp p) True then None
                 else (case (column_of bs x, column_of bs y) of
                         (Some c, Some d) \<Rightarrow> Some (c, d) | _ \<Rightarrow> None)
             | _ \<Rightarrow> None)))"

text \<open>The edge is entered at every node of one of its sides; pseudo nodes have no entry.\<close>

definition enter_edge :: "nat \<Rightarrow> nodeset \<Rightarrow> query_graph \<Rightarrow> query_graph" where
  "enter_edge edgeid side g =
     g\<lparr>nodes := fold (\<lambda>n ns. if n \<ge> length ns then ns
                           else ns[n := (ns ! n)\<lparr>edges := edges (ns ! n) @ [edgeid]\<rparr>])
                  (sorted_list_of_set side) (nodes g)\<rparr>"

definition one :: nat where "one = 0x3FF0000000000000"

function addJoinEdge ::
    "nodeset \<Rightarrow> nodeset \<Rightarrow> operator option \<Rightarrow> nat option \<Rightarrow> query_graph \<Rightarrow> query_graph" where
  "addJoinEdge left right op created g =
    (let edgeid = length (joins g);
         eq = (case op of
                 Some p \<Rightarrow> if op_kind p \<in> {SelectionOp, InnerJoinOp} then analyzePredicate p else None
               | None \<Rightarrow> None);
         e = \<lparr>je_op = op, je_right = right, je_left = left, je_selectivity = one,
              createdNode = created, equality = eq\<rparr>;
         g1 = g\<lparr>joins := joins g @ [e]\<rparr>;
         g2 = (case created of
                 None \<Rightarrow> g1
               | Some c \<Rightarrow> addJoinEdge (left \<union> right) (single c) None None
                   (g1\<lparr>pseudoNodeOwner := (pseudoNodeOwner g1)(c \<mapsto> edgeid)\<rparr>))
     in enter_edge edgeid right (enter_edge edgeid left g2))"
  by pat_completeness auto
termination
  by (relation "measure (\<lambda>(_, _, _, created, _). case created of None \<Rightarrow> 0 | Some _ \<Rightarrow> 1)") auto

declare addJoinEdge.simps [simp del]

definition enter_selection :: "nat \<Rightarrow> nodeset \<Rightarrow> query_graph \<Rightarrow> query_graph" where
  "enter_selection edgeid need g =
     g\<lparr>nodes := fold (\<lambda>n ns. if n \<ge> length ns then ns
                           else ns[n := (ns ! n)\<lparr>node_selections := node_selections (ns ! n) @ [edgeid]\<rparr>])
                  (sorted_list_of_set need) (nodes g)\<rparr>"

definition addSelectionEdge :: "nodeset \<Rightarrow> operator \<Rightarrow> query_graph \<Rightarrow> query_graph" where
  "addSelectionEdge need op g =
    (if card need = 2 \<and> Min need < length (nodes g) \<and> Max need < length (nodes g) then
       addJoinEdge {Min need} {Max need} (Some op) None g
     else
       let edgeid = length (selections g);
           e = \<lparr>se_id = edgeid, required = need, se_op = op, se_selectivity = one\<rparr>
       in enter_selection edgeid need (g\<lparr>selections := selections g @ [e]\<rparr>))"

section \<open>Connectedness\<close>

text \<open>\<^verbatim>\<open>operator[]\<close> of the owner map gives 0 for a node without an entry.\<close>

definition owner_edge :: "query_graph \<Rightarrow> nat \<Rightarrow> join_edge" where
  "owner_edge g p = joins g ! (case pseudoNodeOwner g p of None \<Rightarrow> 0 | Some i \<Rightarrow> i)"

definition containsLonelyPseudo :: "query_graph \<Rightarrow> nodeset \<Rightarrow> bool" where
  "containsLonelyPseudo g s1 \<longleftrightarrow>
    (if s1 \<subseteq> normalNodesMask g then False
     else \<exists>p\<in>s1 \<inter> flip (maskSize g) (normalNodesMask g).
            \<not> (je_left (owner_edge g p) \<subseteq> s1 \<and> je_right (owner_edge g p) \<subseteq> s1))"

text \<open>The nodes of a set, and the edges met there.\<close>

definition set_nodes :: "query_graph \<Rightarrow> nodeset \<Rightarrow> qnode list" where
  "set_nodes g s = map ((!) (nodes g)) (filter (\<lambda>v. v < length (nodes g)) (sorted_list_of_set s))"

definition set_joins :: "query_graph \<Rightarrow> nodeset \<Rightarrow> join_edge list" where
  "set_joins g s = concat (map (\<lambda>n. map ((!) (joins g)) (edges n)) (set_nodes g s))"

definition set_selections :: "query_graph \<Rightarrow> nodeset \<Rightarrow> selection_edge list" where
  "set_selections g s = concat (map (\<lambda>n. map ((!) (selections g)) (node_selections n)) (set_nodes g s))"

definition isConnected :: "query_graph \<Rightarrow> nodeset \<Rightarrow> nodeset \<Rightarrow> bool" where
  "isConnected g s1 s2 \<longleftrightarrow>
    (if containsLonelyPseudo g s1 \<or> containsLonelyPseudo g s2 then False
     else (\<exists>e\<in>set (set_joins g s1). je_connects e s1 s2)
        \<or> (\<exists>e\<in>set (set_selections g s1). se_connects e s1 s2))"

definition getNeighbors :: "query_graph \<Rightarrow> nodeset \<Rightarrow> nodeset \<Rightarrow> nodeset" where
  "getNeighbors g s x =
     set (List.map_filter (\<lambda>e. je_findNeighbor e s x) (set_joins g s))
     \<union> set (List.map_filter (\<lambda>e. se_findNeighbor (numNodes g) e s x) (set_selections g s))"

section \<open>Well-formed graphs\<close>

text \<open>
  What the builder of the graph keeps: a node is at its own place, an edge is entered exactly at the
  nodes of its sides, and the sides lie among the nodes and pseudo nodes there are. A created node is a
  pseudo node.
\<close>

definition present :: "query_graph \<Rightarrow> nodeset" where
  "present g = {0..<length (nodes g)} \<union> {numNodes g - pseudoNodes g..<numNodes g}"

definition node_ok :: "query_graph \<Rightarrow> nat \<Rightarrow> bool" where
  "node_ok g v \<longleftrightarrow> qn_id (nodes g ! v) = v
     \<and> set (edges (nodes g ! v)) = {i. i < length (joins g) \<and> v \<in> je_left (joins g ! i) \<union> je_right (joins g ! i)}
     \<and> set (node_selections (nodes g ! v)) = {i. i < length (selections g) \<and> v \<in> required (selections g ! i)}"

definition join_ok :: "query_graph \<Rightarrow> join_edge \<Rightarrow> bool" where
  "join_ok g e \<longleftrightarrow> je_left e \<union> je_right e \<subseteq> present g
     \<and> (\<forall>c. createdNode e = Some c \<longrightarrow> numNodes g - pseudoNodes g \<le> c \<and> c < numNodes g)"

definition mask_ok :: "query_graph \<Rightarrow> bool" where
  "mask_ok g \<longleftrightarrow> (if pseudoNodes g = 0 then normalNodesMask g = {} \<and> maskSize g = 0
     else normalNodesMask g = {0..<numNodes g - pseudoNodes g} \<and> maskSize g = numNodes g)"

definition graph_ok :: "query_graph \<Rightarrow> bool" where
  "graph_ok g \<longleftrightarrow> length (nodes g) + pseudoNodes g \<le> numNodes g \<and> mask_ok g
     \<and> (\<forall>v < length (nodes g). node_ok g v)
     \<and> (\<forall>e\<in>set (joins g). join_ok g e)
     \<and> (\<forall>e\<in>set (selections g). required e \<subseteq> present g)"

text \<open>
  A finished graph has all its nodes, and every pseudo node belongs to a join that has a side
  besides it.
\<close>

definition owners_ok :: "query_graph \<Rightarrow> bool" where
  "owners_ok g \<longleftrightarrow> (\<forall>p. numNodes g - pseudoNodes g \<le> p \<and> p < numNodes g \<longrightarrow>
     (\<exists>i. pseudoNodeOwner g p = Some i \<and> i < length (joins g)
        \<and> \<not> je_left (joins g ! i) \<union> je_right (joins g ! i) \<subseteq> {p}))"

definition wf_graph :: "query_graph \<Rightarrow> bool" where
  "wf_graph g \<longleftrightarrow> graph_ok g \<and> owners_ok g \<and> length (nodes g) + pseudoNodes g = numNodes g"

lemma present_below: "graph_ok g \<Longrightarrow> present g \<subseteq> {0..<numNodes g}"
  by (auto simp: graph_ok_def present_def)

lemma join_ok_below: "graph_ok g \<Longrightarrow> e \<in> set (joins g) \<Longrightarrow> je_left e \<union> je_right e \<subseteq> {0..<numNodes g}"
  using present_below[of g] unfolding graph_ok_def join_ok_def by blast

lemma required_below: "graph_ok g \<Longrightarrow> e \<in> set (selections g) \<Longrightarrow> required e \<subseteq> {0..<numNodes g}"
  using present_below[of g] unfolding graph_ok_def by blast

lemma set_nodes_eq: "finite s \<Longrightarrow> set (set_nodes g s) = (!) (nodes g) ` (s \<inter> {0..<length (nodes g)})"
  by (auto simp: set_nodes_def)

lemma set_joins_eq:
  assumes "graph_ok g" and "finite s"
  shows "set (set_joins g s) =
    {e \<in> set (joins g). \<exists>v\<in>s. v < length (nodes g) \<and> v \<in> je_left e \<union> je_right e}"
proof -
  have "set (set_joins g s) = (\<Union>v\<in>s \<inter> {0..<length (nodes g)}. (!) (joins g) ` set (edges (nodes g ! v)))"
    using assms(2) by (auto simp: set_joins_def set_nodes_eq)
  also have "\<dots> = (\<Union>v\<in>s \<inter> {0..<length (nodes g)}.
      (!) (joins g) ` {i. i < length (joins g) \<and> v \<in> je_left (joins g ! i) \<union> je_right (joins g ! i)})"
    using assms(1) by (auto simp: graph_ok_def node_ok_def)
  also have "\<dots> = {e \<in> set (joins g). \<exists>v\<in>s. v < length (nodes g) \<and> v \<in> je_left e \<union> je_right e}"
    by (fastforce simp: in_set_conv_nth)
  finally show ?thesis .
qed

lemma set_selections_eq:
  assumes "graph_ok g" and "finite s"
  shows "set (set_selections g s) =
    {e \<in> set (selections g). \<exists>v\<in>s. v < length (nodes g) \<and> v \<in> required e}"
proof -
  have "set (set_selections g s)
      = (\<Union>v\<in>s \<inter> {0..<length (nodes g)}. (!) (selections g) ` set (node_selections (nodes g ! v)))"
    using assms(2) by (auto simp: set_selections_def set_nodes_eq)
  also have "\<dots> = (\<Union>v\<in>s \<inter> {0..<length (nodes g)}.
      (!) (selections g) ` {i. i < length (selections g) \<and> v \<in> required (selections g ! i)})"
    using assms(1) by (auto simp: graph_ok_def node_ok_def)
  also have "\<dots> = {e \<in> set (selections g). \<exists>v\<in>s. v < length (nodes g) \<and> v \<in> required e}"
    by (fastforce simp: in_set_conv_nth)
  finally show ?thesis .
qed

text \<open>A neighbour is a node outside both sets.\<close>

lemma findFirst_in: "finite s \<Longrightarrow> s \<noteq> {} \<Longrightarrow> findFirst s \<in> s"
  by (simp add: findFirst_def)

lemma je_findNeighbor_outside:
  assumes "je_left e \<union> je_right e \<subseteq> {0..<n}" and "je_findNeighbor e s x = Some v"
  shows "v < n \<and> v \<notin> s \<and> v \<notin> x"
proof -
  have fin: "finite (je_left e)" "finite (je_right e)"
    using assms(1) finite_subset[of _ "{0..<n}"] by auto
  then show ?thesis
    using assms findFirst_in[of "je_left e"] findFirst_in[of "je_right e"]
    by (fastforce simp: je_findNeighbor_def intersects_def Let_def split: if_splits)
qed

lemma se_findNeighbor_outside:
  assumes "required e \<subseteq> {0..<n}" and "se_findNeighbor n e s x = Some v"
  shows "v < n \<and> v \<notin> s \<and> v \<notin> x"
proof -
  have "finite (required e \<inter> flip n s)" using assms(1) finite_subset by fastforce
  then show ?thesis
    using assms findFirst_in[of "required e \<inter> flip n s"]
    by (fastforce simp: se_findNeighbor_def intersects_def flip_def Let_def split: if_splits)
qed

lemma getNeighbors_outside:
  assumes "graph_ok g" and "finite s"
  shows "getNeighbors g s x \<subseteq> {0..<numNodes g}" and "getNeighbors g s x \<inter> (s \<union> x) = {}"
proof -
  have "v < numNodes g \<and> v \<notin> s \<and> v \<notin> x" if v: "v \<in> getNeighbors g s x" for v
  proof -
    consider e where "e \<in> set (set_joins g s)" "je_findNeighbor e s x = Some v"
      | e where "e \<in> set (set_selections g s)" "se_findNeighbor (numNodes g) e s x = Some v"
      using v by (auto simp: getNeighbors_def List.map_filter_def)
    then show ?thesis
    proof cases
      case 1
      then have "e \<in> set (joins g)" using set_joins_eq[OF assms] by auto
      then show ?thesis using je_findNeighbor_outside join_ok_below[OF assms(1)] 1(2) by blast
    next
      case 2
      then have "e \<in> set (selections g)" using set_selections_eq[OF assms] by auto
      then show ?thesis using se_findNeighbor_outside required_below[OF assms(1)] 2(2) by blast
    qed
  qed
  then show "getNeighbors g s x \<subseteq> {0..<numNodes g}" and "getNeighbors g s x \<inter> (s \<union> x) = {}" by auto
qed

text \<open>A pseudo node alone is connected to nothing.\<close>

lemma lonely_pseudo:
  assumes "wf_graph g" and "p < numNodes g" and "\<not> p < length (nodes g)"
  shows "containsLonelyPseudo g {p}"
proof -
  have p: "numNodes g - pseudoNodes g \<le> p" and ps: "pseudoNodes g \<noteq> 0"
    using assms by (auto simp: wf_graph_def)
  obtain i where i: "pseudoNodeOwner g p = Some i" "\<not> je_left (joins g ! i) \<union> je_right (joins g ! i) \<subseteq> {p}"
    using assms(1,2) p unfolding wf_graph_def owners_ok_def by blast
  have "normalNodesMask g = {0..<numNodes g - pseudoNodes g}" "maskSize g = numNodes g"
    using assms(1) ps by (auto simp: wf_graph_def graph_ok_def mask_ok_def)
  then show ?thesis using i p assms(2) by (auto simp: containsLonelyPseudo_def owner_edge_def flip_def)
qed

lemma isConnected_real:
  assumes "wf_graph g" and "v < numNodes g" and "isConnected g s (single v)"
  shows "v < length (nodes g)"
  using lonely_pseudo[OF assms(1,2)] assms(3) by (auto simp: isConnected_def single_def split: if_splits)

section \<open>Building keeps graphs well-formed\<close>

text \<open>\<^verbatim>\<open>QueryGraphBuilder::addNode\<close>; rows and selectivity are set by the estimation.\<close>

definition addNode :: "operator \<Rightarrow> query_graph \<Rightarrow> query_graph" where
  "addNode op g = g\<lparr>nodes := nodes g @ [\<lparr>qn_id = length (nodes g), qn_op = op, additionalPredicates = [],
     qn_selectivity = 0, qn_rows = 0, edges = [], node_selections = []\<rparr>]\<rparr>"

text \<open>A join that creates columns takes a pseudo node; both happen in one step of the builder.\<close>

definition addCreatingJoin :: "nodeset \<Rightarrow> nodeset \<Rightarrow> operator \<Rightarrow> query_graph \<Rightarrow> query_graph" where
  "addCreatingJoin left right op g =
     (let (newNode, g1) = addPseudoNode g in addJoinEdge left right (Some op) (Some newNode) g1)"

definition addPredicate :: "nat \<Rightarrow> operator \<Rightarrow> query_graph \<Rightarrow> query_graph" where
  "addPredicate v op g = g\<lparr>nodes := (nodes g)[v := (nodes g ! v)
     \<lparr>additionalPredicates := additionalPredicates (nodes g ! v) @ [op]\<rparr>]\<rparr>"

text \<open>The steps by which a graph of a given size comes about.\<close>

inductive graph_step :: "query_graph \<Rightarrow> query_graph \<Rightarrow> bool" where
  node: "length (nodes g) + pseudoNodes g < numNodes g \<Longrightarrow> graph_step g (addNode op g)"
| predicate: "v < length (nodes g) \<Longrightarrow> graph_step g (addPredicate v op g)"
| selection: "need \<subseteq> present g \<Longrightarrow> graph_step g (addSelectionEdge need op g)"
| join: "left \<union> right \<subseteq> present g \<Longrightarrow> graph_step g (addJoinEdge left right op None g)"
| creating: "left \<union> right \<subseteq> present g \<Longrightarrow> left \<union> right \<noteq> {} \<Longrightarrow> length (nodes g) + pseudoNodes g < numNodes g
    \<Longrightarrow> graph_step g (addCreatingJoin left right op g)"

text \<open>Entering edges, as a map over the nodes.\<close>

lemma fold_enter:
  assumes "distinct vs"
  shows "fold (\<lambda>n ns. if n \<ge> length ns then ns else ns[n := f (ns ! n)]) vs ns
    = map (\<lambda>v. if v \<in> set vs then f (ns ! v) else ns ! v) [0..<length ns]"
  using assms
proof (induction vs arbitrary: ns)
  case Nil
  then show ?case by (simp add: map_nth)
next
  case (Cons a vs)
  let ?ns = "if a \<ge> length ns then ns else ns[a := f (ns ! a)]"
  have "length ?ns = length ns" by simp
  moreover have "(if v \<in> set vs then f (?ns ! v) else ?ns ! v)
      = (if v \<in> set (a # vs) then f (ns ! v) else ns ! v)" if "v < length ns" for v
    using that Cons.prems by (cases "v = a") auto
  ultimately show ?case using Cons by (simp cong: map_cong)
qed

lemma nodes_enter_edge:
  assumes "finite s"
  shows "nodes (enter_edge i s g) = map (\<lambda>v. if v \<in> s then (nodes g ! v)\<lparr>edges := edges (nodes g ! v) @ [i]\<rparr>
      else nodes g ! v) [0..<length (nodes g)]"
  using fold_enter[of "sorted_list_of_set s" "\<lambda>n. n\<lparr>edges := edges n @ [i]\<rparr>" "nodes g"] assms
  by (simp add: enter_edge_def)

lemma nodes_enter_selection:
  assumes "finite s"
  shows "nodes (enter_selection i s g)
    = map (\<lambda>v. if v \<in> s then (nodes g ! v)\<lparr>node_selections := node_selections (nodes g ! v) @ [i]\<rparr>
      else nodes g ! v) [0..<length (nodes g)]"
  using fold_enter[of "sorted_list_of_set s" "\<lambda>n. n\<lparr>node_selections := node_selections n @ [i]\<rparr>" "nodes g"] assms
  by (simp add: enter_selection_def)

lemma enter_edge_rest [simp]:
  "numNodes (enter_edge i s g) = numNodes g" "pseudoNodes (enter_edge i s g) = pseudoNodes g"
  "normalNodesMask (enter_edge i s g) = normalNodesMask g" "maskSize (enter_edge i s g) = maskSize g"
  "joins (enter_edge i s g) = joins g" "selections (enter_edge i s g) = selections g"
  "pseudoNodeOwner (enter_edge i s g) = pseudoNodeOwner g"
  by (simp_all add: enter_edge_def)

lemma enter_selection_rest [simp]:
  "numNodes (enter_selection i s g) = numNodes g" "pseudoNodes (enter_selection i s g) = pseudoNodes g"
  "normalNodesMask (enter_selection i s g) = normalNodesMask g" "maskSize (enter_selection i s g) = maskSize g"
  "joins (enter_selection i s g) = joins g" "selections (enter_selection i s g) = selections g"
  "pseudoNodeOwner (enter_selection i s g) = pseudoNodeOwner g"
  by (simp_all add: enter_selection_def)

text \<open>Appending one edge and entering it on both sides.\<close>

definition append_edge :: "join_edge \<Rightarrow> query_graph \<Rightarrow> query_graph" where
  "append_edge e g = enter_edge (length (joins g)) (je_right e)
     (enter_edge (length (joins g)) (je_left e) (g\<lparr>joins := joins g @ [e]\<rparr>))"

lemma graph_ok_append_edge:
  assumes "graph_ok g" and "join_ok g e"
  shows "graph_ok (append_edge e g)"
proof -
  have fin: "finite (je_left e)" "finite (je_right e)"
    using assms(2) finite_subset[of _ "present g"] by (auto simp: join_ok_def present_def)
  let ?g = "append_edge e g"
  have same: "length (nodes ?g) = length (nodes g)" "numNodes ?g = numNodes g" "pseudoNodes ?g = pseudoNodes g"
    "joins ?g = joins g @ [e]" "selections ?g = selections g" "normalNodesMask ?g = normalNodesMask g"
    "maskSize ?g = maskSize g"
    using fin by (simp_all add: append_edge_def nodes_enter_edge)
  then have "present ?g = present g" "join_ok ?g = join_ok g"
    by (auto simp: present_def join_ok_def fun_eq_iff)
  moreover have "node_ok ?g v" if v: "v < length (nodes g)" for v
    using assms(1) v fin
    by (auto simp: append_edge_def nodes_enter_edge node_ok_def graph_ok_def nth_append less_Suc_eq split: if_splits)
  ultimately show ?thesis using assms same by (auto simp: graph_ok_def mask_ok_def)
qed

lemma addJoinEdge_plain:
  "addJoinEdge left right op None g = append_edge \<lparr>je_op = op, je_right = right, je_left = left,
     je_selectivity = one, createdNode = None,
     equality = (case op of Some p \<Rightarrow> if op_kind p \<in> {SelectionOp, InnerJoinOp} then analyzePredicate p else None
                  | None \<Rightarrow> None)\<rparr> g"
  by (subst addJoinEdge.simps) (simp add: append_edge_def Let_def)

lemma graph_ok_addJoinEdge:
  "graph_ok g \<Longrightarrow> left \<union> right \<subseteq> present g \<Longrightarrow> graph_ok (addJoinEdge left right op None g)"
  unfolding addJoinEdge_plain by (rule graph_ok_append_edge) (auto simp: join_ok_def)

lemma graph_ok_addSelectionEdge:
  assumes "graph_ok g" and "need \<subseteq> present g"
  shows "graph_ok (addSelectionEdge need op g)"
proof (cases "card need = 2 \<and> Min need < length (nodes g) \<and> Max need < length (nodes g)")
  case True
  then have "{Min need} \<union> {Max need} \<subseteq> present g" by (auto simp: present_def)
  then show ?thesis using True assms(1) by (simp add: addSelectionEdge_def graph_ok_addJoinEdge)
next
  case False
  have fin: "finite need" using assms(2) finite_subset[of _ "present g"] by (auto simp: present_def)
  let ?e = "\<lparr>se_id = length (selections g), required = need, se_op = op, se_selectivity = one\<rparr>"
  let ?g = "enter_selection (length (selections g)) need (g\<lparr>selections := selections g @ [?e]\<rparr>)"
  have same: "length (nodes ?g) = length (nodes g)" using fin by (simp add: nodes_enter_selection)
  then have "present ?g = present g" "join_ok ?g = join_ok g"
    by (auto simp: present_def join_ok_def fun_eq_iff)
  moreover have "node_ok ?g v" if v: "v < length (nodes g)" for v
    using assms(1) v fin
    by (auto simp: nodes_enter_selection node_ok_def graph_ok_def nth_append less_Suc_eq split: if_splits)
  ultimately have "graph_ok ?g" using assms same by (auto simp: graph_ok_def mask_ok_def)
  moreover have "addSelectionEdge need op g = ?g"
    unfolding addSelectionEdge_def if_not_P[OF False] by (simp add: Let_def)
  ultimately show ?thesis by simp
qed

lemma addCreatingJoin_eq:
  fixes left right op g
  defines "p \<equiv> pseudoNodes g + 1" and "i \<equiv> length (joins g)"
  defines "c \<equiv> numNodes g - p"
  defines "g1 \<equiv> g\<lparr>pseudoNodes := p, normalNodesMask := {0..<c}, maskSize := numNodes g\<rparr>"
  defines "e \<equiv> \<lparr>je_op = Some op, je_right = right, je_left = left, je_selectivity = one, createdNode = Some c,
     equality = (if op_kind op \<in> {SelectionOp, InnerJoinOp} then analyzePredicate op else None)\<rparr>"
  shows "addCreatingJoin left right op g
    = enter_edge i right (enter_edge i left
        (append_edge \<lparr>je_op = None, je_right = {c}, je_left = left \<union> right, je_selectivity = one,
            createdNode = None, equality = None\<rparr>
          (g1\<lparr>joins := joins g @ [e], pseudoNodeOwner := (pseudoNodeOwner g)(c \<mapsto> i)\<rparr>)))"
  unfolding addCreatingJoin_def addPseudoNode_def
  by (simp add: Let_def) (subst addJoinEdge.simps,
    simp add: Let_def addJoinEdge_plain single_def p_def i_def c_def g1_def e_def)

lemma graph_ok_addCreatingJoin:
  assumes ok: "graph_ok g" and sub: "left \<union> right \<subseteq> present g" and room: "length (nodes g) + pseudoNodes g < numNodes g"
  shows "graph_ok (addCreatingJoin left right op g)"
proof -
  let ?g = "addCreatingJoin left right op g" and ?c = "numNodes g - (pseudoNodes g + 1)"
  have fin: "finite left" "finite right"
    using sub finite_subset[of _ "present g"] by (auto simp: present_def)
  have same: "length (nodes ?g) = length (nodes g)" "numNodes ?g = numNodes g" "pseudoNodes ?g = pseudoNodes g + 1"
    "selections ?g = selections g" "normalNodesMask ?g = {0..<?c}" "maskSize ?g = numNodes g"
    using fin by (simp_all add: addCreatingJoin_eq append_edge_def nodes_enter_edge)
  have wider: "present g \<subseteq> present ?g" "?c \<in> present ?g"
    using room unfolding present_def same by auto
  have joins: "\<exists>e1 e2. joins ?g = joins g @ [e1, e2] \<and> je_left e1 = left \<and> je_right e1 = right
      \<and> createdNode e1 = Some ?c \<and> je_left e2 = left \<union> right \<and> je_right e2 = {?c} \<and> createdNode e2 = None"
    by (simp add: addCreatingJoin_eq append_edge_def)
  have "node_ok ?g v" if v: "v < length (nodes g)" for v
  proof -
    have "v \<noteq> ?c" using v room by auto
    then show ?thesis using ok v fin
      by (auto simp: addCreatingJoin_eq append_edge_def nodes_enter_edge node_ok_def graph_ok_def nth_append
          less_Suc_eq split: if_splits)
  qed
  moreover have "join_ok ?g e" if e: "e \<in> set (joins ?g)" for e
  proof -
    obtain e1 e2 where js: "joins ?g = joins g @ [e1, e2]" "je_left e1 = left" "je_right e1 = right"
      "createdNode e1 = Some ?c" "je_left e2 = left \<union> right" "je_right e2 = {?c}" "createdNode e2 = None"
      using joins by blast
    show ?thesis
    proof (cases "e \<in> set (joins g)")
      case True
      then have "join_ok g e" using ok by (auto simp: graph_ok_def)
      then show ?thesis using wider(1) unfolding join_ok_def same by fastforce
    next
      case False
      then have "e = e1 \<or> e = e2" using e js(1) by auto
      moreover have "left \<union> right \<union> {?c} \<subseteq> present ?g" using sub wider by blast
      ultimately show ?thesis using js room unfolding join_ok_def same by auto
    qed
  qed
  moreover have "\<forall>e\<in>set (selections g). required e \<subseteq> present ?g"
    using ok wider(1) unfolding graph_ok_def by blast
  ultimately show ?thesis using room same unfolding graph_ok_def mask_ok_def by auto
qed

lemma graph_ok_addNode:
  assumes "graph_ok g" and "length (nodes g) + pseudoNodes g < numNodes g"
  shows "graph_ok (addNode op g)"
proof -
  let ?g = "addNode op g"
  have wider: "present g \<subseteq> present ?g" by (auto simp: present_def addNode_def)
  have new: "length (nodes g) \<notin> present g" using assms(2) by (auto simp: present_def)
  have "node_ok ?g v" if v: "v < length (nodes ?g)" for v
  proof (cases "v = length (nodes g)")
    case True
    have "v \<notin> je_left (joins g ! i) \<union> je_right (joins g ! i)" if "i < length (joins g)" for i
      using assms(1) that new True nth_mem[OF that] unfolding graph_ok_def join_ok_def by blast
    moreover have "v \<notin> required (selections g ! i)" if "i < length (selections g)" for i
      using assms(1) that new True nth_mem[OF that] unfolding graph_ok_def by blast
    ultimately show ?thesis using True by (auto simp: node_ok_def addNode_def)
  next
    case False
    then show ?thesis using assms(1) v by (auto simp: node_ok_def addNode_def graph_ok_def nth_append)
  qed
  moreover have "join_ok ?g e" if "e \<in> set (joins g)" for e
  proof -
    have "join_ok g e" using assms(1) that by (auto simp: graph_ok_def)
    then show ?thesis using wider by (auto simp: join_ok_def addNode_def)
  qed
  moreover have "required e \<subseteq> present ?g" if "e \<in> set (selections g)" for e
    using assms(1) that wider unfolding graph_ok_def by blast
  ultimately show ?thesis using assms by (auto simp: graph_ok_def mask_ok_def addNode_def)
qed

lemma graph_ok_addPredicate:
  assumes "graph_ok g" and "v < length (nodes g)"
  shows "graph_ok (addPredicate v op g)"
proof -
  have "node_ok (addPredicate v op g) u" if "u < length (nodes g)" for u
    using assms that by (cases "u = v") (auto simp: node_ok_def addPredicate_def graph_ok_def)
  moreover have "present (addPredicate v op g) = present g" by (simp add: present_def addPredicate_def)
  ultimately show ?thesis using assms by (auto simp: graph_ok_def mask_ok_def join_ok_def addPredicate_def)
qed

lemma graph_step_ok: "graph_step g h \<Longrightarrow> graph_ok g \<Longrightarrow> graph_ok h"
  by (induction rule: graph_step.induct)
    (simp_all add: graph_ok_addNode graph_ok_addPredicate graph_ok_addSelectionEdge graph_ok_addJoinEdge
      graph_ok_addCreatingJoin)

text \<open>The owners of the pseudo nodes stay, since edges are only appended.\<close>

definition owned :: "query_graph \<Rightarrow> nat \<Rightarrow> bool" where
  "owned g p \<longleftrightarrow> (\<exists>i. pseudoNodeOwner g p = Some i \<and> i < length (joins g)
     \<and> \<not> je_left (joins g ! i) \<union> je_right (joins g ! i) \<subseteq> {p})"

lemma owners_ok_iff: "owners_ok g \<longleftrightarrow> (\<forall>p. numNodes g - pseudoNodes g \<le> p \<and> p < numNodes g \<longrightarrow> owned g p)"
  by (simp add: owners_ok_def owned_def)

lemma owned_mono:
  assumes "owned g p" and "pseudoNodeOwner h p = pseudoNodeOwner g p" and "joins h = joins g @ es"
  shows "owned h p"
  using assms unfolding owned_def by (auto simp: nth_append)

lemma graph_step_owners:
  assumes "graph_step g h" and "owners_ok g" and "graph_ok g"
  shows "owners_ok h"
  using assms
proof (induction rule: graph_step.induct)
  case (node g op)
  then show ?case by (simp add: owners_ok_def addNode_def)
next
  case (predicate v g op)
  then show ?case by (simp add: owners_ok_def addPredicate_def)
next
  case (selection need g op)
  then show ?case
    by (auto simp: owners_ok_iff addSelectionEdge_def addJoinEdge_plain append_edge_def Let_def
        elim!: owned_mono)
next
  case (join left right g op)
  then show ?case
    by (auto simp: owners_ok_iff addJoinEdge_plain append_edge_def elim!: owned_mono)
next
  case (creating left right g op)
  let ?g = "addCreatingJoin left right op g" and ?c = "numNodes g - (pseudoNodes g + 1)"
  have sub: "?c \<notin> left \<union> right"
    using creating.hyps(1,3) by (auto simp: present_def)
  have same: "numNodes ?g = numNodes g" "pseudoNodes ?g = pseudoNodes g + 1"
    "pseudoNodeOwner ?g = (pseudoNodeOwner g)(?c \<mapsto> length (joins g))"
    "\<exists>e1 e2. joins ?g = joins g @ [e1, e2] \<and> je_left e1 = left \<and> je_right e1 = right"
    by (simp_all add: addCreatingJoin_eq append_edge_def)
  have "owned ?g p" if p: "numNodes g - (pseudoNodes g + 1) \<le> p" "p < numNodes g" for p
  proof (cases "p = ?c")
    case True
    then show ?thesis using same(3,4) sub creating.hyps(2) by (auto simp: owned_def nth_append)
  next
    case False
    then have "owned g p" using p creating.prems(1) by (auto simp: owners_ok_iff)
    then show ?thesis using False same(3,4) by (auto elim!: owned_mono)
  qed
  then show ?case by (simp add: owners_ok_iff same)
qed

text \<open>So however the steps are interleaved, the graph stays consistent.\<close>

lemma built_ok: "graph_step\<^sup>*\<^sup>* (new_graph n) g \<Longrightarrow> graph_ok g \<and> owners_ok g"
proof (induction rule: rtranclp_induct)
  case base
  show ?case by (simp add: graph_ok_def new_graph_def mask_ok_def owners_ok_def)
next
  case (step g h)
  then show ?case using graph_step_ok graph_step_owners by blast
qed


text \<open>Three relations in a chain, and two with a mark join that creates a column, for the examples.\<close>

definition sample_relation :: "nat \<Rightarrow> operator" where
  "sample_relation k = \<lparr>op_id = k, op_kind = BaseTableOp, availableColumns = {k}, createdColumns = {k},
     mappedColumns = {}, predicateBlock = None, returned = [], baseTable = Some \<lparr>primaryKey = {}, numRows = 10 + k, tableIdentifier = ''t''\<rparr>,
     rowsAttr = None\<rparr>"

definition sample_filter :: "nat \<Rightarrow> nat \<Rightarrow> operator" where
  "sample_filter c d = \<lparr>op_id = 10 + c, op_kind = SelectionOp, availableColumns = {}, createdColumns = {},
     mappedColumns = {},
     predicateBlock = Some [GetColumnOp 0 c, GetColumnOp 1 d, CmpOp 2 (DbCmp EqP) 0 1], returned = [2],
     baseTable = None, rowsAttr = None\<rparr>"

definition sample_nodes :: query_graph where
  "sample_nodes = addNode (sample_relation 2) (addNode (sample_relation 1) (addNode (sample_relation 0) (new_graph 3)))"

definition sample_chain :: query_graph where
  "sample_chain = addJoinEdge {1} {2} (Some (sample_filter 1 2)) None
     (addJoinEdge {0} {1} (Some (sample_filter 0 1)) None sample_nodes)"

lemma steps_node:
  "graph_step\<^sup>*\<^sup>* g0 g \<Longrightarrow> length (nodes g) + pseudoNodes g < numNodes g \<Longrightarrow> graph_step\<^sup>*\<^sup>* g0 (addNode op g)"
  by (erule rtranclp.rtrancl_into_rtrancl) (rule graph_step.node)

lemma steps_join:
  "graph_step\<^sup>*\<^sup>* g0 g \<Longrightarrow> left \<union> right \<subseteq> present g \<Longrightarrow> graph_step\<^sup>*\<^sup>* g0 (addJoinEdge left right op None g)"
  by (erule rtranclp.rtrancl_into_rtrancl) (rule graph_step.join)

lemma steps_creating:
  "graph_step\<^sup>*\<^sup>* g0 g \<Longrightarrow> left \<union> right \<subseteq> present g \<Longrightarrow> left \<union> right \<noteq> {}
    \<Longrightarrow> length (nodes g) + pseudoNodes g < numNodes g \<Longrightarrow> graph_step\<^sup>*\<^sup>* g0 (addCreatingJoin left right op g)"
  by (erule rtranclp.rtrancl_into_rtrancl) (rule graph_step.creating)

lemma sample_nodes_rest [simp]:
  "length (nodes sample_nodes) = 3" "numNodes sample_nodes = 3" "pseudoNodes sample_nodes = 0"
  "joins sample_nodes = []" "selections sample_nodes = []"
  by (simp_all add: sample_nodes_def addNode_def new_graph_def)

lemma sample_nodes_steps: "graph_step\<^sup>*\<^sup>* (new_graph 3) sample_nodes"
  unfolding sample_nodes_def
  by (intro steps_node rtranclp.rtrancl_refl) (simp_all add: addNode_def new_graph_def)

lemma sample_chain_steps: "graph_step\<^sup>*\<^sup>* (new_graph 3) sample_chain"
  unfolding sample_chain_def
  by (intro steps_join sample_nodes_steps)
    (simp_all add: addJoinEdge_plain append_edge_def present_def nodes_enter_edge)

lemma wf_sample_chain: "wf_graph sample_chain"
proof -
  have "length (nodes sample_chain) + pseudoNodes sample_chain = numNodes sample_chain"
    by (simp add: sample_chain_def addJoinEdge_plain append_edge_def nodes_enter_edge)
  then show ?thesis using built_ok[OF sample_chain_steps] by (simp add: wf_graph_def)
qed

definition sample_mark_join :: operator where
  "sample_mark_join = (sample_filter 0 1)\<lparr>op_kind := MarkJoinOp\<rparr>"

definition sample_mark :: query_graph where
  "sample_mark = addCreatingJoin {0} {1} sample_mark_join (addNode (sample_relation 1) (addNode (sample_relation 0) (new_graph 3)))"

lemma sample_mark_steps: "graph_step\<^sup>*\<^sup>* (new_graph 3) sample_mark"
  unfolding sample_mark_def
  by (intro steps_creating steps_node rtranclp.rtrancl_refl) (simp_all add: addNode_def new_graph_def present_def)

lemma wf_sample_mark: "wf_graph sample_mark"
proof -
  have "length (nodes sample_mark) + pseudoNodes sample_mark = numNodes sample_mark"
    by (simp add: sample_mark_def addCreatingJoin_eq append_edge_def nodes_enter_edge addNode_def new_graph_def)
  then show ?thesis using built_ok[OF sample_mark_steps] by (simp add: wf_graph_def)
qed

end
