(* ===== verification/Join_Plan.thy ===== *)
theory Join_Plan
  imports Query_Graph "HOL-Library.Multiset"
begin

text \<open>
  Join plans and their cost (\<^verbatim>\<open>Plan\<close> and \<^verbatim>\<open>Plan::joinPlans\<close> in
  \<^verbatim>\<open>src/lib/RelAlg/Transforms/queryopt/utils.cpp\<close>), with the selectivity estimates of
  \<^verbatim>\<open>QueryGraph.cpp\<close>. Costs and row counts are binary64 bit patterns combined as the code combines
  them. \<open>arrange\<close> is the order in which an \<^verbatim>\<open>unordered_set\<close> of operators, listed here in the order of
  insertion, is iterated.
\<close>

section \<open>Doubles\<close>

definition dadd :: "nat \<Rightarrow> nat \<Rightarrow> nat" where
  "dadd x y = fencode binary64 (fadd (fdecode binary64 x) (fdecode binary64 y))"

definition dsub :: "nat \<Rightarrow> nat \<Rightarrow> nat" where
  "dsub x y = fencode binary64 (fsub (fdecode binary64 x) (fdecode binary64 y))"

definition dmul :: "nat \<Rightarrow> nat \<Rightarrow> nat" where
  "dmul x y = fencode binary64 (fmul (fdecode binary64 x) (fdecode binary64 y))"

definition ddiv :: "nat \<Rightarrow> nat \<Rightarrow> nat" where
  "ddiv x y = fdiv binary64 (fdecode binary64 x) (fdecode binary64 y)"

definition dless :: "nat \<Rightarrow> nat \<Rightarrow> bool" where
  "dless x y \<longleftrightarrow> fgreater (fdecode binary64 y) (fdecode binary64 x)"

text \<open>\<^verbatim>\<open>std::min(x, y)\<close>.\<close>

definition dmin :: "nat \<Rightarrow> nat \<Rightarrow> nat" where
  "dmin x y = (if dless y x then y else x)"

definition tenth :: nat where "tenth = 0x3FB999999999999A"
definition quarter :: nat where "quarter = 0x3FD0000000000000"

section \<open>Selectivity estimates\<close>

record pred =
  pr_left :: "nat set"
  pr_right :: "nat set"
  isEq :: bool

text \<open>\<^verbatim>\<open>required[v]\<close>: a value without columns gets the empty set.\<close>

definition lookup_columns :: "(nat \<rightharpoonup> nat set) \<Rightarrow> nat \<Rightarrow> nat set \<times> (nat \<rightharpoonup> nat set)" where
  "lookup_columns req v = (case req v of None \<Rightarrow> ({}, req(v \<mapsto> {})) | Some s \<Rightarrow> (s, req))"

text \<open>\<^verbatim>\<open>required.insert\<close>: a value that has an entry keeps it.\<close>

definition insert_columns :: "nat \<Rightarrow> nat set \<Rightarrow> (nat \<rightharpoonup> nat set) \<Rightarrow> (nat \<rightharpoonup> nat set)" where
  "insert_columns v s req = (if v \<in> dom req then req else req(v \<mapsto> s))"

fun analyze_op ::
    "nat set \<Rightarrow> nat set \<Rightarrow> block_op \<Rightarrow> (nat \<rightharpoonup> nat set) \<times> pred list \<Rightarrow> (nat \<rightharpoonup> nat set) \<times> pred list" where
  "analyze_op L R (GetColumnOp v c) (req, preds) = (insert_columns v {c} req, preds)"
| "analyze_op L R (CmpOp v p x y) (req, preds) =
    (let eq = isEqualityPred p True;
         (leftA, req1) = lookup_columns req x;
         (rightA, req2) = lookup_columns req1 y
     in if eq \<and> (leftA = {} \<or> rightA = {}) then (req2, preds)
        else if leftA \<subseteq> L \<and> rightA \<subseteq> R then (req2, preds @ [\<lparr>pr_left = leftA, pr_right = rightA, isEq = eq\<rparr>])
        else if leftA \<subseteq> R \<and> rightA \<subseteq> L then (req2, preds @ [\<lparr>pr_left = rightA, pr_right = leftA, isEq = eq\<rparr>])
        else (req2, preds))"
| "analyze_op L R (PlainOp rs as) (req, preds) =
    (let attributes = \<Union> (set (map (\<lambda>a. case req a of None \<Rightarrow> {} | Some s \<Rightarrow> s) as))
     in (fold (\<lambda>r. insert_columns r attributes) rs req, preds))"

definition analyzePred :: "block_op list \<Rightarrow> nat set \<Rightarrow> nat set \<Rightarrow> pred list" where
  "analyzePred block L R = snd (fold (analyze_op L R) block (Map.empty, []))"

definition addPredicates :: "pred list \<Rightarrow> operator \<Rightarrow> nat set \<Rightarrow> nat set \<Rightarrow> pred list" where
  "addPredicates preds op L R =
    (case predicateBlock op of None \<Rightarrow> preds | Some block \<Rightarrow> preds @ analyzePred block L R)"

definition getAttributesForNodeSet :: "query_graph \<Rightarrow> nodeset \<Rightarrow> nat set" where
  "getAttributesForNodeSet g s = \<Union> (set (map (\<lambda>n. availableColumns (qn_op n)) (set_nodes g s)))"

definition getPKey :: "qnode \<Rightarrow> nat set" where
  "getPKey n = (case baseTable (qn_op n) of None \<Rightarrow> {} | Some t \<Rightarrow> primaryKey t)"

text \<open>Keys of the base tables of one side, with their row counts.\<close>

definition pkeys_of :: "query_graph \<Rightarrow> nodeset \<Rightarrow> (nat \<times> nat set) list" where
  "pkeys_of g s =
    map (\<lambda>n. (qn_rows n, getPKey n)) (filter (\<lambda>n. baseTable (qn_op n) \<noteq> None) (set_nodes g s))"

definition use_key :: "nat \<times> nat set \<Rightarrow> nat \<times> nat set \<Rightarrow> nat \<times> nat set" where
  "use_key = (\<lambda>(rows, pkey) (selectivity, cols).
     if pkey \<subseteq> cols then (dmul selectivity (ddiv one rows), cols - pkey) else (selectivity, cols))"

definition estimateSelectivity :: "query_graph \<Rightarrow> operator option \<Rightarrow> nodeset \<Rightarrow> nodeset \<Rightarrow> nat" where
  "estimateSelectivity g op left right =
    (let availableLeft = getAttributesForNodeSet g left;
         availableRight = getAttributesForNodeSet g right;
         preds = (case op of None \<Rightarrow> [] | Some p \<Rightarrow> addPredicates [] p availableLeft availableRight);
         predicatesLeft = \<Union> (set (map pr_left preds));
         predicatesRight = \<Union> (set (map pr_right preds));
         (sel1, predsLeft) = fold use_key (pkeys_of g left) (one, predicatesLeft);
         (sel2, predsRight) = fold use_key (pkeys_of g right) (sel1, predicatesRight)
     in fold (\<lambda>p sel. if pr_left p \<subseteq> predsLeft \<and> pr_right p \<subseteq> predsRight
                      then dmul sel (if isEq p then tenth else quarter) else sel) preds sel2)"

text \<open>\<open>sample\<close> is \<^verbatim>\<open>estimateUsingSample\<close>: the rows of a sample of the table are counted by Arrow.\<close>

definition getRows :: "qnode \<Rightarrow> nat" where
  "getRows n =
    (case baseTable (qn_op n) of
       Some t \<Rightarrow> if numRows t = 0 then one else fencode binary64 (fval_of_int (int (numRows t)))
     | None \<Rightarrow> (case rowsAttr (qn_op n) of Some r \<Rightarrow> r | None \<Rightarrow> one))"

definition node_predicates :: "qnode \<Rightarrow> pred list" where
  "node_predicates n =
    fold (\<lambda>p preds. addPredicates preds p (availableColumns (qn_op n)) {}) (additionalPredicates n) []"

definition estimate_node :: "(qnode \<Rightarrow> nat option) \<Rightarrow> qnode \<Rightarrow> qnode" where
  "estimate_node sample n =
    (let rows = getRows n;
         preds = node_predicates n;
         pkey = getPKey n;
         predicatesLeft = \<Union> (set (map pr_left preds));
         pKeyIncluded = (pkey \<noteq> {} \<and> pkey \<subseteq> predicatesLeft);
         sel = (if pKeyIncluded then ddiv one rows
                else (case sample n of
                        Some e \<Rightarrow> e
                      | None \<Rightarrow> fold (\<lambda>p s. dmul s (if isEq p then tenth else quarter)) preds one))
     in n\<lparr>qn_rows := rows, qn_selectivity := sel\<rparr>)"

definition estimate :: "(qnode \<Rightarrow> nat option) \<Rightarrow> query_graph \<Rightarrow> query_graph" where
  "estimate sample g =
    (let g1 = g\<lparr>nodes := map (estimate_node sample) (nodes g)\<rparr>;
         g2 = g1\<lparr>joins := map (\<lambda>e. e\<lparr>je_selectivity := estimateSelectivity g1 (je_op e) (je_left e) (je_right e)\<rparr>)
                              (joins g1)\<rparr>
     in g2\<lparr>selections := map (\<lambda>e. if card (required e) = 2
              then e\<lparr>se_selectivity := estimateSelectivity g2 (Some (se_op e)) (single (findFirst (required e))) (required e)\<rparr>
              else e) (selections g2)\<rparr>)"

text \<open>\<^verbatim>\<open>cachedSel\<close> of every selection edge, by the number of the edge.\<close>

type_synonym sel_cache = "nat \<times> nodeset \<rightharpoonup> nat"

definition calculateSelectivity ::
    "query_graph \<Rightarrow> selection_edge \<Rightarrow> nodeset \<Rightarrow> nodeset \<Rightarrow> sel_cache \<Rightarrow> nat \<times> sel_cache" where
  "calculateSelectivity g e left right cache =
    (if card (required e) = 2 \<and> left \<noteq> {} \<and> right \<noteq> {} then (se_selectivity e, cache)
     else
       let key = left \<inter> required e
       in case cache (se_id e, key) of
            Some sel \<Rightarrow> (sel, cache)
          | None \<Rightarrow>
              let sel = estimateSelectivity g (Some (se_op e)) left right
              in (sel, cache((se_id e, key) \<mapsto> sel)))"

section \<open>Plans\<close>

datatype plan = Plan (plan_op: "operator option") (subplans: "plan list")
  (additionalOps: "operator list") (getCost: nat) (plan_rows: nat) (description: string)

text \<open>The constructor and \<^verbatim>\<open>setDescription\<close>.\<close>

definition mk_plan :: "operator option \<Rightarrow> plan list \<Rightarrow> operator list \<Rightarrow> nat \<Rightarrow> string \<Rightarrow> plan" where
  "mk_plan op subs additional rows descr =
     Plan op subs additional (fold (\<lambda>p cost. dadd cost (getCost p)) subs rows) rows descr"

definition createInitialPlan :: "qnode \<Rightarrow> plan" where
  "createInitialPlan n =
    (let descr = (case baseTable (qn_op n) of None \<Rightarrow> show_nat (qn_id n) | Some t \<Rightarrow> tableIdentifier t)
     in mk_plan (Some (qn_op n)) [] (additionalPredicates n) (dmul (qn_rows n) (qn_selectivity n)) descr)"

text \<open>Equivalence classes of columns; a column that is in none is equivalent to itself alone.\<close>

definition isEquivalent :: "nat set list \<Rightarrow> nat \<Rightarrow> nat \<Rightarrow> bool" where
  "isEquivalent cs x y \<longleftrightarrow> x = y \<or> (\<exists>c\<in>set cs. x \<in> c \<and> y \<in> c)"

definition unionSets :: "nat \<Rightarrow> nat \<Rightarrow> nat set list \<Rightarrow> nat set list" where
  "unionSets x y cs =
    (let hit = filter (\<lambda>c. x \<in> c \<or> y \<in> c) cs
     in ({x, y} \<union> \<Union> (set hit)) # filter (\<lambda>c. x \<notin> c \<and> y \<notin> c) cs)"

record join_state =
  js_s1 :: nodeset
  js_s2 :: nodeset
  js_p1 :: plan
  js_p2 :: plan
  js_s :: nodeset
  specialJoin :: "operator option"
  totalSelectivity :: nat
  predicates :: "operator list"
  equivalentColumns :: "nat set list"

definition insert_pred :: "operator \<Rightarrow> operator list \<Rightarrow> operator list" where
  "insert_pred op ps = (if op \<in> set ps then ps else ps @ [op])"

definition equal_columns :: "nodeset \<Rightarrow> nodeset \<Rightarrow> join_edge \<Rightarrow> nat set list \<Rightarrow> nat set list" where
  "equal_columns s1 s2 e cs =
    (case equality e of
       Some (x, y) \<Rightarrow>
         if \<not> je_connects e s1 s2 \<and> je_left e \<subseteq> s1 \<union> s2 \<and> je_right e \<subseteq> s1 \<union> s2 then unionSets x y cs else cs
     | None \<Rightarrow> cs)"

text \<open>The operator of a connecting edge: none for a forced cross product, a special join, or a predicate.\<close>

definition swap_sides :: "join_state \<Rightarrow> join_state" where
  "swap_sides js = js\<lparr>js_s1 := js_s2 js, js_s2 := js_s1 js, js_p1 := js_p2 js, js_p2 := js_p1 js\<rparr>"

definition use_operator :: "join_edge \<Rightarrow> join_state \<Rightarrow> join_state" where
  "use_operator e js =
    (case je_op e of
       None \<Rightarrow> js
     | Some op \<Rightarrow>
         if op_kind op \<noteq> SelectionOp \<and> op_kind op \<noteq> InnerJoinOp then
           let js' = js\<lparr>specialJoin := Some op\<rparr>;
               js'' = (if \<not> je_left e \<subseteq> js_s1 js' then swap_sides js' else js')
           in js''\<lparr>totalSelectivity := dmul (totalSelectivity js'') (je_selectivity e)\<rparr>
         else if (case equality e of Some (x, y) \<Rightarrow> isEquivalent (equivalentColumns js) x y | None \<Rightarrow> False)
         then js
         else js\<lparr>totalSelectivity := dmul (totalSelectivity js) (je_selectivity e),
                 predicates := insert_pred op (predicates js)\<rparr>)"

definition apply_edge :: "join_edge \<Rightarrow> join_state \<Rightarrow> join_state" where
  "apply_edge e js =
    (if \<not> je_connects e (js_s1 js) (js_s2 js) then js
     else
       let js1 = use_operator e js;
           js2 = (case equality e of
                    Some (x, y) \<Rightarrow> js1\<lparr>equivalentColumns := unionSets x y (equivalentColumns js1)\<rparr>
                  | None \<Rightarrow> js1)
       in (case createdNode e of Some c \<Rightarrow> js2\<lparr>js_s := js_s js2 \<union> single c\<rparr> | None \<Rightarrow> js2))"

definition apply_selection ::
    "query_graph \<Rightarrow> selection_edge \<Rightarrow> join_state \<times> sel_cache \<Rightarrow> join_state \<times> sel_cache" where
  "apply_selection g e = (\<lambda>(js, cache).
     if se_connects2 e (js_s js) (js_s1 js) (js_s2 js) then
       let (sel, cache') = calculateSelectivity g e (js_s1 js) (js_s2 js) cache
       in (js\<lparr>totalSelectivity := dmul (totalSelectivity js) sel,
              predicates := insert_pred (se_op e) (predicates js)\<rparr>, cache')
     else (js, cache))"

definition special_rows :: "operator \<Rightarrow> nat \<Rightarrow> nat \<Rightarrow> nat \<Rightarrow> nat" where
  "special_rows op r1 r2 sel =
    (case getBinaryOperatorType (op_kind op) of
       AntiSemiJoinType \<Rightarrow> dsub r1 (dmin r1 (dmul (dmul r1 r2) sel))
     | SemiJoinType \<Rightarrow> dmin r1 (dmul (dmul r1 r2) sel)
     | CollectionJoinType \<Rightarrow> r1
     | OuterJoinType \<Rightarrow> r1
     | MarkJoinType \<Rightarrow> r1
     | _ \<Rightarrow> dmul (dmul r1 r2) sel)"

definition finish_join :: "(operator list \<Rightarrow> operator list) \<Rightarrow> join_state \<Rightarrow> plan" where
  "finish_join arrange js =
    (let p1 = js_p1 js; p2 = js_p2 js; r1 = plan_rows p1; r2 = plan_rows p2;
         sel = totalSelectivity js; preds = arrange (predicates js);
         descr = (\<lambda>q1 q2. ''('' @ description q1 @ '') join ('' @ description q2 @ '')'')
     in case specialJoin js of
          Some op \<Rightarrow> mk_plan (Some op) [p1, p2] preds (special_rows op r1 r2 sel) (descr p1 p2)
        | None \<Rightarrow>
            if predicates js \<noteq> [] then
              let (q1, q2) = (if dless r2 r1 then (p2, p1) else (p1, p2))
              in mk_plan (Some (hd preds)) [q1, q2] (tl preds) (dmul (dmul r1 r2) sel) (descr q1 q2)
            else mk_plan None [p1, p2] [] (dmul (dmul r1 r2) sel) (descr p1 p2))"

definition start_join :: "query_graph \<Rightarrow> nodeset \<Rightarrow> nodeset \<Rightarrow> plan \<Rightarrow> plan \<Rightarrow> join_state" where
  "start_join g s1 s2 p1 p2 =
    \<lparr>js_s1 = s1, js_s2 = s2, js_p1 = p1, js_p2 = p2, js_s = s1 \<union> s2, specialJoin = None,
     totalSelectivity = one, predicates = [],
     equivalentColumns = fold (equal_columns s1 s2) (joins g) []\<rparr>"

definition joinPlans ::
    "(operator list \<Rightarrow> operator list) \<Rightarrow> query_graph \<Rightarrow> nodeset \<Rightarrow> nodeset \<Rightarrow> plan \<Rightarrow> plan \<Rightarrow> sel_cache
     \<Rightarrow> plan \<times> nodeset \<times> sel_cache" where
  "joinPlans arrange g s1 s2 p1 p2 cache =
    (let js = fold apply_edge (joins g) (start_join g s1 s2 p1 p2);
         (js', cache') = fold (apply_selection g) (selections g) (js, cache)
     in (finish_join arrange js', js_s js', cache'))"

section \<open>What a plan covers\<close>

text \<open>The leaves of a plan, and plans whose costs are the sums the constructor builds.\<close>

fun plan_leaves :: "plan \<Rightarrow> plan list" where
  "plan_leaves (Plan op subs add cost rows descr) =
     (if subs = [] then [Plan op subs add cost rows descr] else concat (map plan_leaves subs))"

fun cost_ok :: "plan \<Rightarrow> bool" where
  "cost_ok (Plan op subs add cost rows descr) \<longleftrightarrow>
     cost = fold (\<lambda>p c. dadd c (getCost p)) subs rows \<and> (\<forall>p\<in>set subs. cost_ok p)"

lemma mk_plan_leaves [simp]:
  "plan_leaves (mk_plan op [] add rows descr) = [mk_plan op [] add rows descr]"
  "plan_leaves (mk_plan op [p, q] add rows descr) = plan_leaves p @ plan_leaves q"
  by (simp_all add: mk_plan_def)

lemma mk_plan_cost_ok [simp]:
  "cost_ok (mk_plan op [] add rows descr)"
  "cost_ok (mk_plan op [p, q] add rows descr) \<longleftrightarrow> cost_ok p \<and> cost_ok q"
  by (simp_all add: mk_plan_def)

lemma initial_plan [simp]:
  "plan_leaves (createInitialPlan n) = [createInitialPlan n]" "cost_ok (createInitialPlan n)"
  by (simp_all add: createInitialPlan_def)

text \<open>\<open>covers g s p\<close>: the plan reads every relation of the problem exactly once, and nothing else.\<close>

definition leaf :: "query_graph \<Rightarrow> nat \<Rightarrow> plan" where
  "leaf g v = createInitialPlan (nodes g ! v)"

definition covers :: "query_graph \<Rightarrow> nodeset \<Rightarrow> plan \<Rightarrow> bool" where
  "covers g s p \<longleftrightarrow> finite s \<and> s \<noteq> {} \<and> s \<subseteq> {0..<numNodes g} \<and> cost_ok p
     \<and> mset (plan_leaves p) = image_mset (leaf g) (mset_set (s \<inter> {0..<length (nodes g)}))"

text \<open>What the loop over the join edges does to its state: it swaps the sides, adds created nodes.\<close>

definition same_sides :: "query_graph \<Rightarrow> join_state \<Rightarrow> join_state \<Rightarrow> bool" where
  "same_sides g js js' \<longleftrightarrow>
     ((js_s1 js', js_s2 js', js_p1 js', js_p2 js') = (js_s1 js, js_s2 js, js_p1 js, js_p2 js)
      \<or> (js_s1 js', js_s2 js', js_p1 js', js_p2 js') = (js_s2 js, js_s1 js, js_p2 js, js_p1 js))
     \<and> js_s js \<subseteq> js_s js' \<and> js_s js' - js_s js \<subseteq> {numNodes g - pseudoNodes g..<numNodes g}"

lemma same_sides_refl [simp]: "same_sides g js js"
  by (simp add: same_sides_def)

lemma same_sides_trans: "same_sides g a b \<Longrightarrow> same_sides g b c \<Longrightarrow> same_sides g a c"
  unfolding same_sides_def by (elim conjE disjE; simp; blast)

lemma same_sides_use_operator: "same_sides g js (use_operator e js)"
  by (simp add: use_operator_def swap_sides_def same_sides_def Let_def split: option.split)

lemma same_sides_apply_edge:
  assumes "join_ok g e"
  shows "same_sides g js (apply_edge e js)"
proof -
  let ?js = "use_operator e js"
  have "same_sides g ?js (apply_edge e js)" if "je_connects e (js_s1 js) (js_s2 js)"
    using assms that by (auto simp: apply_edge_def same_sides_def join_ok_def single_def Let_def split: option.split)
  moreover have "apply_edge e js = js" if "\<not> je_connects e (js_s1 js) (js_s2 js)"
    using that by (simp add: apply_edge_def)
  ultimately show ?thesis using same_sides_trans[OF same_sides_use_operator[of g js e]] by fastforce
qed

lemma same_sides_edges:
  "(\<And>e. e \<in> set es \<Longrightarrow> join_ok g e) \<Longrightarrow> same_sides g js (fold apply_edge es js)"
proof (induction es arbitrary: js)
  case (Cons e es)
  then show ?case using same_sides_trans[OF same_sides_apply_edge, of g e js] by simp
qed simp

lemma same_sides_selections: "same_sides g js (fst (fold (apply_selection g) es (js, c)))"
proof (induction es arbitrary: js c)
  case (Cons e es)
  obtain js' c' where step: "apply_selection g e (js, c) = (js', c')" by fastforce
  then have "same_sides g js js'"
    by (auto simp: apply_selection_def same_sides_def split: if_splits prod.splits)
  then show ?case using Cons.IH[of js' c'] step by (auto intro: same_sides_trans)
qed simp

lemma finish_join_plan:
  shows "mset (plan_leaves (finish_join arrange js))
      = mset (plan_leaves (js_p1 js)) + mset (plan_leaves (js_p2 js))"
    and "cost_ok (js_p1 js) \<Longrightarrow> cost_ok (js_p2 js) \<Longrightarrow> cost_ok (finish_join arrange js)"
  by (auto simp: finish_join_def Let_def split: option.split)

text \<open>Joining two problems without a common relation gives a plan for their union.\<close>

lemma joinPlans_covers:
  assumes ok: "graph_ok g" and real: "length (nodes g) + pseudoNodes g = numNodes g"
    and disj: "s1 \<inter> s2 \<inter> {0..<length (nodes g)} = {}" and p1: "covers g s1 p1" and p2: "covers g s2 p2"
    and join: "joinPlans arrange g s1 s2 p1 p2 c = (p, s, c')"
  shows "covers g s p" and "s1 \<union> s2 \<subseteq> s" and "s \<inter> {0..<length (nodes g)} = (s1 \<union> s2) \<inter> {0..<length (nodes g)}"
proof -
  let ?js0 = "start_join g s1 s2 p1 p2"
  define js where "js = fst (fold (apply_selection g) (selections g) (fold apply_edge (joins g) ?js0, c))"
  have res: "p = finish_join arrange js" "s = js_s js"
    using join by (auto simp: joinPlans_def js_def split: prod.splits)
  have "same_sides g ?js0 (fold apply_edge (joins g) ?js0)"
    using ok by (intro same_sides_edges) (auto simp: graph_ok_def)
  then have same: "same_sides g ?js0 js"
    unfolding js_def by (rule same_sides_trans) (rule same_sides_selections)
  then have s: "s1 \<union> s2 \<subseteq> s" "s - (s1 \<union> s2) \<subseteq> {length (nodes g)..<numNodes g}"
    using real by (auto simp: same_sides_def res start_join_def)
  then show sub: "s1 \<union> s2 \<subseteq> s" and eq: "s \<inter> {0..<length (nodes g)} = (s1 \<union> s2) \<inter> {0..<length (nodes g)}"
    by auto
  have sides: "js_p1 js = p1 \<and> js_p2 js = p2 \<or> js_p1 js = p2 \<and> js_p2 js = p1"
    using same by (auto simp: same_sides_def start_join_def)
  then have cost: "cost_ok (js_p1 js)" "cost_ok (js_p2 js)"
    using p1 p2 by (auto simp: covers_def)
  have "mset (plan_leaves p) = mset (plan_leaves p1) + mset (plan_leaves p2)"
    using finish_join_plan(1)[of arrange js] res sides by auto
  also have "\<dots> = image_mset (leaf g) (mset_set (s \<inter> {0..<length (nodes g)}))"
  proof -
    have "mset_set ((s1 \<union> s2) \<inter> {0..<length (nodes g)})
        = mset_set (s1 \<inter> {0..<length (nodes g)}) + mset_set (s2 \<inter> {0..<length (nodes g)})"
      unfolding Int_Un_distrib2 using disj by (intro mset_set_Union) auto
    moreover have "mset (plan_leaves p1) = image_mset (leaf g) (mset_set (s1 \<inter> {0..<length (nodes g)}))"
      "mset (plan_leaves p2) = image_mset (leaf g) (mset_set (s2 \<inter> {0..<length (nodes g)}))"
      using p1 p2 by (simp_all only: covers_def)
    ultimately show ?thesis by (simp only: eq image_mset_union)
  qed
  finally have "mset (plan_leaves p) = image_mset (leaf g) (mset_set (s \<inter> {0..<length (nodes g)}))" .
  moreover have "s \<subseteq> {0..<numNodes g}"
  proof -
    have "s1 \<union> s2 \<subseteq> {0..<numNodes g}" using p1 p2 by (simp add: covers_def)
    moreover have "{length (nodes g)..<numNodes g} \<subseteq> {0..<numNodes g}" by auto
    ultimately show ?thesis using s(2) by blast
  qed
  ultimately show "covers g s p"
    using finish_join_plan(2)[OF cost, of arrange] res s(1) p1 finite_subset by (auto simp: covers_def)
qed

lemma covers_leaf: "graph_ok g \<Longrightarrow> v < length (nodes g) \<Longrightarrow> covers g {v} (createInitialPlan (nodes g ! v))"
  by (auto simp: covers_def leaf_def graph_ok_def)

section \<open>What the solvers keep of a plan\<close>

text \<open>
  A solver only builds initial plans and joins plans of disjoint problems, so a statement about plans
  that both keep holds of whatever it returns. \<open>good\<close> says for which graphs (and iteration orders)
  the statement is kept.
\<close>

locale plan_invariant =
  fixes good :: "(operator list \<Rightarrow> operator list) \<Rightarrow> query_graph \<Rightarrow> bool"
    and P :: "query_graph \<Rightarrow> nodeset \<Rightarrow> plan \<Rightarrow> bool"
  assumes well_formed: "good arrange g \<Longrightarrow> wf_graph g"
    and covering: "good arrange g \<Longrightarrow> P g s p \<Longrightarrow> covers g s p"
    and initial: "good arrange g \<Longrightarrow> v < length (nodes g) \<Longrightarrow> P g {v} (createInitialPlan (nodes g ! v))"
    and joined: "good arrange g \<Longrightarrow> P g s1 p1 \<Longrightarrow> P g s2 p2 \<Longrightarrow> s1 \<inter> s2 \<inter> {0..<length (nodes g)} = {}
      \<Longrightarrow> joinPlans arrange g s1 s2 p1 p2 c = (p, s, c') \<Longrightarrow> P g s p"

context plan_invariant
begin

lemma good_graph: "good arrange g \<Longrightarrow> graph_ok g"
  using well_formed by (simp add: wf_graph_def)

lemma good_ids: "good arrange g \<Longrightarrow> i < length (nodes g) \<Longrightarrow> qn_id (nodes g ! i) = i"
  using good_graph by (simp add: graph_ok_def node_ok_def)

end

interpretation covering: plan_invariant "\<lambda>arrange. wf_graph" covers
proof unfold_locales
  show "wf_graph g \<Longrightarrow> v < length (nodes g) \<Longrightarrow> covers g {v} (createInitialPlan (nodes g ! v))" for g v
    by (simp add: wf_graph_def covers_leaf)
  show "covers g s p" if "wf_graph g" "covers g s1 p1" "covers g s2 p2" "s1 \<inter> s2 \<inter> {0..<length (nodes g)} = {}"
    "joinPlans arrange g s1 s2 p1 p2 c = (p, s, c')" for arrange g s1 s2 p1 p2 c p s c'
    using joinPlans_covers(1)[OF _ _ that(4,2,3,5)] that(1) by (simp add: wf_graph_def)
qed

end
