(* ===== verification/DPHyp.thy ===== *)
theory DPHyp
  imports Join_Plan
begin

text \<open>
  Join ordering by dynamic programming (\<^verbatim>\<open>src/lib/RelAlg/Transforms/queryopt/DPhyp.cpp\<close>). The state is
  the table of the best plans found so far and the cached selectivities. The recursive enumerations
  carry fuel, one more than the number of nodes being enough: every call excludes at least one more node.
\<close>

section \<open>The code\<close>

type_synonym dp_table = "nodeset \<rightharpoonup> plan"
type_synonym dp_state = "dp_table \<times> sel_cache"

definition for_subsets :: "nat \<Rightarrow> nodeset \<Rightarrow> (nodeset \<Rightarrow> 's \<Rightarrow> 's res) \<Rightarrow> 's \<Rightarrow> 's res" where
  "for_subsets n s f st = (case iterateSubsets n s of None \<Rightarrow> Inl Undefined | Some ts \<Rightarrow> mfold f ts st)"

text \<open>A problem without a plan would be a null pointer.\<close>

definition emitCsgCmp ::
    "(operator list \<Rightarrow> operator list) \<Rightarrow> query_graph \<Rightarrow> nodeset \<Rightarrow> nodeset \<Rightarrow> dp_state \<Rightarrow> dp_state res" where
  "emitCsgCmp arrange g s1 s2 = (\<lambda>(dpTable, cache).
     case (dpTable s1, dpTable s2) of
       (Some p1, Some p2) \<Rightarrow>
         (let (currPlan, s, cache') = joinPlans arrange g s1 s2 p1 p2 cache
          in case dpTable s of
               None \<Rightarrow> Inr (dpTable(s \<mapsto> currPlan), cache')
             | Some p \<Rightarrow> if dless (getCost currPlan) (getCost p)
                         then Inr (dpTable(s \<mapsto> currPlan), cache') else Inr (dpTable, cache'))
     | _ \<Rightarrow> Inl Undefined)"

fun enumerateCmpRec ::
    "(operator list \<Rightarrow> operator list) \<Rightarrow> query_graph \<Rightarrow> nat \<Rightarrow> nodeset \<Rightarrow> nodeset \<Rightarrow> nodeset
     \<Rightarrow> dp_state \<Rightarrow> dp_state res" where
  "enumerateCmpRec arrange g 0 s1 s2 x st = Inl Undefined"
| "enumerateCmpRec arrange g (Suc fuel) s1 s2 x st =
    (let neighbors = getNeighbors g s2 x
     in ebind (for_subsets (numNodes g) neighbors
                (\<lambda>n st. let s2N = s2 \<union> n
                        in if fst st s2N \<noteq> None \<and> isConnected g s1 s2N
                           then emitCsgCmp arrange g s1 s2N st else Inr st) st)
          (for_subsets (numNodes g) neighbors
             (\<lambda>n. enumerateCmpRec arrange g fuel s1 (s2 \<union> n) (x \<union> neighbors))))"

definition emitCsg ::
    "(operator list \<Rightarrow> operator list) \<Rightarrow> query_graph \<Rightarrow> nodeset \<Rightarrow> dp_state \<Rightarrow> dp_state res" where
  "emitCsg arrange g s1 =
    (let x = s1 \<union> fillUntil (numNodes g) (findFirst s1);
         neighbors = getNeighbors g s1 x
     in mfold (\<lambda>pos st.
          let s2 = single pos
          in ebind (if isConnected g s1 s2 then emitCsgCmp arrange g s1 s2 st else Inr st)
               (enumerateCmpRec arrange g (numNodes g + 1) s1 s2 x))
        (iterateSetDec neighbors))"

fun enumerateCsgRec ::
    "(operator list \<Rightarrow> operator list) \<Rightarrow> query_graph \<Rightarrow> nat \<Rightarrow> nodeset \<Rightarrow> nodeset \<Rightarrow> dp_state \<Rightarrow> dp_state res" where
  "enumerateCsgRec arrange g 0 s1 x st = Inl Undefined"
| "enumerateCsgRec arrange g (Suc fuel) s1 x st =
    (let neighbors = getNeighbors g s1 x
     in ebind (for_subsets (numNodes g) neighbors
                (\<lambda>n st. let s1N = s1 \<union> n
                        in if fst st s1N \<noteq> None then emitCsg arrange g s1N st else Inr st) st)
          (for_subsets (numNodes g) neighbors
             (\<lambda>n. enumerateCsgRec arrange g fuel (s1 \<union> n) (x \<union> neighbors))))"

text \<open>The table when \<^verbatim>\<open>solve\<close> reads its result.\<close>

definition dp_run :: "(operator list \<Rightarrow> operator list) \<Rightarrow> query_graph \<Rightarrow> dp_state res" where
  "dp_run arrange g =
    (let start = fold (\<lambda>v t. if single (qn_id v) \<in> dom t then t
                             else t(single (qn_id v) \<mapsto> createInitialPlan v)) (nodes g) Map.empty
     in mfold (\<lambda>v st.
          let onlyV = single (qn_id v); bv = fillUntil (numNodes g) (qn_id v)
          in ebind (emitCsg arrange g onlyV st) (enumerateCsgRec arrange g (numNodes g + 1) onlyV bv))
        (rev (nodes g)) (start, Map.empty))"

text \<open>The result of \<^verbatim>\<open>solve\<close>; \<open>None\<close> is the null pointer.\<close>

definition solve :: "(operator list \<Rightarrow> operator list) \<Rightarrow> query_graph \<Rightarrow> plan option res" where
  "solve arrange g = ebind (dp_run arrange g) (\<lambda>(dpTable, cache). Inr (dpTable (ones (numNodes g))))"

text \<open>Counting connected subgraphs; the \<^verbatim>\<open>return\<close> in a body of a loop only ends that body.\<close>

fun countSubGraphsRec :: "query_graph \<Rightarrow> nat \<Rightarrow> nat \<Rightarrow> nodeset \<Rightarrow> nodeset \<Rightarrow> nat \<Rightarrow> nat res" where
  "countSubGraphsRec g maxCount 0 s1 x cnt = Inl Undefined"
| "countSubGraphsRec g maxCount (Suc fuel) s1 x cnt =
    (let neighbors = getNeighbors g s1 x
     in for_subsets (numNodes g) neighbors
          (\<lambda>n cnt. if cnt + 1 \<ge> maxCount then Inr (cnt + 1)
                     else countSubGraphsRec g maxCount fuel (s1 \<union> n) (x \<union> neighbors) (cnt + 1)) cnt)"

definition countSubGraphs :: "query_graph \<Rightarrow> nat \<Rightarrow> nat res" where
  "countSubGraphs g maxCount =
     mfold (\<lambda>v cnt. if cnt + 1 \<ge> maxCount then Inr (cnt + 1)
              else countSubGraphsRec g maxCount (numNodes g + 1) (single (qn_id v))
                     (fillUntil (numNodes g) (qn_id v)) (cnt + 1))
       (rev (nodes g)) 0"

section \<open>Every entry of the table is a plan for its problem\<close>

lemma for_subsets_eq: "s \<subseteq> {0..<n} \<Longrightarrow> for_subsets n s f = mfold f (subsets_of (rev (sorted_list_of_set s)))"
  by (simp add: for_subsets_def iterateSubsets_eq fun_eq_iff)

lemma set_subsets: "finite s \<Longrightarrow> set (subsets_of (rev (sorted_list_of_set s))) = {t. t \<subseteq> s \<and> t \<noteq> {}}"
  by (simp add: set_subsets_of)

definition dp_ok :: "(nodeset \<Rightarrow> plan \<Rightarrow> bool) \<Rightarrow> query_graph \<Rightarrow> dp_state \<Rightarrow> bool" where
  "dp_ok Q g st \<longleftrightarrow> (\<forall>s p. fst st s = Some p \<longrightarrow> Q s p) \<and> (\<forall>v < length (nodes g). fst st {v} \<noteq> None)"

lemma dp_okD: "dp_ok Q g st \<Longrightarrow> fst st s = Some p \<Longrightarrow> Q s p"
  by (simp add: dp_ok_def)

lemma dp_ok_node: "dp_ok Q g st \<Longrightarrow> v < length (nodes g) \<Longrightarrow> fst st {v} \<noteq> None"
  by (simp add: dp_ok_def)

text \<open>A statement that returns, keeps the invariant and forgets no problem.\<close>

definition runs_ok :: "(nodeset \<Rightarrow> plan \<Rightarrow> bool) \<Rightarrow> query_graph \<Rightarrow> dp_state \<Rightarrow> dp_state res \<Rightarrow> bool" where
  "runs_ok Q g st m \<longleftrightarrow> (\<exists>st'. m = Inr st' \<and> dp_ok Q g st' \<and> dom (fst st) \<subseteq> dom (fst st'))"

lemma runs_ok_skip: "dp_ok Q g st \<Longrightarrow> runs_ok Q g st (Inr st)"
  by (simp add: runs_ok_def)

lemma runs_ok_bind:
  assumes "runs_ok Q g st m"
    and "\<And>st'. dp_ok Q g st' \<Longrightarrow> dom (fst st) \<subseteq> dom (fst st') \<Longrightarrow> runs_ok Q g st' (f st')"
  shows "runs_ok Q g st (ebind m f)"
proof -
  obtain st1 where st1: "m = Inr st1" "dp_ok Q g st1" "dom (fst st) \<subseteq> dom (fst st1)"
    using assms(1) by (auto simp: runs_ok_def)
  obtain st2 where "f st1 = Inr st2" "dp_ok Q g st2" "dom (fst st1) \<subseteq> dom (fst st2)"
    using assms(2)[OF st1(2,3)] by (auto simp: runs_ok_def)
  then show ?thesis using st1 unfolding runs_ok_def by (intro exI[of _ st2]) auto
qed

lemma runs_ok_if:
  "(b \<Longrightarrow> runs_ok Q g st m) \<Longrightarrow> (\<not> b \<Longrightarrow> runs_ok Q g st m') \<Longrightarrow> runs_ok Q g st (if b then m else m')"
  by simp

lemma runs_ok_mfold:
  assumes "\<And>i st'. i \<in> set is \<Longrightarrow> dp_ok Q g st' \<Longrightarrow> dom (fst st) \<subseteq> dom (fst st') \<Longrightarrow> runs_ok Q g st' (f i st')"
    and "dp_ok Q g st"
  shows "runs_ok Q g st (mfold f is st)"
  using assms
proof (induction "is" arbitrary: st)
  case (Cons i "is")
  show ?case unfolding mfold.simps
  proof (rule runs_ok_bind)
    show "runs_ok Q g st (f i st)" by (rule Cons.prems(1)) (use Cons.prems(2) in auto)
  next
    fix st' assume st': "dp_ok Q g st'" "dom (fst st) \<subseteq> dom (fst st')"
    show "runs_ok Q g st' (mfold f is st')"
      by (rule Cons.IH[OF Cons.prems(1)]) (use st' in auto)
  qed
qed (simp add: runs_ok_skip)

lemma runs_ok_subsets:
  assumes "s \<subseteq> {0..<n}" and "dp_ok Q g st"
    and "\<And>t st'. t \<subseteq> s \<Longrightarrow> t \<noteq> {} \<Longrightarrow> dp_ok Q g st' \<Longrightarrow> dom (fst st) \<subseteq> dom (fst st') \<Longrightarrow> runs_ok Q g st' (f t st')"
  shows "runs_ok Q g st (for_subsets n s f st)"
  unfolding for_subsets_eq[OF assms(1)]
  by (rule runs_ok_mfold) (use assms finite_subset[OF assms(1)] in \<open>auto simp: set_subsets\<close>)

lemma dom_stays: "fst st s \<noteq> None \<Longrightarrow> dom (fst st) \<subseteq> dom (fst st') \<Longrightarrow> fst st' s \<noteq> None"
  by auto

text \<open>Every round of the enumerations excludes more nodes, which is what the fuel pays for.\<close>

lemma excluded_less:
  fixes n :: nat
  assumes "N \<subseteq> {0..<n}" and "N \<inter> (s \<union> x) = {}" and "t \<subseteq> N" and "t \<noteq> {}" and "card ({0..<n} - x) < Suc fuel"
  shows "card ({0..<n} - (x \<union> N)) < fuel"
proof -
  have "card ({0..<n} - (x \<union> N)) < card ({0..<n} - x)"
    using assms(1-4) by (intro psubset_card_mono) auto
  then show ?thesis using assms(5) by simp
qed

lemma below_fuel: "card ({0..<n} - x) < n + 1"
  using card_mono[of "{0..<n}" "{0..<n} - x"] by simp

definition initial_table :: "qnode list \<Rightarrow> dp_table" where
  "initial_table vs = fold (\<lambda>v t. if single (qn_id v) \<in> dom t then t
     else t(single (qn_id v) \<mapsto> createInitialPlan v)) vs Map.empty"

lemma initial_table_eq:
  assumes "\<And>i. i < length vs \<Longrightarrow> qn_id (vs ! i) = i"
  shows "initial_table vs s = (if \<exists>v < length vs. s = {v}
    then Some (createInitialPlan (vs ! (THE v. s = {v}))) else None)"
  using assms
proof (induction vs rule: rev_induct)
  case Nil
  then show ?case by (simp add: initial_table_def)
next
  case (snoc w vs)
  have "qn_id w = length vs" using snoc.prems[of "length vs"] by simp
  moreover have "qn_id (vs ! i) = i" if "i < length vs" for i
    using snoc.prems[of i] that by (simp add: nth_append)
  ultimately show ?case using snoc.IH
    by (auto simp: initial_table_def single_def less_Suc_eq nth_append split: if_splits)
qed

text \<open>The invariant through the recursion, for any statement that initial plans and joins keep.\<close>

context plan_invariant
begin

lemma emitCsgCmp_ok:
  assumes g: "good arrange g" and ok: "dp_ok (P g) g st" and disj: "s1 \<inter> s2 = {}"
    and "fst st s1 \<noteq> None" and "fst st s2 \<noteq> None"
  shows "runs_ok (P g) g st (emitCsgCmp arrange g s1 s2 st)"
proof -
  obtain tbl c where st: "st = (tbl, c)" by (cases st)
  obtain p1 p2 where p: "tbl s1 = Some p1" "tbl s2 = Some p2" using assms(4,5) st by auto
  obtain p s c' where j: "joinPlans arrange g s1 s2 p1 p2 c = (p, s, c')" by (cases "joinPlans arrange g s1 s2 p1 p2 c")
  have "P g s p"
    using joined[OF g dp_okD[OF ok] dp_okD[OF ok] _ j] p st disj by simp
  then show ?thesis
    using ok p j st by (auto simp: emitCsgCmp_def runs_ok_def dp_ok_def split: option.split)
qed

lemma enumerateCmpRec_ok:
  assumes g: "good arrange g"
  shows "finite s2 \<Longrightarrow> s1 \<inter> s2 = {} \<Longrightarrow> s1 \<subseteq> x \<Longrightarrow> card ({0..<numNodes g} - x) < fuel
    \<Longrightarrow> dp_ok (P g) g st \<Longrightarrow> fst st s1 \<noteq> None \<Longrightarrow> runs_ok (P g) g st (enumerateCmpRec arrange g fuel s1 s2 x st)"
proof (induction fuel arbitrary: s2 x st)
  case (Suc fuel)
  let ?N = "getNeighbors g s2 x"
  note gok = good_graph[OF g]
  note N = getNeighbors_outside[OF gok Suc.prems(1), of x]
  have apart: "s1 \<inter> (s2 \<union> t) = {}" if "t \<subseteq> ?N" for t using that N(2) Suc.prems(2,3) by blast
  have fin: "finite (s2 \<union> t)" if "t \<subseteq> ?N" for t
    using that N(1) Suc.prems(1) finite_subset[of t "{0..<numNodes g}"] by auto
  show ?case unfolding enumerateCmpRec.simps Let_def
  proof (intro runs_ok_bind runs_ok_subsets[OF N(1)] runs_ok_if Suc.prems(5))
    fix t st'
    assume "t \<subseteq> ?N" "dp_ok (P g) g st'" "dom (fst st) \<subseteq> dom (fst st')" "fst st' (s2 \<union> t) \<noteq> None \<and> isConnected g s1 (s2 \<union> t)"
    then show "runs_ok (P g) g st' (emitCsgCmp arrange g s1 (s2 \<union> t) st')"
      using dom_stays[OF Suc.prems(6)] by (intro emitCsgCmp_ok g apart) auto
  next
    fix st1 t st'
    assume t: "t \<subseteq> ?N" "t \<noteq> {}" and st: "dp_ok (P g) g st'" "dom (fst st) \<subseteq> dom (fst st1)" "dom (fst st1) \<subseteq> dom (fst st')"
    show "runs_ok (P g) g st' (enumerateCmpRec arrange g fuel s1 (s2 \<union> t) (x \<union> ?N) st')"
    proof (rule Suc.IH)
      show "card ({0..<numNodes g} - (x \<union> ?N)) < fuel" using N t Suc.prems(4) by (rule excluded_less)
      show "fst st' s1 \<noteq> None" by (rule dom_stays[OF Suc.prems(6) order_trans[OF st(2,3)]])
    qed (use apart fin t Suc.prems(3) st(1) in auto)
  qed (auto intro: runs_ok_skip)
qed simp

lemma emitCsg_ok:
  assumes g: "good arrange g" and ok: "dp_ok (P g) g st" and s1: "fst st s1 \<noteq> None"
  shows "runs_ok (P g) g st (emitCsg arrange g s1 st)"
proof -
  let ?x = "s1 \<union> fillUntil (numNodes g) (findFirst s1)"
  let ?N = "getNeighbors g s1 ?x"
  note gok = good_graph[OF g]
  have fin: "finite s1" using ok s1 covering[OF g] by (auto dest: dp_okD simp: covers_def)
  note N = getNeighbors_outside[OF gok fin, of ?x]
  have v: "v < numNodes g \<and> s1 \<inter> {v} = {}" if "v \<in> set (iterateSetDec ?N)" for v
    using that N finite_subset[OF N(1)] by (auto simp: iterateSetDec_def)
  show ?thesis unfolding emitCsg_def Let_def
  proof (intro runs_ok_mfold runs_ok_bind runs_ok_if ok)
    fix v st'
    assume i: "v \<in> set (iterateSetDec ?N)" and st: "dp_ok (P g) g st'" "dom (fst st) \<subseteq> dom (fst st')"
      and con: "isConnected g s1 (single v)"
    have "fst st' {v} \<noteq> None"
      using isConnected_real[OF well_formed[OF g] _ con] v[OF i] dp_ok_node[OF st(1)] by simp
    then show "runs_ok (P g) g st' (emitCsgCmp arrange g s1 (single v) st')"
      using v[OF i] dom_stays[OF s1 st(2)] by (intro emitCsgCmp_ok g st) (auto simp: single_def)
  next
    fix v st' st''
    assume i: "v \<in> set (iterateSetDec ?N)" and st: "dp_ok (P g) g st''" "dom (fst st) \<subseteq> dom (fst st')" "dom (fst st') \<subseteq> dom (fst st'')"
    have "fst st'' s1 \<noteq> None" by (rule dom_stays[OF s1 order_trans[OF st(2,3)]])
    then show "runs_ok (P g) g st'' (enumerateCmpRec arrange g (numNodes g + 1) s1 (single v) ?x st'')"
      using v[OF i] by (intro enumerateCmpRec_ok g st below_fuel) (auto simp: single_def)
  qed (auto intro: runs_ok_skip)
qed

lemma enumerateCsgRec_ok:
  assumes g: "good arrange g"
  shows "finite s1 \<Longrightarrow> card ({0..<numNodes g} - x) < fuel \<Longrightarrow> dp_ok (P g) g st
    \<Longrightarrow> runs_ok (P g) g st (enumerateCsgRec arrange g fuel s1 x st)"
proof (induction fuel arbitrary: s1 x st)
  case (Suc fuel)
  let ?N = "getNeighbors g s1 x"
  note gok = good_graph[OF g]
  note N = getNeighbors_outside[OF gok Suc.prems(1), of x]
  have fin: "finite (s1 \<union> t)" if "t \<subseteq> ?N" for t
    using that N(1) Suc.prems(1) finite_subset[of t "{0..<numNodes g}"] by auto
  show ?case unfolding enumerateCsgRec.simps Let_def
  proof (intro runs_ok_bind runs_ok_subsets[OF N(1)] runs_ok_if Suc.prems(3))
    fix t st' assume "dp_ok (P g) g st'" "fst st' (s1 \<union> t) \<noteq> None"
    then show "runs_ok (P g) g st' (emitCsg arrange g (s1 \<union> t) st')" by (rule emitCsg_ok[OF g])
  next
    fix st1 t st'
    assume t: "t \<subseteq> ?N" "t \<noteq> {}" and st: "dp_ok (P g) g st'"
    show "runs_ok (P g) g st' (enumerateCsgRec arrange g fuel (s1 \<union> t) (x \<union> ?N) st')"
    proof (rule Suc.IH[OF fin[OF t(1)] _ st])
      show "card ({0..<numNodes g} - (x \<union> ?N)) < fuel" using N t Suc.prems(2) by (rule excluded_less)
    qed
  qed (auto intro: runs_ok_skip)
qed simp

lemma dp_run_ok:
  assumes "good arrange g"
  shows "\<exists>st. dp_run arrange g = Inr st \<and> dp_ok (P g) g st"
proof -
  note ids = good_ids[OF assms]
  have init: "dp_ok (P g) g (initial_table (nodes g), Map.empty)"
    using initial_table_eq[OF ids] initial[OF assms] by (auto simp: dp_ok_def split: if_splits)
  have "runs_ok (P g) g (initial_table (nodes g), Map.empty) (dp_run arrange g)"
    unfolding dp_run_def Let_def initial_table_def[symmetric]
  proof (intro runs_ok_mfold runs_ok_bind init)
    fix w st
    assume "w \<in> set (rev (nodes g))" and ok: "dp_ok (P g) g st"
    then obtain v where v: "v < length (nodes g)" "single (qn_id w) = {v}"
      using ids by (auto simp: in_set_conv_nth single_def)
    then show "runs_ok (P g) g st (emitCsg arrange g (single (qn_id w)) st)"
      using dp_ok_node[OF ok] by (intro emitCsg_ok assms ok) auto
    fix st' assume "dp_ok (P g) g st'"
    then show "runs_ok (P g) g st' (enumerateCsgRec arrange g (numNodes g + 1) (single (qn_id w))
        (fillUntil (numNodes g) (qn_id w)) st')"
      using v(2) by (intro enumerateCsgRec_ok assms below_fuel) auto
  qed
  then show ?thesis by (auto simp: runs_ok_def)
qed

lemma dp_run_entry: "good arrange g \<Longrightarrow> dp_run arrange g = Inr (F, c) \<Longrightarrow> F s = Some p \<Longrightarrow> P g s p"
  using dp_run_ok[of arrange g] dp_okD by fastforce

lemma solve_ok:
  assumes "good arrange g"
  shows "\<exists>q. solve arrange g = Inr q \<and> (\<forall>p. q = Some p \<longrightarrow> P g (ones (numNodes g)) p)"
proof -
  obtain st where st: "dp_run arrange g = Inr st" "dp_ok (P g) g st" using dp_run_ok[OF assms] by blast
  have "solve arrange g = Inr (fst st (ones (numNodes g)))"
    using st(1) by (simp add: solve_def split: prod.split)
  then show ?thesis using dp_okD[OF st(2)] by blast
qed

end

text \<open>C31: On every well-formed query graph, hyperedges and pseudo nodes included, the dynamic
  programming ends within its fuel and never reads a missing plan, and every plan in its table (so
  also the one it returns) joins each relation of its problem exactly once and costs what the cost
  model says.\<close>
theorem dphyp_plans:
  assumes "wf_graph g"
  shows "\<exists>st p. dp_run arrange g = Inr st \<and> (\<forall>s q. fst st s = Some q \<longrightarrow> covers g s q)
    \<and> solve arrange g = Inr p \<and> (\<forall>q. p = Some q \<longrightarrow> covers g (ones (numNodes g)) q)"
proof -
  obtain st where st: "dp_run arrange g = Inr st" "dp_ok (covers g) g st"
    using covering.dp_run_ok[OF assms] by blast
  have "solve arrange g = Inr (fst st (ones (numNodes g)))"
    using st(1) by (simp add: solve_def split: prod.split)
  then show ?thesis using st dp_okD[OF st(2)] by blast
qed


lemma dphyp_plans_witness:
  "\<exists>st p. dp_run (\<lambda>ops. ops) sample_mark = Inr st \<and> (\<forall>s q. fst st s = Some q \<longrightarrow> covers sample_mark s q)
    \<and> solve (\<lambda>ops. ops) sample_mark = Inr p \<and> (\<forall>q. p = Some q \<longrightarrow> covers sample_mark (ones (numNodes sample_mark)) q)"
  by (rule dphyp_plans[OF wf_sample_mark])

end
