(* ===== verification/Csg_Enumeration.thy ===== *)
theory Csg_Enumeration
  imports DPHyp
begin

text \<open>
  What the enumerations of \<open>DPHyp\<close> walk through on simple graphs, where every predicate joins two
  relations and no join creates columns: exactly the connected subgraphs, each once and after
  everything it contains, and for each of them exactly the connected sets beyond it it is adjacent to.
\<close>

section \<open>Simple graphs\<close>

definition simple_graph :: "query_graph \<Rightarrow> bool" where
  "simple_graph g \<longleftrightarrow> wf_graph g \<and> pseudoNodes g = 0 \<and> selections g = []
     \<and> (\<forall>e\<in>set (joins g). createdNode e = None \<and> (\<exists>a b. je_left e = {a} \<and> je_right e = {b} \<and> a \<noteq> b))"

abbreviation relations :: "query_graph \<Rightarrow> nodeset" where
  "relations g \<equiv> {0..<numNodes g}"

definition adj :: "query_graph \<Rightarrow> nat \<Rightarrow> nat \<Rightarrow> bool" where
  "adj g a b \<longleftrightarrow> (\<exists>e\<in>set (joins g). je_left e = {a} \<and> je_right e = {b} \<or> je_left e = {b} \<and> je_right e = {a})"

lemma adj_sym: "adj g a b \<Longrightarrow> adj g b a"
  by (auto simp: adj_def)

lemma simple_wf: "simple_graph g \<Longrightarrow> wf_graph g" and simple_ok: "simple_graph g \<Longrightarrow> graph_ok g"
  and simple_nodes: "simple_graph g \<Longrightarrow> length (nodes g) = numNodes g"
  by (auto simp: simple_graph_def wf_graph_def)

lemma set_joins_simple:
  assumes g: "simple_graph g" and s: "s \<subseteq> relations g"
  shows "set (set_joins g s) = {e \<in> set (joins g). s \<inter> (je_left e \<union> je_right e) \<noteq> {}}"
proof -
  have fin: "finite s" using s finite_subset by auto
  have "(\<exists>v\<in>s. v < length (nodes g) \<and> v \<in> t) \<longleftrightarrow> s \<inter> t \<noteq> {}" for t
    using s simple_nodes[OF g] by fastforce
  then show ?thesis unfolding set_joins_eq[OF simple_ok[OF g] fin] by (simp only:)
qed

lemma getNeighbors_simple:
  assumes g: "simple_graph g" and s: "s \<subseteq> relations g"
  shows "getNeighbors g s x = {b. b \<notin> s \<and> b \<notin> x \<and> (\<exists>a\<in>s. adj g a b)}"
proof -
  have sel: "set_selections g s = []"
  proof -
    have "node_selections (nodes g ! v) = []" if "v < length (nodes g)" for v
      using simple_ok[OF g] g that by (auto simp: graph_ok_def node_ok_def simple_graph_def)
    then show ?thesis by (auto simp: set_selections_def set_nodes_def)
  qed
  note joins = set_joins_simple[OF g s]
  have "getNeighbors g s x = {b. \<exists>e\<in>set (set_joins g s). je_findNeighbor e s x = Some b}"
    by (force simp: getNeighbors_def sel List.map_filter_def)
  also have "\<dots> = {b. b \<notin> s \<and> b \<notin> x \<and> (\<exists>a\<in>s. adj g a b)}"
  proof (intro set_eqI iffI; clarify)
    fix b e assume e: "e \<in> set (set_joins g s)" and b: "je_findNeighbor e s x = Some b"
    then have "e \<in> set (joins g)" using joins by blast
    moreover from this obtain c d where cd: "je_left e = {c}" "je_right e = {d}"
      using g unfolding simple_graph_def by blast
    ultimately have "e \<in> set (joins g)" "je_left e = {c}" "je_right e = {d}" by auto
    then show "b \<notin> s \<and> b \<notin> x \<and> (\<exists>a\<in>s. adj g a b)"
      using b by (auto simp: je_findNeighbor_def findFirst_def intersects_def adj_def Let_def split: if_splits)
  next
    fix a b assume a: "a \<in> s" "adj g a b" and b: "b \<notin> s" "b \<notin> x"
    then obtain e where e: "e \<in> set (joins g)" "je_left e = {a} \<and> je_right e = {b} \<or> je_left e = {b} \<and> je_right e = {a}"
      by (auto simp: adj_def)
    then have "e \<in> set (set_joins g s)" using joins a(1) by auto
    moreover have "je_findNeighbor e s x = Some b"
      using e(2) a(1) b by (auto simp: je_findNeighbor_def findFirst_def intersects_def)
    ultimately show "\<exists>e\<in>set (set_joins g s). je_findNeighbor e s x = Some b" by blast
  qed
  finally show ?thesis .
qed

lemma isConnected_simple:
  assumes g: "simple_graph g" and s: "s1 \<subseteq> relations g" and a: "a \<in> s1" "b \<in> s2" "adj g a b"
  shows "isConnected g s1 s2"
proof -
  have lonely: "\<not> containsLonelyPseudo g s" for s
    using simple_ok[OF g] g by (auto simp: containsLonelyPseudo_def graph_ok_def mask_ok_def flip_def simple_graph_def)
  obtain e where e: "e \<in> set (joins g)" "je_left e = {a} \<and> je_right e = {b} \<or> je_left e = {b} \<and> je_right e = {a}"
    using a(3) by (auto simp: adj_def)
  then have "e \<in> set (set_joins g s1)" using set_joins_simple[OF g s] a(1) by auto
  moreover have "je_connects e s1 s2" using e(2) a by (auto simp: je_connects_def)
  ultimately show ?thesis using lonely by (auto simp: isConnected_def)
qed

section \<open>Connected sets\<close>

text \<open>Every proper part of a connected set has an edge to the rest.\<close>

definition linked :: "query_graph \<Rightarrow> nodeset \<Rightarrow> bool" where
  "linked g S \<longleftrightarrow> S \<noteq> {} \<and> S \<subseteq> relations g
     \<and> (\<forall>A. A \<subset> S \<and> A \<noteq> {} \<longrightarrow> (\<exists>a\<in>A. \<exists>b\<in>S - A. adj g a b))"

lemma linkedD: "linked g S \<Longrightarrow> A \<subset> S \<Longrightarrow> A \<noteq> {} \<Longrightarrow> \<exists>a\<in>A. \<exists>b\<in>S - A. adj g a b"
  by (simp add: linked_def)

lemma linked_fin: "linked g S \<Longrightarrow> finite S \<and> S \<noteq> {} \<and> S \<subseteq> relations g"
  using finite_subset by (auto simp: linked_def)

lemma linked_single: "v < numNodes g \<Longrightarrow> linked g {v}"
  by (auto simp: linked_def)

lemma linked_grow:
  assumes S: "linked g S" and N: "N \<subseteq> relations g" "\<And>b. b \<in> N \<Longrightarrow> \<exists>a\<in>S. adj g a b"
  shows "linked g (S \<union> N)"
proof -
  have "\<exists>a\<in>A. \<exists>b\<in>(S \<union> N) - A. adj g a b" if A: "A \<subset> S \<union> N" "A \<noteq> {}" for A
  proof -
    consider "A \<inter> S = {}" | "S \<subseteq> A" | "A \<inter> S \<subset> S" "A \<inter> S \<noteq> {}" by blast
    then show ?thesis
    proof cases
      case 1
      obtain b where "b \<in> A" using A(2) by blast
      then obtain a where "a \<in> S" "adj g a b" using N(2)[of b] 1 A(1) by blast
      then show ?thesis using \<open>b \<in> A\<close> 1 adj_sym by blast
    next
      case 2
      obtain b where "b \<in> N" "b \<notin> A" using A(1) 2 by blast
      then show ?thesis using N(2)[of b] 2 by blast
    next
      case 3
      then obtain a b where "a \<in> A \<inter> S" "b \<in> S - A \<inter> S" "adj g a b" using linkedD[OF S] by blast
      then show ?thesis by blast
    qed
  qed
  then show ?thesis using S N(1) by (simp add: linked_def)
qed

text \<open>A connected set of two or more elements is a connected set around its first, and one more.\<close>

lemma linked_split:
  assumes S: "linked g S" and v: "v \<in> S" and more: "S \<noteq> {v}"
  shows "\<exists>A b. linked g A \<and> v \<in> A \<and> b \<notin> A \<and> S = insert b A \<and> (\<exists>a\<in>A. adj g a b)"
proof -
  let ?P = "\<lambda>A. linked g A \<and> v \<in> A \<and> A \<subset> S"
  have "v < numNodes g" "{v} \<subset> S" using linked_fin[OF S] v more by auto
  then have "?P {v}" using linked_single by blast
  moreover have "\<forall>A. ?P A \<longrightarrow> card A \<le> card S"
    using linked_fin[OF S] by (auto intro: card_mono)
  ultimately have "\<exists>A. ?P A \<and> (\<forall>B. ?P B \<longrightarrow> card B \<le> card A)"
    using ex_has_greatest_nat[of ?P "{v}" card "card S + 1"] by (simp add: less_Suc_eq_le)
  then obtain A where A: "?P A" and max: "\<And>B. ?P B \<Longrightarrow> card B \<le> card A" by blast
  obtain a b where ab: "a \<in> A" "b \<in> S - A" "adj g a b" using linkedD[OF S, of A] A by blast
  have con: "linked g (A \<union> {b})"
    using A ab linked_fin[OF S] by (intro linked_grow) auto
  have "S = insert b A"
  proof (rule ccontr)
    assume "S \<noteq> insert b A"
    then have "?P (A \<union> {b})" using con A ab(2) by auto
    then have "card (A \<union> {b}) \<le> card A" by (rule max)
    moreover have "finite A" using A linked_fin by auto
    ultimately show False using ab(2) by simp
  qed
  then show ?thesis using A ab by blast
qed

section \<open>The sets an enumeration meets\<close>

text \<open>Both recursive enumerations walk through the same sets.\<close>

definition parts :: "nodeset \<Rightarrow> nodeset list" where
  "parts s = subsets_of (rev (sorted_list_of_set s))"

lemma set_parts: "finite s \<Longrightarrow> set (parts s) = {t. t \<subseteq> s \<and> t \<noteq> {}}"
  by (simp add: parts_def set_subsets)

lemma sorted_parts: "sorted_wrt (\<lambda>s t. \<not> t \<subseteq> s) (parts s)"
  unfolding parts_def by (rule sorted_subsets_of) simp

fun csg_rec :: "query_graph \<Rightarrow> nat \<Rightarrow> nodeset \<Rightarrow> nodeset \<Rightarrow> nodeset list" where
  "csg_rec g 0 S X = []"
| "csg_rec g (Suc fuel) S X =
    (let N = getNeighbors g S X
     in map ((\<union>) S) (parts N) @ concat (map (\<lambda>n. csg_rec g fuel (S \<union> n) (X \<union> N)) (parts N)))"

lemma csg_rec_sound:
  assumes g: "simple_graph g"
  shows "S \<subseteq> relations g \<Longrightarrow> T \<in> set (csg_rec g fuel S X)
    \<Longrightarrow> S \<subset> T \<and> T \<inter> X \<subseteq> S \<and> T \<subseteq> relations g \<and> (linked g S \<longrightarrow> linked g T)"
proof (induction fuel arbitrary: S X)
  case (Suc fuel)
  let ?N = "getNeighbors g S X"
  have fin: "finite S" using Suc.prems(1) finite_subset by auto
  note N = getNeighbors_outside[OF simple_ok[OF g] fin, of X]
  have finN: "finite ?N" using N(1) finite_subset by auto
  have adjacent: "\<exists>a\<in>S. adj g a b" if "b \<in> ?N" for b
    using that getNeighbors_simple[OF g Suc.prems(1)] by auto
  have part: "S \<subset> S \<union> n \<and> (S \<union> n) \<inter> X \<subseteq> S \<and> S \<union> n \<subseteq> relations g \<and> (linked g S \<longrightarrow> linked g (S \<union> n))"
    if n: "n \<in> set (parts ?N)" for n
  proof -
    have "n \<subseteq> ?N" "n \<noteq> {}" using n by (auto simp: set_parts[OF finN])
    moreover from this have "linked g S \<Longrightarrow> linked g (S \<union> n)"
      using N(1) adjacent by (intro linked_grow) auto
    ultimately show ?thesis using N Suc.prems(1) by blast
  qed
  from Suc.prems(2) consider n where "n \<in> set (parts ?N)" "T = S \<union> n"
    | n where "n \<in> set (parts ?N)" "T \<in> set (csg_rec g fuel (S \<union> n) (X \<union> ?N))"
    by (auto simp: Let_def)
  then show ?case
  proof cases
    case 1
    then show ?thesis using part by blast
  next
    case 2
    then show ?thesis using part[OF 2(1)] Suc.IH[OF _ 2(2)] by blast
  qed
qed simp

lemma csg_rec_complete:
  assumes g: "simple_graph g" and T: "linked g T"
  shows "S \<subset> T \<Longrightarrow> S \<noteq> {} \<Longrightarrow> T \<inter> X \<subseteq> S \<Longrightarrow> card (relations g - X) < fuel \<Longrightarrow> T \<in> set (csg_rec g fuel S X)"
proof (induction fuel arbitrary: S X)
  case (Suc fuel)
  let ?N = "getNeighbors g S X"
  let ?n = "T \<inter> ?N"
  have sub: "S \<subseteq> relations g" using Suc.prems(1) linked_fin[OF T] by auto
  then have fin: "finite S" using finite_subset by auto
  note N = getNeighbors_outside[OF simple_ok[OF g] fin, of X]
  have finN: "finite ?N" using N(1) finite_subset by auto
  obtain a b where ab: "a \<in> S" "b \<in> T - S" "adj g a b" using linkedD[OF T Suc.prems(1,2)] by blast
  then have "b \<in> ?n" using Suc.prems(3) getNeighbors_simple[OF g sub] by auto
  then have n: "?n \<in> set (parts ?N)" by (auto simp: set_parts[OF finN])
  show ?case
  proof (cases "T = S \<union> ?n")
    case True
    then have "T \<in> (\<union>) S ` set (parts ?N)" using n by blast
    then show ?thesis by (simp add: Let_def)
  next
    case False
    have "T \<in> set (csg_rec g fuel (S \<union> ?n) (X \<union> ?N))"
    proof (rule Suc.IH)
      show "S \<union> ?n \<subset> T" using False Suc.prems(1) by blast
      show "T \<inter> (X \<union> ?N) \<subseteq> S \<union> ?n" using Suc.prems(3) by blast
      show "card (relations g - (X \<union> ?N)) < fuel"
        using N Suc.prems(4) \<open>b \<in> ?n\<close> by (intro excluded_less[where t = "?N"]) auto
    qed (use Suc.prems(2) in auto)
    then show ?thesis using n by (auto simp: Let_def)
  qed
qed simp

text \<open>No set is met after one that contains it, so none is met twice.\<close>

lemma sorted_wrt_concat:
  assumes "\<And>x. x \<in> set xs \<Longrightarrow> sorted_wrt P (f x)"
    and "sorted_wrt (\<lambda>x y. \<forall>u\<in>set (f x). \<forall>v\<in>set (f y). P u v) xs"
  shows "sorted_wrt P (concat (map f xs))"
  using assms by (induction xs) (auto simp: sorted_wrt_append)

lemma csg_rec_sorted:
  assumes g: "simple_graph g"
  shows "S \<subseteq> relations g \<Longrightarrow> S \<subseteq> X \<Longrightarrow> sorted_wrt (\<lambda>A B. \<not> B \<subseteq> A) (csg_rec g fuel S X)"
proof (induction fuel arbitrary: S X)
  case (Suc fuel)
  let ?N = "getNeighbors g S X"
  have fin: "finite S" using Suc.prems(1) finite_subset by auto
  note N = getNeighbors_outside[OF simple_ok[OF g] fin, of X]
  have finN: "finite ?N" using N(1) finite_subset by auto
  have n: "n \<subseteq> ?N" "n \<inter> S = {}" "S \<union> n \<subseteq> relations g" if "n \<in> set (parts ?N)" for n
    using that N Suc.prems(1) by (auto simp: set_parts[OF finN])
  have rec: "S \<union> n \<subset> T \<and> T \<inter> (X \<union> ?N) \<subseteq> S \<union> n"
    if "n \<in> set (parts ?N)" "T \<in> set (csg_rec g fuel (S \<union> n) (X \<union> ?N))" for n T
    using csg_rec_sound[OF g n(3)[OF that(1)] that(2)] by blast
  have first: "sorted_wrt (\<lambda>A B. \<not> B \<subseteq> A) (map ((\<union>) S) (parts ?N))"
    unfolding sorted_wrt_map
    by (rule sorted_wrt_mono_rel[OF _ sorted_parts]) (use n(2) in blast)
  have second: "sorted_wrt (\<lambda>A B. \<not> B \<subseteq> A) (concat (map (\<lambda>n. csg_rec g fuel (S \<union> n) (X \<union> ?N)) (parts ?N)))"
  proof (rule sorted_wrt_concat)
    fix m assume "m \<in> set (parts ?N)"
    then show "sorted_wrt (\<lambda>A B. \<not> B \<subseteq> A) (csg_rec g fuel (S \<union> m) (X \<union> ?N))"
      using n Suc.prems(2) by (intro Suc.IH) blast+
  next
    show "sorted_wrt (\<lambda>x y. \<forall>u\<in>set (csg_rec g fuel (S \<union> x) (X \<union> ?N)).
        \<forall>v\<in>set (csg_rec g fuel (S \<union> y) (X \<union> ?N)). \<not> v \<subseteq> u) (parts ?N)"
    proof (rule sorted_wrt_mono_rel[OF _ sorted_parts], intro ballI notI)
      fix a b A B
      assume a: "a \<in> set (parts ?N)" "A \<in> set (csg_rec g fuel (S \<union> a) (X \<union> ?N))"
        and b: "b \<in> set (parts ?N)" "B \<in> set (csg_rec g fuel (S \<union> b) (X \<union> ?N))"
        and ab: "\<not> b \<subseteq> a" "B \<subseteq> A"
      have "b \<subseteq> A \<inter> (X \<union> ?N)" using rec[OF b] ab(2) n(1)[OF b(1)] by blast
      then show False using rec[OF a] n(2)[OF b(1)] ab(1) by blast
    qed
  qed
  have cross: "\<not> B \<subseteq> A" if A: "A \<in> (\<union>) S ` set (parts ?N)"
    and B: "b \<in> set (parts ?N)" "B \<in> set (csg_rec g fuel (S \<union> b) (X \<union> ?N))" for A B b
  proof
    assume "B \<subseteq> A"
    then have "B \<subseteq> X \<union> ?N" using A n(1) Suc.prems(2) by blast
    then show False using rec[OF B] by blast
  qed
  show ?case using first second cross by (auto simp: Let_def sorted_wrt_append)
qed simp

text \<open>All sets, in the order in which \<^verbatim>\<open>solve\<close> emits them, and the complements of one of them.\<close>

definition csg_from :: "query_graph \<Rightarrow> nat \<Rightarrow> nodeset list" where
  "csg_from g v = {v} # csg_rec g (numNodes g + 1) {v} {0..<v + 1}"

definition csgs :: "query_graph \<Rightarrow> nodeset list" where
  "csgs g = concat (map (csg_from g) (rev [0..<numNodes g]))"

definition excluded :: "nodeset \<Rightarrow> nodeset" where
  "excluded S = S \<union> {0..<Min S + 1}"

definition cmps :: "query_graph \<Rightarrow> nodeset \<Rightarrow> nodeset list" where
  "cmps g S = concat (map (\<lambda>v. {v} # csg_rec g (numNodes g + 1) {v} (excluded S))
     (iterateSetDec (getNeighbors g S (excluded S))))"

lemma set_csg_from:
  assumes g: "simple_graph g" and v: "v < numNodes g"
  shows "set (csg_from g v) = {T. linked g T \<and> v \<in> T \<and> T \<inter> {0..<v} = {}}"
proof (intro set_eqI iffI)
  fix T assume "T \<in> set (csg_from g v)"
  then consider "T = {v}" | "T \<in> set (csg_rec g (numNodes g + 1) {v} {0..<v + 1})"
    by (auto simp: csg_from_def)
  then show "T \<in> {T. linked g T \<and> v \<in> T \<and> T \<inter> {0..<v} = {}}"
  proof cases
    case 2
    have "{v} \<subset> T \<and> T \<inter> {0..<v + 1} \<subseteq> {v} \<and> linked g T"
      using csg_rec_sound[OF g _ 2] v linked_single[OF v] by simp
    then have "u \<notin> T" if "u < v" for u using that by fastforce
    then show ?thesis using \<open>{v} \<subset> T \<and> _\<close> by auto
  qed (use linked_single[OF v] in auto)
next
  fix T assume "T \<in> {T. linked g T \<and> v \<in> T \<and> T \<inter> {0..<v} = {}}"
  then have T: "linked g T" "v \<in> T" "T \<inter> {0..<v} = {}" by auto
  show "T \<in> set (csg_from g v)"
  proof (cases "T = {v}")
    case False
    have "T \<in> set (csg_rec g (numNodes g + 1) {v} {0..<v + 1})"
    proof (rule csg_rec_complete[OF g T(1)])
      show "T \<inter> {0..<v + 1} \<subseteq> {v}"
      proof
        fix u assume "u \<in> T \<inter> {0..<v + 1}"
        then have "u \<le> v" "\<not> u < v" using T(3) by auto
        then show "u \<in> {v}" by simp
      qed
    qed (use T False below_fuel in auto)
    then show ?thesis by (simp add: csg_from_def)
  qed (simp add: csg_from_def)
qed

lemma set_csgs:
  assumes g: "simple_graph g"
  shows "set (csgs g) = {S. linked g S}"
proof -
  have *: "\<exists>v<numNodes g. v \<in> T \<and> T \<inter> {0..<v} = {}" if "linked g T" for T
  proof (intro exI conjI)
    have fin: "finite T" "T \<noteq> {}" "T \<subseteq> relations g" using linked_fin[OF that] by auto
    then show "Min T \<in> T" by simp
    then show "Min T < numNodes g" using fin(3) by auto
    show "T \<inter> {0..<Min T} = {}" using fin(1) by (auto simp: not_less[symmetric] dest: Min_le)
  qed
  have "T \<in> set (csgs g) \<longleftrightarrow> linked g T" for T
  proof -
    have "T \<in> set (csgs g) \<longleftrightarrow> (\<exists>v<numNodes g. T \<in> set (csg_from g v))" by (auto simp: csgs_def)
    also have "\<dots> \<longleftrightarrow> (\<exists>v<numNodes g. linked g T \<and> v \<in> T \<and> T \<inter> {0..<v} = {})"
      using set_csg_from[OF g] by auto
    finally show ?thesis using *[of T] by auto
  qed
  then show ?thesis by blast
qed

text \<open>The least element of a set tells the round in which it is emitted.\<close>

lemma csg_from_Min:
  assumes g: "simple_graph g" and v: "v < numNodes g" and T: "T \<in> set (csg_from g v)"
  shows "Min T = v"
proof -
  have "linked g T" "v \<in> T" "T \<inter> {0..<v} = {}" using T set_csg_from[OF g v] by auto
  moreover from this have "v \<le> u" if "u \<in> T" for u using that by (meson atLeastLessThan_iff disjoint_iff le0 not_le)
  ultimately show ?thesis using linked_fin by (intro Min_eqI) auto
qed

lemma csgs_sorted:
  assumes g: "simple_graph g"
  shows "sorted_wrt (\<lambda>A B. \<not> B \<subseteq> A) (csgs g)" and "sorted_wrt (\<lambda>A B. Min B \<le> Min A) (csgs g)"
proof -
  have desc: "sorted_wrt (\<lambda>v w. w < v) (rev [0..<numNodes g])" by (simp add: sorted_wrt_rev)
  have from_ok: "sorted_wrt (\<lambda>A B. \<not> B \<subseteq> A) (csg_from g v)" if v: "v < numNodes g" for v
  proof -
    have "\<not> B \<subseteq> {v}" if "B \<in> set (csg_rec g (numNodes g + 1) {v} {0..<v + 1})" for B
      using csg_rec_sound[OF g _ that] v by auto
    moreover have "sorted_wrt (\<lambda>A B. \<not> B \<subseteq> A) (csg_rec g (numNodes g + 1) {v} {0..<v + 1})"
      using v by (intro csg_rec_sorted[OF g]) auto
    ultimately show ?thesis by (simp add: csg_from_def)
  qed
  show "sorted_wrt (\<lambda>A B. \<not> B \<subseteq> A) (csgs g)"
    unfolding csgs_def
  proof (rule sorted_wrt_concat)
    show "sorted_wrt (\<lambda>x y. \<forall>u\<in>set (csg_from g x). \<forall>v\<in>set (csg_from g y). \<not> v \<subseteq> u) (rev [0..<numNodes g])"
    proof (rule sorted_wrt_mono_rel[OF _ desc], intro ballI)
      fix v w A B
      assume vw: "v \<in> set (rev [0..<numNodes g])" "w \<in> set (rev [0..<numNodes g])" "w < v"
        "A \<in> set (csg_from g v)" "B \<in> set (csg_from g w)"
      then have "A \<inter> {0..<v} = {}" "w \<in> B" using set_csg_from[OF g] by auto
      then show "\<not> B \<subseteq> A" using vw(3) by auto
    qed
  qed (use from_ok in auto)
  show "sorted_wrt (\<lambda>A B. Min B \<le> Min A) (csgs g)"
    unfolding csgs_def
  proof (rule sorted_wrt_concat)
    fix v assume "v \<in> set (rev [0..<numNodes g])"
    then have "v < numNodes g" by simp
    from csg_from_Min[OF g this] show "sorted_wrt (\<lambda>A B. Min B \<le> Min A) (csg_from g v)"
      by (intro sorted_wrt_mono_rel[OF _ from_ok[OF \<open>v < numNodes g\<close>]]) simp
  next
    show "sorted_wrt (\<lambda>x y. \<forall>u\<in>set (csg_from g x). \<forall>v\<in>set (csg_from g y). Min v \<le> Min u) (rev [0..<numNodes g])"
    proof (rule sorted_wrt_mono_rel[OF _ desc], intro ballI)
      fix v w A B
      assume vw: "v \<in> set (rev [0..<numNodes g])" "w \<in> set (rev [0..<numNodes g])" "w < v"
        "A \<in> set (csg_from g v)" "B \<in> set (csg_from g w)"
      then have "Min A = v" "Min B = w" by (auto intro: csg_from_Min[OF g])
      then show "Min B \<le> Min A" using vw(3) by simp
    qed
  qed
qed

text \<open>What a set is joined with: the connected sets beyond it, adjacent to it.\<close>

definition csg_cmp :: "query_graph \<Rightarrow> nodeset \<Rightarrow> nodeset \<Rightarrow> bool" where
  "csg_cmp g A B \<longleftrightarrow> linked g A \<and> linked g B \<and> A \<inter> B = {} \<and> Min A < Min B \<and> (\<exists>a\<in>A. \<exists>b\<in>B. adj g a b)"

lemma excluded_disjoint: "finite B \<Longrightarrow> B \<noteq> {} \<Longrightarrow> B \<inter> excluded A = {} \<longleftrightarrow> A \<inter> B = {} \<and> Min A < Min B"
  by (auto simp: excluded_def disjoint_iff less_Suc_eq_le not_le)

lemma set_cmps:
  assumes g: "simple_graph g" and A: "linked g A"
  shows "set (cmps g A) = {B. csg_cmp g A B}"
proof -
  let ?X = "excluded A"
  let ?N = "getNeighbors g A ?X"
  have sub: "A \<subseteq> relations g" "finite A" using linked_fin[OF A] by auto
  note N = getNeighbors_outside[OF simple_ok[OF g] sub(2), of ?X]
  have finN: "finite ?N" using N(1) finite_subset by auto
  have nb: "b \<in> ?N \<longleftrightarrow> b \<notin> ?X \<and> (\<exists>a\<in>A. adj g a b)" for b
    by (auto simp: getNeighbors_simple[OF g sub(1)] excluded_def)
  have mem: "B \<in> set (cmps g A) \<longleftrightarrow> (\<exists>v\<in>?N. B = {v} \<or> B \<in> set (csg_rec g (numNodes g + 1) {v} ?X))" for B
    using finN by (auto simp: cmps_def iterateSetDec_def)
  have "csg_cmp g A B" if "v \<in> ?N" "B = {v} \<or> B \<in> set (csg_rec g (numNodes g + 1) {v} ?X)" for v B
  proof -
    have "v \<in> relations g" using that(1) N(1) by blast
    then have v: "v < numNodes g" "v \<notin> ?X" "\<exists>a\<in>A. adj g a v" using that(1) nb by auto
    have "linked g B \<and> v \<in> B \<and> B \<inter> ?X = {}"
      using that(2) csg_rec_sound[OF g, of "{v}" B "numNodes g + 1" ?X] v linked_single[OF v(1)] by auto
    then show ?thesis
      using v(3) A linked_fin[of g B] excluded_disjoint[of B A] by (auto simp: csg_cmp_def)
  qed
  moreover have "\<exists>v\<in>?N. B = {v} \<or> B \<in> set (csg_rec g (numNodes g + 1) {v} ?X)" if B: "csg_cmp g A B" for B
  proof -
    obtain a b where ab: "a \<in> A" "b \<in> B" "adj g a b" using B by (auto simp: csg_cmp_def)
    have disj: "B \<inter> ?X = {}" using B linked_fin[of g B] excluded_disjoint by (auto simp: csg_cmp_def)
    then have "b \<in> ?N" using ab nb by auto
    moreover have "B = {b} \<or> B \<in> set (csg_rec g (numNodes g + 1) {b} ?X)"
      using csg_rec_complete[OF g, of B "{b}" ?X "numNodes g + 1"] B disj ab(2) below_fuel
      by (auto simp: csg_cmp_def)
    ultimately show ?thesis by blast
  qed
  ultimately show ?thesis using mem by blast
qed

end
