(* ===== verification/DPHyp_Optimal.thy ===== *)
theory DPHyp_Optimal
  imports Csg_Enumeration Complex_Main
begin

text \<open>
  Dynamic programming over simple graphs: every entry of the table is final when it is read,
  so that no pair of final entries gives a cheaper plan than the entry of their union. The number of
  connected subgraphs, by which the optimizer chooses between its two algorithms, is counted exactly.
\<close>

section \<open>The run as a sequence of pairs\<close>

lemma joinPlans_simple:
  assumes "simple_graph g"
  shows "\<exists>p. joinPlans arrange g s1 s2 p1 p2 c = (p, s1 \<union> s2, c)"
proof -
  have "js_s (fold apply_edge es js) = js_s js" if "\<forall>e\<in>set es. createdNode e = None" for es js
    using that
  proof (induction es arbitrary: js)
    case (Cons e es)
    then have "js_s (apply_edge e js) = js_s js"
      by (auto simp: apply_edge_def use_operator_def swap_sides_def Let_def split: option.split)
    then show ?case using Cons by simp
  qed simp
  then show ?thesis
    using assms by (auto simp: joinPlans_def simple_graph_def start_join_def)
qed

text \<open>The plan made of two plans.\<close>

definition best_join :: "(operator list \<Rightarrow> operator list) \<Rightarrow> query_graph \<Rightarrow> nodeset \<Rightarrow> nodeset \<Rightarrow> plan \<Rightarrow> plan \<Rightarrow> plan" where
  "best_join arrange g s1 s2 p1 p2 = fst (joinPlans arrange g s1 s2 p1 p2 Map.empty)"

lemma joinPlans_best:
  assumes "simple_graph g"
  shows "joinPlans arrange g s1 s2 p1 p2 c = (best_join arrange g s1 s2 p1 p2, s1 \<union> s2, c)"
  using joinPlans_simple[OF assms, of arrange s1 s2 p1 p2 c] assms
  by (auto simp: best_join_def joinPlans_def simple_graph_def split: prod.splits)

definition better :: "plan option \<Rightarrow> plan \<Rightarrow> plan option" where
  "better old p = (case old of None \<Rightarrow> Some p | Some q \<Rightarrow> if dless (getCost p) (getCost q) then Some p else Some q)"

lemma emitCsgCmp_simple:
  assumes "simple_graph g" and "t A = Some p" and "t B = Some q"
  shows "emitCsgCmp arrange g A B (t, c) = Inr (t(A \<union> B := better (t (A \<union> B)) (best_join arrange g A B p q)), c)"
  using assms(2,3) by (auto simp: emitCsgCmp_def joinPlans_best[OF assms(1)] better_def split: option.split)

lemma emitCsgCmp_dom:
  assumes "simple_graph g" and "emitCsgCmp arrange g A B st = Inr st'"
  shows "dom (fst st') = insert (A \<union> B) (dom (fst st)) \<and> snd st' = snd st"
  using assms(2)
  by (cases st) (auto simp: emitCsgCmp_def joinPlans_best[OF assms(1)] split: option.splits if_splits)

text \<open>All that is emitted for one set.\<close>

definition emit_all :: "(operator list \<Rightarrow> operator list) \<Rightarrow> query_graph \<Rightarrow> nodeset \<Rightarrow> dp_state \<Rightarrow> dp_state res" where
  "emit_all arrange g S = mfold (emitCsgCmp arrange g S) (cmps g S)"

lemma mfold_emit_dom:
  assumes "simple_graph g"
  shows "mfold (emitCsgCmp arrange g S) Bs st = Inr st' \<Longrightarrow> dom (fst st') = dom (fst st) \<union> (\<union>) S ` set Bs"
proof (induction Bs arbitrary: st)
  case (Cons B Bs)
  then obtain st1 where "emitCsgCmp arrange g S B st = Inr st1" "mfold (emitCsgCmp arrange g S) Bs st1 = Inr st'"
    by (auto simp: ebind_eq_Inr_iff)
  then show ?case using Cons.IH[of st1] emitCsgCmp_dom[OF assms, of arrange S B st st1] by simp
qed simp

lemma emit_all_dom:
  assumes "simple_graph g" and "emit_all arrange g S st = Inr st'"
  shows "dom (fst st') = dom (fst st) \<union> (\<union>) S ` set (cmps g S)"
  using assms(2) unfolding emit_all_def by (rule mfold_emit_dom[OF assms(1)])

text \<open>
  A loop over parts whose bodies are loops over pieces is one loop over all pieces, as long as every
  piece finds what it needs (\<open>R\<close>).
\<close>

lemma mfold_pieces:
  assumes body: "\<And>t st. t \<in> set ts \<Longrightarrow> R (h t) st \<Longrightarrow> f t st = mfold e (h t) st"
    and left: "\<And>xs ys st. R (xs @ ys) st \<Longrightarrow> R xs st"
    and right: "\<And>xs ys st st'. R (xs @ ys) st \<Longrightarrow> mfold e xs st = Inr st' \<Longrightarrow> R ys st'"
  shows "R (concat (map h ts)) st \<Longrightarrow> mfold f ts st = mfold e (concat (map h ts)) st"
  using body
proof (induction ts arbitrary: st)
  case (Cons t ts)
  have "f t st = mfold e (h t) st" using Cons.prems left by simp
  moreover have "mfold f ts st' = mfold e (concat (map h ts)) st'" if "mfold e (h t) st = Inr st'" for st'
  proof (rule Cons.IH)
    show "R (concat (map h ts)) st'" using right[OF _ that] Cons.prems(1) by simp
  qed (use Cons.prems(2) in simp)
  ultimately show ?case by (simp add: mfold_append cong: ebind_cong)
qed simp

text \<open>Complements: all of them must be in the table already.\<close>

definition known :: "(nodeset \<Rightarrow> bool) \<Rightarrow> nodeset list \<Rightarrow> dp_state \<Rightarrow> bool" where
  "known ok Bs st \<longleftrightarrow> (\<forall>B\<in>set Bs. B \<in> dom (fst st) \<and> ok B)"

lemma known_append: "known ok (xs @ ys) st \<longleftrightarrow> known ok xs st \<and> known ok ys st"
  by (auto simp: known_def)

lemma known_later:
  assumes "simple_graph g" and "known ok (xs @ ys) st" and "mfold (emitCsgCmp arrange g S) xs st = Inr st'"
  shows "known ok ys st'"
  using assms(2) mfold_emit_dom[OF assms(1,3)] by (auto simp: known_def)

lemma for_parts: "s \<subseteq> {0..<n} \<Longrightarrow> for_subsets n s f = mfold f (parts s)"
  by (simp add: for_subsets_eq parts_def)

lemma enumerateCmpRec_eq:
  assumes g: "simple_graph g"
  shows "S2 \<subseteq> relations g \<Longrightarrow> card (relations g - X) < fuel \<Longrightarrow> known (isConnected g S) (csg_rec g fuel S2 X) st
    \<Longrightarrow> enumerateCmpRec arrange g fuel S S2 X st = mfold (emitCsgCmp arrange g S) (csg_rec g fuel S2 X) st"
proof (induction fuel arbitrary: S2 X st)
  case (Suc fuel)
  let ?N = "getNeighbors g S2 X" and ?e = "emitCsgCmp arrange g S"
  let ?h = "\<lambda>n. csg_rec g fuel (S2 \<union> n) (X \<union> ?N)"
  have fin: "finite S2" using Suc.prems(1) finite_subset by auto
  note N = getNeighbors_outside[OF simple_ok[OF g] fin, of X]
  have finN: "finite ?N" using N(1) finite_subset by auto
  have n: "n \<subseteq> ?N \<and> n \<noteq> {}" if "n \<in> set (parts ?N)" for n using that set_parts[OF finN] by auto
  let ?R = "known (isConnected g S)"
  have R: "?R (map ((\<union>) S2) (parts ?N) @ concat (map ?h (parts ?N))) st"
    using Suc.prems(3) by (simp add: Let_def)
  note split = known_append[THEN iffD1, THEN conjunct1] known_later[OF g]
  have "mfold (\<lambda>n st. let s2N = S2 \<union> n in if fst st s2N \<noteq> None \<and> isConnected g S s2N
      then ?e s2N st else Inr st) (parts ?N) st
    = mfold ?e (concat (map (\<lambda>n. [S2 \<union> n]) (parts ?N))) st"
  proof (rule mfold_pieces[where R = ?R])
    fix t st assume "?R [S2 \<union> t] st"
    then show "(let s2N = S2 \<union> t in if fst st s2N \<noteq> None \<and> isConnected g S s2N then ?e s2N st else Inr st)
        = mfold ?e [S2 \<union> t] st"
      by (auto simp: known_def Let_def ebind_def split: sum.split)
  next
    show "?R (concat (map (\<lambda>n. [S2 \<union> n]) (parts ?N))) st"
      using R by (simp only: known_append concat_map_singleton)
  qed (use split in blast)+
  then have first: "mfold (\<lambda>n st. let s2N = S2 \<union> n in if fst st s2N \<noteq> None \<and> isConnected g S s2N
      then ?e s2N st else Inr st) (parts ?N) st = mfold ?e (map ((\<union>) S2) (parts ?N)) st"
    by simp
  have second: "mfold (\<lambda>n. enumerateCmpRec arrange g fuel S (S2 \<union> n) (X \<union> ?N)) (parts ?N) st1
    = mfold ?e (concat (map ?h (parts ?N))) st1"
    if st1: "mfold ?e (map ((\<union>) S2) (parts ?N)) st = Inr st1" for st1
  proof (rule mfold_pieces[where R = ?R])
    fix t st assume t: "t \<in> set (parts ?N)" and "?R (?h t) st"
    moreover have "card (relations g - (X \<union> ?N)) < fuel"
      using N n[OF t] Suc.prems(2) by (intro excluded_less[where t = t]) auto
    moreover have "S2 \<union> t \<subseteq> relations g" using n[OF t] N(1) Suc.prems(1) by blast
    ultimately show "enumerateCmpRec arrange g fuel S (S2 \<union> t) (X \<union> ?N) st = mfold ?e (?h t) st"
      by (intro Suc.IH) auto
  next
    show "?R (concat (map ?h (parts ?N))) st1" by (rule known_later[OF g R st1])
  qed (use split in blast)+
  show ?case
    unfolding enumerateCmpRec.simps csg_rec.simps Let_def for_parts[OF N(1)] mfold_append
    by (intro ebind_cong first[unfolded Let_def] second)
qed simp

lemma emitCsg_eq:
  assumes g: "simple_graph g" and S: "linked g S" and known: "set (cmps g S) \<subseteq> dom (fst st)"
  shows "emitCsg arrange g S st = emit_all arrange g S st"
proof -
  let ?X = "excluded S"
  let ?N = "getNeighbors g S ?X" and ?e = "emitCsgCmp arrange g S"
  have sub: "S \<subseteq> relations g" "finite S" using linked_fin[OF S] by auto
  note N = getNeighbors_outside[OF simple_ok[OF g] sub(2), of ?X]
  let ?h = "\<lambda>v. {v} # csg_rec g (numNodes g + 1) {v} ?X"
  let ?R = "known (isConnected g S)"
  have X: "S \<union> fillUntil (numNodes g) (findFirst S) = ?X"
    by (simp add: excluded_def fillUntil_def findFirst_def)
  have con: "isConnected g S B" if "B \<in> set (cmps g S)" for B
    using that isConnected_simple[OF g sub(1)] by (auto simp: set_cmps[OF g S] csg_cmp_def)
  have R: "?R (concat (map ?h (iterateSetDec ?N))) st"
    using known con unfolding known_def cmps_def by blast
  have "mfold (\<lambda>pos st. ebind (if isConnected g S {pos} then ?e {pos} st else Inr st)
        (enumerateCmpRec arrange g (numNodes g + 1) S {pos} ?X)) (iterateSetDec ?N) st
      = mfold ?e (concat (map ?h (iterateSetDec ?N))) st"
  proof (rule mfold_pieces[where R = ?R])
    fix v st assume v: "v \<in> set (iterateSetDec ?N)" and R: "?R (?h v) st"
    then have "v \<in> ?N" using finite_subset[OF N(1)] by (simp add: iterateSetDec_def)
    then have "v \<in> relations g" using N(1) by blast
    then have "enumerateCmpRec arrange g (numNodes g + 1) S {v} ?X st1
        = mfold ?e (csg_rec g (numNodes g + 1) {v} ?X) st1" if st1: "?e {v} st = Inr st1" for st1
      using R known_later[OF g, of "isConnected g S" "[{v}]" "csg_rec g (numNodes g + 1) {v} ?X" st arrange S st1] st1
        below_fuel by (intro enumerateCmpRec_eq[OF g]) auto
    then show "ebind (if isConnected g S {v} then ?e {v} st else Inr st)
        (enumerateCmpRec arrange g (numNodes g + 1) S {v} ?X) = mfold ?e (?h v) st"
      using R by (auto simp: known_def intro!: ebind_cong)
  qed (use R known_append[THEN iffD1, THEN conjunct1] known_later[OF g] in blast)+
  then show ?thesis
    unfolding emitCsg_def emit_all_def cmps_def Let_def X single_def .
qed

text \<open>
  Sets in the order of emission: when one is emitted, it and its complements are in the table.
\<close>

fun ready :: "query_graph \<Rightarrow> nodeset list \<Rightarrow> nodeset set \<Rightarrow> bool" where
  "ready g [] D \<longleftrightarrow> True"
| "ready g (S # Ss) D \<longleftrightarrow> linked g S \<and> S \<in> D \<and> set (cmps g S) \<subseteq> D \<and> ready g Ss (D \<union> (\<union>) S ` set (cmps g S))"

definition made :: "query_graph \<Rightarrow> nodeset list \<Rightarrow> nodeset set" where
  "made g Ss = (\<Union>S\<in>set Ss. (\<union>) S ` set (cmps g S))"

lemma ready_append: "ready g (Ss @ Ts) D \<longleftrightarrow> ready g Ss D \<and> ready g Ts (D \<union> made g Ss)"
  by (induction Ss arbitrary: D) (auto simp: made_def Un_assoc)

lemma ready_iff:
  "ready g Ss D \<longleftrightarrow> (\<forall>i < length Ss. linked g (Ss ! i) \<and> Ss ! i \<in> D \<union> made g (take i Ss)
     \<and> set (cmps g (Ss ! i)) \<subseteq> D \<union> made g (take i Ss))"
proof (induction Ss rule: rev_induct)
  case (snoc S Ss)
  then show ?case by (auto simp: ready_append less_Suc_eq nth_append)
qed simp

lemma mfold_emit_all_dom:
  assumes g: "simple_graph g"
  shows "mfold (emit_all arrange g) Ss st = Inr st' \<Longrightarrow> dom (fst st') = dom (fst st) \<union> made g Ss"
proof (induction Ss arbitrary: st)
  case (Cons S Ss)
  then obtain st1 where "emit_all arrange g S st = Inr st1" "mfold (emit_all arrange g) Ss st1 = Inr st'"
    by (auto simp: ebind_eq_Inr_iff)
  then show ?case using Cons.IH[of st1] emit_all_dom[OF g, of arrange S st st1] by (auto simp: made_def)
qed (simp add: made_def)

definition ready_at :: "query_graph \<Rightarrow> nodeset list \<Rightarrow> dp_state \<Rightarrow> bool" where
  "ready_at g Ss st \<longleftrightarrow> ready g Ss (dom (fst st))"

lemma ready_left: "ready_at g (Ss @ Ts) st \<Longrightarrow> ready_at g Ss st"
  by (simp add: ready_at_def ready_append)

lemma ready_right:
  assumes "simple_graph g" and "ready_at g (Ss @ Ts) st" and "mfold (emit_all arrange g) Ss st = Inr st'"
  shows "ready_at g Ts st'"
  using assms mfold_emit_all_dom[OF assms(1,3)] by (simp add: ready_at_def ready_append)

lemma enumerateCsgRec_eq:
  assumes g: "simple_graph g"
  shows "S \<subseteq> relations g \<Longrightarrow> card (relations g - X) < fuel \<Longrightarrow> ready_at g (csg_rec g fuel S X) st
    \<Longrightarrow> enumerateCsgRec arrange g fuel S X st = mfold (emit_all arrange g) (csg_rec g fuel S X) st"
proof (induction fuel arbitrary: S X st)
  case (Suc fuel)
  let ?N = "getNeighbors g S X" and ?e = "emit_all arrange g"
  let ?h = "\<lambda>n. csg_rec g fuel (S \<union> n) (X \<union> ?N)"
  have fin: "finite S" using Suc.prems(1) finite_subset by auto
  note N = getNeighbors_outside[OF simple_ok[OF g] fin, of X]
  have finN: "finite ?N" using N(1) finite_subset by auto
  have n: "n \<subseteq> ?N \<and> n \<noteq> {}" if "n \<in> set (parts ?N)" for n using that set_parts[OF finN] by auto
  have R: "ready_at g (map ((\<union>) S) (parts ?N) @ concat (map ?h (parts ?N))) st"
    using Suc.prems(3) by (simp add: Let_def)
  have "mfold (\<lambda>n st. let s1N = S \<union> n in if fst st s1N \<noteq> None then emitCsg arrange g s1N st else Inr st) (parts ?N) st
    = mfold ?e (concat (map (\<lambda>n. [S \<union> n]) (parts ?N))) st"
  proof (rule mfold_pieces[where R = "ready_at g"])
    fix t st assume "ready_at g [S \<union> t] st"
    then show "(let s1N = S \<union> t in if fst st s1N \<noteq> None then emitCsg arrange g s1N st else Inr st)
        = mfold ?e [S \<union> t] st"
      using emitCsg_eq[OF g, of "S \<union> t" st arrange]
      by (auto simp: ready_at_def Let_def ebind_def split: sum.split)
  next
    show "ready_at g (concat (map (\<lambda>n. [S \<union> n]) (parts ?N))) st"
      using ready_left[OF R] by (simp only: concat_map_singleton)
  qed (use ready_left ready_right[OF g] in blast)+
  then have first: "mfold (\<lambda>n st. let s1N = S \<union> n in if fst st s1N \<noteq> None then emitCsg arrange g s1N st else Inr st)
      (parts ?N) st = mfold ?e (map ((\<union>) S) (parts ?N)) st"
    by simp
  have second: "mfold (\<lambda>n. enumerateCsgRec arrange g fuel (S \<union> n) (X \<union> ?N)) (parts ?N) st1
    = mfold ?e (concat (map ?h (parts ?N))) st1"
    if st1: "mfold ?e (map ((\<union>) S) (parts ?N)) st = Inr st1" for st1
  proof (rule mfold_pieces[where R = "ready_at g"])
    fix t st assume t: "t \<in> set (parts ?N)" and "ready_at g (?h t) st"
    moreover have "card (relations g - (X \<union> ?N)) < fuel"
      using N n[OF t] Suc.prems(2) by (intro excluded_less[where t = t]) auto
    moreover have "S \<union> t \<subseteq> relations g" using n[OF t] N(1) Suc.prems(1) by blast
    ultimately show "enumerateCsgRec arrange g fuel (S \<union> t) (X \<union> ?N) st = mfold ?e (?h t) st"
      by (intro Suc.IH) auto
  next
    show "ready_at g (concat (map ?h (parts ?N))) st1" by (rule ready_right[OF g R st1])
  qed (use ready_left ready_right[OF g] in blast)+
  show ?case
    unfolding enumerateCsgRec.simps csg_rec.simps Let_def for_parts[OF N(1)] mfold_append
    by (intro ebind_cong first[unfolded Let_def] second)
qed simp

section \<open>The order of emission\<close>

text \<open>A connected set of several elements is made from a smaller one that has the same least element.\<close>

lemma linked_made:
  assumes T: "linked g T" and several: "\<nexists>v. v < numNodes g \<and> T = {v}"
  shows "\<exists>A B. csg_cmp g A B \<and> T = A \<union> B \<and> Min A = Min T \<and> A \<subset> T"
proof -
  have fin: "finite T" "T \<noteq> {}" "T \<subseteq> relations g" using linked_fin[OF T] by auto
  let ?v = "Min T"
  have "?v \<in> T" using fin by simp
  then have v: "?v \<in> T" "?v < numNodes g" using fin(3) by auto
  then have "T \<noteq> {?v}" using several by blast
  from linked_split[OF T v(1) this] obtain A b where
    A: "linked g A" "?v \<in> A" "b \<notin> A" "T = insert b A" "\<exists>a\<in>A. adj g a b" by blast
  then have "finite A" using linked_fin by blast
  have "b \<in> T" using A(4) by blast
  have min: "Min A = ?v" using A(2,4) fin(1) by (intro Min_eqI[OF \<open>finite A\<close>]) (auto intro: Min_le)
  moreover have "?v < b" using Min_le[OF fin(1) \<open>b \<in> T\<close>] A(2,3) by (cases "?v = b") auto
  moreover have "linked g {b}" using fin(3) \<open>b \<in> T\<close> by (intro linked_single) auto
  ultimately have "csg_cmp g A {b}" using A(1,3,5) by (auto simp: csg_cmp_def)
  moreover have "T = A \<union> {b}" "A \<subset> T" using A(3,4) by auto
  ultimately show ?thesis using min by blast
qed

lemma csgs_ready:
  assumes g: "simple_graph g"
  shows "ready g (csgs g) {s. \<exists>v < numNodes g. s = {v}}"
  unfolding ready_iff
proof (intro allI impI conjI)
  let ?D = "{s. \<exists>v < numNodes g. s = {v}}"
  fix i assume i: "i < length (csgs g)"
  then show S: "linked g (csgs g ! i)" using nth_mem[OF i] set_csgs[OF g] by simp
  have earlier: "T \<in> ?D \<union> made g (take i (csgs g))"
    if T: "linked g T" and before: "\<And>A j. A \<subset> T \<Longrightarrow> Min A = Min T \<Longrightarrow> j < length (csgs g) \<Longrightarrow> csgs g ! j = A \<Longrightarrow> j < i" for T
  proof (cases "\<exists>v. v < numNodes g \<and> T = {v}")
    case False
    from linked_made[OF T False] obtain A B where A: "csg_cmp g A B" "T = A \<union> B" "Min A = Min T" "A \<subset> T" by blast
    have "A \<in> set (csgs g)" using A(1) set_csgs[OF g] by (simp add: csg_cmp_def)
    then obtain j where j: "j < length (csgs g)" "csgs g ! j = A" by (auto simp: in_set_conv_nth)
    then have "j < i" using before A by blast
    then have "A \<in> set (take i (csgs g))" using j by (auto simp: in_set_conv_nth)
    moreover have "B \<in> set (cmps g A)" using A(1) set_cmps[OF g, of A] by (simp add: csg_cmp_def)
    ultimately show ?thesis using A(2) by (auto simp: made_def)
  qed auto
  show "csgs g ! i \<in> ?D \<union> made g (take i (csgs g))"
  proof (rule earlier[OF S])
    fix A j assume A: "A \<subset> csgs g ! i" "j < length (csgs g)" "csgs g ! j = A"
    show "j < i"
    proof (rule ccontr)
      assume "\<not> j < i"
      then have "i < j" using A by (cases "i = j") auto
      then show False using sorted_wrt_nth_less[OF csgs_sorted(1)[OF g]] A by blast
    qed
  qed
  show "set (cmps g (csgs g ! i)) \<subseteq> ?D \<union> made g (take i (csgs g))"
  proof
    fix B assume "B \<in> set (cmps g (csgs g ! i))"
    then have B: "linked g B" "Min (csgs g ! i) < Min B" using set_cmps[OF g S] by (auto simp: csg_cmp_def)
    show "B \<in> ?D \<union> made g (take i (csgs g))"
    proof (rule earlier[OF B(1)])
      fix A j assume A: "Min A = Min B" "j < length (csgs g)" "csgs g ! j = A"
      show "j < i"
      proof (rule ccontr)
        assume "\<not> j < i"
        then have "Min (csgs g ! j) \<le> Min (csgs g ! i)"
          using sorted_wrt_nth_less[OF csgs_sorted(2)[OF g], of i j] A(2) by (cases "i = j") auto
        then show False using A B(2) by simp
      qed
    qed
  qed
qed

lemma node_ids: "simple_graph g \<Longrightarrow> i < length (nodes g) \<Longrightarrow> qn_id (nodes g ! i) = i"
  using simple_ok by (simp add: graph_ok_def node_ok_def)

lemma node_order:
  assumes "simple_graph g"
  shows "map qn_id (rev (nodes g)) = rev [0..<numNodes g]"
proof -
  have "map qn_id (nodes g) = [0..<numNodes g]"
    using node_ids[OF assms] simple_nodes[OF assms] by (intro nth_equalityI) simp_all
  then show ?thesis by (simp add: rev_map[symmetric])
qed

lemma dp_run_eq:
  assumes g: "simple_graph g"
  shows "dp_run arrange g = mfold (emit_all arrange g) (csgs g) (initial_table (nodes g), Map.empty)"
proof -
  note ids = node_ids[OF g]
  note order = node_order[OF g]
  let ?st = "(initial_table (nodes g), Map.empty)"
  let ?body = "\<lambda>v st. ebind (emitCsg arrange g {v} st) (enumerateCsgRec arrange g (numNodes g + 1) {v} {0..<v + 1})"
  have start: "dom (initial_table (nodes g)) = {s. \<exists>v < numNodes g. s = {v}}"
    using initial_table_eq[OF ids] simple_nodes[OF g] by (auto split: if_splits)
  have "dp_run arrange g = mfold (\<lambda>w. ?body (qn_id w)) (rev (nodes g)) ?st"
    by (simp only: dp_run_def Let_def single_def fillUntil_def initial_table_def)
  also have "\<dots> = mfold ?body (rev [0..<numNodes g]) ?st"
    unfolding order[symmetric] by (simp only: mfold_map)
  also have "\<dots> = mfold (emit_all arrange g) (csgs g) ?st"
    unfolding csgs_def
  proof (rule mfold_pieces[where R = "ready_at g"])
    fix v st assume v: "v \<in> set (rev [0..<numNodes g])" and R: "ready_at g (csg_from g v) st"
    let ?rest = "csg_rec g (numNodes g + 1) {v} {0..<v + 1}"
    have now: "emitCsg arrange g {v} st = emit_all arrange g {v} st"
      using R by (intro emitCsg_eq[OF g]) (auto simp: ready_at_def csg_from_def)
    have "enumerateCsgRec arrange g (numNodes g + 1) {v} {0..<v + 1} st1 = mfold (emit_all arrange g) ?rest st1"
      if st1: "emit_all arrange g {v} st = Inr st1" for st1
    proof (rule enumerateCsgRec_eq[OF g _ below_fuel])
      have "mfold (emit_all arrange g) [{v}] st = Inr st1" using st1 by simp
      then show "ready_at g ?rest st1"
        using ready_right[OF g, of "[{v}]" ?rest] R by (simp add: csg_from_def del: csg_rec.simps)
    qed (use v in auto)
    then show "?body v st = mfold (emit_all arrange g) (csg_from g v) st"
      unfolding csg_from_def mfold.simps now by (intro ebind_cong refl) auto
  next
    show "ready_at g (concat (map (csg_from g) (rev [0..<numNodes g]))) ?st"
      using csgs_ready[OF g] by (simp add: ready_at_def csgs_def start)
  qed (use ready_left ready_right[OF g] in blast)+
  finally show ?thesis .
qed

section \<open>Final entries\<close>

text \<open>All pairs in the order in which they are emitted.\<close>

definition pairs :: "query_graph \<Rightarrow> (nodeset \<times> nodeset) list" where
  "pairs g = concat (map (\<lambda>S. map (Pair S) (cmps g S)) (csgs g))"

lemma mfold_concat: "mfold (\<lambda>x. mfold (f x) (h x)) xs s = mfold (\<lambda>(x, y). f x y) (concat (map (\<lambda>x. map (Pair x) (h x)) xs)) s"
proof (induction xs arbitrary: s)
  case (Cons x xs)
  have "mfold (\<lambda>(x, y). f x y) (map (Pair x) ys) s = mfold (f x) ys s" for ys s by (simp add: mfold_map)
  then show ?case using Cons by (simp add: mfold_append cong: ebind_cong)
qed simp

lemma set_pairs: "simple_graph g \<Longrightarrow> set (pairs g) = {(A, B). csg_cmp g A B}"
  using set_csgs set_cmps by (fastforce simp: pairs_def csg_cmp_def)

lemma linked_union:
  assumes "csg_cmp g A B"
  shows "linked g (A \<union> B)"
proof -
  have A: "linked g A" and B: "linked g B" and disj: "A \<inter> B = {}" using assms by (auto simp: csg_cmp_def)
  obtain a b where ab: "a \<in> A" "b \<in> B" "adj g a b" using assms by (auto simp: csg_cmp_def)
  have "\<exists>x\<in>S. \<exists>y\<in>(A \<union> B) - S. adj g x y" if S: "S \<subset> A \<union> B" "S \<noteq> {}" for S
  proof -
    have "S \<inter> A \<noteq> {} \<or> S \<inter> B \<noteq> {}" "S \<inter> A \<noteq> A \<or> S \<inter> B \<noteq> B" using S by auto
    moreover have "S = (S \<inter> A) \<union> (S \<inter> B)" using S(1) by auto
    ultimately consider "S \<inter> A \<subset> A" "S \<inter> A \<noteq> {}" | "S \<inter> B \<subset> B" "S \<inter> B \<noteq> {}" | "S = A" | "S = B"
      by (metis Int_lower2 psubsetI sup_bot.right_neutral sup_bot_left)
    then show ?thesis
    proof cases
      case 1
      obtain x y where "x \<in> S \<inter> A" "y \<in> A - S \<inter> A" "adj g x y" using linkedD[OF A 1] by blast
      then show ?thesis by blast
    next
      case 2
      obtain x y where "x \<in> S \<inter> B" "y \<in> B - S \<inter> B" "adj g x y" using linkedD[OF B 2] by blast
      then show ?thesis by blast
    next
      case 3
      then show ?thesis using ab disj by blast
    next
      case 4
      then show ?thesis using ab disj adj_sym by blast
    qed
  qed
  then show ?thesis using linked_fin[OF A] linked_fin[OF B] by (auto simp: linked_def)
qed

text \<open>No later pair (nor the pair itself) makes a side of a pair.\<close>

definition makes :: "nodeset \<times> nodeset \<Rightarrow> nodeset \<Rightarrow> bool" where
  "makes p s \<longleftrightarrow> fst p \<union> snd p = s"

lemma csg_cmp_proper: "csg_cmp g A B \<Longrightarrow> A \<union> B \<noteq> A \<and> A \<union> B \<noteq> B"
  using linked_fin[of g A] linked_fin[of g B] by (auto simp: csg_cmp_def)

lemma pairs_sorted:
  assumes g: "simple_graph g"
  shows "sorted_wrt (\<lambda>p q. \<not> makes q (fst p) \<and> \<not> makes q (snd p)) (pairs g)"
  unfolding pairs_def
proof (rule sorted_wrt_concat)
  fix S assume "S \<in> set (csgs g)"
  then have cc: "csg_cmp g S B" if "B \<in> set (cmps g S)" for B using that set_csgs[OF g] set_cmps[OF g] by auto
  have "\<not> S \<union> C = S \<and> \<not> S \<union> C = B" if "B \<in> set (cmps g S)" "C \<in> set (cmps g S)" for B C
    using csg_cmp_proper[OF cc[OF that(2)]] cc[OF that(1)] linked_fin[of g S] by (auto simp: csg_cmp_def)
  then have "sorted_wrt (\<lambda>B C. \<not> S \<union> C = S \<and> \<not> S \<union> C = B) (cmps g S)"
    unfolding sorted_wrt_iff_nth_less by (meson less_trans nth_mem)
  then show "sorted_wrt (\<lambda>p q. \<not> makes q (fst p) \<and> \<not> makes q (snd p)) (map (Pair S) (cmps g S))"
    by (simp add: sorted_wrt_map makes_def)
next
  have both: "sorted_wrt (\<lambda>A B. \<not> B \<subseteq> A \<and> Min B \<le> Min A) (csgs g)"
    using csgs_sorted[OF g] by (auto simp: sorted_wrt_iff_nth_less)
  show "sorted_wrt (\<lambda>S T. \<forall>p\<in>set (map (Pair S) (cmps g S)). \<forall>q\<in>set (map (Pair T) (cmps g T)).
      \<not> makes q (fst p) \<and> \<not> makes q (snd p)) (csgs g)"
  proof (rule sorted_wrt_mono_rel[OF _ both], intro ballI)
    fix S T p q
    assume "S \<in> set (csgs g)" "T \<in> set (csgs g)" and ord: "\<not> T \<subseteq> S \<and> Min T \<le> Min S"
      and "p \<in> set (map (Pair S) (cmps g S))" "q \<in> set (map (Pair T) (cmps g T))"
    then obtain B D where pq: "p = (S, B)" "q = (T, D)" "csg_cmp g S B" "csg_cmp g T D"
      using set_csgs[OF g] set_cmps[OF g] by auto
    have "T \<union> D \<noteq> B"
    proof
      assume eq: "T \<union> D = B"
      have "finite B" "T \<noteq> {}" using pq(3,4) linked_fin by (auto simp: csg_cmp_def)
      then have "Min B \<le> Min T" using eq by (intro Min_antimono) auto
      then show False using ord pq(3) by (auto simp: csg_cmp_def)
    qed
    then show "\<not> makes q (fst p) \<and> \<not> makes q (snd p)" using pq(1,2) ord by (auto simp: makes_def)
  qed
qed

text \<open>One pair, on tables; the run is the sequence of them.\<close>

definition pair_step ::
    "(operator list \<Rightarrow> operator list) \<Rightarrow> query_graph \<Rightarrow> nodeset \<times> nodeset \<Rightarrow> dp_table \<Rightarrow> dp_table" where
  "pair_step arrange g = (\<lambda>(A, B) t.
     t(A \<union> B := better (t (A \<union> B)) (best_join arrange g A B (the (t A)) (the (t B)))))"

lemma emit_pairs_eq:
  assumes g: "simple_graph g"
  shows "mfold (\<lambda>(A, B). emitCsgCmp arrange g A B) ps (t, c) = Inr (t', c') \<Longrightarrow> t' = fold (pair_step arrange g) ps t"
proof (induction ps arbitrary: t c)
  case (Cons p ps)
  obtain A B where p: "p = (A, B)" by fastforce
  obtain t1 c1 where step: "emitCsgCmp arrange g A B (t, c) = Inr (t1, c1)"
    "mfold (\<lambda>(A, B). emitCsgCmp arrange g A B) ps (t1, c1) = Inr (t', c')"
    using Cons.prems p by (auto simp: ebind_eq_Inr_iff)
  then obtain pa pb where "t A = Some pa" "t B = Some pb"
    by (auto simp: emitCsgCmp_def split: option.splits)
  then have "t1 = pair_step arrange g p t"
    using step(1) emitCsgCmp_simple[OF g] p by (auto simp: pair_step_def)
  then show ?case using Cons.IH[OF step(2)] by simp
qed simp

lemma pair_steps_other:
  "(\<And>p. p \<in> set ps \<Longrightarrow> \<not> makes p s) \<Longrightarrow> fold (pair_step arrange g) ps t s = t s"
proof (induction ps arbitrary: t)
  case (Cons p ps)
  have "pair_step arrange g p t s = t s" using Cons.prems[of p] by (cases p) (auto simp: pair_step_def makes_def)
  then show ?case using Cons by simp
qed simp

text \<open>What is read from the table is what it holds in the end.\<close>

definition candidate :: "(operator list \<Rightarrow> operator list) \<Rightarrow> query_graph \<Rightarrow> dp_table \<Rightarrow> nodeset \<times> nodeset \<Rightarrow> plan" where
  "candidate arrange g F p = best_join arrange g (fst p) (snd p) (the (F (fst p))) (the (F (snd p)))"

lemma pair_steps_final:
  assumes "sorted_wrt (\<lambda>p q. \<not> makes q (fst p) \<and> \<not> makes q (snd p)) ps"
    and "\<And>p. p \<in> set ps \<Longrightarrow> \<not> makes p (fst p) \<and> \<not> makes p (snd p)"
  shows "fold (pair_step arrange g) ps t s
    = fold (\<lambda>p old. better old (candidate arrange g (fold (pair_step arrange g) ps t) p))
        (filter (\<lambda>p. makes p s) ps) (t s)"
  using assms
proof (induction ps arbitrary: t)
  case (Cons p ps)
  let ?F = "fold (pair_step arrange g) (p # ps) t"
  have "\<forall>q\<in>set (p # ps). \<not> makes q (fst p) \<and> \<not> makes q (snd p)" using Cons.prems by auto
  then have "?F (fst p) = t (fst p)" "?F (snd p) = t (snd p)" using pair_steps_other[of "p # ps"] by blast+
  then have "pair_step arrange g p t s = (if makes p s then better (t s) (candidate arrange g ?F p) else t s)"
    by (cases p) (auto simp: pair_step_def makes_def candidate_def)
  moreover have "fold (pair_step arrange g) ps (pair_step arrange g p t) s
    = fold (\<lambda>p old. better old (candidate arrange g ?F p)) (filter (\<lambda>p. makes p s) ps) (pair_step arrange g p t s)"
    using Cons.IH[of "pair_step arrange g p t"] Cons.prems by simp
  ultimately show ?case by simp
qed simp

section \<open>The cheapest candidate\<close>

text \<open>On numbers that are not NaN the comparison of doubles is a strict weak order.\<close>

definition fin_val :: "bool \<Rightarrow> nat \<Rightarrow> int \<Rightarrow> real" where
  "fin_val s m e = real_of_int (sgn_nat s m) * 2 powr real_of_int e"

lemma sgn_nat_scale: "real_of_int (sgn_nat s (m * 2 ^ nat (e - k))) = fin_val s m e * 2 powr - real_of_int k" if "k \<le> e"
proof -
  have "real_of_int (sgn_nat s (m * 2 ^ nat (e - k))) = real_of_int (sgn_nat s m) * 2 ^ nat (e - k)"
    by (simp add: sgn_nat_def)
  also have "(2::real) ^ nat (e - k) = 2 powr (real_of_int e + - real_of_int k)"
    using that by (simp add: powr_realpow[symmetric])
  finally show ?thesis unfolding powr_add by (simp add: fin_val_def)
qed

lemma fgreater_val: "fgreater (FFin s m e) (FFin t n f) \<longleftrightarrow> fin_val t n f < fin_val s m e"
proof -
  let ?k = "min e f"
  have "fgreater (FFin s m e) (FFin t n f)
      \<longleftrightarrow> real_of_int (sgn_nat t (n * 2 ^ nat (f - ?k))) < real_of_int (sgn_nat s (m * 2 ^ nat (e - ?k)))"
    by (simp add: Let_def)
  also have "\<dots> \<longleftrightarrow> fin_val t n f * 2 powr - real_of_int ?k < fin_val s m e * 2 powr - real_of_int ?k"
    by (simp only: sgn_nat_scale min.cobounded1 min.cobounded2)
  also have "\<dots> \<longleftrightarrow> fin_val t n f < fin_val s m e" by (simp add: mult_less_cancel_right)
  finally show ?thesis .
qed

lemma fgreater_asym: "fgreater x y \<Longrightarrow> \<not> fgreater y x"
  by (cases x; cases y) (simp_all add: fgreater_val del: fgreater.simps(4))

lemma fgreater_weak:
  "x \<noteq> FNaN \<Longrightarrow> y \<noteq> FNaN \<Longrightarrow> z \<noteq> FNaN \<Longrightarrow> fgreater x z \<Longrightarrow> fgreater x y \<or> fgreater y z"
  by (cases x; cases y; cases z) (auto simp add: fgreater_val simp del: fgreater.simps(4))

definition is_nan :: "nat \<Rightarrow> bool" where
  "is_nan x \<longleftrightarrow> fdecode binary64 x = FNaN"

lemma dless_asym: "dless x y \<Longrightarrow> \<not> dless y x"
  unfolding dless_def by (rule fgreater_asym)

lemma dless_weak: "\<not> is_nan x \<Longrightarrow> \<not> is_nan y \<Longrightarrow> \<not> is_nan z \<Longrightarrow> dless x z \<Longrightarrow> dless x y \<or> dless y z"
  unfolding dless_def is_nan_def using fgreater_weak by blast

lemma fold_better:
  "\<exists>r\<in>insert p (set rs). fold (\<lambda>r old. better old r) rs (Some p) = Some r
    \<and> ((\<forall>x\<in>insert p (set rs). \<not> is_nan (getCost x)) \<longrightarrow> (\<forall>x\<in>insert p (set rs). \<not> dless (getCost x) (getCost r)))"
proof (induction rs arbitrary: p)
  case Nil
  then show ?case using dless_asym by auto
next
  case (Cons x rs)
  define q where "q = (if dless (getCost x) (getCost p) then x else p)"
  obtain r where r: "r \<in> insert q (set rs)" "fold (\<lambda>r old. better old r) rs (Some q) = Some r"
    "(\<forall>y\<in>insert q (set rs). \<not> is_nan (getCost y)) \<Longrightarrow> (\<forall>y\<in>insert q (set rs). \<not> dless (getCost y) (getCost r))"
    using Cons.IH[of q] by blast
  have "better (Some p) x = Some q" by (simp add: better_def q_def)
  moreover have "\<forall>y\<in>insert p (set (x # rs)). \<not> dless (getCost y) (getCost r)"
    if num: "\<forall>y\<in>insert p (set (x # rs)). \<not> is_nan (getCost y)"
  proof -
    have "q = x \<or> q = p" by (simp add: q_def)
    then have rest: "\<forall>y\<in>insert q (set rs). \<not> dless (getCost y) (getCost r)"
      and rn: "\<not> is_nan (getCost r)" using num r(1,3) by auto
    have "\<not> dless (getCost p) (getCost r) \<and> \<not> dless (getCost x) (getCost r)"
    proof (cases "dless (getCost x) (getCost p)")
      case True
      then have x: "\<not> dless (getCost x) (getCost r)" using rest q_def by simp
      then have "dless (getCost r) (getCost p)"
        using dless_weak[of "getCost x" "getCost r" "getCost p"] num rn True by auto
      then show ?thesis using x dless_asym by blast
    next
      case False
      then have p: "\<not> dless (getCost p) (getCost r)" using rest q_def by simp
      then show ?thesis
        using dless_weak[of "getCost x" "getCost p" "getCost r"] num rn False by auto
    qed
    then show ?thesis using rest by auto
  qed
  ultimately show ?case using r(1,2) by (auto simp: q_def split: if_splits)
qed

lemma dp_run_final:
  assumes "simple_graph g"
  shows "\<exists>F c. dp_run arrange g = Inr (F, c) \<and> solve arrange g = Inr (F (relations g))
    \<and> dom F = {S. linked g S}
    \<and> (\<forall>S p. F S = Some p \<and> card S \<noteq> 1 \<longrightarrow>
        (\<exists>A B. csg_cmp g A B \<and> A \<union> B = S \<and> p = candidate arrange g F (A, B))
        \<and> ((\<forall>A B. csg_cmp g A B \<and> A \<union> B = S \<longrightarrow> \<not> is_nan (getCost (candidate arrange g F (A, B)))) \<longrightarrow>
           (\<forall>A B. csg_cmp g A B \<and> A \<union> B = S \<longrightarrow> \<not> dless (getCost (candidate arrange g F (A, B))) (getCost p))))"
proof -
  note ids = node_ids[OF assms]
  let ?t = "initial_table (nodes g)"
  note init = initial_table_eq[OF ids] and n = simple_nodes[OF assms]
  obtain F c where run: "dp_run arrange g = Inr (F, c)" using covering.dp_run_ok[OF simple_wf[OF assms]] by fastforce
  have "mfold (\<lambda>(A, B). emitCsgCmp arrange g A B) (pairs g) (?t, Map.empty) = Inr (F, c)"
    using run dp_run_eq[OF assms] unfolding emit_all_def pairs_def mfold_concat[symmetric] by simp
  then have F: "F = fold (pair_step arrange g) (pairs g) ?t" by (rule emit_pairs_eq[OF assms])
  have proper: "\<not> makes p (fst p) \<and> \<not> makes p (snd p)" if "p \<in> set (pairs g)" for p
    using that csg_cmp_proper by (auto simp: set_pairs[OF assms] makes_def)
  have entry: "F S = fold (\<lambda>p old. better old (candidate arrange g F p)) (filter (\<lambda>p. makes p S) (pairs g)) (?t S)" for S
    unfolding F by (rule pair_steps_final[OF pairs_sorted[OF assms] proper])
  have "dom F = dom ?t \<union> made g (csgs g)"
    using mfold_emit_all_dom[OF assms, of arrange "csgs g" "(?t, Map.empty)" "(F, c)"] run dp_run_eq[OF assms] by simp
  also have "\<dots> = {S. linked g S}"
  proof (intro set_eqI iffI)
    fix S assume "S \<in> dom ?t \<union> made g (csgs g)"
    then consider v where "v < numNodes g" "S = {v}" | A B where "csg_cmp g A B" "S = A \<union> B"
      using init n set_csgs[OF assms] set_cmps[OF assms] by (auto simp: made_def split: if_splits)
    then show "S \<in> {S. linked g S}"
    proof cases
      case 1
      then show ?thesis by (simp add: linked_single)
    next
      case 2
      then show ?thesis using linked_union by simp
    qed
  next
    fix S assume "S \<in> {S. linked g S}"
    then have S: "linked g S" by simp
    show "S \<in> dom ?t \<union> made g (csgs g)"
    proof (cases "\<exists>v. v < numNodes g \<and> S = {v}")
      case False
      from linked_made[OF S False] obtain A B where AB: "csg_cmp g A B" "S = A \<union> B" by blast
      then have "linked g A" by (simp add: csg_cmp_def)
      then have "A \<in> set (csgs g)" "B \<in> set (cmps g A)"
        using AB(1) set_csgs[OF assms] set_cmps[OF assms, of A] by auto
      then show ?thesis using AB(2) unfolding made_def by blast
    qed (use init n in auto)
  qed
  finally have dom: "dom F = {S. linked g S}" .
  have best: "\<exists>r\<in>C. F S = Some r
      \<and> ((\<forall>x\<in>C. \<not> is_nan (getCost x)) \<longrightarrow> (\<forall>x\<in>C. \<not> dless (getCost x) (getCost r)))"
    if S: "F S \<noteq> None" "card S \<noteq> 1" and C: "C = candidate arrange g F ` {p. makes p S \<and> csg_cmp g (fst p) (snd p)}" for S C
  proof -
    let ?ps = "filter (\<lambda>p. makes p S) (pairs g)"
    have "?t S = None" using init S(2) by auto
    then have Fs: "F S = fold (\<lambda>r old. better old r) (map (candidate arrange g F) ?ps) None"
      using entry by (simp add: fold_map comp_def)
    then obtain x xs where xs: "map (candidate arrange g F) ?ps = x # xs"
      using S(1) by (cases "map (candidate arrange g F) ?ps") auto
    have "C = insert x (set xs)"
      using arg_cong[OF xs, of set] by (simp add: C set_pairs[OF assms] case_prod_beta conj_commute)
    moreover have "F S = fold (\<lambda>r old. better old r) xs (Some x)" unfolding Fs xs by (simp add: better_def)
    ultimately show ?thesis using fold_better[of x xs] by simp
  qed
  have "(\<exists>A B. csg_cmp g A B \<and> A \<union> B = S \<and> p = candidate arrange g F (A, B))
      \<and> ((\<forall>A B. csg_cmp g A B \<and> A \<union> B = S \<longrightarrow> \<not> is_nan (getCost (candidate arrange g F (A, B)))) \<longrightarrow>
         (\<forall>A B. csg_cmp g A B \<and> A \<union> B = S \<longrightarrow> \<not> dless (getCost (candidate arrange g F (A, B))) (getCost p)))"
    if p: "F S = Some p" "card S \<noteq> 1" for S p
  proof -
    let ?C = "candidate arrange g F ` {p. makes p S \<and> csg_cmp g (fst p) (snd p)}"
    have mem: "x \<in> ?C \<longleftrightarrow> (\<exists>A B. csg_cmp g A B \<and> A \<union> B = S \<and> x = candidate arrange g F (A, B))" for x
      by (force simp: makes_def)
    show ?thesis using best[OF _ p(2) refl] p(1) unfolding mem[symmetric]
      using mem by (metis (no_types, lifting) option.distinct(1) option.inject)
  qed
  moreover have "solve arrange g = Inr (F (relations g))" using run by (simp add: solve_def ones_def)
  ultimately show ?thesis using run dom by blast
qed

text \<open>C29: On a graph of binary predicates the dynamic programming finds a plan for exactly the
  connected sets of relations; the plan of a set of several relations is made of two entries of
  the final table, and unless a cost is NaN no two entries that partition the set into
  connected halves give a cheaper one (the optimality principle). So \<^verbatim>\<open>solve\<close> finds a plan if and only if
  the whole graph is connected.\<close>
theorem dphyp_optimal:
  assumes "simple_graph g"
  shows "\<exists>F c. dp_run arrange g = Inr (F, c) \<and> solve arrange g = Inr (F (relations g))
    \<and> dom F = {S. linked g S}
    \<and> (\<forall>S p. F S = Some p \<and> card S \<noteq> 1 \<longrightarrow>
        (\<exists>A B. csg_cmp g A B \<and> A \<union> B = S \<and> p = candidate arrange g F (A, B))
        \<and> ((\<forall>A B. csg_cmp g A B \<and> A \<union> B = S \<longrightarrow> \<not> is_nan (getCost (candidate arrange g F (A, B)))) \<longrightarrow>
           (\<forall>A B. csg_cmp g A B \<and> A \<union> B = S \<longrightarrow> \<not> dless (getCost (candidate arrange g F (A, B))) (getCost p))))"
  by (rule dp_run_final[OF assms])

lemma simple_sample_chain: "simple_graph sample_chain"
  using wf_sample_chain by (simp add: simple_graph_def sample_chain_def addJoinEdge_plain append_edge_def)

lemma dphyp_optimal_witness:
  "\<exists>F c. dp_run (\<lambda>ops. ops) sample_chain = Inr (F, c)
    \<and> solve (\<lambda>ops. ops) sample_chain = Inr (F (relations sample_chain))
    \<and> dom F = {S. linked sample_chain S}
    \<and> (\<forall>S p. F S = Some p \<and> card S \<noteq> 1 \<longrightarrow>
        (\<exists>A B. csg_cmp sample_chain A B \<and> A \<union> B = S \<and> p = candidate (\<lambda>ops. ops) sample_chain F (A, B))
        \<and> ((\<forall>A B. csg_cmp sample_chain A B \<and> A \<union> B = S
              \<longrightarrow> \<not> is_nan (getCost (candidate (\<lambda>ops. ops) sample_chain F (A, B)))) \<longrightarrow>
           (\<forall>A B. csg_cmp sample_chain A B \<and> A \<union> B = S
              \<longrightarrow> \<not> dless (getCost (candidate (\<lambda>ops. ops) sample_chain F (A, B))) (getCost p))))"
  by (rule dphyp_optimal[OF simple_sample_chain])

section \<open>Counting connected subgraphs\<close>

text \<open>A count that stays below the limit is the number of sets met; it never decreases.\<close>

definition counts :: "nat \<Rightarrow> nat \<Rightarrow> nat \<Rightarrow> nat res \<Rightarrow> bool" where
  "counts limit n k m \<longleftrightarrow> (\<exists>k'. m = Inr k' \<and> k \<le> k' \<and> k' \<le> k + n \<and> (k' < limit \<longrightarrow> k' = k + n))"

lemma counts_mfold:
  assumes "\<And>x k. x \<in> set xs \<Longrightarrow> counts limit (h x) k (f x k)"
  shows "counts limit (sum_list (map h xs)) k (mfold f xs k)"
  using assms
proof (induction xs arbitrary: k)
  case (Cons x xs)
  obtain k1 where k1: "f x k = Inr k1" "k \<le> k1" "k1 \<le> k + h x" "k1 < limit \<Longrightarrow> k1 = k + h x"
    using Cons.prems[of x k] by (auto simp: counts_def)
  obtain k2 where k2: "mfold f xs k1 = Inr k2" "k1 \<le> k2" "k2 \<le> k1 + sum_list (map h xs)"
    "k2 < limit \<Longrightarrow> k2 = k1 + sum_list (map h xs)"
    using Cons.IH[of k1] Cons.prems by (auto simp: counts_def)
  then show ?case using k1 by (auto simp: counts_def)
qed (simp add: counts_def)

lemma countSubGraphsRec_counts:
  assumes g: "simple_graph g"
  shows "S \<subseteq> relations g \<Longrightarrow> card (relations g - X) < fuel
    \<Longrightarrow> counts limit (length (csg_rec g fuel S X)) k (countSubGraphsRec g limit fuel S X k)"
proof (induction fuel arbitrary: S X k)
  case (Suc fuel)
  let ?N = "getNeighbors g S X"
  have fin: "finite S" using Suc.prems(1) finite_subset by auto
  note N = getNeighbors_outside[OF simple_ok[OF g] fin, of X]
  have finN: "finite ?N" using N(1) finite_subset by auto
  let ?len = "\<lambda>n. length (csg_rec g fuel (S \<union> n) (X \<union> ?N))"
  have "counts limit (sum_list (map (\<lambda>n. 1 + ?len n) (parts ?N))) k
    (mfold (\<lambda>n cnt. if cnt + 1 \<ge> limit then Inr (cnt + 1)
       else countSubGraphsRec g limit fuel (S \<union> n) (X \<union> ?N) (cnt + 1)) (parts ?N) k)"
  proof (rule counts_mfold)
    fix n k assume "n \<in> set (parts ?N)"
    then have n: "n \<subseteq> ?N" "n \<noteq> {}" by (auto simp: set_parts[OF finN])
    have "counts limit (?len n) (k + 1) (countSubGraphsRec g limit fuel (S \<union> n) (X \<union> ?N) (k + 1))"
      using n N(1) Suc.prems(1) excluded_less[OF N n Suc.prems(2)] by (intro Suc.IH) auto
    then show "counts limit (1 + ?len n) k (if k + 1 \<ge> limit then Inr (k + 1)
        else countSubGraphsRec g limit fuel (S \<union> n) (X \<union> ?N) (k + 1))"
      by (auto simp: counts_def)
  qed
  moreover have "length (csg_rec g (Suc fuel) S X) = sum_list (map (\<lambda>n. 1 + ?len n) (parts ?N))"
    by (simp add: Let_def length_concat comp_def sum_list_Suc)
  ultimately show ?case by (simp add: Let_def for_parts[OF N(1)])
qed simp

lemma countSubGraphs_counts:
  assumes g: "simple_graph g"
  shows "counts limit (length (csgs g)) 0 (countSubGraphs g limit)"
proof -
  note order = node_order[OF g]
  let ?body = "\<lambda>v cnt. if cnt + 1 \<ge> limit then Inr (cnt + 1)
     else countSubGraphsRec g limit (numNodes g + 1) {v} {0..<v + 1} (cnt + 1)"
  have "countSubGraphs g limit = mfold (\<lambda>w. ?body (qn_id w)) (rev (nodes g)) 0"
    by (simp only: countSubGraphs_def single_def fillUntil_def)
  also have "\<dots> = mfold ?body (rev [0..<numNodes g]) 0"
    unfolding order[symmetric] by (simp only: mfold_map)
  finally have run: "countSubGraphs g limit = mfold ?body (rev [0..<numNodes g]) 0" .
  have "counts limit (sum_list (map (\<lambda>v. length (csg_from g v)) (rev [0..<numNodes g]))) 0 (countSubGraphs g limit)"
    unfolding run
  proof (rule counts_mfold)
    fix v k assume "v \<in> set (rev [0..<numNodes g])"
    then have "counts limit (length (csg_rec g (numNodes g + 1) {v} {0..<v + 1})) (k + 1)
        (countSubGraphsRec g limit (numNodes g + 1) {v} {0..<v + 1} (k + 1))"
      by (intro countSubGraphsRec_counts[OF g] below_fuel) auto
    then show "counts limit (length (csg_from g v)) k (?body v k)"
      by (auto simp: counts_def csg_from_def)
  qed
  then show ?thesis by (simp add: csgs_def length_concat comp_def)
qed



end
