(* ===== verification/Operator_Tree.thy ===== *)
theory Operator_Tree
  imports Query_Graph "HOL-Library.Multiset"
begin

text \<open>
  Trees of relational operators and what they compute: bags of tuples, a tuple being a map from
  columns to SQL values. The predicate of an operator is its block, evaluated operation by operation;
  equality is NULL when a side is NULL, \<^verbatim>\<open>isa\<close> compares NULL like any other value
  (\<^verbatim>\<open>src/include/mlir/Dialect/DB/IR/DBOps.td\<close>). What the other operations of a block and the other
  relational operators compute is left open: \<open>f\<close> and \<open>other\<close> are arguments of the definitions.
\<close>

section \<open>Predicates\<close>

datatype sql_value = Null | Bool bool | Data nat

type_synonym tuple = "nat \<rightharpoonup> sql_value"
type_synonym relation = "tuple multiset"
type_synonym env = "nat \<Rightarrow> sql_value"

definition sql_eq :: "sql_value \<Rightarrow> sql_value \<Rightarrow> sql_value" where
  "sql_eq x y = (if x = Null \<or> y = Null then Null else Bool (x = y))"

fun eval_cmp :: "(sql_value list \<Rightarrow> sql_value) \<Rightarrow> cmp_op \<Rightarrow> sql_value \<Rightarrow> sql_value \<Rightarrow> sql_value" where
  "eval_cmp f (DbCmp EqP) x y = sql_eq x y"
| "eval_cmp f (DbCmp IsaP) x y = Bool (x = y)"
| "eval_cmp f p x y = f [x, y]"

fun eval_op :: "(nat \<Rightarrow> sql_value list \<Rightarrow> sql_value) \<Rightarrow> tuple \<Rightarrow> block_op \<Rightarrow> env \<Rightarrow> env" where
  "eval_op f t (GetColumnOp r c) env = env(r := case t c of None \<Rightarrow> Null | Some v \<Rightarrow> v)"
| "eval_op f t (CmpOp r p x y) env = env(r := eval_cmp (f r) p (env x) (env y))"
| "eval_op f t (PlainOp rs as) env = (\<lambda>v. if v \<in> set rs then f v (map env as) else env v)"

definition eval_block :: "(nat \<Rightarrow> sql_value list \<Rightarrow> sql_value) \<Rightarrow> tuple \<Rightarrow> block_op list \<Rightarrow> env" where
  "eval_block f t bs = fold (eval_op f t) bs (\<lambda>v. Null)"

text \<open>A block that returns nothing is a predicate without condition.\<close>

definition op_holds :: "(nat \<Rightarrow> nat \<Rightarrow> sql_value list \<Rightarrow> sql_value) \<Rightarrow> operator \<Rightarrow> tuple \<Rightarrow> bool" where
  "op_holds f op t =
    (case predicateBlock op of
       None \<Rightarrow> True
     | Some bs \<Rightarrow> (case returned op of [] \<Rightarrow> True | v # _ \<Rightarrow> eval_block (f (op_id op)) t bs v = Bool True))"

lemma op_holds_kind [simp]: "op_holds f (op\<lparr>op_kind := k\<rparr>) t = op_holds f op t"
  by (simp add: op_holds_def split: option.split list.split)

lemma usedColumns_kind [simp]: "usedColumns (op\<lparr>op_kind := k\<rparr>) = usedColumns op"
  by (simp add: usedColumns_def)

text \<open>A predicate only depends on the columns its operator uses.\<close>

lemma eval_op_local: "(\<And>c. c \<in> columns_read b \<Longrightarrow> t c = t' c) \<Longrightarrow> eval_op f t b env = eval_op f t' b env"
  by (cases b) auto

lemma eval_block_local:
  "(\<And>c. c \<in> \<Union> (set (map columns_read bs)) \<Longrightarrow> t c = t' c) \<Longrightarrow> eval_block f t bs = eval_block f t' bs"
  unfolding eval_block_def by (intro fold_cong refl ext eval_op_local) auto

lemma op_holds_local:
  assumes "\<And>c. c \<in> usedColumns op \<Longrightarrow> t c = t' c"
  shows "op_holds f op t = op_holds f op t'"
proof (cases "predicateBlock op")
  case (Some bs)
  then have "eval_block (f (op_id op)) t bs = eval_block (f (op_id op)) t' bs"
    using assms by (intro eval_block_local) (simp add: usedColumns_def)
  then show ?thesis using Some by (simp add: op_holds_def split: list.split)
qed (simp add: op_holds_def)

text \<open>Blocks in single-assignment form: a value is defined once, before its uses.\<close>

fun args_of :: "block_op \<Rightarrow> nat list" where
  "args_of (GetColumnOp r c) = []"
| "args_of (CmpOp r p x y) = [x, y]"
| "args_of (PlainOp rs as) = as"

fun ssa :: "nat set \<Rightarrow> block_op list \<Rightarrow> bool" where
  "ssa D [] \<longleftrightarrow> True"
| "ssa D (b # bs) \<longleftrightarrow> set (args_of b) \<subseteq> D \<and> set (results_of b) \<inter> D = {} \<and> ssa (D \<union> set (results_of b)) bs"

definition block_ok :: "operator \<Rightarrow> bool" where
  "block_ok op \<longleftrightarrow> (case predicateBlock op of None \<Rightarrow> True | Some bs \<Rightarrow> ssa {} bs)"

lemma eval_op_other: "v \<notin> set (results_of b) \<Longrightarrow> eval_op f t b env v = env v"
  by (cases b) auto

lemma eval_op_cong:
  "(\<And>a. a \<in> set (args_of b) \<Longrightarrow> env a = env' a) \<Longrightarrow> v \<in> set (results_of b) \<Longrightarrow> eval_op f t b env v = eval_op f t b env' v"
  by (cases b) (auto cong: map_cong)

lemma ssa_keeps: "ssa D bs \<Longrightarrow> v \<in> D \<Longrightarrow> fold (eval_op f t) bs env v = env v"
proof (induction bs arbitrary: D env)
  case (Cons b bs)
  then have "v \<notin> set (results_of b)" by auto
  then show ?case using Cons.IH[of "D \<union> set (results_of b)" "eval_op f t b env"] Cons.prems by (simp add: eval_op_other)
qed simp

text \<open>So every value is what its defining operation computes from the values of the finished block.\<close>

lemma ssa_defined:
  "ssa D bs \<Longrightarrow> getDefiningOp bs v = Some b \<Longrightarrow> fold (eval_op f t) bs env v = eval_op f t b (fold (eval_op f t) bs env) v"
proof (induction bs arbitrary: D env)
  case (Cons b' bs)
  let ?D = "D \<union> set (results_of b')" and ?env = "eval_op f t b' env"
  have ssa: "ssa ?D bs" using Cons.prems(1) by simp
  show ?case
  proof (cases "v \<in> set (results_of b')")
    case True
    then have b: "b = b'" using Cons.prems(2) by (simp add: getDefiningOp_def)
    have "fold (eval_op f t) bs ?env a = env a" if "a \<in> set (args_of b')" for a
    proof -
      have "a \<in> D" "a \<notin> set (results_of b')" using that Cons.prems(1) by auto
      then show ?thesis using ssa_keeps[OF ssa, of a f t ?env] by (simp add: eval_op_other)
    qed
    then have "eval_op f t b' env v = eval_op f t b' (fold (eval_op f t) bs ?env) v"
      using True by (intro eval_op_cong) auto
    then show ?thesis using ssa_keeps[OF ssa, of v f t ?env] True b by simp
  next
    case False
    then have "getDefiningOp bs v = Some b" using Cons.prems(2) by (simp add: getDefiningOp_def)
    then show ?thesis using Cons.IH[OF ssa] by simp
  qed
qed (simp add: getDefiningOp_def)

lemma defining_result: "getDefiningOp bs v = Some b \<Longrightarrow> v \<in> set (results_of b)"
  by (auto simp: getDefiningOp_def find_Some_iff)

definition column_value :: "tuple \<Rightarrow> nat \<Rightarrow> sql_value" where
  "column_value t c = (case t c of None \<Rightarrow> Null | Some v \<Rightarrow> v)"

lemma eval_column:
  assumes "ssa {} bs" and "column_of bs v = Some c"
  shows "eval_block f t bs v = column_value t c"
proof -
  obtain r where "getDefiningOp bs v = Some (GetColumnOp r c)"
    using assms(2) by (auto simp: column_of_def split: option.splits block_op.splits)
  then show ?thesis using ssa_defined[OF assms(1), of v] defining_result[of bs v]
    by (fastforce simp: eval_block_def column_value_def)
qed

text \<open>The comparison behind the equality an operator is analysed to.\<close>

definition equality_is :: "operator \<Rightarrow> cmp_predicate \<Rightarrow> nat \<Rightarrow> nat \<Rightarrow> bool" where
  "equality_is op p x y \<longleftrightarrow> (\<exists>bs v vs r a b. predicateBlock op = Some bs \<and> returned op = v # vs
     \<and> getDefiningOp bs v = Some (CmpOp r (DbCmp p) a b) \<and> column_of bs a = Some x \<and> column_of bs b = Some y)"

lemma analyzePredicate_iff:
  "analyzePredicate op = Some (x, y) \<longleftrightarrow> equality_is op EqP x y \<or> equality_is op IsaP x y"
  by (auto simp: analyzePredicate_def equality_is_def split: option.splits list.splits block_op.splits cmp_op.splits if_splits)

lemma op_holds_equality:
  assumes "block_ok op" and "equality_is op p x y"
  shows "p = EqP \<Longrightarrow> op_holds f op t \<longleftrightarrow> column_value t x = column_value t y \<and> column_value t x \<noteq> Null"
    and "p = IsaP \<Longrightarrow> op_holds f op t \<longleftrightarrow> column_value t x = column_value t y"
proof -
  obtain bs v vs r a b where op: "predicateBlock op = Some bs" "returned op = v # vs"
    and def: "getDefiningOp bs v = Some (CmpOp r (DbCmp p) a b)"
    and col: "column_of bs a = Some x" "column_of bs b = Some y"
    using assms(2) unfolding equality_is_def by blast
  have ssa: "ssa {} bs" using assms(1) op(1) by (simp add: block_ok_def)
  have "r = v" using defining_result[OF def] by simp
  then have "op_holds f op t \<longleftrightarrow> eval_cmp (f (op_id op) v) (DbCmp p) (column_value t x) (column_value t y) = Bool True"
    using op ssa_defined[OF ssa def, of "f (op_id op)" t "\<lambda>v. Null"] eval_column[OF ssa col(1)] eval_column[OF ssa col(2)]
    by (simp add: op_holds_def eval_block_def)
  then show "p = EqP \<Longrightarrow> op_holds f op t \<longleftrightarrow> column_value t x = column_value t y \<and> column_value t x \<noteq> Null"
    and "p = IsaP \<Longrightarrow> op_holds f op t \<longleftrightarrow> column_value t x = column_value t y"
    by (auto simp: sql_eq_def)
qed

section \<open>Products of relations\<close>

definition cross :: "relation \<Rightarrow> relation \<Rightarrow> relation" where
  "cross A B = (\<Sum>a\<in>#A. image_mset (\<lambda>b. a ++ b) B)"

definition cross_all :: "relation list \<Rightarrow> relation" where
  "cross_all rs = foldr cross rs {#Map.empty#}"

lemma cross_empty [simp]: "cross {#} B = {#}"
  by (simp add: cross_def)

lemma cross_add [simp]: "cross (add_mset a A) B = image_mset (\<lambda>b. a ++ b) B + cross A B"
  by (simp add: cross_def)

lemma cross_union: "cross (A + A') B = cross A B + cross A' B"
  by (simp add: cross_def)

lemma in_cross: "u \<in># cross A B \<longleftrightarrow> (\<exists>a\<in>#A. \<exists>b\<in>#B. u = a ++ b)"
  by (induction A) auto

lemma cross_image: "cross (image_mset (\<lambda>b. a ++ b) B) C = image_mset (\<lambda>b. a ++ b) (cross B C)"
  by (induction B) (auto simp: multiset.map_comp o_def)

lemma cross_assoc: "cross (cross A B) C = cross A (cross B C)"
  by (induction A) (simp_all add: cross_union cross_image)

lemma cross_unit [simp]: "cross {#Map.empty#} B = B" "cross A {#Map.empty#} = A"
proof -
  show "cross {#Map.empty#} B = B" using cross_add[of Map.empty "{#}" B] by simp
  show "cross A {#Map.empty#} = A" by (induction A) simp_all
qed

lemma cross_right_add: "cross A (add_mset b B) = image_mset (\<lambda>a. a ++ b) A + cross A B"
  by (induction A) (simp_all add: ac_simps)

lemma cross_right_empty [simp]: "cross A {#} = {#}"
  by (induction A) simp_all

text \<open>Tuples without a common column can be put together in either order.\<close>

definition tuples_over :: "nat set \<Rightarrow> relation \<Rightarrow> bool" where
  "tuples_over C R \<longleftrightarrow> (\<forall>u\<in>#R. dom u \<subseteq> C)"

lemma cross_commute:
  assumes "tuples_over C A" and "tuples_over D B" and "C \<inter> D = {}"
  shows "cross A B = cross B A"
  using assms(1)
proof (induction A)
  case (add a A)
  have "a ++ b = b ++ a" if "b \<in># B" for b
  proof (rule map_add_comm)
    have "dom b \<subseteq> D" "dom a \<subseteq> C" using assms(2) add.prems that by (auto simp: tuples_over_def)
    then show "dom a \<inter> dom b = {}" using assms(3) by blast
  qed
  then have "image_mset (\<lambda>b. a ++ b) B = image_mset (\<lambda>b. b ++ a) B" by (intro image_mset_cong)
  then show ?case using add by (simp add: cross_right_add tuples_over_def)
qed simp

lemma tuples_over_cross: "tuples_over C A \<Longrightarrow> tuples_over D B \<Longrightarrow> tuples_over (C \<union> D) (cross A B)"
  by (fastforce simp: tuples_over_def in_cross)

lemma tuples_over_filter: "tuples_over C A \<Longrightarrow> tuples_over C (filter_mset Q A)"
  by (simp add: tuples_over_def)

lemma cross_all_simps [simp]:
  "cross_all [] = {#Map.empty#}" "cross_all (r # rs) = cross r (cross_all rs)"
  by (simp_all add: cross_all_def)

lemma cross_all_append: "cross_all (rs @ rs') = cross (cross_all rs) (cross_all rs')"
  by (induction rs) (simp_all add: cross_assoc)

text \<open>Relations together with their columns.\<close>

definition apart_columns :: "nat set \<times> relation \<Rightarrow> nat set \<times> relation \<Rightarrow> bool" where
  "apart_columns x y \<longleftrightarrow> fst x \<inter> fst y = {}"

definition separate :: "(nat set \<times> relation) list \<Rightarrow> bool" where
  "separate xs \<longleftrightarrow> (\<forall>x\<in>set xs. tuples_over (fst x) (snd x)) \<and> sorted_wrt apart_columns xs"

lemma separate_over: "separate xs \<Longrightarrow> tuples_over (\<Union> (fst ` set xs)) (cross_all (map snd xs))"
proof (induction xs)
  case (Cons x xs)
  then have "tuples_over (fst x) (snd x)" "tuples_over (\<Union> (fst ` set xs)) (cross_all (map snd xs))"
    by (auto simp: separate_def)
  then show ?case using tuples_over_cross by fastforce
qed (simp add: tuples_over_def)

lemma separate_sub: "separate (xs @ x # ys) \<Longrightarrow> separate (xs @ ys)"
  by (auto simp: separate_def sorted_wrt_append)

lemma cross_all_move:
  assumes "separate (xs @ x # ys)"
  shows "cross_all (map snd (xs @ x # ys)) = cross (snd x) (cross_all (map snd (xs @ ys)))"
proof -
  have "separate xs" "tuples_over (fst x) (snd x)" "\<Union> (fst ` set xs) \<inter> fst x = {}"
    using assms by (auto simp: separate_def sorted_wrt_append apart_columns_def)
  then have "cross (cross_all (map snd xs)) (snd x) = cross (snd x) (cross_all (map snd xs))"
    using cross_commute[OF separate_over] by blast
  then show ?thesis by (simp add: cross_all_append cross_assoc[symmetric])
qed

lemma separate_perm: "mset xs = mset ys \<Longrightarrow> separate xs \<Longrightarrow> separate ys"
proof -
  assume eq: "mset xs = mset ys" and sep: "separate xs"
  have "sorted_wrt apart_columns xs \<Longrightarrow> sorted_wrt apart_columns ys"
    using eq
  proof (induction xs arbitrary: ys)
    case (Cons x xs)
    have "x \<in> set ys" using Cons.prems(2) by (metis list.set_intros(1) set_mset_mset)
    then obtain us vs where ys: "ys = us @ x # vs" by (meson split_list)
    then have perm: "mset xs = mset (us @ vs)" using Cons.prems(2) by simp
    then have "set xs = set us \<union> set vs" by (metis set_append set_mset_mset)
    moreover have "sorted_wrt apart_columns (us @ vs)" using Cons.IH[OF _ perm] Cons.prems(1) by simp
    moreover have "apart_columns y x" if "y \<in> set xs" for y
      using Cons.prems(1) that by (auto simp: apart_columns_def)
    ultimately show ?case using Cons.prems(1) unfolding ys by (auto simp: sorted_wrt_append)
  qed simp
  then show ?thesis using sep eq by (auto simp: separate_def dest: mset_eq_setD)
qed

lemma cross_all_perm: "mset xs = mset ys \<Longrightarrow> separate xs \<Longrightarrow> cross_all (map snd xs) = cross_all (map snd ys)"
proof (induction xs arbitrary: ys)
  case (Cons x xs)
  have "x \<in> set ys" using Cons.prems(1) by (metis list.set_intros(1) set_mset_mset)
  then obtain us vs where ys: "ys = us @ x # vs" by (meson split_list)
  then have perm: "mset xs = mset (us @ vs)" using Cons.prems(1) by simp
  have "separate xs" using separate_sub[of "[]" x xs] Cons.prems(2) by simp
  then have "cross_all (map snd xs) = cross_all (map snd (us @ vs))" by (rule Cons.IH[OF perm])
  then show ?case
    using cross_all_move[of us x vs] separate_perm[OF Cons.prems] ys by simp
qed simp

lemma filter_image_cong:
  "(\<And>b. b \<in># B \<Longrightarrow> Q (h b) = Q' b) \<Longrightarrow> filter_mset Q (image_mset h B) = image_mset h (filter_mset Q' B)"
  by (induction B) auto

lemma filter_cross_left:
  assumes "\<And>a b. a \<in># A \<Longrightarrow> b \<in># B \<Longrightarrow> Q (a ++ b) = Q' a"
  shows "filter_mset Q (cross A B) = cross (filter_mset Q' A) B"
  using assms
proof (induction A)
  case (add a A)
  have "filter_mset Q (image_mset (\<lambda>b. a ++ b) B) = (if Q' a then image_mset (\<lambda>b. a ++ b) B else {#})"
    using add.prems[of a] by (simp add: filter_image_cong[where Q' = "\<lambda>b. Q' a"])
  then show ?case using add by simp
qed simp

lemma filter_cross_right:
  assumes "\<And>a b. a \<in># A \<Longrightarrow> b \<in># B \<Longrightarrow> Q (a ++ b) = Q' b"
  shows "filter_mset Q (cross A B) = cross A (filter_mset Q' B)"
  using assms
proof (induction A)
  case (add a A)
  then show ?case by (simp add: filter_image_cong[where Q' = Q'])
qed simp

end
