(* ===== verification/Query_Tree.thy ===== *)
theory Query_Tree
  imports Operator_Tree
begin

text \<open>
  Query trees: an operator over its children, the columns it makes available
  (\<^verbatim>\<open>src/lib/RelAlg/OperatorInterfaceImpl.cpp\<close>), and the relation it computes. Trees of selections,
  inner joins and cross products have a normal form: the product of their leaves, filtered by all
  their predicates.
\<close>

section \<open>Trees\<close>

datatype optree = OpTree (root: operator) (children: "optree list")

fun getAllSubOperators :: "optree \<Rightarrow> optree list" where
  "getAllSubOperators (OpTree op cs) = OpTree op cs # concat (map getAllSubOperators cs)"

text \<open>
  \<open>available True\<close> is the interface method \<^verbatim>\<open>getAvailableColumns\<close>, \<open>available False\<close> the function
  \<^verbatim>\<open>detail::getAvailableColumns\<close>, which semi joins and mark joins call on their left child past the
  child's own method. Projections, aggregations and the operators that are not told apart here list
  their columns.
\<close>

lemma child_smaller [termination_simp]: "c \<in> set cs \<Longrightarrow> size c < Suc (size_list size cs)"
  by (simp add: less_Suc_eq_le size_list_estimation')

lemma child_taken_smaller [termination_simp]: "c \<in> set (take n cs) \<Longrightarrow> size c < Suc (size_list size cs)"
  by (rule child_smaller[OF in_set_takeD])

fun available :: "bool \<Rightarrow> optree \<Rightarrow> nat set" where
  "available virtual (OpTree op cs) =
    (let detail = \<Union> (set (map (available True) cs)) \<union> createdColumns op
     in if \<not> virtual then detail
        else if op_kind op \<in> {SemiJoinOp, AntiSemiJoinOp} then \<Union> (set (map (available False) (take 1 cs)))
        else if op_kind op = MarkJoinOp then \<Union> (set (map (available False) (take 1 cs))) \<union> createdColumns op
        else if op_kind op \<in> {OuterJoinOp, SingleJoinOp}
          then \<Union> (set (map (available True) (take 1 cs))) \<union> createdColumns op
        else if op_kind op \<in> {FullOuterJoinOp, UnionOp, IntersectOp, ExceptOp} then createdColumns op
        else if op_kind op \<in> {ProjectionOp True, ProjectionOp False, AggregationOp, OtherOp} then availableColumns op
        else detail)"

definition getAvailableColumns :: "optree \<Rightarrow> nat set" where
  "getAvailableColumns = available True"

section \<open>What a tree computes\<close>

definition eval_operator ::
    "(nat \<Rightarrow> nat \<Rightarrow> sql_value list \<Rightarrow> sql_value) \<Rightarrow> (operator \<Rightarrow> relation list \<Rightarrow> relation) \<Rightarrow> operator
     \<Rightarrow> relation list \<Rightarrow> relation" where
  "eval_operator f other op rs =
    (case (op_kind op, rs) of
       (CrossProductOp, [l, r]) \<Rightarrow> cross l r
     | (SelectionOp, [r]) \<Rightarrow> filter_mset (op_holds f op) r
     | (InnerJoinOp, [l, r]) \<Rightarrow> filter_mset (op_holds f op) (cross l r)
     | _ \<Rightarrow> other op rs)"

fun eval_tree ::
    "(nat \<Rightarrow> nat \<Rightarrow> sql_value list \<Rightarrow> sql_value) \<Rightarrow> (operator \<Rightarrow> relation list \<Rightarrow> relation) \<Rightarrow> optree \<Rightarrow> relation" where
  "eval_tree f other (OpTree op cs) = eval_operator f other op (map (eval_tree f other) cs)"

section \<open>The normal form\<close>

text \<open>Leaves are the trees whose root is in the set of operators that are already optimized.\<close>

fun leaves :: "nat set \<Rightarrow> optree \<Rightarrow> optree list" where
  "leaves opt (OpTree op cs) = (if op_id op \<in> opt then [OpTree op cs] else concat (map (leaves opt) cs))"

definition leaf_columns :: "optree list \<Rightarrow> nat set" where
  "leaf_columns ls = \<Union> (set (map (\<lambda>l. availableColumns (root l)) ls))"

definition plain_op :: "operator \<Rightarrow> bool" where
  "plain_op op \<longleftrightarrow> op_kind op = SelectionOp \<or> op_kind op = InnerJoinOp"

text \<open>The operators with a predicate, in the order the tree is walked.\<close>

fun tree_preds :: "nat set \<Rightarrow> optree \<Rightarrow> operator list" where
  "tree_preds opt (OpTree op cs) =
    (if op_id op \<in> opt then []
     else concat (map (tree_preds opt) cs) @ (if plain_op op then [op] else []))"

text \<open>Above the leaves there are only selections, inner joins and cross products over what they use.\<close>

fun plain_tree :: "nat set \<Rightarrow> optree \<Rightarrow> bool" where
  "plain_tree opt (OpTree op cs) \<longleftrightarrow>
    op_id op \<in> opt
    \<or> (op_kind op = SelectionOp \<and> length cs = 1 \<or> op_kind op \<in> {InnerJoinOp, CrossProductOp} \<and> length cs = 2)
      \<and> usedColumns op \<subseteq> leaf_columns (concat (map (leaves opt) cs)) \<and> (\<forall>c\<in>set cs. plain_tree opt c)"

text \<open>The leaves with their columns and relations.\<close>

definition leaf_relations ::
    "(nat \<Rightarrow> nat \<Rightarrow> sql_value list \<Rightarrow> sql_value) \<Rightarrow> (operator \<Rightarrow> relation list \<Rightarrow> relation) \<Rightarrow> optree list
     \<Rightarrow> (nat set \<times> relation) list" where
  "leaf_relations f other ls = map (\<lambda>l. (availableColumns (root l), eval_tree f other l)) ls"

lemma leaf_relations_append [simp]:
  "leaf_relations f other (ls @ ls') = leaf_relations f other ls @ leaf_relations f other ls'"
  by (simp add: leaf_relations_def)

lemma leaf_columns_simps [simp]:
  "leaf_columns [] = {}" "leaf_columns (l # ls) = availableColumns (root l) \<union> leaf_columns ls"
  "leaf_columns (ls @ ls') = leaf_columns ls \<union> leaf_columns ls'"
  by (auto simp: leaf_columns_def)

lemma leaf_columns_relations: "leaf_columns ls = \<Union> (fst ` set (leaf_relations f other ls))"
  by (auto simp: leaf_columns_def leaf_relations_def)

lemma separate_append:
  assumes "separate (xs @ ys)"
  shows "separate xs" and "separate ys" and "\<Union> (fst ` set xs) \<inter> \<Union> (fst ` set ys) = {}"
  using assms by (auto simp: separate_def sorted_wrt_append apart_columns_def)

text \<open>All predicates of a list, on the tuples of a product.\<close>

definition all_hold :: "(nat \<Rightarrow> nat \<Rightarrow> sql_value list \<Rightarrow> sql_value) \<Rightarrow> operator set \<Rightarrow> tuple \<Rightarrow> bool" where
  "all_hold f ops t \<longleftrightarrow> (\<forall>op\<in>ops. op_holds f op t)"

lemma filter_none [simp]: "filter_mset (all_hold f {}) R = R"
  by (induction R) (auto simp: all_hold_def)

lemma all_hold_Un: "all_hold f (A \<union> B) t \<longleftrightarrow> all_hold f A t \<and> all_hold f B t"
  by (auto simp: all_hold_def)

lemma filter_all_hold: "filter_mset (all_hold f (A \<union> B)) R = filter_mset (all_hold f A) (filter_mset (all_hold f B) R)"
  by (auto simp: filter_filter_mset all_hold_Un intro!: filter_mset_cong)

lemma all_hold_left:
  assumes "\<And>op. op \<in> ops \<Longrightarrow> usedColumns op \<subseteq> C" and "dom b \<inter> C = {}"
  shows "all_hold f ops (a ++ b) = all_hold f ops a"
proof -
  have "op_holds f op (a ++ b) = op_holds f op a" if "op \<in> ops" for op
    using assms(1)[OF that] assms(2) by (intro op_holds_local) (auto simp: map_add_def split: option.split)
  then show ?thesis by (simp add: all_hold_def)
qed

lemma all_hold_right:
  assumes "\<And>op. op \<in> ops \<Longrightarrow> usedColumns op \<subseteq> C" and "dom a \<inter> C = {}"
  shows "all_hold f ops (a ++ b) = all_hold f ops b"
proof -
  have "op_holds f op (a ++ b) = op_holds f op b" if "op \<in> ops" for op
    using assms(1)[OF that] assms(2) by (intro op_holds_local) (auto simp: map_add_def domIff split: option.split)
  then show ?thesis by (simp add: all_hold_def)
qed

text \<open>Two filtered products over separate columns, joined.\<close>

lemma cross_normal:
  assumes sep: "separate (xs @ ys)"
    and p: "\<And>op. op \<in> P \<Longrightarrow> usedColumns op \<subseteq> \<Union> (fst ` set xs)"
    and q: "\<And>op. op \<in> Q \<Longrightarrow> usedColumns op \<subseteq> \<Union> (fst ` set ys)"
  shows "cross (filter_mset (all_hold f P) (cross_all (map snd xs))) (filter_mset (all_hold f Q) (cross_all (map snd ys)))
    = filter_mset (all_hold f (P \<union> Q)) (cross_all (map snd (xs @ ys)))"
proof -
  note parts = separate_append[OF sep]
  have over: "tuples_over (\<Union> (fst ` set xs)) (cross_all (map snd xs))" "tuples_over (\<Union> (fst ` set ys)) (cross_all (map snd ys))"
    by (intro separate_over parts)+
  have "filter_mset (all_hold f P) (cross (cross_all (map snd xs)) R) = cross (filter_mset (all_hold f P) (cross_all (map snd xs))) R"
    if R: "tuples_over (\<Union> (fst ` set ys)) R" for R
  proof (intro filter_cross_left all_hold_left[OF p])
    fix b assume "b \<in># R"
    then have "dom b \<subseteq> \<Union> (fst ` set ys)" using R by (simp add: tuples_over_def)
    then show "dom b \<inter> \<Union> (fst ` set xs) = {}" using parts(3) by blast
  qed
  moreover have "filter_mset (all_hold f Q) (cross R (cross_all (map snd ys))) = cross R (filter_mset (all_hold f Q) (cross_all (map snd ys)))"
    if R: "tuples_over (\<Union> (fst ` set xs)) R" for R
  proof (intro filter_cross_right all_hold_right[OF q])
    fix a assume "a \<in># R"
    then have "dom a \<subseteq> \<Union> (fst ` set xs)" using R by (simp add: tuples_over_def)
    then show "dom a \<inter> \<Union> (fst ` set ys) = {}" using parts(3) by blast
  qed
  ultimately show ?thesis using over
    by (simp add: filter_all_hold cross_all_append tuples_over_filter)
qed

lemma tree_preds_columns:
  "plain_tree opt t \<Longrightarrow> op \<in> set (tree_preds opt t) \<Longrightarrow> usedColumns op \<subseteq> leaf_columns (leaves opt t)"
proof (induction opt t rule: tree_preds.induct)
  case (1 opt op' cs)
  show ?case
  proof (cases "op_id op' \<in> opt")
    case False
    have sub: "leaf_columns (leaves opt c) \<subseteq> leaf_columns (concat (map (leaves opt) cs))" if "c \<in> set cs" for c
      using that by (auto simp: leaf_columns_def)
    consider "op = op'" | c where "c \<in> set cs" "op \<in> set (tree_preds opt c)"
      using 1(3) False by (auto split: if_splits)
    then show ?thesis
    proof cases
      case 2
      then show ?thesis using 1(1)[OF False 2(1)] 1(2) False sub[OF 2(1)] by auto
    qed (use 1(2) False in auto)
  qed (use 1(3) in auto)
qed

lemma plain_tree_normal:
  "plain_tree opt t \<Longrightarrow> separate (leaf_relations f other (leaves opt t)) \<Longrightarrow>
    eval_tree f other t = filter_mset (all_hold f (set (tree_preds opt t)))
      (cross_all (map snd (leaf_relations f other (leaves opt t))))"
proof (induction opt t rule: tree_preds.induct)
  case (1 opt op cs)
  show ?case
  proof (cases "op_id op \<in> opt")
    case True
    then show ?thesis by (simp add: leaf_relations_def del: eval_tree.simps)
  next
    case False
    note plain = 1(2)[unfolded plain_tree.simps]
    have one: "filter_mset (op_holds f op) R = filter_mset (all_hold f {op}) R" for R
      by (rule filter_mset_cong) (auto simp: all_hold_def)
    show ?thesis
    proof (cases "op_kind op = SelectionOp")
      case sel: True
      then obtain c where cs: "cs = [c]" using plain False by (auto simp: length_Suc_conv)
      have "eval_tree f other c = filter_mset (all_hold f (set (tree_preds opt c)))
          (cross_all (map snd (leaf_relations f other (leaves opt c))))"
        using 1(1)[OF False, of c] 1(2,3) False cs by simp
      then show ?thesis using False sel cs
        by (simp add: eval_operator_def plain_op_def one filter_all_hold[symmetric] Un_commute)
    next
      case join: False
      then have kind: "op_kind op = InnerJoinOp \<or> op_kind op = CrossProductOp" and len: "length cs = 2"
        using plain False by auto
      then obtain l r where cs: "cs = [l, r]" by (auto simp: numeral_2_eq_2 length_Suc_conv)
      let ?xs = "leaf_relations f other (leaves opt l)" and ?ys = "leaf_relations f other (leaves opt r)"
      have sep: "separate (?xs @ ?ys)" using 1(3) False cs by simp
      have plain_lr: "plain_tree opt l" "plain_tree opt r" using 1(2) False cs by auto
      have "eval_tree f other l = filter_mset (all_hold f (set (tree_preds opt l))) (cross_all (map snd ?xs))"
        "eval_tree f other r = filter_mset (all_hold f (set (tree_preds opt r))) (cross_all (map snd ?ys))"
        using 1(1)[OF False, of l] 1(1)[OF False, of r] plain_lr separate_append[OF sep] cs by auto
      then have prod: "cross (eval_tree f other l) (eval_tree f other r)
          = filter_mset (all_hold f (set (tree_preds opt l) \<union> set (tree_preds opt r))) (cross_all (map snd (?xs @ ?ys)))"
        using cross_normal[OF sep, of "set (tree_preds opt l)" "set (tree_preds opt r)" f]
          tree_preds_columns[OF plain_lr(1)] tree_preds_columns[OF plain_lr(2)]
        by (simp only: leaf_columns_relations[of _ f other])
      show ?thesis using kind
      proof
        assume "op_kind op = InnerJoinOp"
        then show ?thesis using False cs prod
          by (simp add: eval_operator_def plain_op_def one filter_all_hold[symmetric] Un_commute Un_left_commute)
      qed (use False cs prod in \<open>simp add: eval_operator_def plain_op_def\<close>)
    qed
  qed
qed

end
