(* ===== verification/Query_Graph_Builder.thy ===== *)
theory Query_Graph_Builder
  imports Query_Tree
begin

text \<open>
  From an operator tree to its query graph
  (\<^verbatim>\<open>src/lib/RelAlg/Transforms/queryopt/QueryGraphBuilder.cpp\<close>, \<^verbatim>\<open>QueryGraphBuilder.h\<close>). Operators in
  \<open>opt\<close>, the ones that are already optimized, become nodes; selections and joins become predicates of a
  node or edges between the nodes they need; a join that creates columns gets a pseudo node. Then
  classes of nodes that no edge connects are joined by forced cross products. The classes are LLVM's
  \<^verbatim>\<open>EquivalenceClasses\<close>, of which the code relies on this: \<open>pick\<close> says which leader the union of two
  classes gets.
\<close>

section \<open>The operators the builder is for\<close>

text \<open>
  \<^verbatim>\<open>isUnsupportedOp\<close> of \<^verbatim>\<open>src/lib/RelAlg/Transforms/OptimizeJoinOrder.cpp\<close>. The first two operators of the
  list it reads are the join itself and its left child.
\<close>

definition isBinary :: "op_kind \<Rightarrow> bool" where
  "isBinary k \<longleftrightarrow> getBinaryOperatorType k \<noteq> NoBinary"

definition isUnsupportedOp :: "optree \<Rightarrow> bool res" where
  "isUnsupportedOp t =
    (let k = op_kind (root t)
     in if k = CrossProductOp \<or> k = SelectionOp then Inr False
        else if isBinary k then
          (if isJoin k then
             (case getAllSubOperators t of
                sub0 # sub1 # _ \<Rightarrow>
                  let used = usedColumns (root t)
                  in Inr (\<not> (used \<inter> getAvailableColumns sub0 \<noteq> {} \<and> used \<inter> getAvailableColumns sub1 \<noteq> {}))
              | _ \<Rightarrow> Inl Undefined)
           else Inr True)
        else Inr True)"

text \<open>\<open>users\<close>: for each operation that uses the result, whether it is an operator.\<close>

definition isOptimizationRoot :: "bool list \<Rightarrow> optree \<Rightarrow> bool res" where
  "isOptimizationRoot users t =
    (if length users > 1 then Inr True else if \<exists>u\<in>set users. \<not> u then Inr True else isUnsupportedOp t)"

lemma supported_join_uses:
  "isUnsupportedOp (OpTree op cs) = Inr False \<Longrightarrow> op_kind op = InnerJoinOp \<Longrightarrow> usedColumns op \<noteq> {}"
  by (auto simp: isUnsupportedOp_def isBinary_def isJoin_def split: list.splits)

section \<open>The state of the builder\<close>

record qg_builder =
  qg :: query_graph
  attrToNodes :: "nat \<rightharpoonup> nat"
  ts :: "nat \<rightharpoonup> nodeset"
  teSs :: "nat \<rightharpoonup> nodeset"
  nodeForOp :: "nat \<rightharpoonup> nat"

fun countCreatingOperators :: "nat set \<Rightarrow> optree \<Rightarrow> nat" where
  "countCreatingOperators opt (OpTree op cs) =
    (if op_id op \<in> opt then 1
     else sum_list (map (countCreatingOperators opt) cs) + (if createdColumns op \<noteq> {} then 1 else 0))"

definition new_builder :: "nat set \<Rightarrow> optree \<Rightarrow> qg_builder" where
  "new_builder opt t = \<lparr>qg = new_graph (countCreatingOperators opt t), attrToNodes = Map.empty,
     ts = Map.empty, teSs = Map.empty, nodeForOp = Map.empty\<rparr>"

section \<open>The nodes below an operator, and the nodes it needs\<close>

fun calcT :: "nat set \<Rightarrow> optree \<Rightarrow> qg_builder \<Rightarrow> nodeset \<times> qg_builder" where
  "calcT opt (OpTree op cs) b =
    (case ts b (op_id op) of
       Some s \<Rightarrow> (s, b)
     | None \<Rightarrow>
        let init = (case nodeForOp b (op_id op) of Some v \<Rightarrow> {v} | None \<Rightarrow> {});
            (s, b1) = (if op_id op \<in> opt then (init, b)
                       else fold (\<lambda>c (s, b). let (r, b') = calcT opt c b in (s \<union> r, b')) cs (init, b))
        in (s, b1\<lparr>ts := (ts b1)(op_id op \<mapsto> s)\<rparr>))"

definition calcSES :: "operator \<Rightarrow> qg_builder \<Rightarrow> nodeset res" where
  "calcSES op b =
    (if usedColumns op \<subseteq> dom (attrToNodes b) then Inr ((\<lambda>c. the (attrToNodes b c)) ` usedColumns op) else Inl OutOfRange)"

definition add_T :: "nat set \<Rightarrow> bool \<Rightarrow> optree \<Rightarrow> nodeset \<times> qg_builder \<Rightarrow> nodeset \<times> qg_builder" where
  "add_T opt conflict t = (\<lambda>(tes, b). if conflict then let (s, b') = calcT opt t b in (tes \<union> s, b') else (tes, b))"

text \<open>The conflicts of a join with an operator below its left, and below its right child.\<close>

definition left_conflicts :: "nat set \<Rightarrow> op_kind \<Rightarrow> optree \<Rightarrow> nodeset \<times> qg_builder \<Rightarrow> (nodeset \<times> qg_builder) res" where
  "left_conflicts opt b sub st =
    (if isBinary (op_kind (root sub)) then
       (case children sub of
          [aLeft, aRight] \<Rightarrow>
            let a = op_kind (root sub)
            in Inr (add_T opt (\<not> isLAsscom a b) aRight (add_T opt (\<not> isAssoc a b) aLeft st))
        | _ \<Rightarrow> Inl Undefined)
     else Inr st)"

definition right_conflicts :: "nat set \<Rightarrow> op_kind \<Rightarrow> optree \<Rightarrow> nodeset \<times> qg_builder \<Rightarrow> (nodeset \<times> qg_builder) res" where
  "right_conflicts opt b sub st =
    (if isBinary (op_kind (root sub)) then
       (case children sub of
          [aLeft, aRight] \<Rightarrow>
            let a = op_kind (root sub)
            in Inr (add_T opt (\<not> isRAsscom b a) aLeft (add_T opt (\<not> isAssoc b a) aRight st))
        | _ \<Rightarrow> Inl Undefined)
     else Inr st)"

definition calcTES :: "nat set \<Rightarrow> operator \<Rightarrow> optree list \<Rightarrow> qg_builder \<Rightarrow> (nodeset \<times> qg_builder) res" where
  "calcTES opt op cs b =
    (case teSs b (op_id op) of
       Some tes \<Rightarrow> Inr (tes, b)
     | None \<Rightarrow>
        ebind (calcSES op b) (\<lambda>ses.
        ebind (if isBinary (op_kind op) then
                 (case cs of
                    [bLeft, bRight] \<Rightarrow>
                      ebind (mfold (left_conflicts opt (op_kind op)) (getAllSubOperators bLeft) (ses, b))
                        (mfold (right_conflicts opt (op_kind op)) (getAllSubOperators bRight))
                  | _ \<Rightarrow> Inl Undefined)
               else Inr (ses, b)) (\<lambda>(tes, b').
        Inr (tes, b'\<lparr>teSs := (teSs b')(op_id op \<mapsto> tes)\<rparr>))))"

section \<open>Populating the graph\<close>

text \<open>A leaf becomes a node, to which all its columns lead.\<close>

definition add_leaf :: "optree \<Rightarrow> qg_builder \<Rightarrow> qg_builder" where
  "add_leaf t b =
    (let newNode = length (nodes (qg b)); attrs = getAvailableColumns t
     in b\<lparr>qg := addNode (root t) (qg b), nodeForOp := (nodeForOp b)(op_id (root t) \<mapsto> newNode),
          attrToNodes := (\<lambda>c. if c \<in> attrs then Some newNode else attrToNodes b c)\<rparr>)"

definition place_predicate :: "operator \<Rightarrow> nodeset \<Rightarrow> query_graph \<Rightarrow> query_graph" where
  "place_predicate op ses g =
    (if card ses = 1 then
       (let nodeId = findFirst ses
        in if nodeId < length (nodes g) then addPredicate nodeId op g else addSelectionEdge ses op g)
     else addSelectionEdge ses op g)"

definition add_predicate :: "nat set \<Rightarrow> operator \<Rightarrow> optree list \<Rightarrow> qg_builder \<Rightarrow> qg_builder res" where
  "add_predicate opt op cs b =
    ebind (calcSES op b) (\<lambda>ses0.
      let (ses, b1) = (if ses0 = {} \<and> op_kind op = SelectionOp then calcT opt (OpTree op cs) b else (ses0, b))
      in Inr (b1\<lparr>qg := place_predicate op ses (qg b1)\<rparr>))"

definition add_join :: "nat set \<Rightarrow> operator \<Rightarrow> optree list \<Rightarrow> qg_builder \<Rightarrow> qg_builder res" where
  "add_join opt op cs b =
    (case cs of
       [l, r] \<Rightarrow>
         ebind (calcTES opt op cs b) (\<lambda>(tes, b1).
           let (leftT, b2) = calcT opt l b1;
               (rightT, b3) = calcT opt r b2;
               leftTes = (if leftT \<inter> tes \<noteq> {} then leftT \<inter> tes else leftT);
               rightTes = (if rightT \<inter> tes \<noteq> {} then rightT \<inter> tes else rightT);
               (createdNode, b4) =
                 (if createdColumns op \<noteq> {} then
                    (let (newNode, g) = addPseudoNode (qg b3)
                     in (Some newNode, b3\<lparr>qg := g, attrToNodes := (\<lambda>c. if c \<in> createdColumns op then Some newNode
                                                                         else attrToNodes b3 c)\<rparr>))
                  else (None, b3))
           in Inr (b4\<lparr>qg := addJoinEdge leftTes rightTes (Some op) createdNode (qg b4)\<rparr>))
     | _ \<Rightarrow> Inl Undefined)"

fun populateQueryGraph :: "nat set \<Rightarrow> optree \<Rightarrow> qg_builder \<Rightarrow> qg_builder res" where
  "populateQueryGraph opt (OpTree op cs) b =
    (if op_id op \<in> opt then Inr (add_leaf (OpTree op cs) b)
     else ebind (mfold (populateQueryGraph opt) cs b) (\<lambda>b.
       if op_kind op = CrossProductOp then Inr b
       else if op_kind op = SelectionOp \<or> op_kind op = InnerJoinOp then add_predicate opt op cs b
       else if isJoin (op_kind op) then add_join opt op cs b
       else Inl Undefined))"

section \<open>Connecting the graph\<close>

text \<open>A class is known by its leader; \<open>leader v\<close> is the leader of the class of \<open>v\<close>.\<close>

definition getNodeSetFromClass :: "(nat \<Rightarrow> nat) \<Rightarrow> nat \<Rightarrow> nat \<Rightarrow> nodeset" where
  "getNodeSetFromClass leader v n = {u \<in> {0..<n}. leader u = leader v}"

definition getNumClasses :: "(nat \<Rightarrow> nat) \<Rightarrow> nat \<Rightarrow> nat" where
  "getNumClasses leader n = card (leader ` {0..<n})"

definition union_classes :: "(nat \<Rightarrow> nat \<Rightarrow> nat) \<Rightarrow> nat \<Rightarrow> nat \<Rightarrow> (nat \<Rightarrow> nat) \<Rightarrow> (nat \<Rightarrow> nat)" where
  "union_classes pick x y leader =
    (\<lambda>v. if leader v = leader x \<or> leader v = leader y then pick (leader x) (leader y) else leader v)"

text \<open>The first edge that connects two classes; an edge without a side has no leader to look up.\<close>

fun first_connection :: "(nat \<Rightarrow> nat) \<Rightarrow> nat \<Rightarrow> join_edge list \<Rightarrow> (nat \<times> nat) option res" where
  "first_connection leader n [] = Inr None"
| "first_connection leader n (e # es) =
    (if je_left e = {} \<or> je_right e = {} then Inl Undefined
     else
       let class1 = leader (findFirst (je_left e));
           class2 = leader (findFirst (je_right e))
       in if class1 \<noteq> class2 \<and> je_connects e (getNodeSetFromClass leader class1 n) (getNodeSetFromClass leader class2 n)
          then Inr (Some (class1, class2))
          else first_connection leader n es)"

definition connect_step ::
    "(nat \<Rightarrow> nat \<Rightarrow> nat) \<Rightarrow> query_graph \<times> (nat \<Rightarrow> nat) \<times> nat \<Rightarrow> (query_graph \<times> (nat \<Rightarrow> nat) \<times> nat) res" where
  "connect_step pick = (\<lambda>(g, leader, last).
    ebind (first_connection leader (numNodes g) (joins g)) (\<lambda>found.
      let (best1, best2, g1) =
        (case found of
           Some (best1, best2) \<Rightarrow> (best1, best2, g)
         | None \<Rightarrow>
            let best2 = (case find (\<lambda>v. v \<noteq> last \<and> leader v = v) [0..<length (nodes g)] of
                           Some v \<Rightarrow> v | None \<Rightarrow> length (nodes g))
            in (last, best2, addJoinEdge (getNodeSetFromClass leader last (numNodes g))
                               (getNodeSetFromClass leader best2 (numNodes g)) None None g));
          leader1 = union_classes pick best1 best2 leader
      in Inr (g1, leader1, leader1 best1)))"

text \<open>Whether the loop ends is a question of its own: \<open>None\<close> stands for a loop that does not.\<close>

partial_function (option) connect_loop ::
    "(nat \<Rightarrow> nat \<Rightarrow> nat) \<Rightarrow> query_graph \<times> (nat \<Rightarrow> nat) \<times> nat \<Rightarrow> query_graph res option" where
  "connect_loop pick st =
    (if getNumClasses (fst (snd st)) (numNodes (fst st)) > 1 then
       (case connect_step pick st of Inl e \<Rightarrow> Some (Inl e) | Inr st' \<Rightarrow> connect_loop pick st')
     else Some (Inr (fst st)))"

declare connect_loop.simps [code]

definition ensureConnected :: "(nat \<Rightarrow> nat \<Rightarrow> nat) \<Rightarrow> query_graph \<Rightarrow> query_graph res option" where
  "ensureConnected pick g = connect_loop pick (g, \<lambda>v. v, 0)"

definition generate_graph :: "nat set \<Rightarrow> (nat \<Rightarrow> nat \<Rightarrow> nat) \<Rightarrow> optree \<Rightarrow> query_graph res option" where
  "generate_graph opt pick t =
    (case populateQueryGraph opt t (new_builder opt t) of
       Inl e \<Rightarrow> Some (Inl e)
     | Inr b \<Rightarrow> ensureConnected pick (qg b))"

section \<open>The sets of the builder\<close>

text \<open>
  The operators at or above the leaves, and those strictly below them. Only the latter can have no node
  below them: the conflicts of a join are looked for in whole subtrees, past the leaves.
\<close>

fun tree_ids :: "optree \<Rightarrow> nat set" where
  "tree_ids (OpTree op cs) = insert (op_id op) (\<Union> (set (map tree_ids cs)))"

fun upper_ids :: "nat set \<Rightarrow> optree \<Rightarrow> nat set" where
  "upper_ids opt (OpTree op cs) = insert (op_id op) (if op_id op \<in> opt then {} else \<Union> (set (map (upper_ids opt) cs)))"

fun lower_ids :: "nat set \<Rightarrow> optree \<Rightarrow> nat set" where
  "lower_ids opt (OpTree op cs) =
    (if op_id op \<in> opt then \<Union> (set (map tree_ids cs)) else \<Union> (set (map (lower_ids opt) cs)))"

fun no_dead_end :: "nat set \<Rightarrow> optree \<Rightarrow> bool" where
  "no_dead_end opt (OpTree op cs) \<longleftrightarrow> op_id op \<in> opt \<or> cs \<noteq> [] \<and> (\<forall>c\<in>set cs. no_dead_end opt c)"

definition sets_ok :: "nat set \<Rightarrow> nodeset \<Rightarrow> qg_builder \<Rightarrow> bool" where
  "sets_ok Z N b \<longleftrightarrow> (\<forall>c v. attrToNodes b c = Some v \<longrightarrow> v \<in> N) \<and> (\<forall>i v. nodeForOp b i = Some v \<longrightarrow> v \<in> N)
     \<and> (\<forall>i s. teSs b i = Some s \<longrightarrow> s \<subseteq> N)
     \<and> (\<forall>i s. ts b i = Some s \<longrightarrow> s \<subseteq> N \<and> (s = {} \<longrightarrow> i \<in> Z))"

definition reached :: "nat set \<Rightarrow> nat set \<Rightarrow> (nat \<rightharpoonup> nat) \<Rightarrow> optree \<Rightarrow> bool" where
  "reached opt Z nf t \<longleftrightarrow> tree_ids t \<subseteq> Z
     \<or> (\<forall>l\<in>set (leaves opt t). op_id (root l) \<in> dom nf) \<and> no_dead_end opt t \<and> upper_ids opt t \<inter> Z = {}"

lemma reached_child:
  assumes "reached opt Z nf (OpTree op cs)" and "op_id op \<notin> opt" and "c \<in> set cs"
  shows "reached opt Z nf c"
  using assms by (auto simp: reached_def)

text \<open>\<open>calcT\<close> only fills its cache, and finds a node wherever there is one.\<close>

definition T_ok :: "nat set \<Rightarrow> nodeset \<Rightarrow> optree \<Rightarrow> qg_builder \<Rightarrow> nodeset \<times> qg_builder \<Rightarrow> bool" where
  "T_ok Z N t b r \<longleftrightarrow> (\<exists>x. snd r = b\<lparr>ts := x\<rparr>) \<and> sets_ok Z N (snd r) \<and> fst r \<subseteq> N
     \<and> (fst r = {} \<longrightarrow> op_id (root t) \<in> Z)"

lemma calcT_fold:
  assumes "\<And>c b'. c \<in> set cs \<Longrightarrow> sets_ok Z N b' \<Longrightarrow> nodeForOp b' = nodeForOp b \<Longrightarrow> T_ok Z N c b' (calcT opt c b')"
    and "sets_ok Z N b" and "init \<subseteq> N"
  shows "\<exists>s x. fold (\<lambda>c (s, b). let (r, b') = calcT opt c b in (s \<union> r, b')) cs (init, b) = (s, b\<lparr>ts := x\<rparr>)
    \<and> sets_ok Z N (b\<lparr>ts := x\<rparr>) \<and> init \<subseteq> s \<and> s \<subseteq> N \<and> (s = {} \<longrightarrow> (\<forall>c\<in>set cs. op_id (root c) \<in> Z))"
  using assms
proof (induction cs arbitrary: init b)
  case Nil
  then show ?case by (intro exI[of _ init] exI[of _ "ts b"]) simp
next
  case (Cons c cs)
  obtain r x where r: "calcT opt c b = (r, b\<lparr>ts := x\<rparr>)" "sets_ok Z N (b\<lparr>ts := x\<rparr>)" "r \<subseteq> N" "r = {} \<longrightarrow> op_id (root c) \<in> Z"
    using Cons.prems(1)[of c b] Cons.prems(2) by (cases "calcT opt c b") (auto simp: T_ok_def)
  have "\<And>c' b'. c' \<in> set cs \<Longrightarrow> sets_ok Z N b' \<Longrightarrow> nodeForOp b' = nodeForOp (b\<lparr>ts := x\<rparr>) \<Longrightarrow> T_ok Z N c' b' (calcT opt c' b')"
    using Cons.prems(1) by simp
  from Cons.IH[OF this r(2), of "init \<union> r"] Cons.prems(3) r(3) obtain s y where
    "fold (\<lambda>c (s, b). let (r, b') = calcT opt c b in (s \<union> r, b')) cs (init \<union> r, b\<lparr>ts := x\<rparr>) = (s, b\<lparr>ts := y\<rparr>)"
    "sets_ok Z N (b\<lparr>ts := y\<rparr>)" "init \<union> r \<subseteq> s" "s \<subseteq> N" "s = {} \<longrightarrow> (\<forall>c\<in>set cs. op_id (root c) \<in> Z)" by auto
  then show ?case using r by (intro exI[of _ s] exI[of _ y]) auto
qed

lemma sets_ok_cache: "sets_ok Z N b \<Longrightarrow> s \<subseteq> N \<Longrightarrow> (s = {} \<longrightarrow> i \<in> Z) \<Longrightarrow> sets_ok Z N (b\<lparr>ts := (ts b)(i \<mapsto> s)\<rparr>)"
  by (auto simp: sets_ok_def)

lemma calcT_ok: "sets_ok Z N b \<Longrightarrow> reached opt Z (nodeForOp b) t \<Longrightarrow> T_ok Z N t b (calcT opt t b)"
proof (induction t arbitrary: b)
  case (OpTree op cs)
  show ?case
  proof (cases "ts b (op_id op)")
    case (Some s)
    then show ?thesis using OpTree.prems(1) by (auto simp: T_ok_def sets_ok_def intro!: exI[of _ "ts b"])
  next
    case None
    let ?init = "case nodeForOp b (op_id op) of Some v \<Rightarrow> {v} | None \<Rightarrow> {}"
    have init: "?init \<subseteq> N" using OpTree.prems(1) by (auto simp: sets_ok_def split: option.split)
    show ?thesis
    proof (cases "op_id op \<in> opt")
      case True
      have "?init = {} \<longrightarrow> op_id op \<in> Z"
        using OpTree.prems(2) True by (auto simp: reached_def split: option.splits)
      moreover have "calcT opt (OpTree op cs) b = (?init, b\<lparr>ts := (ts b)(op_id op \<mapsto> ?init)\<rparr>)"
        using None True by (simp add: Let_def)
      ultimately show ?thesis using sets_ok_cache[OF OpTree.prems(1) init, of "op_id op"] init
        unfolding T_ok_def by auto
    next
      case False
      have "T_ok Z N c b' (calcT opt c b')"
        if "c \<in> set cs" "sets_ok Z N b'" "nodeForOp b' = nodeForOp b" for c b'
        using OpTree.IH[OF that(1,2)] reached_child[OF OpTree.prems(2) False that(1)] that(3) by simp
      from calcT_fold[of cs Z N b opt, OF this OpTree.prems(1) init]
      obtain s x where run: "fold (\<lambda>c (s, b). let (r, b') = calcT opt c b in (s \<union> r, b')) cs (?init, b) = (s, b\<lparr>ts := x\<rparr>)"
        and s: "sets_ok Z N (b\<lparr>ts := x\<rparr>)" "s \<subseteq> N" "s = {} \<longrightarrow> (\<forall>c\<in>set cs. op_id (root c) \<in> Z)" by blast
      have "s = {} \<longrightarrow> op_id op \<in> Z"
      proof
        assume "s = {}"
        then have low: "\<forall>c\<in>set cs. op_id (root c) \<in> Z" using s(3) by simp
        show "op_id op \<in> Z"
        proof (rule ccontr)
          assume "op_id op \<notin> Z"
          then have "cs \<noteq> []" "upper_ids opt (OpTree op cs) \<inter> Z = {}"
            using OpTree.prems(2) False by (auto simp: reached_def)
          moreover from this(1) obtain c where "c \<in> set cs" by (cases cs) auto
          moreover have "op_id (root c) \<in> upper_ids opt c" by (cases c) simp
          ultimately show False using low False by auto
        qed
      qed
      moreover have "calcT opt (OpTree op cs) b = (s, b\<lparr>ts := x(op_id op \<mapsto> s)\<rparr>)"
        using None False run by (simp add: Let_def)
      ultimately show ?thesis using sets_ok_cache[OF s(1,2), of "op_id op"] s(2) unfolding T_ok_def by auto
    qed
  qed
qed

text \<open>An invariant of the body is one of the loop.\<close>

lemma mfold_keeps:
  "mfold f is s = Inr s' \<Longrightarrow> (\<And>i u u'. i \<in> set is \<Longrightarrow> P u \<Longrightarrow> f i u = Inr u' \<Longrightarrow> P u') \<Longrightarrow> P s \<Longrightarrow> P s'"
proof (induction "is" arbitrary: s)
  case (Cons i "is")
  obtain u where u: "f i s = Inr u" "mfold f is u = Inr s'" using Cons.prems(1) by (auto simp: ebind_eq_Inr_iff)
  have "P u" by (rule Cons.prems(2)[OF _ Cons.prems(3) u(1)]) simp
  then show ?case using Cons.IH[OF u(2)] Cons.prems(2) by (meson list.set_intros(2))
qed simp

lemma lower_ids_tree: "lower_ids opt t \<subseteq> tree_ids t"
  by (induction t) (auto split: if_splits)

lemma reached_sub:
  "sub \<in> set (getAllSubOperators t) \<Longrightarrow> reached opt Z nf t \<Longrightarrow> lower_ids opt t \<subseteq> Z
    \<Longrightarrow> reached opt Z nf sub \<and> lower_ids opt sub \<subseteq> Z"
proof (induction t)
  case (OpTree op cs)
  show ?case
  proof (cases "sub = OpTree op cs")
    case False
    then obtain c where c: "c \<in> set cs" "sub \<in> set (getAllSubOperators c)" using OpTree.prems(1) by auto
    have "reached opt Z nf c \<and> lower_ids opt c \<subseteq> Z"
    proof (cases "op_id op \<in> opt")
      case True
      then have "tree_ids c \<subseteq> Z" using OpTree.prems(3) c(1) by auto
      then show ?thesis using lower_ids_tree[of opt c] by (auto simp: reached_def)
    qed (use reached_child[OF OpTree.prems(2) _ c(1)] OpTree.prems(3) c(1) in auto)
    then show ?thesis using OpTree.IH[OF c] by simp
  qed (use OpTree.prems in simp)
qed

lemma sub_child: "OpTree op cs \<in> set (getAllSubOperators t) \<Longrightarrow> c \<in> set cs \<Longrightarrow> c \<in> set (getAllSubOperators t)"
proof (induction t)
  case (OpTree op' ds)
  show ?case
  proof (cases "OpTree op cs = OpTree op' ds")
    case True
    moreover have "c \<in> set (getAllSubOperators c)" by (cases c) simp
    ultimately show ?thesis using OpTree.prems(2) by auto
  next
    case False
    then obtain d where "d \<in> set ds" "OpTree op cs \<in> set (getAllSubOperators d)" using OpTree.prems(1) by auto
    then show ?thesis using OpTree.IH OpTree.prems(2) by auto
  qed
qed

text \<open>The nodes a join needs, with its conflicts.\<close>

definition tes_ok :: "nat set \<Rightarrow> nodeset \<Rightarrow> qg_builder \<Rightarrow> nodeset \<times> qg_builder \<Rightarrow> bool" where
  "tes_ok Z N b r \<longleftrightarrow> fst r \<subseteq> N \<and> sets_ok Z N (snd r) \<and> qg (snd r) = qg b
     \<and> attrToNodes (snd r) = attrToNodes b \<and> nodeForOp (snd r) = nodeForOp b"

lemma tes_ok_start: "s \<subseteq> N \<Longrightarrow> sets_ok Z N b \<Longrightarrow> tes_ok Z N b (s, b)"
  by (simp add: tes_ok_def)

lemma tes_ok_calcT:
  assumes "tes_ok Z N b (s, b1)" and "reached opt Z (nodeForOp b) t" and "calcT opt t b1 = (r, b2)"
  shows "tes_ok Z N b (r, b2)" and "r = {} \<Longrightarrow> op_id (root t) \<in> Z"
proof -
  have "T_ok Z N t b1 (r, b2)" using calcT_ok[of Z N b1 opt t] assms by (simp add: tes_ok_def)
  then show "tes_ok Z N b (r, b2)" and "r = {} \<Longrightarrow> op_id (root t) \<in> Z"
    using assms(1) by (auto simp: tes_ok_def T_ok_def)
qed

lemma tes_ok_add_T:
  assumes "tes_ok Z N b st" and "reached opt Z (nodeForOp b) t"
  shows "tes_ok Z N b (add_T opt c t st)"
proof -
  obtain s b1 where st: "st = (s, b1)" by (cases st)
  obtain r b2 where r: "calcT opt t b1 = (r, b2)" by fastforce
  then show ?thesis using assms(1) tes_ok_calcT(1)[OF assms(1)[unfolded st] assms(2) r] st
    by (auto simp: add_T_def tes_ok_def)
qed

lemma tes_ok_conflicts:
  assumes t: "reached opt Z (nodeForOp b) t" "lower_ids opt t \<subseteq> Z" and sub: "sub \<in> set (getAllSubOperators t)"
    and st: "tes_ok Z N b st"
  shows "left_conflicts opt k sub st = Inr st' \<Longrightarrow> tes_ok Z N b st'"
    and "right_conflicts opt k sub st = Inr st' \<Longrightarrow> tes_ok Z N b st'"
proof -
  have "reached opt Z (nodeForOp b) c" if "c \<in> set (children sub)" for c
    using reached_sub[OF sub_child[of "root sub" "children sub"] t] that sub by simp
  then show "left_conflicts opt k sub st = Inr st' \<Longrightarrow> tes_ok Z N b st'"
    and "right_conflicts opt k sub st = Inr st' \<Longrightarrow> tes_ok Z N b st'"
    using st by (auto simp: left_conflicts_def right_conflicts_def Let_def split: if_splits list.splits
        intro!: tes_ok_add_T)
qed

lemma calcSES_in: "calcSES op b = Inr ses \<Longrightarrow> sets_ok Z N b \<Longrightarrow> ses \<subseteq> N"
  by (force simp: calcSES_def sets_ok_def ran_def split: if_splits)

lemma calcTES_ok:
  assumes run: "calcTES opt op cs b = Inr r" and ok: "sets_ok Z N b"
    and cs: "\<And>c. c \<in> set cs \<Longrightarrow> reached opt Z (nodeForOp b) c \<and> lower_ids opt c \<subseteq> Z"
  shows "tes_ok Z N b r"
proof (cases "teSs b (op_id op)")
  case (Some tes)
  then have "tes \<subseteq> N" using ok unfolding sets_ok_def by blast
  then show ?thesis using Some run ok by (auto simp: calcTES_def intro!: tes_ok_start)
next
  case None
  then obtain ses where ses: "calcSES op b = Inr ses" using run by (auto simp: calcTES_def ebind_eq_Inr_iff)
  note start = tes_ok_start[OF calcSES_in[OF ses ok] ok]
  obtain tes b' where tes: "(if isBinary (op_kind op) then
                 (case cs of
                    [bLeft, bRight] \<Rightarrow>
                      ebind (mfold (left_conflicts opt (op_kind op)) (getAllSubOperators bLeft) (ses, b))
                        (mfold (right_conflicts opt (op_kind op)) (getAllSubOperators bRight))
                  | _ \<Rightarrow> Inl Undefined)
               else Inr (ses, b)) = Inr (tes, b')"
    and r: "r = (tes, b'\<lparr>teSs := (teSs b')(op_id op \<mapsto> tes)\<rparr>)"
    using run ses None by (auto simp: calcTES_def ebind_eq_Inr_iff)
  have "tes_ok Z N b (tes, b')"
  proof (cases "isBinary (op_kind op)")
    case True
    then obtain l r mid where lr: "cs = [l, r]"
      and mid: "mfold (left_conflicts opt (op_kind op)) (getAllSubOperators l) (ses, b) = Inr mid"
        "mfold (right_conflicts opt (op_kind op)) (getAllSubOperators r) mid = Inr (tes, b')"
      using tes by (auto simp: ebind_eq_Inr_iff split: list.splits)
    have "tes_ok Z N b mid"
      using mfold_keeps[OF mid(1), of "tes_ok Z N b"] tes_ok_conflicts(1) cs lr start by (metis list.set_intros(1))
    then show ?thesis
      using mfold_keeps[OF mid(2), of "tes_ok Z N b"] tes_ok_conflicts(2) cs lr
      by (metis list.set_intros(1,2))
  qed (use tes start in simp)
  then show ?thesis using r by (simp add: tes_ok_def sets_ok_def)
qed

section \<open>The graphs the builder makes\<close>

definition graph_size :: "query_graph \<Rightarrow> nat" where
  "graph_size g = length (nodes g) + pseudoNodes g"

definition builder_ok :: "nat set \<Rightarrow> qg_builder \<Rightarrow> bool" where
  "builder_ok Z b \<longleftrightarrow> graph_ok (qg b) \<and> owners_ok (qg b) \<and> sets_ok Z (present (qg b)) b"

lemma finite_present: "finite (present g)"
  by (simp add: present_def)

text \<open>How many nodes a step adds.\<close>

lemma addJoinEdge_shape:
  assumes "left \<union> right \<subseteq> present g"
  shows "length (nodes (addJoinEdge left right op None g)) = length (nodes g)"
    "pseudoNodes (addJoinEdge left right op None g) = pseudoNodes g" "numNodes (addJoinEdge left right op None g) = numNodes g"
  using finite_subset[OF assms finite_present] by (simp_all add: addJoinEdge_plain append_edge_def nodes_enter_edge)

lemma addSelectionEdge_shape:
  assumes "need \<subseteq> present g"
  shows "length (nodes (addSelectionEdge need op g)) = length (nodes g)"
    "pseudoNodes (addSelectionEdge need op g) = pseudoNodes g" "numNodes (addSelectionEdge need op g) = numNodes g"
  using finite_subset[OF assms finite_present]
  by (simp_all add: addSelectionEdge_def addJoinEdge_plain append_edge_def nodes_enter_edge nodes_enter_selection Let_def)

lemma place_predicate_step:
  assumes "ses \<subseteq> present g"
  shows "graph_step g (place_predicate op ses g)" and "length (nodes (place_predicate op ses g)) = length (nodes g)"
    "pseudoNodes (place_predicate op ses g) = pseudoNodes g" "numNodes (place_predicate op ses g) = numNodes g"
  using assms by (auto simp: place_predicate_def Let_def addSelectionEdge_shape addPredicate_def
      intro: graph_step.selection graph_step.predicate[unfolded addPredicate_def])

lemma addCreatingJoin_shape:
  assumes "left \<union> right \<subseteq> present g"
  shows "length (nodes (addCreatingJoin left right op g)) = length (nodes g)"
    "pseudoNodes (addCreatingJoin left right op g) = pseudoNodes g + 1"
    "numNodes (addCreatingJoin left right op g) = numNodes g"
  using finite_subset[OF assms finite_present]
  by (simp_all add: addCreatingJoin_eq append_edge_def nodes_enter_edge)

lemma sets_ok_wider: "sets_ok Z N b \<Longrightarrow> N \<subseteq> M \<Longrightarrow> sets_ok Z M b"
proof -
  assume ok: "sets_ok Z N b" and sub: "N \<subseteq> M"
  have "s \<subseteq> M" if "teSs b i = Some s \<or> ts b i = Some s" for i s
    using ok sub that unfolding sets_ok_def by (metis order_trans)
  then show "sets_ok Z M b" using ok sub unfolding sets_ok_def by auto
qed

lemma sets_ok_graph [simp]: "sets_ok Z N (b\<lparr>qg := g\<rparr>) = sets_ok Z N b"
  by (simp add: sets_ok_def)


lemma present_mono:
  "numNodes h = numNodes g \<Longrightarrow> length (nodes g) \<le> length (nodes h) \<Longrightarrow> pseudoNodes g \<le> pseudoNodes h
    \<Longrightarrow> present g \<subseteq> present h"
  by (auto simp: present_def)

lemma step_builder_ok:
  assumes "graph_step g h" and "graph_ok g" and "owners_ok g"
  shows "graph_ok h" and "owners_ok h"
  using graph_step_ok graph_step_owners assms by blast+

text \<open>A leaf, a predicate, a join.\<close>

lemma add_leaf_ok:
  assumes ok: "builder_ok Z b" and room: "graph_size (qg b) < numNodes (qg b)"
  shows "builder_ok Z (add_leaf t b)"
proof -
  let ?g = "addNode (root t) (qg b)"
  have step: "graph_step (qg b) ?g" using room by (simp add: graph_step.node graph_size_def)
  have wider: "present (qg b) \<subseteq> present ?g" by (rule present_mono) (simp_all add: addNode_def)
  have new: "length (nodes (qg b)) \<in> present ?g" by (simp add: present_def addNode_def)
  have sets: "sets_ok Z (present ?g) b" using ok wider sets_ok_wider by (auto simp: builder_ok_def)
  have "sets_ok Z (present ?g) (add_leaf t b)" using sets new by (simp add: sets_ok_def add_leaf_def Let_def)
  moreover have "qg (add_leaf t b) = ?g" by (simp add: add_leaf_def Let_def)
  ultimately show ?thesis using step_builder_ok[OF step] ok by (simp add: builder_ok_def)
qed

lemma add_predicate_ok:
  assumes run: "add_predicate opt op cs b = Inr b'" and ok: "builder_ok Z b"
    and t: "reached opt Z (nodeForOp b) (OpTree op cs)"
  shows "builder_ok Z b' \<and> graph_size (qg b') = graph_size (qg b) \<and> numNodes (qg b') = numNodes (qg b)
    \<and> nodeForOp b' = nodeForOp b"
proof -
  obtain ses0 where ses0: "calcSES op b = Inr ses0" using run by (auto simp: add_predicate_def ebind_eq_Inr_iff)
  obtain ses b1 where ses: "(if ses0 = {} \<and> op_kind op = SelectionOp then calcT opt (OpTree op cs) b else (ses0, b)) = (ses, b1)"
    by fastforce
  have sets: "sets_ok Z (present (qg b)) b" using ok by (simp add: builder_ok_def)
  have "tes_ok Z (present (qg b)) b (ses, b1)"
  proof (cases "ses0 = {} \<and> op_kind op = SelectionOp")
    case True
    then show ?thesis using tes_ok_calcT(1)[OF tes_ok_start[OF _ sets, of "{}"] t] ses by simp
  next
    case False
    then show ?thesis using tes_ok_start[OF calcSES_in[OF ses0 sets] sets] ses by (simp only: if_False)
  qed
  then have b1: "ses \<subseteq> present (qg b)" "sets_ok Z (present (qg b)) b1" "qg b1 = qg b" "nodeForOp b1 = nodeForOp b"
    by (auto simp: tes_ok_def)
  have b': "b' = b1\<lparr>qg := place_predicate op ses (qg b1)\<rparr>"
    using run ses0 ses by (simp add: add_predicate_def)
  note step = place_predicate_step[OF b1(1), of op]
  have "present (qg b') = present (qg b)" using step(2-4) b1(3) b' by (simp add: present_def)
  then show ?thesis
    using step_builder_ok[OF step(1)] step(2-4) b1 ok b' by (simp add: builder_ok_def graph_size_def)
qed

lemma add_join_ok:
  assumes run: "add_join opt op cs b = Inr b'" and ok: "builder_ok Z b"
    and cs: "\<And>c. c \<in> set cs \<Longrightarrow> reached opt Z (nodeForOp b) c \<and> lower_ids opt c \<subseteq> Z \<and> op_id (root c) \<notin> Z"
    and room: "createdColumns op \<noteq> {} \<Longrightarrow> graph_size (qg b) < numNodes (qg b)"
  shows "builder_ok Z b' \<and> graph_size (qg b') = graph_size (qg b) + (if createdColumns op \<noteq> {} then 1 else 0)
    \<and> numNodes (qg b') = numNodes (qg b) \<and> nodeForOp b' = nodeForOp b"
proof -
  let ?N = "present (qg b)"
  have sets: "sets_ok Z ?N b" using ok by (simp add: builder_ok_def)
  obtain l r where lr: "cs = [l, r]" using run by (auto simp: add_join_def split: list.splits)
  obtain tes b1 where tes: "calcTES opt op cs b = Inr (tes, b1)"
    using run lr by (auto simp: add_join_def ebind_eq_Inr_iff)
  obtain leftT b2 where l: "calcT opt l b1 = (leftT, b2)" by fastforce
  obtain rightT b3 where r: "calcT opt r b2 = (rightT, b3)" by fastforce
  have f1: "tes_ok Z ?N b (tes, b1)" using calcTES_ok[OF tes sets] cs by blast
  have f2: "tes_ok Z ?N b (leftT, b2)" "leftT \<noteq> {}" using tes_ok_calcT[OF f1 _ l] cs lr by auto
  have f3: "tes_ok Z ?N b (rightT, b3)" using tes_ok_calcT(1)[OF f2(1) _ r] cs lr by auto
  define left right where "left = (if leftT \<inter> tes \<noteq> {} then leftT \<inter> tes else leftT)"
    and "right = (if rightT \<inter> tes \<noteq> {} then rightT \<inter> tes else rightT)"
  have sides: "left \<union> right \<subseteq> ?N" "left \<union> right \<noteq> {}"
    using f2 f3 by (auto simp: left_def right_def tes_ok_def)
  have b3: "sets_ok Z ?N b3" "qg b3 = qg b" "nodeForOp b3 = nodeForOp b" using f3 by (auto simp: tes_ok_def)
  show ?thesis
  proof (cases "createdColumns op = {}")
    case True
    then have b': "b' = b3\<lparr>qg := addJoinEdge left right (Some op) None (qg b3)\<rparr>"
      using run lr tes l r by (simp add: add_join_def Let_def left_def right_def)
    have step: "graph_step (qg b) (qg b')" using graph_step.join[OF sides(1)] b' b3 by simp
    note shape = addJoinEdge_shape[OF sides(1), of "Some op"]
    have "present (qg b') = ?N" using shape b' b3 by (simp add: present_def)
    then show ?thesis
      using step_builder_ok[OF step] ok b3 shape True unfolding b' by (simp add: builder_ok_def graph_size_def)
  next
    case False
    let ?g = "addCreatingJoin left right op (qg b)"
    obtain p g1 where p: "addPseudoNode (qg b) = (p, g1)" by fastforce
    let ?attr = "\<lambda>c. if c \<in> createdColumns op then Some p else attrToNodes b3 c"
    have g: "?g = addJoinEdge left right (Some op) (Some p) g1" by (simp add: addCreatingJoin_def p)
    have "Inr b' = (Inr (b3\<lparr>qg := ?g, attrToNodes := ?attr\<rparr>) :: qg_builder res)"
      unfolding run[symmetric] g left_def right_def using lr tes l r False b3(2) p
      by (simp add: add_join_def addCreatingJoin_def Let_def)
    then have b': "b' = b3\<lparr>qg := ?g, attrToNodes := ?attr\<rparr>" by simp
    note room = room[OF False]
    have step: "graph_step (qg b) ?g" using graph_step.creating[OF sides] room by (simp add: graph_size_def)
    note shape = addCreatingJoin_shape[OF sides(1), of op]
    have wider: "?N \<subseteq> present ?g" by (rule present_mono) (simp_all add: shape)
    have "p \<in> present ?g"
      using room shape p by (auto simp: addPseudoNode_def present_def graph_size_def Let_def)
    moreover have "sets_ok Z (present ?g) b3" using sets_ok_wider[OF b3(1) wider] .
    ultimately have "sets_ok Z (present ?g) (b3\<lparr>qg := ?g, attrToNodes := ?attr\<rparr>)" by (simp add: sets_ok_def)
    then show ?thesis
      using step_builder_ok[OF step] ok b3(3) shape False unfolding b' by (simp add: builder_ok_def graph_size_def)
  qed
qed

text \<open>
  Trees as the optimizer meets them: no operator above the leaves shares its identity with one below
  them, none is without a child, and selections, inner joins and cross products create no columns.
\<close>

fun quiet :: "nat set \<Rightarrow> optree \<Rightarrow> bool" where
  "quiet opt (OpTree op cs) \<longleftrightarrow> op_id op \<in> opt
     \<or> (op_kind op \<in> {SelectionOp, InnerJoinOp, CrossProductOp} \<longrightarrow> createdColumns op = {}) \<and> (\<forall>c\<in>set cs. quiet opt c)"

definition tree_ok :: "nat set \<Rightarrow> nat set \<Rightarrow> optree \<Rightarrow> bool" where
  "tree_ok opt Z t \<longleftrightarrow> no_dead_end opt t \<and> quiet opt t \<and> upper_ids opt t \<inter> Z = {} \<and> lower_ids opt t \<subseteq> Z"

lemma tree_ok_child: "tree_ok opt Z (OpTree op cs) \<Longrightarrow> op_id op \<notin> opt \<Longrightarrow> c \<in> set cs \<Longrightarrow> tree_ok opt Z c"
  unfolding tree_ok_def by auto

definition leaf_ids :: "nat set \<Rightarrow> optree \<Rightarrow> nat set" where
  "leaf_ids opt t = (\<lambda>l. op_id (root l)) ` set (leaves opt t)"

lemma leaf_ids_inner: "op_id op \<notin> opt \<Longrightarrow> leaf_ids opt (OpTree op cs) = \<Union> (set (map (leaf_ids opt) cs))"
  by (auto simp: leaf_ids_def)

lemma reached_tree: "tree_ok opt Z t \<Longrightarrow> leaf_ids opt t \<subseteq> dom nf \<Longrightarrow> reached opt Z nf t"
  by (auto simp: reached_def tree_ok_def leaf_ids_def)

text \<open>What populating the graph with a tree adds.\<close>

definition populates :: "nat set \<Rightarrow> nat set \<Rightarrow> nat \<Rightarrow> nat set \<Rightarrow> qg_builder \<Rightarrow> qg_builder \<Rightarrow> bool" where
  "populates opt Z n ids b b' \<longleftrightarrow> builder_ok Z b' \<and> graph_size (qg b') = graph_size (qg b) + n
     \<and> numNodes (qg b') = numNodes (qg b) \<and> dom (nodeForOp b) \<union> ids \<subseteq> dom (nodeForOp b')"

lemma populates_trans:
  "populates opt Z n ids b b1 \<Longrightarrow> populates opt Z m ids' b1 b2 \<Longrightarrow> populates opt Z (n + m) (ids \<union> ids') b b2"
  unfolding populates_def by (simp, blast)

lemma populates_children:
  assumes "\<And>c b b'. c \<in> set cs \<Longrightarrow> populateQueryGraph opt c b = Inr b' \<Longrightarrow> builder_ok Z b
      \<Longrightarrow> graph_size (qg b) + countCreatingOperators opt c \<le> numNodes (qg b)
      \<Longrightarrow> populates opt Z (countCreatingOperators opt c) (leaf_ids opt c) b b'"
    and "mfold (populateQueryGraph opt) cs b = Inr b'" and "builder_ok Z b"
    and "graph_size (qg b) + sum_list (map (countCreatingOperators opt) cs) \<le> numNodes (qg b)"
  shows "populates opt Z (sum_list (map (countCreatingOperators opt) cs)) (\<Union> (set (map (leaf_ids opt) cs))) b b'"
  using assms
proof (induction cs arbitrary: b)
  case Nil
  then show ?case by (simp add: populates_def)
next
  case (Cons c cs)
  obtain b1 where b1: "populateQueryGraph opt c b = Inr b1" "mfold (populateQueryGraph opt) cs b1 = Inr b'"
    using Cons.prems(2) by (auto simp: ebind_eq_Inr_iff)
  have first: "populates opt Z (countCreatingOperators opt c) (leaf_ids opt c) b b1"
    using Cons.prems(1)[of c b b1] b1(1) Cons.prems(3,4) by simp
  have "populates opt Z (sum_list (map (countCreatingOperators opt) cs)) (\<Union> (set (map (leaf_ids opt) cs))) b1 b'"
    using Cons.IH[OF Cons.prems(1) b1(2)] first Cons.prems(4) by (simp add: populates_def)
  then show ?case using populates_trans[OF first] by simp
qed

lemma populate_ok:
  "tree_ok opt Z t \<Longrightarrow> populateQueryGraph opt t b = Inr b' \<Longrightarrow> builder_ok Z b
    \<Longrightarrow> graph_size (qg b) + countCreatingOperators opt t \<le> numNodes (qg b)
    \<Longrightarrow> populates opt Z (countCreatingOperators opt t) (leaf_ids opt t) b b'"
proof (induction t arbitrary: b b')
  case (OpTree op cs)
  show ?case
  proof (cases "op_id op \<in> opt")
    case True
    then have "b' = add_leaf (OpTree op cs) b" using OpTree.prems(2) by simp
    moreover have "builder_ok Z (add_leaf (OpTree op cs) b)"
      using add_leaf_ok[OF OpTree.prems(3)] OpTree.prems(4) True by simp
    ultimately show ?thesis using True
      by (auto simp: populates_def add_leaf_def addNode_def graph_size_def leaf_ids_def Let_def)
  next
    case False
    let ?n = "sum_list (map (countCreatingOperators opt) cs)" and ?ids = "\<Union> (set (map (leaf_ids opt) cs))"
    obtain b1 where b1: "mfold (populateQueryGraph opt) cs b = Inr b1"
      using OpTree.prems(2) False by (auto simp: ebind_eq_Inr_iff)
    have sub: "populates opt Z ?n ?ids b b1"
      using OpTree.IH tree_ok_child[OF OpTree.prems(1) False] OpTree.prems(3,4) False
      by (intro populates_children[OF _ b1]) auto
    have ids: "leaf_ids opt (OpTree op cs) = ?ids" by (rule leaf_ids_inner[OF False])
    have reach: "reached opt Z (nodeForOp b1) (OpTree op cs)"
      using sub OpTree.prems(1) by (intro reached_tree) (auto simp: populates_def ids)
    have kids: "reached opt Z (nodeForOp b1) c \<and> lower_ids opt c \<subseteq> Z \<and> op_id (root c) \<notin> Z" if c: "c \<in> set cs" for c
    proof -
      have "op_id (root c) \<in> upper_ids opt c" by (cases c) simp
      then show ?thesis using tree_ok_child[OF OpTree.prems(1) False c] reached_child[OF reach False c]
        by (auto simp: tree_ok_def)
    qed
    have quiet: "op_kind op \<in> {SelectionOp, InnerJoinOp, CrossProductOp} \<Longrightarrow> createdColumns op = {}"
      using OpTree.prems(1) False by (simp add: tree_ok_def)
    have ok1: "builder_ok Z b1" using sub by (simp add: populates_def)
    have room: "graph_size (qg b1) < numNodes (qg b1)" if "createdColumns op \<noteq> {}"
      using sub OpTree.prems(4) False that by (auto simp: populates_def)
    have last: "(if op_kind op = CrossProductOp then Inr b1
       else if op_kind op = SelectionOp \<or> op_kind op = InnerJoinOp then add_predicate opt op cs b1
       else if isJoin (op_kind op) then add_join opt op cs b1 else Inl Undefined) = Inr b'"
      using OpTree.prems(2) b1 False by simp
    consider "op_kind op = CrossProductOp" | "op_kind op = SelectionOp \<or> op_kind op = InnerJoinOp"
      | "op_kind op \<noteq> CrossProductOp" "\<not> (op_kind op = SelectionOp \<or> op_kind op = InnerJoinOp)" by blast
    then have "populates opt Z (if createdColumns op \<noteq> {} then 1 else 0) {} b1 b'"
    proof cases
      case 1
      then show ?thesis using last ok1 quiet by (simp add: populates_def)
    next
      case 2
      then have "add_predicate opt op cs b1 = Inr b'" using last by auto
      then show ?thesis using add_predicate_ok[OF _ ok1 reach] quiet 2 by (auto simp: populates_def)
    next
      case 3
      then have "add_join opt op cs b1 = Inr b'" using last by (simp split: if_splits)
      then show ?thesis using add_join_ok[OF _ ok1 kids room] by (simp add: populates_def)
    qed
    from populates_trans[OF sub this] show ?thesis using False by (auto simp: ids split: if_splits)
  qed
qed

text \<open>The loop that connects the graph keeps it well-formed.\<close>

lemma class_nodes: "getNodeSetFromClass leader v n \<subseteq> {0..<n}"
  by (auto simp: getNodeSetFromClass_def)

lemma wf_addJoinEdge:
  assumes "wf_graph g" and "left \<union> right \<subseteq> {0..<numNodes g}"
  shows "wf_graph (addJoinEdge left right None None g) \<and> numNodes (addJoinEdge left right None None g) = numNodes g
    \<and> length (nodes (addJoinEdge left right None None g)) = length (nodes g)"
proof -
  have "present g = {0..<numNodes g}" using assms(1) by (auto simp: wf_graph_def present_def)
  then have sub: "left \<union> right \<subseteq> present g" using assms(2) by simp
  note shape = addJoinEdge_shape[OF sub, of None]
  show ?thesis
    using step_builder_ok[OF graph_step.join[OF sub, of None]] assms(1) shape by (simp add: wf_graph_def)
qed

lemma connect_step_wf:
  assumes "connect_step pick (g, leader, l) = Inr (g', leader', l')" and "wf_graph g"
  shows "wf_graph g' \<and> numNodes g' = numNodes g"
proof -
  obtain found where found: "first_connection leader (numNodes g) (joins g) = Inr found"
    using assms(1) by (auto simp: connect_step_def ebind_eq_Inr_iff)
  show ?thesis
  proof (cases found)
    case None
    then show ?thesis using assms found wf_addJoinEdge[OF assms(2)] class_nodes
      by (auto simp: connect_step_def Let_def split: option.splits)
  next
    case (Some a)
    then show ?thesis using assms found by (auto simp: connect_step_def Let_def split: prod.splits)
  qed
qed

lemma connect_loop_wf:
  assumes "connect_loop pick st = Some r"
  shows "wf_graph (fst st) \<longrightarrow> (\<forall>g. r = Inr g \<longrightarrow> wf_graph g)"
proof (rule connect_loop.raw_induct[where P = "\<lambda>pick st r. wf_graph (fst st) \<longrightarrow> (\<forall>g. r = Inr g \<longrightarrow> wf_graph g)", OF _ assms])
  fix loop :: "(nat \<Rightarrow> nat \<Rightarrow> nat) \<Rightarrow> query_graph \<times> (nat \<Rightarrow> nat) \<times> nat \<Rightarrow> query_graph res option" and pick st r
  assume rec: "\<And>pick st r. loop pick st = Some r \<Longrightarrow> wf_graph (fst st) \<longrightarrow> (\<forall>g. r = Inr g \<longrightarrow> wf_graph g)"
    and body: "(if getNumClasses (fst (snd st)) (numNodes (fst st)) > 1 then
       (case connect_step pick st of Inl e \<Rightarrow> Some (Inl e) | Inr st' \<Rightarrow> loop pick st') else Some (Inr (fst st))) = Some r"
  obtain h leader l where st: "st = (h, leader, l)" by (metis surj_pair)
  show "wf_graph (fst st) \<longrightarrow> (\<forall>g. r = Inr g \<longrightarrow> wf_graph g)"
  proof (intro impI allI)
    fix g assume wf: "wf_graph (fst st)" and r: "r = Inr g"
    show "wf_graph g"
    proof (cases "getNumClasses (fst (snd st)) (numNodes (fst st)) > 1")
      case True
      then obtain st' where st': "connect_step pick st = Inr st'" "loop pick st' = Some r"
        using body r by (auto split: sum.splits)
      have "wf_graph (fst st')" using connect_step_wf[of pick h leader l] wf st' st by (cases st') auto
      then show ?thesis using rec[OF st'(2)] r by simp
    qed (use body wf r in auto)
  qed
qed

text \<open>A mark join of two tables, whose pseudo node is connected by the edge of its column.\<close>

definition sample_leaf :: "nat \<Rightarrow> optree" where
  "sample_leaf k = OpTree (sample_relation k) []"

definition sample_mark_query :: optree where
  "sample_mark_query = OpTree (sample_mark_join\<lparr>createdColumns := {5}\<rparr>) [sample_leaf 0, sample_leaf 1]"

definition sample_mark_graph :: query_graph where
  "sample_mark_graph = addCreatingJoin {0} {1} (sample_mark_join\<lparr>createdColumns := {5}\<rparr>)
     (addNode (sample_relation 1) (addNode (sample_relation 0) (new_graph 3)))"

lemmas sample_defs = sample_leaf_def sample_mark_join_def sample_filter_def sample_relation_def

lemma sample_mark_tree: "tree_ok {0, 1} (lower_ids {0, 1} sample_mark_query) sample_mark_query"
  by (simp add: tree_ok_def sample_mark_query_def sample_defs)

lemma sample_mark_populated:
  "\<exists>b. populateQueryGraph {0, 1} sample_mark_query (new_builder {0, 1} sample_mark_query) = Inr b \<and> qg b = sample_mark_graph"
  by (simp add: sample_mark_query_def sample_mark_graph_def sample_defs new_builder_def new_graph_def add_leaf_def
      addNode_def getAvailableColumns_def Let_def isJoin_def add_join_def calcTES_def calcSES_def usedColumns_def
      isBinary_def left_conflicts_def right_conflicts_def addCreatingJoin_def addPseudoNode_def domIff
      numeral_3_eq_3 numeral_2_eq_2)

lemma sample_mark_joins: "numNodes sample_mark_graph = 3 \<and> (\<exists>e1 e2. joins sample_mark_graph = [e1, e2]
    \<and> je_left e1 = {0} \<and> je_right e1 = {1} \<and> je_left e2 = {0, 1} \<and> je_right e2 = {2})"
  by (simp add: sample_mark_graph_def addCreatingJoin_eq append_edge_def addNode_def new_graph_def insert_commute)

lemma sample_connected:
  assumes "numNodes g = 3" "joins g = [e1, e2]" "je_left e1 = {0}" "je_right e1 = {1}" "je_left e2 = {0, 1}" "je_right e2 = {2}"
  shows "ensureConnected (\<lambda>a b. a) g = Some (Inr g)"
proof -
  let ?pick = "\<lambda>a b. a :: nat" and ?l = "\<lambda>v. if v = 1 then 0 else v :: nat"
  let ?k = "union_classes ?pick 0 2 ?l"
  note eval = assms connect_step_def findFirst_def je_connects_def getNodeSetFromClass_def union_classes_def Let_def
  have 1: "connect_step ?pick (g, \<lambda>v. v, 0) = Inr (g, ?l, 0)" by (auto simp: eval fun_eq_iff)
  have 2: "connect_step ?pick (g, ?l, 0) = Inr (g, ?k, 0)" by (auto simp: eval)
  have 3: "getNumClasses (\<lambda>v. v) 3 = 3" "getNumClasses ?l 3 = 2" "getNumClasses ?k 3 = 1"
    by (simp_all add: getNumClasses_def numeral_3_eq_3 atLeast0_lessThan_Suc union_classes_def)
  show ?thesis unfolding ensureConnected_def
    using 1 2 3 by (simp add: connect_loop.simps[of _ "(g, _)"] assms)
qed

lemma sample_mark_generated: "generate_graph {0, 1} (\<lambda>a b. a) sample_mark_query = Some (Inr sample_mark_graph)"
proof -
  obtain b where "populateQueryGraph {0, 1} sample_mark_query (new_builder {0, 1} sample_mark_query) = Inr b"
    "qg b = sample_mark_graph" using sample_mark_populated by blast
  moreover have "ensureConnected (\<lambda>a b. a) sample_mark_graph = Some (Inr sample_mark_graph)"
    using sample_mark_joins sample_connected by blast
  ultimately show ?thesis by (simp add: generate_graph_def)
qed

text \<open>C34: Whatever tree of joins, selections and cross products over optimized operators it is given,
  outer, semi and mark joins with their conflicts included, the graph the builder makes, if it makes
  one, is well-formed: each node knows exactly the edges it lies on, edges only mention nodes that
  exist, every pseudo node belongs to a join, no node is missing. So the solvers can run on it.\<close>
theorem generate_well_formed:
  assumes "tree_ok opt (lower_ids opt t) t" and "generate_graph opt pick t = Some (Inr g)"
  shows "wf_graph g"
proof -
  let ?b = "new_builder opt t"
  obtain b where b: "populateQueryGraph opt t ?b = Inr b" and con: "connect_loop pick (qg b, \<lambda>v. v, 0) = Some (Inr g)"
    using assms(2) by (auto simp: generate_graph_def ensureConnected_def split: sum.splits)
  have start: "builder_ok (lower_ids opt t) ?b"
    using built_ok[of "countCreatingOperators opt t" "qg ?b"] by (simp add: builder_ok_def new_builder_def sets_ok_def)
  have "populates opt (lower_ids opt t) (countCreatingOperators opt t) (leaf_ids opt t) ?b b"
    by (rule populate_ok[OF assms(1) b start]) (simp add: new_builder_def new_graph_def graph_size_def)
  then have "wf_graph (qg b)"
    by (simp add: populates_def builder_ok_def wf_graph_def graph_size_def new_builder_def new_graph_def)
  then show ?thesis using connect_loop_wf[OF con] by simp
qed

lemma generate_well_formed_witness: "wf_graph sample_mark_graph"
  by (rule generate_well_formed[OF sample_mark_tree sample_mark_generated])

end
