(* ===== verification/Plan_Realization.thy ===== *)
theory Plan_Realization
  imports Query_Tree Join_Plan
begin

text \<open>
  From plans to operator trees: \<^verbatim>\<open>Plan::realizePlan\<close> in
  \<^verbatim>\<open>src/lib/RelAlg/Transforms/queryopt/utils.cpp\<close>. A leaf keeps its operands (\<open>operands\<close>, by the
  operator's identity); a selection over two inputs becomes an inner join and an inner join among the
  additional predicates a selection, both with the block of the operator they replace; a plan without
  operator becomes a cross product, whose identity is \<open>fresh\<close>.
\<close>

section \<open>Realizing a plan\<close>

definition cross_product :: "nat \<Rightarrow> operator" where
  "cross_product fresh = \<lparr>op_id = fresh, op_kind = CrossProductOp, availableColumns = {}, createdColumns = {},
     mappedColumns = {}, predicateBlock = None, returned = [], baseTable = None, rowsAttr = None\<rparr>"

definition additional :: "nat \<Rightarrow> operator \<Rightarrow> operator" where
  "additional rows op =
    (let x = (if op_kind op = InnerJoinOp then op\<lparr>op_kind := SelectionOp\<rparr> else op) in x\<lparr>rowsAttr := Some rows\<rparr>)"

definition current_op :: "nat \<Rightarrow> (nat \<Rightarrow> optree list) \<Rightarrow> nat \<Rightarrow> operator option \<Rightarrow> optree list \<Rightarrow> optree res" where
  "current_op fresh operands rows op cs =
    (case (op, cs) of
       (Some x, []) \<Rightarrow> Inr (OpTree x (operands (op_id x)))
     | (Some x, _) \<Rightarrow>
         if op_kind x = SelectionOp \<and> length cs = 2 then Inr (OpTree (x\<lparr>op_kind := InnerJoinOp, rowsAttr := Some rows\<rparr>) cs)
         else if op_kind x = InnerJoinOp \<and> length cs = 1 then Inl Undefined
         else Inr (OpTree (x\<lparr>rowsAttr := Some rows\<rparr>) cs)
     | (None, [l, r]) \<Rightarrow> Inr (OpTree (cross_product fresh) [l, r])
     | (None, [c]) \<Rightarrow> Inr c
     | _ \<Rightarrow> Inl Undefined)"

fun realizePlan :: "nat \<Rightarrow> (nat \<Rightarrow> optree list) \<Rightarrow> plan \<Rightarrow> optree res" where
  "realizePlan fresh operands (Plan op subs ops cost rows descr) =
    ebind (mmap (realizePlan fresh operands) subs) (\<lambda>cs.
      ebind (current_op fresh operands rows op cs) (\<lambda>curr.
        Inr (foldr (\<lambda>a t. OpTree (additional rows a) [t]) ops curr)))"

section \<open>Plans that can be realized\<close>

text \<open>The columns below a plan, and its predicates.\<close>

fun plan_columns :: "plan \<Rightarrow> nat set" where
  "plan_columns (Plan op subs ops cost rows descr) =
    (if subs = [] then (case op of None \<Rightarrow> {} | Some x \<Rightarrow> availableColumns x) else \<Union> (set (map plan_columns subs)))"

fun plan_preds :: "plan \<Rightarrow> operator set" where
  "plan_preds (Plan op subs ops cost rows descr) =
    set ops \<union> (if subs = [] then {} else set_option op \<union> \<Union> (set (map plan_preds subs)))"

text \<open>
  Every predicate of the plan is a selection or inner join, at a place where the columns it uses are
  available; the leaves are operators that are already optimized.
\<close>

definition in_scope :: "nat set \<Rightarrow> nat set \<Rightarrow> operator \<Rightarrow> bool" where
  "in_scope opt C op \<longleftrightarrow> plain_op op \<and> op_id op \<notin> opt \<and> usedColumns op \<subseteq> C"

fun scoped :: "nat set \<Rightarrow> plan \<Rightarrow> bool" where
  "scoped opt (Plan op subs ops cost rows descr) \<longleftrightarrow>
    (\<forall>a\<in>set ops. in_scope opt (plan_columns (Plan op subs ops cost rows descr)) a)
    \<and> (if subs = [] then (case op of None \<Rightarrow> False | Some x \<Rightarrow> op_id x \<in> opt)
       else length subs = 2 \<and> (\<forall>p\<in>set subs. scoped opt p)
         \<and> (\<forall>x\<in>set_option op. in_scope opt (plan_columns (Plan op subs ops cost rows descr)) x))"

definition leaf_tree :: "(nat \<Rightarrow> optree list) \<Rightarrow> plan \<Rightarrow> optree" where
  "leaf_tree operands p = (case plan_op p of None \<Rightarrow> OpTree (cross_product 0) [] | Some x \<Rightarrow> OpTree x (operands (op_id x)))"

lemma usedColumns_rows [simp]: "usedColumns (op\<lparr>rowsAttr := r\<rparr>) = usedColumns op"
  by (simp add: usedColumns_def)

lemma op_holds_rows [simp]: "op_holds f (op\<lparr>rowsAttr := r\<rparr>) = op_holds f op"
  by (rule ext) (simp add: op_holds_def split: option.split list.split)

lemma op_holds_kind_rows [simp]: "op_holds f (op\<lparr>op_kind := k, rowsAttr := r\<rparr>) = op_holds f op"
  by (rule ext) (simp add: op_holds_def split: option.split list.split)

lemma used_kind_rows [simp]: "usedColumns (op\<lparr>op_kind := k, rowsAttr := r\<rparr>) = usedColumns op"
  by (simp add: usedColumns_def)

lemma additional_simps:
  assumes "plain_op op"
  shows "op_kind (additional rows op) = SelectionOp" "op_id (additional rows op) = op_id op"
    "usedColumns (additional rows op) = usedColumns op" "op_holds f (additional rows op) = op_holds f op"
  using assms by (auto simp: additional_def plain_op_def Let_def)

text \<open>The chain of additional predicates over a tree.\<close>

lemma additional_chain:
  assumes "plain_tree opt t" and "\<forall>a\<in>set ops. in_scope opt (leaf_columns (leaves opt t)) a"
  shows "let u = foldr (\<lambda>a t. OpTree (additional rows a) [t]) ops t in
    plain_tree opt u \<and> leaves opt u = leaves opt t
    \<and> (\<forall>x. all_hold f (set (tree_preds opt u)) x \<longleftrightarrow> all_hold f (set ops) x \<and> all_hold f (set (tree_preds opt t)) x)"
  using assms(2)
proof (induction ops)
  case Nil
  then show ?case using assms(1) by (simp add: all_hold_def)
next
  case (Cons a ops)
  then have "plain_op a" "op_id a \<notin> opt" "usedColumns a \<subseteq> leaf_columns (leaves opt t)" by (auto simp: in_scope_def)
  then show ?case using Cons additional_simps[of a] by (auto simp: Let_def all_hold_def plain_op_def)
qed

lemma realizePlan_plain:
  assumes "fresh \<notin> opt"
  shows "scoped opt p \<Longrightarrow> \<exists>t. realizePlan fresh operands p = Inr t \<and> plain_tree opt t
    \<and> leaves opt t = map (leaf_tree operands) (plan_leaves p) \<and> leaf_columns (leaves opt t) = plan_columns p
    \<and> (\<forall>x. all_hold f (set (tree_preds opt t)) x \<longleftrightarrow> all_hold f (plan_preds p) x)"
proof (induction p)
  case (Plan op subs ops cost rows descr)
  let ?p = "Plan op subs ops cost rows descr"
  have ops: "\<forall>a\<in>set ops. in_scope opt (plan_columns ?p) a" using Plan.prems by simp
  have "\<exists>cs u. mmap (realizePlan fresh operands) subs = Inr cs \<and> current_op fresh operands rows op cs = Inr u
    \<and> plain_tree opt u \<and> leaves opt u = map (leaf_tree operands) (plan_leaves ?p) \<and> leaf_columns (leaves opt u) = plan_columns ?p
    \<and> (\<forall>x. all_hold f (set (tree_preds opt u)) x
        \<longleftrightarrow> all_hold f (if subs = [] then {} else set_option op \<union> \<Union> (set (map plan_preds subs))) x)"
  proof (cases "subs = []")
    case True
    then obtain x where "op = Some x" "op_id x \<in> opt" using Plan.prems by (auto split: option.splits)
    then show ?thesis using True by (simp add: current_op_def leaf_tree_def)
  next
    case False
    then have "length subs = 2" using Plan.prems by simp
    then obtain p q where subs: "subs = [p, q]" by (auto simp: numeral_2_eq_2 length_Suc_conv)
    have pq: "scoped opt p" "scoped opt q" using Plan.prems subs by auto
    obtain t where t: "realizePlan fresh operands p = Inr t" "plain_tree opt t"
      "leaves opt t = map (leaf_tree operands) (plan_leaves p)" "leaf_columns (leaves opt t) = plan_columns p"
      "\<forall>x. all_hold f (set (tree_preds opt t)) x \<longleftrightarrow> all_hold f (plan_preds p) x"
      using Plan.IH[of p] pq(1) subs by auto
    obtain u where u: "realizePlan fresh operands q = Inr u" "plain_tree opt u"
      "leaves opt u = map (leaf_tree operands) (plan_leaves q)" "leaf_columns (leaves opt u) = plan_columns q"
      "\<forall>x. all_hold f (set (tree_preds opt u)) x \<longleftrightarrow> all_hold f (plan_preds q) x"
      using Plan.IH[of q] pq(2) subs by auto
    have run: "mmap (realizePlan fresh operands) subs = Inr [t, u]" using subs t(1) u(1) by simp
    show ?thesis
    proof (cases op)
      case None
      then have "current_op fresh operands rows op [t, u] = Inr (OpTree (cross_product fresh) [t, u])"
        by (simp add: current_op_def)
      moreover have "plain_tree opt (OpTree (cross_product fresh) [t, u])"
        using t(2) u(2) by (simp add: cross_product_def usedColumns_def)
      ultimately show ?thesis using run t u None subs assms
        by (intro exI[of _ "[t, u]"] exI[of _ "OpTree (cross_product fresh) [t, u]"])
          (auto simp: all_hold_def cross_product_def plain_op_def)
    next
      case (Some x)
      then have x: "plain_op x" "op_id x \<notin> opt" "usedColumns x \<subseteq> plan_columns p \<union> plan_columns q"
        using Plan.prems subs by (auto simp: in_scope_def)
      let ?x = "x\<lparr>op_kind := InnerJoinOp, rowsAttr := Some rows\<rparr>"
      have "current_op fresh operands rows op [t, u] = Inr (OpTree ?x [t, u])"
        using x(1) Some by (auto simp: current_op_def plain_op_def)
      moreover have "plain_tree opt (OpTree ?x [t, u])" using t u x by simp
      ultimately show ?thesis using run t u Some subs x(2)
        by (intro exI[of _ "[t, u]"] exI[of _ "OpTree ?x [t, u]"]) (auto simp: all_hold_def plain_op_def)
    qed
  qed
  then obtain cs u where u: "mmap (realizePlan fresh operands) subs = Inr cs" "current_op fresh operands rows op cs = Inr u"
    "plain_tree opt u" "leaves opt u = map (leaf_tree operands) (plan_leaves ?p)" "leaf_columns (leaves opt u) = plan_columns ?p"
    "\<forall>x. all_hold f (set (tree_preds opt u)) x
        \<longleftrightarrow> all_hold f (if subs = [] then {} else set_option op \<union> \<Union> (set (map plan_preds subs))) x" by blast
  have ops': "\<forall>a\<in>set ops. in_scope opt (leaf_columns (leaves opt u)) a" using ops u(5) by simp
  show ?case
    using additional_chain[OF u(3) ops', of rows f] u(1,2,4,5,6)
    by (intro exI[of _ "foldr (\<lambda>a t. OpTree (additional rows a) [t]) ops u"]) (simp add: Let_def all_hold_Un)
qed

end
