(* ===== verification/GOO.thy ===== *)
theory GOO
  imports Join_Plan
begin

text \<open>
  Greedy operator ordering (\<^verbatim>\<open>src/lib/RelAlg/Transforms/queryopt/GOO.cpp\<close>), the algorithm for graphs
  with too many connected subgraphs: the two problems whose join is estimated smallest are joined
  until one problem is left.
\<close>

section \<open>The code\<close>

type_synonym goo_plans = "(nodeset \<times> plan) list"

text \<open>\<^verbatim>\<open>std::numeric_limits<double>::max()\<close>.\<close>

definition dbl_max :: nat where "dbl_max = 0x7FEFFFFFFFFFFFFF"

text \<open>What the two loops over pairs of problems have found: the indices, the problem, its plan.\<close>

type_synonym goo_found = "nat \<times> nat \<times> nodeset \<times> plan"

definition try_pair ::
    "(operator list \<Rightarrow> operator list) \<Rightarrow> query_graph \<Rightarrow> goo_plans \<Rightarrow> nat \<times> nat
     \<Rightarrow> nat \<times> goo_found option \<times> sel_cache \<Rightarrow> nat \<times> goo_found option \<times> sel_cache" where
  "try_pair arrange g available = (\<lambda>(l, r) (best, found, cache).
     let (leftProblem, leftPlan) = available ! l;
         (rightProblem, rightPlan) = available ! r
     in if isConnected g leftProblem rightProblem then
          let (currPlan, s, cache') = joinPlans arrange g leftProblem rightProblem leftPlan rightPlan cache
          in if dless (plan_rows currPlan) best then (plan_rows currPlan, Some (l, r, s, currPlan), cache')
             else (best, found, cache')
        else (best, found, cache))"

definition index_pairs :: "nat \<Rightarrow> (nat \<times> nat) list" where
  "index_pairs n = concat (map (\<lambda>l. map (Pair l) [0..<l]) [0..<n])"

definition best_pair ::
    "(operator list \<Rightarrow> operator list) \<Rightarrow> query_graph \<Rightarrow> goo_plans \<Rightarrow> sel_cache
     \<Rightarrow> nat \<times> goo_found option \<times> sel_cache" where
  "best_pair arrange g available cache =
     fold (try_pair arrange g available) (index_pairs (length available)) (dbl_max, None, cache)"

definition erase :: "nat \<Rightarrow> 'a list \<Rightarrow> 'a list" where
  "erase i xs = take i xs @ drop (Suc i) xs"

definition replace_pair :: "goo_plans \<Rightarrow> goo_found \<Rightarrow> goo_plans" where
  "replace_pair available = (\<lambda>(leftIdx, rightIdx, newProblem, bestPlan).
     let (leftIdx, rightIdx) = (if leftIdx > rightIdx then (rightIdx, leftIdx) else (leftIdx, rightIdx))
     in erase leftIdx (erase rightIdx available) @ [(newProblem, bestPlan)])"

lemma best_pair_found:
  assumes "best_pair arrange g available cache = (best, found, cache')"
  shows "case found of None \<Rightarrow> True | Some (l, r, s, p) \<Rightarrow> r < l \<and> l < length available
    \<and> (\<exists>c c'. joinPlans arrange g (fst (available ! l)) (fst (available ! r)) (snd (available ! l)) (snd (available ! r)) c
          = (p, s, c'))"
proof -
  let ?good = "\<lambda>found. case found of None \<Rightarrow> True | Some (l, r, s, p) \<Rightarrow> r < l \<and> l < length available
    \<and> (\<exists>c c'. joinPlans arrange g (fst (available ! l)) (fst (available ! r)) (snd (available ! l)) (snd (available ! r)) c
          = (p, s, c'))"
  have "?good (fst (snd (fold (try_pair arrange g available) is st)))"
    if "\<forall>(l, r)\<in>set is. r < l \<and> l < length available" "?good (fst (snd st))" for "is" st
    using that
  proof (induction "is" arbitrary: st)
    case (Cons i "is")
    obtain l r b f c where st: "i = (l, r)" "st = (b, f, c)" by (metis surj_pair)
    have "?good (fst (snd (try_pair arrange g available i st)))"
      using Cons.prems unfolding st
      by (auto simp: try_pair_def split: prod.splits)
    then show ?case using Cons by simp
  qed simp
  from this[of "index_pairs (length available)" "(dbl_max, None, cache)"] show ?thesis
    using assms by (auto simp: best_pair_def index_pairs_def)
qed

lemma length_replace_pair:
  "r < l \<Longrightarrow> l < length available \<Longrightarrow> length (replace_pair available (l, r, s, p)) = length available - 1"
  by (simp add: replace_pair_def erase_def)

lemma best_pair_shorter:
  "best_pair arrange g available cache = (best, Some found, cache')
    \<Longrightarrow> length (replace_pair available found) < length available"
  using best_pair_found[of arrange g available cache best "Some found" cache'] length_replace_pair
  by (cases found) fastforce

text \<open>An empty list of nodes makes the last access undefined.\<close>

function greedy_loop ::
    "(operator list \<Rightarrow> operator list) \<Rightarrow> query_graph \<Rightarrow> goo_plans \<Rightarrow> sel_cache \<Rightarrow> plan option res" where
  "greedy_loop arrange g available cache =
    (if length available > 1 then
       case best_pair arrange g available cache of
         (best, None, cache') \<Rightarrow> Inr None
       | (best, Some found, cache') \<Rightarrow> greedy_loop arrange g (replace_pair available found) cache'
     else case available of [] \<Rightarrow> Inl Undefined | (s, p) # _ \<Rightarrow> Inr (Some p))"
  by pat_completeness auto
termination
  by (relation "measure (\<lambda>(_, _, available, _). length available)") (auto dest!: best_pair_shorter[OF sym])

declare greedy_loop.simps [simp del]

definition greedy_solve :: "(operator list \<Rightarrow> operator list) \<Rightarrow> query_graph \<Rightarrow> plan option res" where
  "greedy_solve arrange g =
     greedy_loop arrange g (map (\<lambda>v. (single (qn_id v), createInitialPlan v)) (nodes g)) Map.empty"

section \<open>Every step joins two disjoint problems\<close>

text \<open>The problems of a round: plans for their sets, which are disjoint and hold all relations.\<close>

definition split_ok :: "query_graph \<Rightarrow> goo_plans \<Rightarrow> bool" where
  "split_ok g available \<longleftrightarrow> (\<forall>(s, p)\<in>set available. covers g s p)
     \<and> (\<forall>i j. i < j \<and> j < length available \<longrightarrow> fst (available ! i) \<inter> fst (available ! j) \<inter> {0..<length (nodes g)} = {})
     \<and> {0..<length (nodes g)} \<subseteq> \<Union> (fst ` set available)"

definition plans_apart :: "query_graph \<Rightarrow> nodeset \<times> plan \<Rightarrow> nodeset \<times> plan \<Rightarrow> bool" where
  "plans_apart g x y \<longleftrightarrow> fst x \<inter> fst y \<inter> {0..<length (nodes g)} = {}"

lemma pair_apart_sym: "plans_apart g x y \<Longrightarrow> plans_apart g y x"
  by (auto simp: plans_apart_def)

lemma split_ok_iff: "split_ok g available \<longleftrightarrow> (\<forall>(s, p)\<in>set available. covers g s p)
    \<and> sorted_wrt (plans_apart g) available \<and> {0..<length (nodes g)} \<subseteq> \<Union> (fst ` set available)"
  by (auto simp: split_ok_def sorted_wrt_iff_nth_less plans_apart_def)

text \<open>The list around the two elements that are taken out.\<close>

lemma replace_pair_list:
  "replace_pair (xs @ a # ys @ b # zs) (Suc (length xs + length ys), length xs, s, p) = xs @ ys @ zs @ [(s, p)]"
  by (simp add: replace_pair_def erase_def)

lemma replace_pair_eq:
  assumes "r < l" and "l < length av"
  obtains xs ys zs where "av = xs @ av ! r # ys @ av ! l # zs" and "replace_pair av (l, r, s, p) = xs @ ys @ zs @ [(s, p)]"
proof -
  let ?xs = "take r av" and ?rest = "drop (Suc r) av"
  let ?ys = "take (l - Suc r) ?rest" and ?zs = "drop (Suc l) av"
  have "?rest = ?ys @ av ! l # ?zs"
    using id_take_nth_drop[of "l - Suc r" ?rest] assms by simp
  then have av: "av = ?xs @ av ! r # ?ys @ av ! l # ?zs"
    using id_take_nth_drop[of r av] assms by simp
  have idx: "length ?xs = r" "Suc (r + length ?ys) = l" using assms by auto
  have "replace_pair av (l, r, s, p) = ?xs @ ?ys @ ?zs @ [(s, p)]"
    using replace_pair_list[of ?xs "av ! r" ?ys "av ! l" ?zs s p] by (simp only: av[symmetric] idx)
  then show thesis by (rule that[OF av])
qed

lemma set_replace_pair: "set (replace_pair av (l, r, s, p)) \<subseteq> insert (s, p) (set av)"
  by (auto simp: replace_pair_def erase_def dest: in_set_takeD in_set_dropD)

lemma split_ok_replace:
  assumes g: "wf_graph g" and ok: "split_ok g av" and lr: "r < l" "l < length av"
    and join: "joinPlans arrange g (fst (av ! l)) (fst (av ! r)) (snd (av ! l)) (snd (av ! r)) c = (p, s, c')"
  shows "split_ok g (replace_pair av (l, r, s, p))"
proof -
  obtain xs ys zs where av: "av = xs @ av ! r # ys @ av ! l # zs"
    and new: "replace_pair av (l, r, s, p) = xs @ ys @ zs @ [(s, p)]" by (rule replace_pair_eq[OF lr])
  have mem: "set av = set xs \<union> set ys \<union> set zs \<union> {av ! r, av ! l}" by (subst av) auto
  have sorted: "sorted_wrt (plans_apart g) (xs @ av ! r # ys @ av ! l # zs)" using ok av by (simp add: split_ok_iff)
  have cov: "\<And>x. x \<in> set av \<Longrightarrow> covers g (fst x) (snd x)" using ok by (auto simp: split_ok_iff)
  have "plans_apart g (av ! r) (av ! l)" using sorted by (simp add: sorted_wrt_append)
  then have disj: "fst (av ! l) \<inter> fst (av ! r) \<inter> {0..<length (nodes g)} = {}" by (auto simp: plans_apart_def)
  have gok: "graph_ok g" "length (nodes g) + pseudoNodes g = numNodes g" using g by (auto simp: wf_graph_def)
  note joined = joinPlans_covers[OF gok disj cov cov join]
  have joined: "covers g s p" "s \<inter> {0..<length (nodes g)} = (fst (av ! l) \<union> fst (av ! r)) \<inter> {0..<length (nodes g)}"
    using joined(1,3) mem by auto
  have rest: "plans_apart g x (s, p)" if "x \<in> set xs \<union> set ys \<union> set zs" for x
  proof -
    have "plans_apart g x (av ! l) \<or> plans_apart g (av ! l) x" "plans_apart g x (av ! r) \<or> plans_apart g (av ! r) x"
      using that sorted by (auto simp: sorted_wrt_append)
    then have "plans_apart g x (av ! l)" "plans_apart g x (av ! r)" by (auto simp: plans_apart_def)
    then show ?thesis using joined(2) by (auto simp: plans_apart_def)
  qed
  have "{0..<length (nodes g)} \<subseteq> \<Union> (fst ` set av)" using ok by (simp add: split_ok_iff)
  then have "{0..<length (nodes g)} \<subseteq> \<Union> (fst ` (set xs \<union> set ys \<union> set zs)) \<union> s"
    using joined(2) unfolding mem by auto
  moreover have "sorted_wrt (plans_apart g) (xs @ ys @ zs @ [(s, p)])"
    using sorted rest by (auto simp: sorted_wrt_append)
  ultimately show ?thesis using cov joined(1) unfolding new split_ok_iff mem by auto
qed

lemma split_ok_initial:
  assumes "wf_graph g"
  shows "split_ok g (map (\<lambda>v. (single (qn_id v), createInitialPlan v)) (nodes g))"
proof -
  have ids: "qn_id (nodes g ! i) = i" if "i < length (nodes g)" for i
    using assms that by (simp add: wf_graph_def graph_ok_def node_ok_def)
  have gok: "graph_ok g" using assms by (simp add: wf_graph_def)
  have "\<exists>w\<in>set (nodes g). v = qn_id w" if "v < length (nodes g)" for v
    using ids[OF that] that by (intro bexI[of _ "nodes g ! v"]) auto
  then show ?thesis
    using ids covers_leaf[OF gok] by (auto simp: split_ok_def single_def in_set_conv_nth)
qed

text \<open>Nothing can be joined: every connected pair is estimated at the greatest double or more, or NaN.\<close>

definition stuck :: "(operator list \<Rightarrow> operator list) \<Rightarrow> query_graph \<Rightarrow> goo_plans \<Rightarrow> bool" where
  "stuck arrange g av \<longleftrightarrow> (\<forall>l r. r < l \<and> l < length av \<and> isConnected g (fst (av ! l)) (fst (av ! r)) \<longrightarrow>
     (\<exists>c. \<not> dless (plan_rows (fst (joinPlans arrange g (fst (av ! l)) (fst (av ! r)) (snd (av ! l)) (snd (av ! r)) c))) dbl_max))"

lemma best_pair_stuck:
  assumes "best_pair arrange g av cache = (best, None, cache')"
  shows "stuck arrange g av"
proof -
  let ?row = "\<lambda>l r c. plan_rows (fst (joinPlans arrange g (fst (av ! l)) (fst (av ! r)) (snd (av ! l)) (snd (av ! r)) c))"
  let ?skip = "\<lambda>(l, r). isConnected g (fst (av ! l)) (fst (av ! r)) \<longrightarrow> (\<exists>c. \<not> dless (?row l r c) dbl_max)"
  have keep: "fst (snd (fold (try_pair arrange g av) is (b, Some f, c))) \<noteq> None" for "is" b f c
  proof (induction "is" arbitrary: b f c)
    case (Cons i "is")
    then show ?case by (auto simp: try_pair_def split: prod.splits)
  qed simp
  have "\<forall>i\<in>set is. ?skip i" if "fst (snd (fold (try_pair arrange g av) is (dbl_max, None, c))) = None" for "is" c
    using that
  proof (induction "is" arbitrary: c)
    case (Cons i "is")
    obtain l r where i: "i = (l, r)" by fastforce
    obtain b f c1 where step: "try_pair arrange g av i (dbl_max, None, c) = (b, f, c1)" by (metis surj_pair)
    have f: "f = None" using Cons.prems step keep by (cases f) auto
    then have "b = dbl_max" "?skip i"
      using step unfolding i by (auto simp: try_pair_def intro!: exI[of _ c] split: prod.splits if_splits)
    then show ?case using Cons f step by simp
  qed simp
  from this[of "index_pairs (length av)" cache] have "\<forall>i\<in>set (index_pairs (length av)). ?skip i"
    using assms by (simp add: best_pair_def)
  then show ?thesis by (auto simp: stuck_def index_pairs_def)
qed

lemma greedy_loop_ok:
  "wf_graph g \<Longrightarrow> nodes g \<noteq> [] \<Longrightarrow> split_ok g av \<Longrightarrow> \<exists>q. greedy_loop arrange g av cache = Inr q
    \<and> (\<forall>p. q = Some p \<longrightarrow> (\<exists>s. covers g s p \<and> {0..<length (nodes g)} \<subseteq> s))
    \<and> (q = None \<longrightarrow> (\<exists>av. 1 < length av \<and> split_ok g av \<and> stuck arrange g av))"
proof (induction arrange g av cache rule: greedy_loop.induct)
  case (1 arrange g av cache)
  show ?case
  proof (cases "length av > 1")
    case True
    obtain b f c where best: "best_pair arrange g av cache = (b, f, c)" by (metis surj_pair)
    show ?thesis
    proof (cases f)
      case None
      then have "greedy_loop arrange g av cache = Inr None"
        using True best by (simp add: greedy_loop.simps)
      then show ?thesis using True 1 best_pair_stuck[of arrange g av cache] best None by auto
    next
      case (Some found)
      obtain l r s p where found: "found = (l, r, s, p)" by (metis surj_pair)
      then obtain c1 c2 where lr: "r < l" "l < length av"
        "joinPlans arrange g (fst (av ! l)) (fst (av ! r)) (snd (av ! l)) (snd (av ! r)) c1 = (p, s, c2)"
        using best_pair_found[OF best] Some by auto
      have "split_ok g (replace_pair av found)"
        using split_ok_replace[OF 1(2) 1(4) lr] found by simp
      moreover have "greedy_loop arrange g av cache = greedy_loop arrange g (replace_pair av found) c"
        using True best Some by (subst greedy_loop.simps) simp
      ultimately show ?thesis using 1(1)[OF True best[symmetric] refl Some] 1(2,3) by simp
    qed
  next
    case False
    have "av \<noteq> []"
      using 1(3,4) by (auto simp: split_ok_iff)
    then obtain s p where "av = [(s, p)]" using False by (cases av; cases "tl av") auto
    then show ?thesis using 1(4) by (auto simp: greedy_loop.simps split_ok_iff)
  qed
qed

text \<open>Whatever the solvers keep of a plan, greedy ordering keeps as well.\<close>

context plan_invariant
begin

lemma greedy_loop_keeps:
  "good arrange g \<Longrightarrow> split_ok g av \<Longrightarrow> \<forall>(s, p)\<in>set av. P g s p \<Longrightarrow> greedy_loop arrange g av cache = Inr (Some p)
    \<Longrightarrow> \<exists>s. P g s p \<and> {0..<length (nodes g)} \<subseteq> s"
proof (induction arrange g av cache rule: greedy_loop.induct)
  case (1 arrange g av cache)
  note g = 1(2) and ok = 1(3) and keeps = 1(4) and run = 1(5)
  show ?case
  proof (cases "length av > 1")
    case True
    obtain b f c where best: "best_pair arrange g av cache = (b, f, c)" by (metis surj_pair)
    obtain found where f: "f = Some found"
      using run True best by (cases f) (auto simp: greedy_loop.simps)
    obtain l r s q where found: "found = (l, r, s, q)" by (metis surj_pair)
    then obtain c1 c2 where lr: "r < l" "l < length av"
      and join: "joinPlans arrange g (fst (av ! l)) (fst (av ! r)) (snd (av ! l)) (snd (av ! r)) c1 = (q, s, c2)"
      using best_pair_found[OF best] f by auto
    have rest: "split_ok g (replace_pair av found)"
      using split_ok_replace[OF well_formed[OF g] ok lr join] found by simp
    have in_av: "P g (fst (av ! i)) (snd (av ! i))" if "i < length av" for i
      using keeps nth_mem[OF that] by auto
    have "fst (av ! l) \<inter> fst (av ! r) \<inter> {0..<length (nodes g)} = {}"
      using ok lr by (auto simp: split_ok_def)
    then have "P g s q" using joined[OF g in_av in_av _ join] lr by simp
    moreover have "set (replace_pair av found) \<subseteq> insert (s, q) (set av)"
      unfolding found by (rule set_replace_pair)
    ultimately have "\<forall>(s, p)\<in>set (replace_pair av found). P g s p" using keeps by fastforce
    moreover have "greedy_loop arrange g (replace_pair av found) c = Inr (Some p)"
      using run True best f by (subst (asm) greedy_loop.simps) simp
    ultimately show ?thesis using 1(1)[OF True best[symmetric] refl f g rest] by simp
  next
    case False
    obtain s where "av = [(s, p)]"
      using run False by (cases av; cases "tl av") (auto simp: greedy_loop.simps)
    then show ?thesis using ok keeps by (auto simp: split_ok_iff)
  qed
qed

lemma greedy_solve_keeps:
  assumes g: "good arrange g" and run: "greedy_solve arrange g = Inr (Some p)"
  shows "\<exists>s. P g s p \<and> {0..<length (nodes g)} \<subseteq> s"
proof (rule greedy_loop_keeps[OF g _ _ run[unfolded greedy_solve_def]])
  have "qn_id v = i" if "i < length (nodes g)" "nodes g ! i = v" for i v using good_ids[OF g] that by blast
  then show "\<forall>(s, p)\<in>set (map (\<lambda>v. (single (qn_id v), createInitialPlan v)) (nodes g)). P g s p"
    using initial[OF g] by (fastforce simp: single_def in_set_conv_nth)
  show "split_ok g (map (\<lambda>v. (single (qn_id v), createInitialPlan v)) (nodes g))"
    by (rule split_ok_initial[OF well_formed[OF g]])
qed

end



end
