(* ===== verification/Join_Predicates.thy ===== *)
theory Join_Predicates
  imports Plan_Realization DPHyp GOO
begin

text \<open>
  Which predicates a plan evaluates. On graphs of inner joins and selections the plans of both solvers
  evaluate every predicate of their problem, except equalities that follow from equalities the plan
  evaluates: the equivalence classes of \<^verbatim>\<open>Plan::joinPlans\<close> never drop one that does not. And they
  evaluate a predicate only where the columns it uses are available.
\<close>

section \<open>Graphs of selections and inner joins\<close>

text \<open>
  Predicates over two relations are edges between two nodes, the others lie on a node or on a
  selection edge over several; the remaining edges are forced cross products.
\<close>

definition plain_edge :: "nat set \<Rightarrow> query_graph \<Rightarrow> join_edge \<Rightarrow> bool" where
  "plain_edge opt g e \<longleftrightarrow> createdNode e = None \<and> (case je_op e of
     None \<Rightarrow> equality e = None
   | Some op \<Rightarrow> equality e = analyzePredicate op \<and> (\<exists>a b. a \<noteq> b \<and> je_left e = {a} \<and> je_right e = {b})
       \<and> in_scope opt (getAttributesForNodeSet g (je_left e \<union> je_right e)) op)"

definition plain_selection :: "nat set \<Rightarrow> query_graph \<Rightarrow> selection_edge \<Rightarrow> bool" where
  "plain_selection opt g e \<longleftrightarrow> required e \<noteq> {} \<and> card (required e) \<noteq> 1
     \<and> in_scope opt (getAttributesForNodeSet g (required e)) (se_op e)"

definition plain_node :: "nat set \<Rightarrow> operator \<times> operator list \<Rightarrow> bool" where
  "plain_node opt = (\<lambda>(op, preds). op_id op \<in> opt \<and> (\<forall>a\<in>set preds. in_scope opt (availableColumns op) a))"

text \<open>What a node keeps when edges are entered.\<close>

definition node_core :: "qnode \<Rightarrow> operator \<times> operator list" where
  "node_core n = (qn_op n, additionalPredicates n)"

definition plain_parts :: "nat set \<Rightarrow> query_graph \<Rightarrow> bool" where
  "plain_parts opt g \<longleftrightarrow> (\<forall>e\<in>set (joins g). plain_edge opt g e) \<and> (\<forall>e\<in>set (selections g). plain_selection opt g e)
     \<and> (\<forall>n\<in>set (map node_core (nodes g)). plain_node opt n)"

definition plain_graph :: "nat set \<Rightarrow> query_graph \<Rightarrow> bool" where
  "plain_graph opt g \<longleftrightarrow> wf_graph g \<and> pseudoNodes g = 0 \<and> plain_parts opt g"

lemma plain_graph_edge: "plain_graph opt g \<Longrightarrow> e \<in> set (joins g) \<Longrightarrow> plain_edge opt g e"
  by (simp add: plain_graph_def plain_parts_def)

lemma plain_graph_selection:
  assumes "plain_graph opt g" and "e \<in> set (selections g)"
  shows "required e \<noteq> {}" and "card (required e) \<noteq> 1"
    and "in_scope opt (getAttributesForNodeSet g (required e)) (se_op e)"
  using assms by (auto simp: plain_graph_def plain_parts_def plain_selection_def)

lemma plain_graph_node:
  assumes "plain_graph opt g" and "v < length (nodes g)"
  shows "op_id (qn_op (nodes g ! v)) \<in> opt"
    and "\<forall>a\<in>set (additionalPredicates (nodes g ! v)). in_scope opt (availableColumns (qn_op (nodes g ! v))) a"
proof -
  have "plain_node opt (node_core (nodes g ! v))" using assms by (simp add: plain_graph_def plain_parts_def)
  then show "op_id (qn_op (nodes g ! v)) \<in> opt"
    and "\<forall>a\<in>set (additionalPredicates (nodes g ! v)). in_scope opt (availableColumns (qn_op (nodes g ! v))) a"
    by (simp_all add: plain_node_def node_core_def)
qed

lemma inner_edge:
  assumes "plain_graph opt g" and "e \<in> set (joins g)"
  shows "je_op e = None \<Longrightarrow> equality e = None" and "je_op e = Some op \<Longrightarrow> plain_op op"
    and "createdNode e = None"
  using plain_graph_edge[OF assms] by (auto simp: plain_edge_def in_scope_def)

lemma pred_edge:
  assumes "plain_graph opt g" and "e \<in> set (joins g)" and "je_op e = Some op"
  obtains a b where "a \<noteq> b" and "je_left e = {a}" and "je_right e = {b}" and "equality e = analyzePredicate op"
    and "in_scope opt (getAttributesForNodeSet g {a, b}) op"
proof -
  note plain_graph_edge[OF assms(1,2)]
  then obtain a b where "a \<noteq> b" "je_left e = {a}" "je_right e = {b}" "equality e = analyzePredicate op"
    "in_scope opt (getAttributesForNodeSet g (je_left e \<union> je_right e)) op"
    using assms(3) by (auto simp: plain_edge_def)
  then show thesis using that[of a b] by (simp add: insert_commute)
qed

text \<open>The equalities a set of operators establishes.\<close>

definition equalities :: "query_graph \<Rightarrow> operator set \<Rightarrow> (nat \<times> nat) set" where
  "equalities g ops = {(x, y). \<exists>e\<in>set (joins g). \<exists>op\<in>ops. je_op e = Some op \<and> equality e = Some (x, y)}"

definition same_column :: "query_graph \<Rightarrow> operator set \<Rightarrow> (nat \<times> nat) set" where
  "same_column g ops = (equalities g ops \<union> (equalities g ops)\<inverse>)\<^sup>*"

text \<open>The predicate of an edge is evaluated, or follows from those that are.\<close>

definition enforced :: "query_graph \<Rightarrow> operator set \<Rightarrow> join_edge \<Rightarrow> bool" where
  "enforced g ops e \<longleftrightarrow> (case je_op e of
     None \<Rightarrow> True
   | Some op \<Rightarrow> op \<in> ops \<or> (\<exists>x y. equality e = Some (x, y) \<and> (x, y) \<in> same_column g ops))"

lemma same_column_equiv:
  "(x, x) \<in> same_column g ops"
  "(x, y) \<in> same_column g ops \<Longrightarrow> (y, x) \<in> same_column g ops"
  "(x, y) \<in> same_column g ops \<Longrightarrow> (y, z) \<in> same_column g ops \<Longrightarrow> (x, z) \<in> same_column g ops"
proof -
  have "sym (same_column g ops)" unfolding same_column_def by (intro sym_rtrancl sym_Un_converse)
  then show "(x, y) \<in> same_column g ops \<Longrightarrow> (y, x) \<in> same_column g ops" by (rule symD)
qed (auto simp: same_column_def)

lemma same_column_mono: "ops \<subseteq> ops' \<Longrightarrow> same_column g ops \<subseteq> same_column g ops'"
  unfolding same_column_def by (intro rtrancl_mono) (auto simp: equalities_def)

lemma enforced_mono:
  assumes "enforced g ops e" and "ops \<subseteq> ops'"
  shows "enforced g ops' e"
proof (cases "je_op e")
  case (Some op)
  then have "op \<in> ops \<or> (\<exists>x y. equality e = Some (x, y) \<and> (x, y) \<in> same_column g ops)"
    using assms(1) by (simp add: enforced_def)
  then have "op \<in> ops' \<or> (\<exists>x y. equality e = Some (x, y) \<and> (x, y) \<in> same_column g ops')"
    using assms(2) same_column_mono[OF assms(2)] by blast
  then show ?thesis using Some by (simp add: enforced_def)
qed (simp add: enforced_def)

lemma same_column_edge:
  "e \<in> set (joins g) \<Longrightarrow> je_op e = Some op \<Longrightarrow> op \<in> ops \<Longrightarrow> equality e = Some (x, y) \<Longrightarrow> (x, y) \<in> same_column g ops"
  unfolding same_column_def equalities_def by blast

section \<open>The equivalence classes are sound\<close>

definition classes_ok :: "query_graph \<Rightarrow> operator set \<Rightarrow> nat set list \<Rightarrow> bool" where
  "classes_ok g ops cs \<longleftrightarrow> (\<forall>c\<in>set cs. \<forall>x\<in>c. \<forall>y\<in>c. (x, y) \<in> same_column g ops)"

lemma classes_ok_mono: "classes_ok g ops cs \<Longrightarrow> ops \<subseteq> ops' \<Longrightarrow> classes_ok g ops' cs"
  using same_column_mono[of ops ops' g] unfolding classes_ok_def by blast

lemma classes_ok_union:
  assumes "classes_ok g ops cs" and "(x, y) \<in> same_column g ops"
  shows "classes_ok g ops (unionSets x y cs)"
proof -
  let ?c = "{x, y} \<union> \<Union> (set (filter (\<lambda>c. x \<in> c \<or> y \<in> c) cs))"
  have from_x: "(x, u) \<in> same_column g ops" if "u \<in> ?c" for u
  proof -
    consider "u = x" | "u = y" | c where "c \<in> set cs" "u \<in> c" "x \<in> c" | c where "c \<in> set cs" "u \<in> c" "y \<in> c"
      using \<open>u \<in> ?c\<close> by auto
    then show ?thesis
    proof cases
      case 4
      then have "(y, u) \<in> same_column g ops" using assms(1) by (simp add: classes_ok_def)
      then show ?thesis by (rule same_column_equiv(3)[OF assms(2)])
    qed (use assms same_column_equiv(1) in \<open>auto simp: classes_ok_def\<close>)
  qed
  have "(u, v) \<in> same_column g ops" if "u \<in> ?c" "v \<in> ?c" for u v
    by (rule same_column_equiv(3)[OF same_column_equiv(2)[OF from_x[OF that(1)]] from_x[OF that(2)]])
  then show ?thesis using assms(1) by (auto simp: classes_ok_def unionSets_def Let_def)
qed

lemma isEquivalent_sound: "classes_ok g ops cs \<Longrightarrow> isEquivalent cs x y \<Longrightarrow> (x, y) \<in> same_column g ops"
  using same_column_equiv(1) by (auto simp: classes_ok_def isEquivalent_def)

text \<open>The loop over the edges, with what is below the join in \<open>ops0\<close>.\<close>

definition edges_ok :: "query_graph \<Rightarrow> nodeset \<Rightarrow> nodeset \<Rightarrow> operator set \<Rightarrow> join_edge list \<Rightarrow> join_state \<Rightarrow> bool" where
  "edges_ok g s1 s2 ops0 es js \<longleftrightarrow> js_s1 js = s1 \<and> js_s2 js = s2 \<and> specialJoin js = None
     \<and> classes_ok g (ops0 \<union> set (predicates js)) (equivalentColumns js)
     \<and> (\<forall>e\<in>set es. je_connects e s1 s2 \<longrightarrow> enforced g (ops0 \<union> set (predicates js)) e)"

lemma edges_ok_step:
  assumes g: "plain_graph opt g" and e: "e \<in> set (joins g)" and ok: "edges_ok g s1 s2 ops0 es js"
  shows "edges_ok g s1 s2 ops0 (es @ [e]) (apply_edge e js)
    \<and> js_p1 (apply_edge e js) = js_p1 js \<and> js_p2 (apply_edge e js) = js_p2 js"
proof (cases "je_connects e s1 s2")
  case False
  then show ?thesis using ok by (simp add: apply_edge_def edges_ok_def)
next
  case True
  note created = inner_edge(3)[OF g e]
  let ?ops = "ops0 \<union> set (predicates js)"
  have old: "classes_ok g ?ops (equivalentColumns js)" "\<And>e. e \<in> set es \<Longrightarrow> je_connects e s1 s2 \<Longrightarrow> enforced g ?ops e"
    using ok by (auto simp: edges_ok_def)
  have here: "js_s1 js = s1" "js_s2 js = s2" "specialJoin js = None" using ok by (auto simp: edges_ok_def)
  show ?thesis
  proof (cases "je_op e")
    case None
    then have "equality e = None" by (rule inner_edge(1)[OF g e])
    then show ?thesis using None True created ok
      by (auto simp: apply_edge_def use_operator_def edges_ok_def enforced_def)
  next
    case (Some op)
    then have plain: "op_kind op = SelectionOp \<or> op_kind op = InnerJoinOp"
      using inner_edge(2)[OF g e] by (simp add: plain_op_def)
    show ?thesis
    proof (cases "case equality e of Some (x, y) \<Rightarrow> isEquivalent (equivalentColumns js) x y | None \<Rightarrow> False")
      case skip: True
      then obtain x y where xy: "equality e = Some (x, y)" "isEquivalent (equivalentColumns js) x y"
        by (auto split: option.splits)
      have same: "(x, y) \<in> same_column g ?ops" by (rule isEquivalent_sound[OF old(1) xy(2)])
      have "apply_edge e js = js\<lparr>equivalentColumns := unionSets x y (equivalentColumns js)\<rparr>"
        using True here plain skip xy Some created by (auto simp: apply_edge_def use_operator_def Let_def)
      then show ?thesis
        using ok same xy(1) Some classes_ok_union[OF old(1) same] by (auto simp: edges_ok_def enforced_def)
    next
      case use: False
      let ?preds = "insert_pred op (predicates js)"
      let ?ops' = "ops0 \<union> set ?preds"
      have ops: "?ops \<subseteq> ?ops'" "op \<in> ?ops'" by (auto simp: insert_pred_def)
      have js: "apply_edge e js = js\<lparr>totalSelectivity := dmul (totalSelectivity js) (je_selectivity e), predicates := ?preds,
          equivalentColumns := (case equality e of Some (x, y) \<Rightarrow> unionSets x y (equivalentColumns js)
             | None \<Rightarrow> equivalentColumns js)\<rparr>"
        using True here plain use Some created
        by (auto simp: apply_edge_def use_operator_def Let_def split: option.split)
      have "classes_ok g ?ops' (case equality e of Some (x, y) \<Rightarrow> unionSets x y (equivalentColumns js)
             | None \<Rightarrow> equivalentColumns js)"
        using classes_ok_mono[OF old(1) ops(1)] classes_ok_union same_column_edge[OF e Some ops(2)]
        by (auto split: option.split)
      moreover have "enforced g ?ops' e" using Some ops(2) by (simp add: enforced_def)
      moreover have "enforced g ?ops' f" if "f \<in> set es" "je_connects f s1 s2" for f
        using enforced_mono[OF old(2)[OF that] ops(1)] .
      ultimately show ?thesis using here unfolding js by (auto simp: edges_ok_def)
    qed
  qed
qed

lemma edges_ok_fold:
  assumes "plain_graph opt g" and "set fs \<subseteq> set (joins g)" and "edges_ok g s1 s2 ops0 es js"
  shows "edges_ok g s1 s2 ops0 (es @ fs) (fold apply_edge fs js)
    \<and> js_p1 (fold apply_edge fs js) = js_p1 js \<and> js_p2 (fold apply_edge fs js) = js_p2 js"
  using assms(2,3)
proof (induction fs arbitrary: es js)
  case (Cons f fs)
  have step: "edges_ok g s1 s2 ops0 (es @ [f]) (apply_edge f js)"
    "js_p1 (apply_edge f js) = js_p1 js" "js_p2 (apply_edge f js) = js_p2 js"
    using edges_ok_step[OF assms(1) _ Cons.prems(2), of f] Cons.prems(1) by auto
  then show ?case using Cons.IH[OF _ step(1)] Cons.prems(1) by simp
qed simp

text \<open>The order in which the set of predicates is iterated keeps its elements.\<close>

definition iterates :: "(operator list \<Rightarrow> operator list) \<Rightarrow> bool" where
  "iterates arrange \<longleftrightarrow> (\<forall>ops. set (arrange ops) = set ops)"

section \<open>The predicates of a join\<close>

text \<open>The predicates of connecting edges, inside the problem that is built.\<close>

definition edge_preds :: "query_graph \<Rightarrow> nodeset \<Rightarrow> nodeset \<Rightarrow> operator set" where
  "edge_preds g s1 s2 = {op. \<exists>e\<in>set (joins g). je_op e = Some op \<and> je_connects e s1 s2}"

lemma apply_edge_preds:
  assumes "js_s1 js = s1" and "js_s2 js = s2" and "plain_graph opt g" and "e \<in> set (joins g)"
  shows "set (predicates (apply_edge e js)) \<subseteq> set (predicates js) \<union> edge_preds g s1 s2
    \<and> js_s1 (apply_edge e js) = s1 \<and> js_s2 (apply_edge e js) = s2 \<and> js_s (apply_edge e js) = js_s js"
proof (cases "je_connects e s1 s2")
  case True
  note created = inner_edge(3)[OF assms(3,4)] and plain = inner_edge(2)[OF assms(3,4)]
  show ?thesis
  proof (cases "je_op e")
    case None
    then show ?thesis using True assms(1,2) created
      by (auto simp: apply_edge_def use_operator_def Let_def split: option.split)
  next
    case (Some op)
    then have "op \<in> edge_preds g s1 s2" using True assms(4) by (auto simp: edge_preds_def)
    then show ?thesis using True Some assms(1,2) created plain[OF Some]
      by (auto simp: apply_edge_def use_operator_def insert_pred_def plain_op_def Let_def split: option.split)
  qed
qed (use assms(1,2) in \<open>simp add: apply_edge_def\<close>)

lemma fold_edge_preds:
  assumes "plain_graph opt g" and "set es \<subseteq> set (joins g)" and "js_s1 js = s1" and "js_s2 js = s2"
  shows "set (predicates (fold apply_edge es js)) \<subseteq> set (predicates js) \<union> edge_preds g s1 s2
    \<and> js_s (fold apply_edge es js) = js_s js"
  using assms(2-4)
proof (induction es arbitrary: js)
  case (Cons e es)
  have step: "set (predicates (apply_edge e js)) \<subseteq> set (predicates js) \<union> edge_preds g s1 s2"
    "js_s1 (apply_edge e js) = s1" "js_s2 (apply_edge e js) = s2" "js_s (apply_edge e js) = js_s js"
    using apply_edge_preds[OF Cons.prems(2,3) assms(1), of e] Cons.prems(1) by auto
  have "set es \<subseteq> set (joins g)" using Cons.prems(1) by simp
  from Cons.IH[OF this step(2,3)] show ?case using step(1,4) by auto
qed simp

text \<open>Selection edges only add their predicates.\<close>

lemma apply_selection_eq:
  "fst (apply_selection g e (js, c)) = js\<lparr>totalSelectivity := totalSelectivity (fst (apply_selection g e (js, c))),
     predicates := (if se_connects2 e (js_s js) (js_s1 js) (js_s2 js) then insert_pred (se_op e) (predicates js)
       else predicates js)\<rparr>"
  by (auto simp: apply_selection_def split: prod.split)

lemma fold_selections:
  "\<exists>sel ps. fst (fold (apply_selection g) es (js, c)) = js\<lparr>totalSelectivity := sel, predicates := ps\<rparr>
    \<and> set ps = set (predicates js) \<union> {se_op e | e. e \<in> set es \<and> se_connects2 e (js_s js) (js_s1 js) (js_s2 js)}"
proof (induction es arbitrary: js c)
  case Nil
  show ?case by (intro exI[of _ "totalSelectivity js"] exI[of _ "predicates js"]) simp
next
  case (Cons e es)
  obtain js1 c1 where step: "apply_selection g e (js, c) = (js1, c1)" by fastforce
  let ?ps = "if se_connects2 e (js_s js) (js_s1 js) (js_s2 js) then insert_pred (se_op e) (predicates js) else predicates js"
  have js1: "js1 = js\<lparr>totalSelectivity := totalSelectivity js1, predicates := ?ps\<rparr>"
    using apply_selection_eq[of g e js c] step by simp
  have same: "js_s js1 = js_s js" "js_s1 js1 = js_s1 js" "js_s2 js1 = js_s2 js" "predicates js1 = ?ps"
    by (subst js1, simp)+
  obtain sel ps where rest: "fst (fold (apply_selection g) es (js1, c1)) = js1\<lparr>totalSelectivity := sel, predicates := ps\<rparr>"
    "set ps = set (predicates js1) \<union> {se_op e | e. e \<in> set es \<and> se_connects2 e (js_s js1) (js_s1 js1) (js_s2 js1)}"
    using Cons.IH by blast
  have "js1\<lparr>totalSelectivity := sel, predicates := ps\<rparr> = js\<lparr>totalSelectivity := sel, predicates := ps\<rparr>"
    by (subst js1) simp
  moreover have "set ps = set (predicates js)
      \<union> {se_op e' | e'. e' \<in> set (e # es) \<and> se_connects2 e' (js_s js) (js_s1 js) (js_s2 js)}"
    unfolding rest(2) same by (auto simp: insert_pred_def)
  ultimately show ?case using rest(1) step by auto
qed

lemma finish_join_parts:
  assumes "iterates arrange" and "specialJoin js = None"
  shows "plan_preds (finish_join arrange js) = plan_preds (js_p1 js) \<union> plan_preds (js_p2 js) \<union> set (predicates js)"
    and "plan_columns (finish_join arrange js) = plan_columns (js_p1 js) \<union> plan_columns (js_p2 js)"
    and "scoped opt (js_p1 js) \<Longrightarrow> scoped opt (js_p2 js)
      \<Longrightarrow> \<forall>op\<in>set (predicates js). in_scope opt (plan_columns (js_p1 js) \<union> plan_columns (js_p2 js)) op
      \<Longrightarrow> scoped opt (finish_join arrange js)"
proof -
  let ?ops = "arrange (predicates js)"
  have ops: "set ?ops = set (predicates js)" using assms(1) by (simp add: iterates_def)
  have used: "insert (hd ?ops) (set (tl ?ops)) = set (predicates js)" if "predicates js \<noteq> []"
  proof -
    have "?ops \<noteq> []" using that ops by auto
    then show ?thesis using ops by (metis list.collapse list.simps(15))
  qed
  show "plan_preds (finish_join arrange js) = plan_preds (js_p1 js) \<union> plan_preds (js_p2 js) \<union> set (predicates js)"
    using used assms(2) by (cases "predicates js = []") (auto simp: finish_join_def mk_plan_def Let_def)
  show "plan_columns (finish_join arrange js) = plan_columns (js_p1 js) \<union> plan_columns (js_p2 js)"
    using assms(2) by (auto simp: finish_join_def mk_plan_def Let_def)
  assume sc: "scoped opt (js_p1 js)" "scoped opt (js_p2 js)"
    and fit: "\<forall>op\<in>set (predicates js). in_scope opt (plan_columns (js_p1 js) \<union> plan_columns (js_p2 js)) op"
  show "scoped opt (finish_join arrange js)"
  proof (cases "predicates js = []")
    case True
    then show ?thesis using sc assms(2) by (simp add: finish_join_def mk_plan_def Let_def)
  next
    case False
    then have "in_scope opt (plan_columns (js_p1 js) \<union> plan_columns (js_p2 js)) (hd ?ops)"
      "\<forall>op\<in>set (tl ?ops). in_scope opt (plan_columns (js_p1 js) \<union> plan_columns (js_p2 js)) op"
      using fit used by (metis insertI1, metis insertI2)
    then show ?thesis using sc False assms(2)
      by (auto simp: finish_join_def mk_plan_def Let_def Un_commute)
  qed
qed

section \<open>No predicate gets lost\<close>

lemma attributes_eq:
  "finite s \<Longrightarrow> getAttributesForNodeSet g s = (\<Union>v\<in>s \<inter> {0..<length (nodes g)}. availableColumns (qn_op (nodes g ! v)))"
  using set_nodes_eq[of s g] by (auto simp: getAttributesForNodeSet_def)

lemma attributes_Un:
  "finite s \<Longrightarrow> finite t \<Longrightarrow> getAttributesForNodeSet g (s \<union> t) = getAttributesForNodeSet g s \<union> getAttributesForNodeSet g t"
  by (auto simp: attributes_eq)

lemma attributes_mono:
  "finite t \<Longrightarrow> s \<subseteq> t \<Longrightarrow> getAttributesForNodeSet g s \<subseteq> getAttributesForNodeSet g t"
  by (auto simp: attributes_eq finite_subset)

lemma in_scope_mono: "in_scope opt C op \<Longrightarrow> C \<subseteq> D \<Longrightarrow> in_scope opt D op"
  by (auto simp: in_scope_def)

text \<open>The predicates of a graph, and what a plan for a problem evaluates of them.\<close>

definition graph_preds :: "query_graph \<Rightarrow> operator set" where
  "graph_preds g = {op. \<exists>e\<in>set (joins g). je_op e = Some op} \<union> se_op ` set (selections g)
     \<union> (\<Union>n\<in>set (nodes g). set (additionalPredicates n))"

definition evaluates :: "nat set \<Rightarrow> query_graph \<Rightarrow> nodeset \<Rightarrow> plan \<Rightarrow> bool" where
  "evaluates opt g s p \<longleftrightarrow> covers g s p \<and> scoped opt p \<and> plan_columns p = getAttributesForNodeSet g s
     \<and> plan_preds p \<subseteq> graph_preds g
     \<and> (\<forall>e\<in>set (joins g). je_left e \<union> je_right e \<subseteq> s \<longrightarrow> enforced g (plan_preds p) e)
     \<and> (\<forall>e\<in>set (selections g). required e \<subseteq> s \<longrightarrow> se_op e \<in> plan_preds p)
     \<and> (\<forall>v\<in>s. v < length (nodes g) \<longrightarrow> set (additionalPredicates (nodes g ! v)) \<subseteq> plan_preds p)"

lemma evaluates_leaf:
  assumes g: "plain_graph opt g" and v: "v < length (nodes g)"
  shows "evaluates opt g {v} (createInitialPlan (nodes g ! v))"
proof -
  let ?n = "nodes g ! v"
  have leaf: "createInitialPlan ?n = Plan (Some (qn_op ?n)) [] (additionalPredicates ?n) (dmul (qn_rows ?n) (qn_selectivity ?n))
      (dmul (qn_rows ?n) (qn_selectivity ?n)) (description (createInitialPlan ?n))"
    by (simp add: createInitialPlan_def mk_plan_def)
  have "covers g {v} (createInitialPlan ?n)" using g v by (simp add: plain_graph_def wf_graph_def covers_leaf)
  moreover have "scoped opt (createInitialPlan ?n)" using plain_graph_node[OF g v] by (subst leaf) simp
  moreover have "plan_columns (createInitialPlan ?n) = getAttributesForNodeSet g {v}"
    using v by (subst leaf) (simp add: attributes_eq)
  moreover have preds: "plan_preds (createInitialPlan ?n) = set (additionalPredicates ?n)" by (subst leaf) simp
  moreover have "set (additionalPredicates ?n) \<subseteq> graph_preds g" using v by (auto simp: graph_preds_def)
  moreover have "enforced g P e" if "e \<in> set (joins g)" "je_left e \<union> je_right e \<subseteq> {v}" for P e
  proof (cases "je_op e")
    case (Some op)
    show ?thesis by (rule pred_edge[OF g that(1) Some]) (use that(2) in auto)
  qed (simp add: enforced_def)
  moreover have "\<not> required e \<subseteq> {v}" if "e \<in> set (selections g)" for e
    using plain_graph_selection(1,2)[OF g that] by (auto simp: subset_singleton_iff)
  ultimately show ?thesis unfolding evaluates_def preds by auto
qed

lemma start_classes_ok:
  assumes g: "plain_graph opt g" and p1: "evaluates opt g s1 p1" and p2: "evaluates opt g s2 p2"
  shows "set es \<subseteq> set (joins g) \<Longrightarrow> classes_ok g (plan_preds p1 \<union> plan_preds p2) cs
    \<Longrightarrow> classes_ok g (plan_preds p1 \<union> plan_preds p2) (fold (equal_columns s1 s2) es cs)"
proof (induction es arbitrary: cs)
  case (Cons e es)
  let ?ops = "plan_preds p1 \<union> plan_preds p2"
  have e: "e \<in> set (joins g)" using Cons.prems(1) by simp
  have "classes_ok g ?ops (equal_columns s1 s2 e cs)"
  proof (cases "equality e")
    case (Some xy)
    obtain x y where xy: "xy = (x, y)" by fastforce
    obtain op where op: "je_op e = Some op" using inner_edge(1)[OF g e] Some by (cases "je_op e") auto
    obtain a b where ab: "je_left e = {a}" "je_right e = {b}" by (rule pred_edge[OF g e op])
    show ?thesis
    proof (cases "\<not> je_connects e s1 s2 \<and> je_left e \<subseteq> s1 \<union> s2 \<and> je_right e \<subseteq> s1 \<union> s2")
      case inside: True
      then have "{a, b} \<subseteq> s1 \<or> {a, b} \<subseteq> s2" using ab by (auto simp: je_connects_def split: if_splits)
      then have "enforced g (plan_preds p1) e \<or> enforced g (plan_preds p2) e"
        using p1 p2 e ab by (auto simp: evaluates_def)
      then have enf: "enforced g ?ops e" by (elim disjE) (auto elim: enforced_mono)
      have "(x, y) \<in> same_column g ?ops"
        using enf op Some xy same_column_edge[OF e op] by (auto simp: enforced_def)
      then show ?thesis using classes_ok_union[OF Cons.prems(2)] Some xy inside by (simp add: equal_columns_def)
    qed (use Cons.prems(2) Some xy in \<open>auto simp: equal_columns_def\<close>)
  qed (use Cons.prems(2) in \<open>simp add: equal_columns_def\<close>)
  then show ?case using Cons.IH Cons.prems(1) by simp
qed simp

lemma edge_preds_fit:
  assumes "plain_graph opt g" and "finite s1" and "finite s2" and "op \<in> edge_preds g s1 s2"
  shows "in_scope opt (getAttributesForNodeSet g (s1 \<union> s2)) op"
proof -
  obtain e where e: "e \<in> set (joins g)" "je_op e = Some op" "je_connects e s1 s2"
    using assms(4) by (auto simp: edge_preds_def)
  have "in_scope opt (getAttributesForNodeSet g (je_left e \<union> je_right e)) op"
    by (rule pred_edge[OF assms(1) e(1,2)]) (simp add: insert_commute)
  moreover have "je_left e \<union> je_right e \<subseteq> s1 \<union> s2" using e(3) by (auto simp: je_connects_def split: if_splits)
  ultimately show ?thesis using attributes_mono in_scope_mono assms(2,3) by (metis finite_UnI)
qed

lemma evaluates_join:
  assumes g: "plain_graph opt g" and arr: "iterates arrange"
    and p1: "evaluates opt g s1 p1" and p2: "evaluates opt g s2 p2"
    and disj: "s1 \<inter> s2 \<inter> {0..<length (nodes g)} = {}" and join: "joinPlans arrange g s1 s2 p1 p2 c = (p, s, c')"
  shows "evaluates opt g s p"
proof -
  let ?ops0 = "plan_preds p1 \<union> plan_preds p2" and ?start = "start_join g s1 s2 p1 p2"
  let ?js = "fold apply_edge (joins g) ?start"
  have fin: "finite s1" "finite s2" using p1 p2 by (auto simp: evaluates_def covers_def)
  have "classes_ok g ?ops0 (equivalentColumns ?start)"
    unfolding start_join_def using start_classes_ok[OF g p1 p2, of "joins g" "[]"] by (simp add: classes_ok_def)
  then have "edges_ok g s1 s2 ?ops0 [] ?start" by (simp add: edges_ok_def start_join_def)
  from edges_ok_fold[OF g subset_refl this]
  have ok: "edges_ok g s1 s2 ?ops0 (joins g) ?js" and ps: "js_p1 ?js = p1" "js_p2 ?js = p2"
    by (auto simp: start_join_def)
  have here: "js_s1 ?js = s1" "js_s2 ?js = s2" "specialJoin ?js = None" using ok by (auto simp: edges_ok_def)
  have edges: "set (predicates ?js) \<subseteq> edge_preds g s1 s2" "js_s ?js = s1 \<union> s2"
    using fold_edge_preds[OF g subset_refl, of ?start s1 s2] by (auto simp: start_join_def)
  obtain sel qs where sels: "fst (fold (apply_selection g) (selections g) (?js, c)) = ?js\<lparr>totalSelectivity := sel, predicates := qs\<rparr>"
    and qs: "set qs = set (predicates ?js) \<union> {se_op e | e. e \<in> set (selections g) \<and> se_connects2 e (s1 \<union> s2) s1 s2}"
    using fold_selections[of g "selections g" ?js c] here edges(2) by auto
  let ?js' = "?js\<lparr>totalSelectivity := sel, predicates := qs\<rparr>"
  have res: "p = finish_join arrange ?js'" "s = s1 \<union> s2"
    using join sels edges(2) by (auto simp: joinPlans_def Let_def split: prod.splits)
  have "specialJoin ?js' = None" using here by simp
  note parts = finish_join_parts[OF arr this, folded res(1)]
  have preds: "plan_preds p = ?ops0 \<union> set qs" and cols: "plan_columns p = plan_columns p1 \<union> plan_columns p2"
    using parts(1,2) ps by auto
  have cols': "plan_columns p = getAttributesForNodeSet g s"
    using cols p1 p2 fin by (simp add: evaluates_def res(2) attributes_Un)
  have fit: "in_scope opt (plan_columns p) op" if op: "op \<in> set qs" for op
  proof (cases "op \<in> edge_preds g s1 s2")
    case True
    then show ?thesis using edge_preds_fit[OF g fin] cols' res(2) by simp
  next
    case False
    then obtain e where e: "e \<in> set (selections g)" "op = se_op e" "required e \<subseteq> s1 \<union> s2"
      using op edges(1) unfolding qs by (auto simp: se_connects2_def)
    then have "in_scope opt (getAttributesForNodeSet g (required e)) op" using plain_graph_selection(3)[OF g] by simp
    then show ?thesis using attributes_mono[of "s1 \<union> s2" "required e" g] fin e(3) in_scope_mono unfolding cols' res(2) by blast
  qed
  have "covers g s p"
    using joinPlans_covers(1)[OF _ _ disj _ _ join] g p1 p2 by (simp add: plain_graph_def wf_graph_def evaluates_def)
  moreover have "scoped opt p"
    using parts(3)[of opt] p1 p2 ps fit cols by (simp add: evaluates_def)
  moreover have "plan_preds p \<subseteq> graph_preds g"
  proof -
    have "edge_preds g s1 s2 \<subseteq> graph_preds g" by (auto simp: edge_preds_def graph_preds_def)
    moreover have "se_op e \<in> graph_preds g" if "e \<in> set (selections g)" for e using that by (simp add: graph_preds_def)
    ultimately have "set qs \<subseteq> graph_preds g" using edges(1) unfolding qs by auto
    then show ?thesis using p1 p2 unfolding preds by (auto simp: evaluates_def)
  qed
  moreover have "enforced g (plan_preds p) e" if e: "e \<in> set (joins g)" "je_left e \<union> je_right e \<subseteq> s" for e
  proof (cases "je_connects e s1 s2")
    case True
    then have "enforced g (?ops0 \<union> set (predicates ?js)) e" using ok e(1) by (simp add: edges_ok_def)
    then show ?thesis by (rule enforced_mono) (auto simp: preds qs)
  next
    case False
    show ?thesis
    proof (cases "je_op e")
      case (Some op)
      obtain a b where ab: "je_left e = {a}" "je_right e = {b}" by (rule pred_edge[OF g e(1) Some])
      then have "{a, b} \<subseteq> s1 \<or> {a, b} \<subseteq> s2" using e(2) False by (auto simp: je_connects_def res(2) split: if_splits)
      then have "enforced g (plan_preds p1) e \<or> enforced g (plan_preds p2) e"
        using p1 p2 e(1) ab by (auto simp: evaluates_def)
      then show ?thesis by (elim disjE) (auto elim: enforced_mono simp: preds)
    qed (simp add: enforced_def)
  qed
  moreover have "se_op e \<in> plan_preds p" if e: "e \<in> set (selections g)" "required e \<subseteq> s" for e
  proof -
    consider "required e \<subseteq> s1" | "required e \<subseteq> s2" | "se_connects2 e (s1 \<union> s2) s1 s2"
      using e(2) by (auto simp: se_connects2_def res(2))
    then show ?thesis using p1 p2 e(1) by cases (auto simp: evaluates_def preds qs)
  qed
  moreover have "set (additionalPredicates (nodes g ! v)) \<subseteq> plan_preds p" if v: "v \<in> s" "v < length (nodes g)" for v
  proof -
    have "v \<in> s1 \<or> v \<in> s2" using v(1) by (auto simp: res(2))
    then show ?thesis using p1 p2 v(2) by (elim disjE) (auto simp: evaluates_def preds)
  qed
  ultimately show ?thesis using cols' by (simp add: evaluates_def)
qed

interpretation evaluating: plan_invariant "\<lambda>arrange g. plain_graph opt g \<and> iterates arrange" "evaluates opt" for opt
proof unfold_locales
  show "wf_graph g" if "plain_graph opt g \<and> iterates arrange" for arrange :: "operator list \<Rightarrow> operator list" and g
    using that by (simp add: plain_graph_def)
  show "covers g s p" if "evaluates opt g s p" for g s p using that by (simp add: evaluates_def)
  show "evaluates opt g {v} (createInitialPlan (nodes g ! v))" if "plain_graph opt g \<and> iterates arrange" "v < length (nodes g)"
    for arrange :: "operator list \<Rightarrow> operator list" and g v using that evaluates_leaf by blast
  show "evaluates opt g s p" if "plain_graph opt g \<and> iterates arrange" "evaluates opt g s1 p1" "evaluates opt g s2 p2"
    "s1 \<inter> s2 \<inter> {0..<length (nodes g)} = {}" "joinPlans arrange g s1 s2 p1 p2 c = (p, s, c')"
    for arrange g s1 p1 s2 p2 c p s c' using that evaluates_join by blast
qed

text \<open>What a plan evaluates for its problem.\<close>

definition complete :: "query_graph \<Rightarrow> nodeset \<Rightarrow> plan \<Rightarrow> bool" where
  "complete g s p \<longleftrightarrow>
     (\<forall>e\<in>set (joins g). je_left e \<union> je_right e \<subseteq> s \<longrightarrow> enforced g (plan_preds p) e)
     \<and> (\<forall>e\<in>set (selections g). required e \<subseteq> s \<longrightarrow> se_op e \<in> plan_preds p)
     \<and> (\<forall>v\<in>s. v < length (nodes g) \<longrightarrow> set (additionalPredicates (nodes g ! v)) \<subseteq> plan_preds p)"

lemma evaluates_complete: "evaluates opt g s p \<Longrightarrow> complete g s p \<and> scoped opt p"
  by (simp add: evaluates_def complete_def)

lemma solvers_complete:
  assumes "plain_graph opt g" and "iterates arrange"
  shows "(\<exists>F c. dp_run arrange g = Inr (F, c) \<and> (\<forall>s p. F s = Some p \<longrightarrow> complete g s p \<and> scoped opt p))
    \<and> (case greedy_solve arrange g of
          Inr (Some p) \<Rightarrow> \<exists>s. {0..<length (nodes g)} \<subseteq> s \<and> complete g s p \<and> scoped opt p | _ \<Rightarrow> True)"
proof -
  have good: "plain_graph opt g \<and> iterates arrange" using assms by simp
  obtain F c where F: "dp_run arrange g = Inr (F, c)" "dp_ok (evaluates opt g) g (F, c)"
    using evaluating.dp_run_ok[OF good] by fastforce
  have "complete g s p \<and> scoped opt p" if "F s = Some p" for s p
    using dp_okD[OF F(2)] evaluates_complete that by fastforce
  moreover have "\<exists>s. {0..<length (nodes g)} \<subseteq> s \<and> complete g s p \<and> scoped opt p"
    if "greedy_solve arrange g = Inr (Some p)" for p
    using evaluating.greedy_solve_keeps[OF good that] evaluates_complete by blast
  ultimately show ?thesis using F(1) by (simp split: sum.split option.split)
qed


lemma plain_sample_chain: "plain_graph {0, 1, 2} sample_chain"
  using wf_sample_chain
  by (simp add: plain_graph_def plain_parts_def plain_node_def node_core_def plain_edge_def in_scope_def plain_op_def sample_chain_def addJoinEdge_plain append_edge_def
      sample_filter_def sample_relation_def usedColumns_def getAttributesForNodeSet_def set_nodes_def
      nodes_enter_edge sample_nodes_def addNode_def new_graph_def less_Suc_eq numeral_3_eq_3 upt_rec)


end
