(* ===== verification/Plain_Building.thy ===== *)
theory Plain_Building
  imports Query_Graph_Builder Join_Predicates
begin

text \<open>
  The graph of a query of selections, inner joins and cross products: the builder reaches the end of
  every such tree, its loop over the classes ends, and the graph has exactly the relations and the
  predicates of the tree, each predicate where the columns it uses are.
\<close>

section \<open>What matters of a graph\<close>

definition je_core :: "join_edge \<Rightarrow> operator option \<times> nodeset \<times> nodeset \<times> nat option \<times> (nat \<times> nat) option" where
  "je_core e = (je_op e, je_left e, je_right e, createdNode e, equality e)"

definition se_core :: "selection_edge \<Rightarrow> nodeset \<times> operator" where
  "se_core e = (required e, se_op e)"

lemma attributes_ops:
  assumes "map qn_op (nodes h) = map qn_op (nodes g)"
  shows "getAttributesForNodeSet h = getAttributesForNodeSet g"
proof
  fix s
  have len: "length (nodes h) = length (nodes g)" using assms map_eq_imp_length_eq by blast
  have "qn_op (nodes h ! v) = qn_op (nodes g ! v)" if "v < length (nodes g)" for v
    using arg_cong[OF assms, of "\<lambda>xs. xs ! v"] that len by simp
  then show "getAttributesForNodeSet h s = getAttributesForNodeSet g s"
    by (auto simp: getAttributesForNodeSet_def set_nodes_def len)
qed

lemma ops_core: "map node_core (nodes h) = map node_core (nodes g) \<Longrightarrow> map qn_op (nodes h) = map qn_op (nodes g)"
  by (drule arg_cong[of _ _ "map fst"]) (simp add: node_core_def comp_def)

lemmas attributes_core = attributes_ops[OF ops_core]

lemma plain_edge_core:
  "getAttributesForNodeSet h = getAttributesForNodeSet g \<Longrightarrow> je_core e = je_core e' \<Longrightarrow> plain_edge opt h e = plain_edge opt g e'"
  by (simp add: plain_edge_def je_core_def split: option.split)

lemma plain_edge_local:
  "getAttributesForNodeSet g (je_left e \<union> je_right e) = getAttributesForNodeSet h (je_left e \<union> je_right e)
    \<Longrightarrow> plain_edge opt g e = plain_edge opt h e"
  by (simp add: plain_edge_def split: option.split)

lemma plain_selection_core:
  "getAttributesForNodeSet h = getAttributesForNodeSet g \<Longrightarrow> se_core e = se_core e'
    \<Longrightarrow> plain_selection opt h e = plain_selection opt g e'"
  by (simp add: plain_selection_def se_core_def)

lemma node_preds_core:
  "(\<Union>n\<in>set (nodes g). set (additionalPredicates n)) = (\<Union>x\<in>set (map node_core (nodes g)). set (snd x))"
  by (simp add: node_core_def)

lemma ball_core: "f ` A = f ` B \<Longrightarrow> (\<And>a b. f a = f b \<Longrightarrow> P a = Q b) \<Longrightarrow> (\<forall>a\<in>A. P a) = (\<forall>b\<in>B. Q b)"
  by (metis (mono_tags, lifting) image_iff)

lemma plain_parts_core:
  assumes "map node_core (nodes h) = map node_core (nodes g)" and "je_core ` set (joins h) = je_core ` set (joins g)"
    and "se_core ` set (selections h) = se_core ` set (selections g)"
  shows "plain_parts opt h = plain_parts opt g" and "graph_preds h = graph_preds g"
proof -
  note attrs = attributes_core[OF assms(1)]
  show "plain_parts opt h = plain_parts opt g" unfolding plain_parts_def assms(1)
    using ball_core[OF assms(2) plain_edge_core[OF attrs]] ball_core[OF assms(3) plain_selection_core[OF attrs]] by simp
  have joins: "{op. \<exists>e\<in>set (joins g). je_op e = Some op} = {op. Some op \<in> fst ` (je_core ` set (joins g))}" for g
    by (force simp: je_core_def image_iff)
  have sels: "se_op ` set (selections g) = snd ` (se_core ` set (selections g))" for g
    by (simp add: se_core_def image_image)
  show "graph_preds h = graph_preds g" unfolding graph_preds_def joins sels node_preds_core assms by simp
qed

definition two_sided :: "query_graph \<Rightarrow> bool" where
  "two_sided g \<longleftrightarrow> (\<forall>e\<in>set (joins g). je_left e \<noteq> {} \<and> je_right e \<noteq> {})"

section \<open>Entering edges and predicates\<close>

lemma core_enter_edge: "finite s \<Longrightarrow> map node_core (nodes (enter_edge i s g)) = map node_core (nodes g)"
  by (rule nth_equalityI) (auto simp: nodes_enter_edge node_core_def)

lemma core_enter_selection: "finite s \<Longrightarrow> map node_core (nodes (enter_selection i s g)) = map node_core (nodes g)"
  by (rule nth_equalityI) (auto simp: nodes_enter_selection node_core_def)

lemma append_edge_plain:
  assumes "finite (je_left e)" and "finite (je_right e)"
  shows "map node_core (nodes (append_edge e g)) = map node_core (nodes g)"
    and "plain_parts opt g \<Longrightarrow> plain_edge opt g e \<Longrightarrow> plain_parts opt (append_edge e g)"
    and "graph_preds (append_edge e g) = graph_preds g \<union> set_option (je_op e)"
    and "two_sided g \<Longrightarrow> je_left e \<noteq> {} \<Longrightarrow> je_right e \<noteq> {} \<Longrightarrow> two_sided (append_edge e g)"
proof -
  let ?g = "append_edge e g"
  have rest: "joins ?g = joins g @ [e]" "selections ?g = selections g" by (simp_all add: append_edge_def)
  show core: "map node_core (nodes ?g) = map node_core (nodes g)"
    using assms by (simp add: append_edge_def core_enter_edge)
  have attrs: "getAttributesForNodeSet ?g = getAttributesForNodeSet g" by (rule attributes_core[OF core])
  show "plain_parts opt g \<Longrightarrow> plain_edge opt g e \<Longrightarrow> plain_parts opt ?g"
    unfolding plain_parts_def rest core using plain_edge_core[OF attrs refl] plain_selection_core[OF attrs refl] by auto
  show "graph_preds ?g = graph_preds g \<union> set_option (je_op e)"
    unfolding graph_preds_def rest node_preds_core core by auto
  show "two_sided g \<Longrightarrow> je_left e \<noteq> {} \<Longrightarrow> je_right e \<noteq> {} \<Longrightarrow> two_sided ?g"
    by (simp add: two_sided_def rest)
qed

section \<open>The loop over the classes ends\<close>

definition leaders_ok :: "nat \<Rightarrow> (nat \<Rightarrow> nat) \<Rightarrow> bool" where
  "leaders_ok n leader \<longleftrightarrow> (\<forall>v<n. leader v < n \<and> leader (leader v) = leader v)"

definition picks :: "(nat \<Rightarrow> nat \<Rightarrow> nat) \<Rightarrow> bool" where
  "picks pick \<longleftrightarrow> (\<forall>a b. pick a b = a \<or> pick a b = b)"

lemma union_classes_ok:
  assumes ok: "leaders_ok n leader" and pick: "picks pick" and xy: "x < n" "y < n" "leader x = x" "leader y = y" "x \<noteq> y"
  shows "leaders_ok n (union_classes pick x y leader)"
    and "getNumClasses (union_classes pick x y leader) n < getNumClasses leader n"
    and "union_classes pick x y leader x < n"
    and "union_classes pick x y leader (union_classes pick x y leader x) = union_classes pick x y leader x"
proof -
  let ?l = "union_classes pick x y leader" and ?p = "pick x y"
  have p: "?p = x \<or> ?p = y" using pick by (simp add: picks_def)
  have l: "?l v = (if leader v = x \<or> leader v = y then ?p else leader v)" for v
    by (simp add: union_classes_def xy)
  have pp: "?p < n" "leader ?p = ?p" using p xy by auto
  show ok': "leaders_ok n ?l" using ok p pp by (auto simp: leaders_ok_def l)
  show "?l x < n" and "?l (?l x) = ?l x" using p pp xy by (auto simp: l)
  let ?q = "if ?p = x then y else x"
  have "?l ` {0..<n} \<subseteq> leader ` {0..<n} - {?q}"
  proof
    fix w assume "w \<in> ?l ` {0..<n}"
    then obtain v where v: "v < n" "w = ?l v" by auto
    show "w \<in> leader ` {0..<n} - {?q}"
    proof (cases "leader v = x \<or> leader v = y")
      case True
      then have "w = ?p" using v by (simp add: l)
      moreover have "?p \<in> leader ` {0..<n}" using pp by (metis atLeastLessThan_iff imageI zero_le)
      ultimately show ?thesis using p xy by auto
    next
      case False
      then show ?thesis using v by (auto simp: l)
    qed
  qed
  moreover have "?q \<in> leader ` {0..<n}" using xy by (metis atLeastLessThan_iff imageI zero_le)
  ultimately have "?l ` {0..<n} \<subset> leader ` {0..<n}" by blast
  then show "getNumClasses ?l n < getNumClasses leader n"
    unfolding getNumClasses_def by (intro psubset_card_mono) auto
qed

lemma first_connection_ok:
  assumes "leaders_ok n leader"
  shows "\<forall>e\<in>set es. je_left e \<noteq> {} \<and> je_right e \<noteq> {} \<and> je_left e \<union> je_right e \<subseteq> {0..<n} \<Longrightarrow>
    \<exists>f. first_connection leader n es = Inr f
      \<and> (\<forall>x y. f = Some (x, y) \<longrightarrow> x < n \<and> y < n \<and> leader x = x \<and> leader y = y \<and> x \<noteq> y)"
proof (induction es)
  case (Cons e es)
  have in_n: "findFirst s < n" if "s \<noteq> {}" "s \<subseteq> {0..<n}" for s
    using findFirst_in[of s] that finite_subset[OF that(2)] by auto
  have "findFirst (je_left e) < n" "findFirst (je_right e) < n" using Cons.prems in_n by auto
  then show ?case using Cons assms by (auto simp: Let_def leaders_ok_def)
qed simp

text \<open>What the loop keeps and what it may change: it only appends forced cross products.\<close>

definition connects_to :: "nat set \<Rightarrow> query_graph \<Rightarrow> query_graph \<Rightarrow> bool" where
  "connects_to opt g h \<longleftrightarrow> plain_graph opt h \<and> two_sided h \<and> graph_preds h = graph_preds g
     \<and> map node_core (nodes h) = map node_core (nodes g)"

lemma connects_to_trans: "connects_to opt g h \<Longrightarrow> connects_to opt h k \<Longrightarrow> connects_to opt g k"
  by (simp add: connects_to_def)

lemma forced_product:
  assumes g: "plain_graph opt g" "two_sided g" and sides: "left \<noteq> {}" "right \<noteq> {}" "left \<union> right \<subseteq> {0..<numNodes g}"
  shows "connects_to opt g (addJoinEdge left right None None g)"
proof -
  let ?e = "\<lparr>je_op = None, je_right = right, je_left = left, je_selectivity = one, createdNode = None, equality = None\<rparr>"
  have eq: "addJoinEdge left right None None g = append_edge ?e g" by (simp add: addJoinEdge_plain)
  have fin: "finite (je_left ?e)" "finite (je_right ?e)" using finite_subset[OF sides(3)] by auto
  have edge: "plain_edge opt g ?e" by (simp add: plain_edge_def)
  have "pseudoNodes (append_edge ?e g) = pseudoNodes g" by (simp add: append_edge_def)
  then show ?thesis
    using wf_addJoinEdge[OF _ sides(3)] append_edge_plain[OF fin, where g = g] edge g sides
    by (simp add: connects_to_def plain_graph_def eq)
qed

lemma connect_step_ok:
  assumes g: "plain_graph opt g" "two_sided g" and leaders: "leaders_ok (numNodes g) leader" and pick: "picks pick"
    and l: "l < numNodes g" "leader l = l" and many: "getNumClasses leader (numNodes g) > 1"
  shows "\<exists>g' leader' l'. connect_step pick (g, leader, l) = Inr (g', leader', l') \<and> connects_to opt g g'
    \<and> numNodes g' = numNodes g \<and> leaders_ok (numNodes g) leader' \<and> l' < numNodes g \<and> leader' l' = l'
    \<and> getNumClasses leader' (numNodes g) < getNumClasses leader (numNodes g)"
proof -
  let ?n = "numNodes g"
  have full: "length (nodes g) = ?n" and gok: "graph_ok g" using g by (auto simp: plain_graph_def wf_graph_def)
  have "\<forall>e\<in>set (joins g). je_left e \<noteq> {} \<and> je_right e \<noteq> {} \<and> je_left e \<union> je_right e \<subseteq> {0..<?n}"
    using g(2) join_ok_below[OF gok] by (auto simp: two_sided_def)
  from first_connection_ok[OF leaders this] obtain f where f: "first_connection leader ?n (joins g) = Inr f"
    and xy: "\<And>x y. f = Some (x, y) \<Longrightarrow> x < ?n \<and> y < ?n \<and> leader x = x \<and> leader y = y \<and> x \<noteq> y" by blast
  show ?thesis
  proof (cases f)
    case (Some a)
    then obtain x y where f': "f = Some (x, y)" by (cases a) auto
    then have "x < ?n" "y < ?n" "leader x = x" "leader y = y" "x \<noteq> y" using xy by auto
    note union = union_classes_ok[OF leaders pick this]
    have "connect_step pick (g, leader, l) = Inr (g, union_classes pick x y leader, union_classes pick x y leader x)"
      using f f' by (simp add: connect_step_def Let_def)
    then show ?thesis using union g by (simp add: connects_to_def)
  next
    case None
    have "\<exists>v<?n. v \<noteq> l \<and> leader v = v"
    proof (rule ccontr)
      assume "\<not> ?thesis"
      then have "leader ` {0..<?n} \<subseteq> {l}" using leaders by (force simp: leaders_ok_def)
      then have "getNumClasses leader ?n \<le> 1" unfolding getNumClasses_def using card_mono[of "{l}"] by simp
      then show False using many by simp
    qed
    then obtain y where find: "find (\<lambda>v. v \<noteq> l \<and> leader v = v) [0..<length (nodes g)] = Some y"
      using full by (cases "find (\<lambda>v. v \<noteq> l \<and> leader v = v) [0..<length (nodes g)]") (auto simp: find_None_iff)
    then have y: "y < ?n" "y \<noteq> l" "leader y = y" using full by (auto simp: find_Some_iff)
    let ?g = "addJoinEdge (getNodeSetFromClass leader l ?n) (getNodeSetFromClass leader y ?n) None None g"
    note union = union_classes_ok[OF leaders pick l(1) y(1) l(2) y(3) y(2)[symmetric]]
    have step: "connect_step pick (g, leader, l) = Inr (?g, union_classes pick l y leader, union_classes pick l y leader l)"
      using f None find by (simp add: connect_step_def Let_def)
    have "l \<in> getNodeSetFromClass leader l ?n" "y \<in> getNodeSetFromClass leader y ?n"
      using l y by (simp_all add: getNodeSetFromClass_def)
    then have sides: "getNodeSetFromClass leader l ?n \<noteq> {}" "getNodeSetFromClass leader y ?n \<noteq> {}"
      "getNodeSetFromClass leader l ?n \<union> getNodeSetFromClass leader y ?n \<subseteq> {0..<?n}"
      using class_nodes by auto
    have "connects_to opt g ?g" by (rule forced_product[OF g sides])
    moreover have "numNodes ?g = ?n"
      using wf_addJoinEdge[OF _ sides(3)] g(1) by (simp add: plain_graph_def)
    ultimately show ?thesis using step union by simp
  qed
qed

lemma connect_loop_ok:
  assumes "picks pick"
  shows "plain_graph opt g \<Longrightarrow> two_sided g \<Longrightarrow> leaders_ok (numNodes g) leader \<Longrightarrow> l < numNodes g \<Longrightarrow> leader l = l
    \<Longrightarrow> \<exists>h. connect_loop pick (g, leader, l) = Some (Inr h) \<and> connects_to opt g h"
proof (induction "getNumClasses leader (numNodes g)" arbitrary: g leader l rule: less_induct)
  case less
  show ?case
  proof (cases "getNumClasses leader (numNodes g) > 1")
    case True
    obtain g' leader' l' where step: "connect_step pick (g, leader, l) = Inr (g', leader', l')" "connects_to opt g g'"
      "numNodes g' = numNodes g" "leaders_ok (numNodes g) leader'" "l' < numNodes g" "leader' l' = l'"
      "getNumClasses leader' (numNodes g) < getNumClasses leader (numNodes g)"
      using connect_step_ok[OF less.prems(1-3) assms less.prems(4,5) True] by blast
    have g': "plain_graph opt g'" "two_sided g'" using step(2) by (auto simp: connects_to_def)
    obtain h where "connect_loop pick (g', leader', l') = Some (Inr h)" "connects_to opt g' h"
      using less.hyps[of leader' g' l'] step(3-7) g' by auto
    then show ?thesis using step(1,2) True connects_to_trans by (subst connect_loop.simps) auto
  next
    case False
    then show ?thesis using less.prems(1,2) by (subst connect_loop.simps) (simp add: connects_to_def)
  qed
qed

lemma ensureConnected_ok:
  assumes "picks pick" and "plain_graph opt g" and "two_sided g" and "0 < numNodes g"
  shows "\<exists>h. ensureConnected pick g = Some (Inr h) \<and> connects_to opt g h"
  unfolding ensureConnected_def using connect_loop_ok[OF assms(1-3), of "\<lambda>v. v" 0] assms(4) by (simp add: leaders_ok_def)

section \<open>Populating the graph with a plain tree\<close>

lemma plain_parts_ops:
  assumes "map qn_op (nodes h) = map qn_op (nodes g)"
  shows "(\<forall>e\<in>E. plain_edge opt h e) = (\<forall>e\<in>E. plain_edge opt g e)"
    and "(\<forall>e\<in>F. plain_selection opt h e) = (\<forall>e\<in>F. plain_selection opt g e)"
  using plain_edge_core[OF attributes_ops[OF assms] refl] plain_selection_core[OF attributes_ops[OF assms] refl] by auto

text \<open>What a predicate does to the graph, wherever it is put.\<close>

definition gains :: "nat set \<Rightarrow> query_graph \<Rightarrow> query_graph \<Rightarrow> operator \<Rightarrow> bool" where
  "gains opt g h op \<longleftrightarrow> map qn_op (nodes h) = map qn_op (nodes g) \<and> plain_parts opt h
     \<and> graph_preds h = insert op (graph_preds g) \<and> two_sided h"

lemma gains_node:
  assumes g: "plain_parts opt g" "two_sided g" and v: "v < length (nodes g)"
    and op: "in_scope opt (availableColumns (qn_op (nodes g ! v))) op"
  shows "gains opt g (addPredicate v op g) op"
proof -
  let ?n = "(nodes g ! v)\<lparr>additionalPredicates := additionalPredicates (nodes g ! v) @ [op]\<rparr>"
  let ?h = "addPredicate v op g"
  have h: "nodes ?h = (nodes g)[v := ?n]" "joins ?h = joins g" "selections ?h = selections g"
    by (simp_all add: addPredicate_def)
  have ops: "map qn_op (nodes ?h) = map qn_op (nodes g)" using v by (intro nth_equalityI) (auto simp: h nth_list_update)
  have old: "\<forall>n\<in>set (nodes g). plain_node opt (node_core n)" using g(1) by (simp add: plain_parts_def)
  moreover have "plain_node opt (node_core ?n)"
    using old nth_mem[OF v] op by (auto simp: plain_node_def node_core_def)
  ultimately have "\<forall>n\<in>set (nodes ?h). plain_node opt (node_core n)"
    using set_update_subset_insert[of "nodes g" v ?n] unfolding h by blast
  then have "plain_parts opt ?h" using g(1) plain_parts_ops[OF ops] by (simp add: plain_parts_def h)
  moreover have "(\<Union>n\<in>set (nodes ?h). set (additionalPredicates n)) = insert op (\<Union>n\<in>set (nodes g). set (additionalPredicates n))"
  proof -
    have "(\<Union>i<length (nodes g). set (additionalPredicates (nodes ?h ! i)))
        = insert op (\<Union>i<length (nodes g). set (additionalPredicates (nodes g ! i)))"
      using v by (auto simp: h nth_list_update split: if_splits)
    moreover have "set xs = (\<lambda>i. xs ! i) ` {..<length xs}" for xs :: "qnode list" by (auto simp: in_set_conv_nth)
    moreover have "length (nodes ?h) = length (nodes g)" by (simp add: h)
    ultimately show ?thesis by (simp only: image_image)
  qed
  ultimately show ?thesis using ops g(2) unfolding gains_def graph_preds_def by (simp add: h two_sided_def)
qed

lemma gains_join:
  assumes g: "plain_parts opt g" "two_sided g" and ab: "a \<noteq> b"
    and op: "in_scope opt (getAttributesForNodeSet g {a, b}) op"
  shows "gains opt g (addJoinEdge {a} {b} (Some op) None g) op"
proof -
  let ?e = "\<lparr>je_op = Some op, je_right = {b}, je_left = {a}, je_selectivity = one, createdNode = None,
     equality = analyzePredicate op\<rparr>"
  have "op_kind op \<in> {SelectionOp, InnerJoinOp}" using op by (auto simp: in_scope_def plain_op_def)
  then have eq: "addJoinEdge {a} {b} (Some op) None g = append_edge ?e g" by (simp add: addJoinEdge_plain)
  have "plain_edge opt g ?e" using ab op by (auto simp: plain_edge_def insert_commute)
  then show ?thesis
    using append_edge_plain[of ?e, where g = g] g ops_core[of "append_edge ?e g" g] by (simp add: gains_def eq)
qed

lemma gains_selection:
  assumes g: "plain_parts opt g" "two_sided g" and need: "finite need" "need \<noteq> {}" "card need \<noteq> 1"
    and op: "in_scope opt (getAttributesForNodeSet g need) op"
    and e: "e = \<lparr>se_id = i, required = need, se_op = op, se_selectivity = one\<rparr>"
  shows "gains opt g (enter_selection i need (g\<lparr>selections := selections g @ [e]\<rparr>)) op"
proof -
  let ?h = "enter_selection i need (g\<lparr>selections := selections g @ [e]\<rparr>)"
  have core: "map node_core (nodes ?h) = map node_core (nodes g)" using need(1) by (simp add: core_enter_selection)
  note ops = ops_core[OF core]
  have "plain_selection opt g e" using need op e by (simp add: plain_selection_def)
  then have "plain_parts opt ?h" using g(1) plain_parts_ops[OF ops] by (simp add: plain_parts_def core)
  moreover have "graph_preds ?h = insert op (graph_preds g)"
    unfolding graph_preds_def node_preds_core core using e by auto
  ultimately show ?thesis using ops g(2) by (simp add: gains_def two_sided_def)
qed

lemma place_predicate_plain:
  assumes g: "plain_parts opt g" "two_sided g" and ses: "ses \<noteq> {}" "ses \<subseteq> {0..<length (nodes g)}"
    and op: "in_scope opt (getAttributesForNodeSet g ses) op"
  shows "gains opt g (place_predicate op ses g) op"
proof -
  have fin: "finite ses" using ses(2) finite_subset by blast
  consider "card ses = 1" | "card ses = 2" | "card ses \<noteq> 1" "card ses \<noteq> 2" by blast
  then show ?thesis
  proof cases
    case 1
    then obtain v where v: "ses = {v}" by (auto simp: card_1_singleton_iff)
    then have "in_scope opt (availableColumns (qn_op (nodes g ! v))) op" using op ses(2) by (simp add: attributes_eq)
    then show ?thesis using gains_node[OF g] v ses(2) by (simp add: place_predicate_def findFirst_def)
  next
    case 2
    then obtain a b where ab: "ses = {a, b}" "a < b" by (metis card_2_iff insert_commute linorder_neqE_nat)
    then have "Min ses = a" "Max ses = b" by simp_all
    then show ?thesis using gains_join[OF g] ab ses(2) op 2 by (simp add: place_predicate_def addSelectionEdge_def)
  next
    case 3
    then have eq: "place_predicate op ses g = enter_selection (length (selections g)) ses (g\<lparr>selections := selections g @
        [\<lparr>se_id = length (selections g), required = ses, se_op = op, se_selectivity = one\<rparr>]\<rparr>)"
      by (simp add: place_predicate_def addSelectionEdge_def Let_def)
    show ?thesis unfolding eq by (rule gains_selection[OF g fin ses(1) 3(1) op refl])
  qed
qed

text \<open>The builder after the leaves \<open>ls\<close> and the predicates \<open>ops\<close>.\<close>

definition built :: "nat set \<Rightarrow> optree list \<Rightarrow> operator set \<Rightarrow> qg_builder \<Rightarrow> bool" where
  "built opt ls ops b \<longleftrightarrow> builder_ok {} b \<and> pseudoNodes (qg b) = 0 \<and> map qn_op (nodes (qg b)) = map root ls
     \<and> plain_parts opt (qg b) \<and> two_sided (qg b) \<and> graph_preds (qg b) = ops
     \<and> (\<forall>c v. attrToNodes b c = Some v \<longrightarrow> v < length ls \<and> c \<in> availableColumns (root (ls ! v)))
     \<and> leaf_columns ls \<subseteq> dom (attrToNodes b) \<and> (\<lambda>l. op_id (root l)) ` set ls \<subseteq> dom (nodeForOp b)"

lemma built_length: "built opt ls ops b \<Longrightarrow> length (nodes (qg b)) = length ls"
  unfolding built_def by (metis length_map)

lemma built_leaf:
  assumes b: "built opt ls ops b" and room: "length ls < numNodes (qg b)"
    and t: "op_id (root t) \<in> opt" "getAvailableColumns t = availableColumns (root t)"
  shows "built opt (ls @ [t]) ops (add_leaf t b)" and "numNodes (qg (add_leaf t b)) = numNodes (qg b)"
proof -
  note len = built_length[OF b]
  let ?n = "\<lparr>qn_id = length (nodes (qg b)), qn_op = root t, additionalPredicates = [],
     qn_selectivity = 0, qn_rows = 0, edges = [], node_selections = []\<rparr>"
  let ?h = "addNode (root t) (qg b)"
  have h: "nodes ?h = nodes (qg b) @ [?n]" "joins ?h = joins (qg b)" "selections ?h = selections (qg b)"
    "pseudoNodes ?h = pseudoNodes (qg b)" "numNodes ?h = numNodes (qg b)" by (simp_all add: addNode_def)
  have qg: "qg (add_leaf t b) = ?h" by (simp add: add_leaf_def Let_def)
  show "numNodes (qg (add_leaf t b)) = numNodes (qg b)" by (simp add: qg h)
  have "builder_ok {} (add_leaf t b)"
    using b room len by (intro add_leaf_ok) (auto simp: built_def graph_size_def)
  moreover have "plain_parts opt ?h"
  proof -
    have more: "getAttributesForNodeSet (qg b) s = getAttributesForNodeSet ?h s" if "s \<subseteq> {0..<length (nodes (qg b))}" for s
    proof -
      have "finite s" using that finite_subset by blast
      moreover have "s \<inter> {0..<length (nodes (qg b))} = s" "s \<inter> {0..<length (nodes ?h)} = s" using that by (auto simp: h)
      moreover have "nodes ?h ! v = nodes (qg b) ! v" if "v \<in> s" for v
        using that \<open>s \<subseteq> {0..<length (nodes (qg b))}\<close> by (auto simp: h nth_append)
      ultimately show ?thesis by (simp add: attributes_eq)
    qed
    have gok: "graph_ok (qg b)" and no: "pseudoNodes (qg b) = 0" using b by (auto simp: built_def builder_ok_def)
    have old: "plain_parts opt (qg b)" using b by (simp add: built_def)
    have "plain_edge opt ?h e" if e: "e \<in> set (joins (qg b))" for e
    proof -
      have "je_left e \<union> je_right e \<subseteq> {0..<length (nodes (qg b))}"
        using gok e no by (auto simp: graph_ok_def join_ok_def present_def)
      moreover have "plain_edge opt (qg b) e" using old e by (simp add: plain_parts_def)
      ultimately show ?thesis using plain_edge_local[OF more] by simp
    qed
    moreover have "plain_selection opt ?h e" if e: "e \<in> set (selections (qg b))" for e
    proof -
      have "required e \<subseteq> {0..<length (nodes (qg b))}" using gok e no by (auto simp: graph_ok_def present_def)
      moreover have "plain_selection opt (qg b) e" using old e by (simp add: plain_parts_def)
      ultimately show ?thesis using more[of "required e"] unfolding plain_selection_def by metis
    qed
    ultimately show ?thesis using old t(1) by (auto simp: plain_parts_def h plain_node_def node_core_def)
  qed
  ultimately show "built opt (ls @ [t]) ops (add_leaf t b)"
    using b len t(2) unfolding built_def qg
    by (auto simp: h graph_preds_def two_sided_def add_leaf_def Let_def nth_append intro: less_SucI split: if_splits)
qed

lemma built_predicate:
  assumes b: "built opt ls ops b" and op: "plain_op op" "op_id op \<notin> opt" "usedColumns op \<subseteq> leaf_columns ls"
    and some: "op_kind op = InnerJoinOp \<Longrightarrow> usedColumns op \<noteq> {}"
    and reach: "reached opt {} (nodeForOp b) (OpTree op cs)"
  shows "\<exists>b'. add_predicate opt op cs b = Inr b' \<and> built opt ls (insert op ops) b' \<and> numNodes (qg b') = numNodes (qg b)
    \<and> nodeForOp b' = nodeForOp b"
proof -
  let ?g = "qg b"
  note len = built_length[OF b]
  have parts: "builder_ok {} b" "plain_parts opt ?g" "two_sided ?g" "usedColumns op \<subseteq> dom (attrToNodes b)"
    "present ?g = {0..<length (nodes ?g)}" "map qn_op (nodes ?g) = map root ls"
    using b op(3) by (auto simp: built_def present_def)
  have sets: "sets_ok {} (present ?g) b" using parts(1) by (simp add: builder_ok_def)
  define ses0 where "ses0 = (\<lambda>c. the (attrToNodes b c)) ` usedColumns op"
  have ses0: "calcSES op b = Inr ses0" using parts(4) by (simp add: calcSES_def ses0_def)
  obtain ses b1 where ses: "(if ses0 = {} \<and> op_kind op = SelectionOp then calcT opt (OpTree op cs) b else (ses0, b)) = (ses, b1)"
    by fastforce
  have b1: "ses \<noteq> {} \<and> ses0 \<subseteq> ses \<and> ses \<subseteq> present ?g \<and> (\<exists>x. b1 = b\<lparr>ts := x\<rparr>)"
  proof (cases "ses0 = {}")
    case True
    then have "op_kind op = SelectionOp" using op(1) some by (auto simp: ses0_def plain_op_def)
    then show ?thesis using calcT_ok[OF sets reach] ses True by (auto simp: T_ok_def)
  next
    case False
    then show ?thesis using calcSES_in[OF ses0 sets] ses by (auto intro!: exI[of _ "ts b"])
  qed
  have "c \<in> getAttributesForNodeSet ?g ses" if c: "c \<in> usedColumns op" for c
  proof -
    obtain v where v: "attrToNodes b c = Some v" using parts(4) c by auto
    then have "v \<in> ses0" using c by (force simp: ses0_def)
    moreover have "v < length ls" "c \<in> availableColumns (root (ls ! v))" using b v by (auto simp: built_def)
    moreover have "qn_op (nodes ?g ! v) = root (ls ! v)"
      using \<open>v < length ls\<close> len arg_cong[OF parts(6), of "\<lambda>xs. xs ! v"] by simp
    moreover have "v \<in> ses" "v < length (nodes ?g)" using \<open>v \<in> ses0\<close> b1 \<open>v < length ls\<close> len by auto
    moreover have "finite ses" using b1 finite_subset[OF _ finite_present] by blast
    ultimately show ?thesis by (simp add: attributes_eq) (metis IntI atLeastLessThan_iff zero_le)
  qed
  then have scope: "in_scope opt (getAttributesForNodeSet ?g ses) op" using op(1,2) by (auto simp: in_scope_def)
  have gain: "gains opt ?g (place_predicate op ses ?g) op"
    using b1 parts(5) by (intro place_predicate_plain[OF parts(2,3) _ _ scope]) auto
  let ?b = "b1\<lparr>qg := place_predicate op ses (qg b1)\<rparr>"
  have run: "add_predicate opt op cs b = Inr ?b" using ses0 ses by (simp add: add_predicate_def)
  note ok = add_predicate_ok[OF run parts(1) reach]
  have "pseudoNodes (place_predicate op ses ?g) = pseudoNodes ?g"
    using place_predicate_step[of ses ?g op] b1 by simp
  then have "built opt ls (insert op ops) ?b" using gain ok b b1 unfolding gains_def built_def by auto
  then show ?thesis using run ok by blast
qed

text \<open>
  Queries the optimizer accepts: above the leaves every operator is supported and creates no columns;
  the columns of a leaf are those its operator makes available.
\<close>

fun plain_query :: "nat set \<Rightarrow> optree \<Rightarrow> bool" where
  "plain_query opt (OpTree op cs) \<longleftrightarrow>
    (if op_id op \<in> opt then availableColumns op = getAvailableColumns (OpTree op cs)
     else createdColumns op = {} \<and> isUnsupportedOp (OpTree op cs) = Inr False \<and> (\<forall>c\<in>set cs. plain_query opt c))"

lemma plain_counts: "plain_query opt t \<Longrightarrow> countCreatingOperators opt t = length (leaves opt t)"
proof (induction t)
  case (OpTree op cs)
  show ?case
  proof (cases "op_id op \<in> opt")
    case False
    then have "map (countCreatingOperators opt) cs = map (\<lambda>c. length (leaves opt c)) cs" using OpTree by auto
    from arg_cong[OF this, of sum_list] show ?thesis using OpTree.prems False by (simp add: length_concat comp_def)
  qed simp
qed

lemma plain_no_dead_end: "plain_tree opt t \<Longrightarrow> no_dead_end opt t"
proof (induction t)
  case (OpTree op cs)
  then show ?case by (cases cs) auto
qed

lemma leaves_some: "plain_tree opt t \<Longrightarrow> leaves opt t \<noteq> []"
proof (induction t)
  case (OpTree op cs)
  then show ?case by (cases cs) auto
qed

lemma built_reached:
  assumes "built opt ls ops b" and "set (leaves opt t) \<subseteq> set ls" and "plain_tree opt t"
  shows "reached opt {} (nodeForOp b) t"
  using assms plain_no_dead_end[OF assms(3)] unfolding reached_def built_def by blast

definition populated :: "nat set \<Rightarrow> optree list \<Rightarrow> operator set \<Rightarrow> qg_builder \<Rightarrow> qg_builder res \<Rightarrow> bool" where
  "populated opt ls ops b r \<longleftrightarrow> (\<exists>b'. r = Inr b' \<and> built opt ls ops b' \<and> numNodes (qg b') = numNodes (qg b))"

lemma populated_children:
  assumes "\<And>c ls ops b. c \<in> set cs \<Longrightarrow> built opt ls ops b \<Longrightarrow> length ls + length (leaves opt c) \<le> numNodes (qg b)
      \<Longrightarrow> populated opt (ls @ leaves opt c) (ops \<union> set (tree_preds opt c)) b (populateQueryGraph opt c b)"
    and "built opt ls ops b" and "length ls + length (concat (map (leaves opt) cs)) \<le> numNodes (qg b)"
  shows "populated opt (ls @ concat (map (leaves opt) cs)) (ops \<union> set (concat (map (tree_preds opt) cs))) b
    (mfold (populateQueryGraph opt) cs b)"
  using assms
proof (induction cs arbitrary: ls ops b)
  case Nil
  then show ?case by (simp add: populated_def)
next
  case (Cons c cs)
  obtain b1 where b1: "populateQueryGraph opt c b = Inr b1" "numNodes (qg b1) = numNodes (qg b)"
    "built opt (ls @ leaves opt c) (ops \<union> set (tree_preds opt c)) b1"
    using Cons.prems(1)[of c ls ops b] Cons.prems(2,3) by (auto simp: populated_def)
  have "populated opt ((ls @ leaves opt c) @ concat (map (leaves opt) cs))
      ((ops \<union> set (tree_preds opt c)) \<union> set (concat (map (tree_preds opt) cs))) b1 (mfold (populateQueryGraph opt) cs b1)"
    using Cons.prems(1,3) b1(2) by (intro Cons.IH[OF _ b1(3)]) auto
  then show ?case using b1(1,2) by (simp add: populated_def Un_assoc)
qed

lemma populate_plain:
  "plain_tree opt t \<Longrightarrow> plain_query opt t \<Longrightarrow> built opt ls ops b \<Longrightarrow> length ls + length (leaves opt t) \<le> numNodes (qg b)
    \<Longrightarrow> populated opt (ls @ leaves opt t) (ops \<union> set (tree_preds opt t)) b (populateQueryGraph opt t b)"
proof (induction t arbitrary: ls ops b)
  case (OpTree op cs)
  show ?case
  proof (cases "op_id op \<in> opt")
    case True
    then show ?thesis
      using built_leaf[OF OpTree.prems(3), of "OpTree op cs"] OpTree.prems(2,4) by (simp add: populated_def)
  next
    case False
    let ?ls = "ls @ concat (map (leaves opt) cs)" and ?ops = "ops \<union> set (concat (map (tree_preds opt) cs))"
    note plain = OpTree.prems(1)[unfolded plain_tree.simps]
    have "populated opt ?ls ?ops b (mfold (populateQueryGraph opt) cs b)"
      using OpTree.IH OpTree.prems False by (intro populated_children) auto
    then obtain b1 where b1: "mfold (populateQueryGraph opt) cs b = Inr b1" "built opt ?ls ?ops b1"
      "numNodes (qg b1) = numNodes (qg b)" by (auto simp: populated_def)
    show ?thesis
    proof (cases "op_kind op = CrossProductOp")
      case True
      then show ?thesis using b1 False by (simp add: populated_def plain_op_def)
    next
      case pred: False
      then have op: "plain_op op" using plain False by (auto simp: plain_op_def)
      have "reached opt {} (nodeForOp b1) (OpTree op cs)"
        using False by (intro built_reached[OF b1(2) _ OpTree.prems(1)]) auto
      moreover have "usedColumns op \<subseteq> leaf_columns ?ls" using plain False by auto
      moreover have "op_kind op = InnerJoinOp \<Longrightarrow> usedColumns op \<noteq> {}"
        using OpTree.prems(2) False supported_join_uses[of op cs] by simp
      ultimately obtain b2 where b2: "add_predicate opt op cs b1 = Inr b2" "built opt ?ls (insert op ?ops) b2"
        "numNodes (qg b2) = numNodes (qg b1)"
        using built_predicate[OF b1(2) op False] by blast
      have "populateQueryGraph opt (OpTree op cs) b = Inr b2" using b1(1) b2(1) op False pred by (auto simp: plain_op_def)
      then show ?thesis using b2 b1(3) False op by (simp add: populated_def Un_assoc)
    qed
  qed
qed

text \<open>So the whole builder, on a plain query.\<close>

lemma generate_plain:
  assumes t: "plain_tree opt t" "plain_query opt t" and pick: "picks pick"
  shows "\<exists>g. generate_graph opt pick t = Some (Inr g) \<and> plain_graph opt g \<and> graph_preds g = set (tree_preds opt t)
    \<and> map qn_op (nodes g) = map root (leaves opt t)"
proof -
  let ?b = "new_builder opt t" and ?ls = "leaves opt t"
  have "built opt [] {} ?b"
    using built_ok[of "countCreatingOperators opt t" "qg ?b"]
    by (simp add: built_def builder_ok_def new_builder_def new_graph_def sets_ok_def plain_parts_def two_sided_def graph_preds_def)
  then have "populated opt ([] @ ?ls) ({} \<union> set (tree_preds opt t)) ?b (populateQueryGraph opt t ?b)"
    using plain_counts[OF t(2)] by (intro populate_plain[OF t]) (simp_all add: new_builder_def new_graph_def)
  then obtain b where b: "populateQueryGraph opt t ?b = Inr b" "built opt ?ls (set (tree_preds opt t)) b"
    "numNodes (qg b) = length ?ls"
    using plain_counts[OF t(2)] by (auto simp: populated_def new_builder_def new_graph_def)
  have g: "plain_graph opt (qg b)" "two_sided (qg b)" "0 < numNodes (qg b)"
    using b(2,3) built_length[OF b(2)] leaves_some[OF t(1)]
    by (auto simp: built_def builder_ok_def plain_graph_def wf_graph_def)
  obtain h where h: "ensureConnected pick (qg b) = Some (Inr h)" "connects_to opt (qg b) h"
    using ensureConnected_ok[OF pick g] by blast
  have "map qn_op (nodes h) = map qn_op (nodes (qg b))" using h(2) by (intro ops_core) (simp add: connects_to_def)
  then show ?thesis using h b(1,2) by (simp add: generate_graph_def connects_to_def built_def)
qed

end
