(* ===== verification/Join_Order.thy ===== *)
theory Join_Order
  imports Plain_Building
begin

text \<open>
  Join ordering as a whole: \<^verbatim>\<open>optimize\<close> in \<^verbatim>\<open>src/lib/RelAlg/Transforms/OptimizeJoinOrder.cpp\<close> builds
  the query graph of a tree, estimates it, runs the solver its size allows and realizes the plan.
  For queries of selections, inner joins and cross products the tree that comes out computes the
  relation the tree that went in computes.
\<close>

section \<open>The code\<close>

definition operands_of :: "optree \<Rightarrow> nat \<Rightarrow> optree list" where
  "operands_of t i = (case find (\<lambda>s. op_id (root s) = i) (getAllSubOperators t) of Some s \<Rightarrow> children s | None \<Rightarrow> [])"

text \<open>
  The branch of \<^verbatim>\<open>optimize\<close> for supported operators; without a plan the tree stays as it is. \<open>None\<close> stands for a
  builder that does not return.
\<close>

definition optimizeJoins ::
    "nat set \<Rightarrow> (nat \<Rightarrow> nat \<Rightarrow> nat) \<Rightarrow> (qnode \<Rightarrow> nat option) \<Rightarrow> (operator list \<Rightarrow> operator list) \<Rightarrow> nat
     \<Rightarrow> optree \<Rightarrow> optree res option" where
  "optimizeJoins opt pick sample arrange fresh t =
    (case generate_graph opt pick t of
       None \<Rightarrow> None
     | Some r \<Rightarrow> Some (ebind r (\<lambda>g0.
         let g = estimate sample g0
         in ebind (countSubGraphs g 1000) (\<lambda>n.
            ebind (if n < 1000 then solve arrange g else greedy_solve arrange g) (\<lambda>solution.
            case solution of
              None \<Rightarrow> Inr t
            | Some p \<Rightarrow> realizePlan fresh (operands_of t) p)))))"

section \<open>Estimates do not change what matters\<close>

lemma core_estimate:
  "map node_core (nodes (estimate sample g)) = map node_core (nodes g)"
  "je_core ` set (joins (estimate sample g)) = je_core ` set (joins g)"
  "se_core ` set (selections (estimate sample g)) = se_core ` set (selections g)"
proof -
  have "node_core (estimate_node sample n) = node_core n" for n by (simp add: estimate_node_def node_core_def Let_def)
  then show "map node_core (nodes (estimate sample g)) = map node_core (nodes g)" by (simp add: estimate_def Let_def)
  show "je_core ` set (joins (estimate sample g)) = je_core ` set (joins g)"
    by (simp add: estimate_def Let_def image_image je_core_def)
  show "se_core ` set (selections (estimate sample g)) = se_core ` set (selections g)"
    by (simp add: estimate_def Let_def image_image del: if_image_distrib) (rule image_cong; simp add: se_core_def)
qed

lemma wf_estimate:
  assumes "wf_graph g"
  shows "wf_graph (estimate sample g)"
proof -
  let ?h = "estimate sample g"
  have len: "length (nodes ?h) = length (nodes g)" "length (joins ?h) = length (joins g)"
    "length (selections ?h) = length (selections g)" by (simp_all add: estimate_def Let_def)
  have rest: "numNodes ?h = numNodes g" "pseudoNodes ?h = pseudoNodes g" "normalNodesMask ?h = normalNodesMask g"
    "maskSize ?h = maskSize g" "pseudoNodeOwner ?h = pseudoNodeOwner g" by (simp_all add: estimate_def Let_def)
  have edge: "je_left (joins ?h ! i) = je_left (joins g ! i) \<and> je_right (joins ?h ! i) = je_right (joins g ! i)
      \<and> createdNode (joins ?h ! i) = createdNode (joins g ! i)" if "i < length (joins g)" for i
    using that by (simp add: estimate_def Let_def)
  have sel: "required (selections ?h ! i) = required (selections g ! i)" if "i < length (selections g)" for i
    using that by (simp add: estimate_def Let_def)
  have node: "qn_id (nodes ?h ! v) = qn_id (nodes g ! v) \<and> edges (nodes ?h ! v) = edges (nodes g ! v)
      \<and> node_selections (nodes ?h ! v) = node_selections (nodes g ! v)" if "v < length (nodes g)" for v
    using that by (simp add: estimate_def estimate_node_def Let_def)
  have present: "present ?h = present g" by (simp add: present_def len rest)
  have nodes: "node_ok ?h v" if "v < length (nodes g)" for v
  proof -
    have "node_ok g v" using assms that by (simp add: wf_graph_def graph_ok_def)
    moreover have "{i. i < length (joins g) \<and> v \<in> je_left (joins ?h ! i) \<union> je_right (joins ?h ! i)}
        = {i. i < length (joins g) \<and> v \<in> je_left (joins g ! i) \<union> je_right (joins g ! i)}" using edge by auto
    moreover have "{i. i < length (selections g) \<and> v \<in> required (selections ?h ! i)}
        = {i. i < length (selections g) \<and> v \<in> required (selections g ! i)}" using sel by auto
    ultimately show ?thesis using node[OF that] by (simp add: node_ok_def len)
  qed
  have joins: "\<forall>e\<in>set (joins ?h). join_ok ?h e"
  proof
    fix e assume "e \<in> set (joins ?h)"
    then obtain i where i: "i < length (joins g)" "e = joins ?h ! i" by (metis in_set_conv_nth len(2))
    then have "join_ok g (joins g ! i)" using assms by (simp add: wf_graph_def graph_ok_def)
    then show "join_ok ?h e" using edge[OF i(1)] i(2) by (simp add: join_ok_def present rest)
  qed
  have sels: "\<forall>e\<in>set (selections ?h). required e \<subseteq> present ?h"
  proof
    fix e assume "e \<in> set (selections ?h)"
    then obtain i where i: "i < length (selections g)" "e = selections ?h ! i" by (metis in_set_conv_nth len(3))
    then have "required (selections g ! i) \<subseteq> present g" using assms by (simp add: wf_graph_def graph_ok_def)
    then show "required e \<subseteq> present ?h" using sel[OF i(1)] i(2) by (simp add: present)
  qed
  have "owned ?h p = owned g p" for p using edge by (simp add: owned_def rest len cong: conj_cong)
  then have "owners_ok ?h" using assms by (simp add: wf_graph_def owners_ok_iff rest)
  then show ?thesis
    using assms nodes joins sels by (simp add: wf_graph_def graph_ok_def mask_ok_def len rest)
qed

lemma plain_estimate:
  assumes "plain_graph opt g"
  shows "plain_graph opt (estimate sample g)" and "graph_preds (estimate sample g) = graph_preds g"
    and "map qn_op (nodes (estimate sample g)) = map qn_op (nodes g)"
proof -
  note parts = plain_parts_core[OF core_estimate]
  have "pseudoNodes (estimate sample g) = pseudoNodes g" by (simp add: estimate_def Let_def)
  then show "plain_graph opt (estimate sample g)" using assms wf_estimate parts(1) by (simp add: plain_graph_def)
  show "graph_preds (estimate sample g) = graph_preds g" by (rule parts(2))
  show "map qn_op (nodes (estimate sample g)) = map qn_op (nodes g)" by (rule ops_core[OF core_estimate(1)])
qed

section \<open>Counting subgraphs always returns\<close>

lemma mfold_returns:
  "(\<And>i u. i \<in> set is \<Longrightarrow> \<exists>u'. f i u = Inr u') \<Longrightarrow> \<exists>u'. mfold f is u = Inr u'"
proof (induction "is" arbitrary: u)
  case (Cons i "is")
  obtain u1 where "f i u = Inr u1" using Cons.prems[of i u] by auto
  then show ?case using Cons by auto
qed simp

lemma countSubGraphsRec_returns:
  assumes "wf_graph g"
  shows "finite s1 \<Longrightarrow> card ({0..<numNodes g} - x) < fuel \<Longrightarrow> \<exists>n. countSubGraphsRec g m fuel s1 x cnt = Inr n"
proof (induction fuel arbitrary: s1 x cnt)
  case (Suc fuel)
  let ?N = "getNeighbors g s1 x"
  have gok: "graph_ok g" using assms by (simp add: wf_graph_def)
  note N = getNeighbors_outside[OF gok Suc.prems(1), of x]
  have fin: "finite ?N" using N(1) finite_subset by blast
  have "\<exists>u'. (if u + 1 \<ge> m then Inr (u + 1) else countSubGraphsRec g m fuel (s1 \<union> t) (x \<union> ?N) (u + 1)) = Inr u'"
    if t: "t \<in> set (subsets_of (rev (sorted_list_of_set ?N)))" for t u
  proof -
    have t': "t \<subseteq> ?N" "t \<noteq> {}" using t set_subsets[OF fin] by auto
    have "finite (s1 \<union> t)" using Suc.prems(1) t'(1) fin finite_subset by auto
    then show ?thesis using Suc.IH excluded_less[OF N t' Suc.prems(2)] by simp
  qed
  then show ?case unfolding countSubGraphsRec.simps Let_def for_subsets_eq[OF N(1)] by (rule mfold_returns)
qed simp

lemma countSubGraphs_returns:
  assumes "wf_graph g"
  shows "\<exists>n. countSubGraphs g m = Inr n"
proof -
  have "\<exists>n. countSubGraphsRec g m (numNodes g + 1) (single v) x cnt = Inr n" for v x cnt
    by (rule countSubGraphsRec_returns[OF assms _ below_fuel]) (simp add: single_def)
  then have "\<exists>u'. (if u + 1 \<ge> m then Inr (u + 1) else countSubGraphsRec g m (numNodes g + 1) (single v) x (u + 1)) = Inr u'"
    for u v x by simp
  then show ?thesis unfolding countSubGraphs_def by (intro mfold_returns)
qed

section \<open>Equalities that follow from others\<close>

text \<open>
  \<^verbatim>\<open>Plan::joinPlans\<close> takes two columns for equal once predicates equate them, and does not ask under which
  equality. So the predicates must use one kind: \<^verbatim>\<open>eq\<close> throughout, between different columns, or \<^verbatim>\<open>isa\<close>.
\<close>

definition one_equality :: "operator set \<Rightarrow> bool" where
  "one_equality ops \<longleftrightarrow> (\<forall>op\<in>ops. \<forall>x y. \<not> equality_is op IsaP x y \<and> \<not> equality_is op EqP x x)
     \<or> (\<forall>op\<in>ops. \<forall>x y. \<not> equality_is op EqP x y)"

lemma same_column_values:
  assumes "\<And>x y. (x, y) \<in> equalities g P \<Longrightarrow> column_value t x = column_value t y \<and> (strict \<longrightarrow> column_value t x \<noteq> Null)"
    and "(x, y) \<in> same_column g P"
  shows "x = y \<or> column_value t x = column_value t y \<and> (strict \<longrightarrow> column_value t x \<noteq> Null)"
  using assms(2) unfolding same_column_def
proof (induction rule: rtrancl_induct)
  case (step y z)
  then have "(y, z) \<in> equalities g P \<or> (z, y) \<in> equalities g P" by auto
  then have "column_value t y = column_value t z \<and> (strict \<longrightarrow> column_value t y \<noteq> Null)" using assms(1) by fastforce
  then show ?case using step.IH by auto
qed simp

lemma enforced_holds:
  assumes g: "plain_graph opt g" and one: "one_equality (graph_preds g)" and blocks: "\<forall>op\<in>graph_preds g. block_ok op"
    and P: "P \<subseteq> graph_preds g" "all_hold f P t" and e: "e \<in> set (joins g)" "je_op e = Some op" "enforced g P e"
  shows "op_holds f op t"
proof (cases "op \<in> P")
  case True
  then show ?thesis using P(2) by (simp add: all_hold_def)
next
  case False
  then obtain x y where xy: "equality e = Some (x, y)" "(x, y) \<in> same_column g P" using e(2,3) by (auto simp: enforced_def)
  have analyzed: "equality e' = analyzePredicate op'" if "e' \<in> set (joins g)" "je_op e' = Some op'" for e' op'
    by (rule pred_edge[OF g that])
  have op: "op \<in> graph_preds g" using e by (auto simp: graph_preds_def)
  have used: "\<exists>op'\<in>P. op_holds f op' t \<and> block_ok op' \<and> (equality_is op' EqP u v \<or> equality_is op' IsaP u v)"
    if uv: "(u, v) \<in> equalities g P" for u v
  proof -
    obtain e' op' where e': "e' \<in> set (joins g)" "op' \<in> P" "je_op e' = Some op'" "equality e' = Some (u, v)"
      using uv unfolding equalities_def by blast
    then have "analyzePredicate op' = Some (u, v)" using analyzed[OF e'(1,3)] by simp
    then show ?thesis using e'(2) P blocks by (auto simp: analyzePredicate_iff all_hold_def)
  qed
  have eq: "equality_is op EqP x y \<or> equality_is op IsaP x y"
    using analyzed[OF e(1,2)] xy(1) by (simp add: analyzePredicate_iff[symmetric])
  from one show ?thesis unfolding one_equality_def
  proof
    assume strict: "\<forall>op\<in>graph_preds g. \<forall>x y. \<not> equality_is op IsaP x y \<and> \<not> equality_is op EqP x x"
    have "column_value t u = column_value t v \<and> (True \<longrightarrow> column_value t u \<noteq> Null)" if "(u, v) \<in> equalities g P" for u v
      using used[OF that] strict P(1) op_holds_equality(1)[OF _ _ refl] by blast
    from same_column_values[of g P t True, OF this xy(2)] have "x = y \<or> column_value t x = column_value t y \<and> column_value t x \<noteq> Null"
      by simp
    moreover have "equality_is op EqP x y" "x \<noteq> y" using eq strict op by auto
    ultimately show ?thesis using op_holds_equality(1)[OF _ \<open>equality_is op EqP x y\<close> refl] blocks op by blast
  next
    assume loose: "\<forall>op\<in>graph_preds g. \<forall>x y. \<not> equality_is op EqP x y"
    have "column_value t u = column_value t v \<and> (False \<longrightarrow> column_value t u \<noteq> Null)" if "(u, v) \<in> equalities g P" for u v
      using used[OF that] loose P(1) op_holds_equality(2)[OF _ _ refl] by blast
    from same_column_values[of g P t False, OF this xy(2)] have "column_value t x = column_value t y" by auto
    moreover have "equality_is op IsaP x y" using eq loose op by auto
    ultimately show ?thesis using op_holds_equality(2)[OF _ \<open>equality_is op IsaP x y\<close> refl] blocks op by blast
  qed
qed

text \<open>So a plan for the whole query evaluates what the query asks.\<close>

lemma plan_holds:
  assumes g: "plain_graph opt g" and one: "one_equality (graph_preds g)" and blocks: "\<forall>op\<in>graph_preds g. block_ok op"
    and p: "evaluates opt g s p" and s: "{0..<length (nodes g)} \<subseteq> s"
  shows "all_hold f (plan_preds p) t \<longleftrightarrow> all_hold f (graph_preds g) t"
proof
  assume "all_hold f (graph_preds g) t"
  then show "all_hold f (plan_preds p) t" using p by (auto simp: evaluates_def all_hold_def)
next
  assume holds: "all_hold f (plan_preds p) t"
  have sub: "plan_preds p \<subseteq> graph_preds g" using p by (simp add: evaluates_def)
  have gok: "graph_ok g" "numNodes g = length (nodes g)" using g by (auto simp: plain_graph_def wf_graph_def)
  have "op_holds f op t" if "op \<in> graph_preds g" for op
  proof -
    consider e where "e \<in> set (joins g)" "je_op e = Some op" | e where "e \<in> set (selections g)" "op = se_op e"
      | v where "v < length (nodes g)" "op \<in> set (additionalPredicates (nodes g ! v))"
      using \<open>op \<in> graph_preds g\<close> unfolding graph_preds_def set_conv_nth[of "nodes g"] by blast
    then show ?thesis
    proof cases
      case 1
      have "je_left e \<union> je_right e \<subseteq> s" using join_ok_below[OF gok(1) 1(1)] s gok(2) by auto
      then have "enforced g (plan_preds p) e" using p 1(1) by (simp add: evaluates_def)
      then show ?thesis by (rule enforced_holds[OF g one blocks sub holds 1])
    next
      case 2
      have "required e \<subseteq> s" using required_below[OF gok(1) 2(1)] s gok(2) by auto
      then show ?thesis using p 2 holds by (auto simp: evaluates_def all_hold_def)
    next
      case 3
      then have "v \<in> s" using s by auto
      then have "op \<in> plan_preds p" using p 3 unfolding evaluates_def by blast
      then show ?thesis using holds by (simp add: all_hold_def)
    qed
  qed
  then show "all_hold f (graph_preds g) t" by (simp add: all_hold_def)
qed

section \<open>Optimizing keeps what a query computes\<close>

lemma leaves_sub: "l \<in> set (leaves opt t) \<Longrightarrow> l \<in> set (getAllSubOperators t)"
  by (induction t) (auto split: if_splits)

lemma operands_leaf:
  assumes "distinct (map (\<lambda>s. op_id (root s)) (getAllSubOperators t))" and "l \<in> set (getAllSubOperators t)"
  shows "operands_of t (op_id (root l)) = children l"
proof -
  let ?P = "\<lambda>s. op_id (root s) = op_id (root l)"
  have "find ?P (getAllSubOperators t) \<noteq> None" using assms(2) by (auto simp: find_None_iff)
  then obtain s where s: "find ?P (getAllSubOperators t) = Some s" by blast
  then have "s \<in> set (getAllSubOperators t)" "op_id (root s) = op_id (root l)" by (auto simp: find_Some_iff)
  then have "s = l" using assms by (simp add: distinct_map inj_on_def)
  then show ?thesis using s by (simp add: operands_of_def)
qed

text \<open>The leaves of a plan for the whole graph are those of the query.\<close>

lemma plan_leaf_trees:
  assumes ops: "map qn_op (nodes g) = map root ls" and ids: "\<And>l. l \<in> set ls \<Longrightarrow> operands (op_id (root l)) = children l"
    and p: "covers g s p" and s: "{0..<length (nodes g)} \<subseteq> s"
  shows "mset (map (leaf_tree operands) (plan_leaves p)) = mset ls"
proof -
  have len: "length (nodes g) = length ls" using ops map_eq_imp_length_eq by blast
  have "leaf_tree operands (leaf g v) = ls ! v" if v: "v < length ls" for v
  proof -
    have "qn_op (nodes g ! v) = root (ls ! v)" using arg_cong[OF ops, of "\<lambda>xs. xs ! v"] v len by simp
    moreover have "plan_op (leaf g v) = Some (qn_op (nodes g ! v))"
      by (simp add: leaf_def createInitialPlan_def mk_plan_def)
    ultimately show ?thesis using ids[OF nth_mem[OF v]] by (simp add: leaf_tree_def)
  qed
  then have "image_mset (\<lambda>v. leaf_tree operands (leaf g v)) (mset_set {0..<length ls}) = image_mset ((!) ls) (mset_set {0..<length ls})"
    by (intro image_mset_cong) auto
  moreover have "s \<inter> {0..<length (nodes g)} = {0..<length ls}" using s len by auto
  moreover have "mset (plan_leaves p) = image_mset (leaf g) (mset_set (s \<inter> {0..<length (nodes g)}))"
    using p by (simp only: covers_def)
  ultimately have "mset (map (leaf_tree operands) (plan_leaves p)) = image_mset ((!) ls) (mset_set {0..<length ls})"
    by (simp add: multiset.map_comp comp_def)
  also have "\<dots> = mset (map ((!) ls) [0..<length ls])" by (simp only: mset_map mset_upt)
  also have "\<dots> = mset ls" by (simp only: map_nth)
  finally show ?thesis .
qed

lemma realized_plan_eval:
  assumes t: "plain_tree opt t" "separate (leaf_relations f other (leaves opt t))"
    and ids: "distinct (map (\<lambda>s. op_id (root s)) (getAllSubOperators t))" and fresh: "fresh \<notin> opt"
    and g: "plain_graph opt g" "graph_preds g = set (tree_preds opt t)" "map qn_op (nodes g) = map root (leaves opt t)"
    and one: "one_equality (set (tree_preds opt t))" and blocks: "\<forall>op\<in>set (tree_preds opt t). block_ok op"
    and p: "evaluates opt g s p" "{0..<length (nodes g)} \<subseteq> s"
  shows "\<exists>u. realizePlan fresh (operands_of t) p = Inr u \<and> eval_tree f other u = eval_tree f other t"
proof -
  have "scoped opt p" "covers g s p" using p(1) by (auto simp: evaluates_def)
  then obtain u where u: "realizePlan fresh (operands_of t) p = Inr u" "plain_tree opt u"
    "leaves opt u = map (leaf_tree (operands_of t)) (plan_leaves p)"
    "\<And>x. all_hold f (set (tree_preds opt u)) x \<longleftrightarrow> all_hold f (plan_preds p) x"
    using realizePlan_plain[OF fresh, of p "operands_of t" f] by blast
  have "mset (leaves opt u) = mset (leaves opt t)"
    unfolding u(3) by (rule plan_leaf_trees[OF g(3) operands_leaf[OF ids leaves_sub] \<open>covers g s p\<close> p(2)])
  then have perm: "mset (leaf_relations f other (leaves opt t)) = mset (leaf_relations f other (leaves opt u))"
    unfolding leaf_relations_def mset_map by simp
  have "all_hold f (set (tree_preds opt u)) = all_hold f (set (tree_preds opt t))"
    using plan_holds[OF g(1) _ _ p] one blocks u(4) unfolding g(2) by (intro ext) simp
  then have "eval_tree f other u = eval_tree f other t"
    using plain_tree_normal[OF u(2) separate_perm[OF perm t(2)]] plain_tree_normal[OF t] cross_all_perm[OF perm t(2)] by simp
  then show ?thesis using u(1) by blast
qed

text \<open>C1: Join ordering does not change what a query computes. For every tree of selections, inner joins
  and cross products that the pass accepts, over relations with separate columns and with one kind of
  equality, the pass ends without undefined behaviour, whichever solver it chooses, and the tree it
  returns computes the same bag of tuples.\<close>
theorem join_order_correct:
  assumes "plain_tree opt t" and "plain_query opt t" and "separate (leaf_relations f other (leaves opt t))"
    and "distinct (map (\<lambda>s. op_id (root s)) (getAllSubOperators t))" and "fresh \<notin> opt"
    and "one_equality (set (tree_preds opt t))" and "\<forall>op\<in>set (tree_preds opt t). block_ok op"
    and "picks pick" and "iterates arrange"
  shows "\<exists>u. optimizeJoins opt pick sample arrange fresh t = Some (Inr u) \<and> eval_tree f other u = eval_tree f other t"
proof -
  obtain g0 where g0: "generate_graph opt pick t = Some (Inr g0)" "plain_graph opt g0"
    "graph_preds g0 = set (tree_preds opt t)" "map qn_op (nodes g0) = map root (leaves opt t)"
    using generate_plain[OF assms(1,2,8)] by blast
  let ?g = "estimate sample g0"
  have g: "plain_graph opt ?g" "graph_preds ?g = set (tree_preds opt t)" "map qn_op (nodes ?g) = map root (leaves opt t)"
    using plain_estimate[OF g0(2)] g0(3,4) by simp_all
  note wf = g(1)[unfolded plain_graph_def, THEN conjunct1]
  have good: "plain_graph opt ?g \<and> iterates arrange" using g(1) assms(9) by simp
  note final = realized_plan_eval[OF assms(1,3,4,5) g assms(6,7)]
  obtain n where n: "countSubGraphs ?g 1000 = Inr n" using countSubGraphs_returns[OF wf] by blast
  let ?run = "if n < 1000 then solve arrange ?g else greedy_solve arrange ?g"
  have "\<exists>q. ?run = Inr q \<and> (\<forall>p. q = Some p \<longrightarrow> (\<exists>s. evaluates opt ?g s p \<and> {0..<length (nodes ?g)} \<subseteq> s))"
  proof (cases "n < 1000")
    case True
    have "{0..<length (nodes ?g)} \<subseteq> ones (numNodes ?g)" using wf by (auto simp: ones_def wf_graph_def)
    then show ?thesis using evaluating.solve_ok[OF good] True by auto
  next
    case False
    have "nodes ?g \<noteq> []" using g(3) leaves_some[OF assms(1)] by auto
    then obtain q where "greedy_solve arrange ?g = Inr q" using greedy_loop_ok[OF wf _ split_ok_initial[OF wf]]
      unfolding greedy_solve_def by blast
    then show ?thesis using evaluating.greedy_solve_keeps[OF good] False by auto
  qed
  then obtain q where q: "?run = Inr q" "\<And>p. q = Some p \<Longrightarrow> \<exists>s. evaluates opt ?g s p \<and> {0..<length (nodes ?g)} \<subseteq> s"
    by blast
  have run: "optimizeJoins opt pick sample arrange fresh t
      = Some (case q of None \<Rightarrow> Inr t | Some p \<Rightarrow> realizePlan fresh (operands_of t) p)"
    using g0(1) n q(1) by (simp add: optimizeJoins_def Let_def)
  show ?thesis
  proof (cases q)
    case None
    then show ?thesis using run by simp
  next
    case (Some p)
    then show ?thesis using run q(2) final by fastforce
  qed
qed

text \<open>A query over three tables, with all three kinds of operators.\<close>

definition sample_query :: optree where
  "sample_query = OpTree (sample_filter 1 2) [OpTree (cross_product 20)
     [OpTree ((sample_filter 0 1)\<lparr>op_kind := InnerJoinOp\<rparr>) [sample_leaf 0, sample_leaf 1], sample_leaf 2]]"

definition sample_tables :: "operator \<Rightarrow> relation list \<Rightarrow> relation" where
  "sample_tables op rs = {#[op_id op \<mapsto> Data 1], [op_id op \<mapsto> Data 2], [op_id op \<mapsto> Null]#}"

lemma sample_query_plain: "plain_tree {0, 1, 2} sample_query" "plain_query {0, 1, 2} sample_query"
  by (simp_all add: sample_query_def sample_defs cross_product_def usedColumns_def getAvailableColumns_def
      isUnsupportedOp_def isJoin_def isBinary_def)

lemma sample_query_leaves: "leaves {0, 1, 2} sample_query = map sample_leaf [0, 1, 2]"
  "tree_preds {0, 1, 2} sample_query = [(sample_filter 0 1)\<lparr>op_kind := InnerJoinOp\<rparr>, sample_filter 1 2]"
  by (simp_all add: sample_query_def sample_defs cross_product_def plain_op_def numeral_2_eq_2)

lemma sample_query_separate: "separate (leaf_relations f sample_tables (leaves {0, 1, 2} sample_query))"
  unfolding sample_query_leaves
  by (simp add: separate_def leaf_relations_def sample_leaf_def sample_relation_def sample_tables_def eval_operator_def
      tuples_over_def apart_columns_def)

lemma sample_query_ids: "distinct (map (\<lambda>s. op_id (root s)) (getAllSubOperators sample_query))"
  by (simp add: sample_query_def sample_defs cross_product_def)

lemma sample_query_equalities: "one_equality (set (tree_preds {0, 1, 2} sample_query))"
  unfolding sample_query_leaves
  by (auto simp: one_equality_def equality_is_def sample_filter_def getDefiningOp_def column_of_def)

lemma sample_query_blocks: "\<forall>op\<in>set (tree_preds {0, 1, 2} sample_query). block_ok op"
  unfolding sample_query_leaves by (simp add: block_ok_def sample_filter_def)

lemma join_order_correct_witness:
  "\<exists>u. optimizeJoins {0, 1, 2} (\<lambda>a b. a) (\<lambda>n. None) rev 21 sample_query = Some (Inr u)
    \<and> eval_tree (\<lambda>i v as. Null) sample_tables u = eval_tree (\<lambda>i v as. Null) sample_tables sample_query"
  by (rule join_order_correct[OF sample_query_plain sample_query_separate sample_query_ids _ sample_query_equalities
        sample_query_blocks]) (simp_all add: picks_def iterates_def)

text \<open>
  With both kinds of equality a predicate can get lost: joining on \<^verbatim>\<open>isa\<close> makes the two columns equivalent,
  and \<^verbatim>\<open>eq\<close> between them, which rejects the pair of NULLs that \<^verbatim>\<open>isa\<close> accepts, is dropped.
\<close>

definition sample_isa :: operator where
  "sample_isa = (sample_filter 0 1)\<lparr>op_id := 30,
     predicateBlock := Some [GetColumnOp 0 0, GetColumnOp 1 1, CmpOp 2 (DbCmp IsaP) 0 1]\<rparr>"

definition sample_mixed :: query_graph where
  "sample_mixed = addJoinEdge {0} {1} (Some (sample_filter 0 1)) None (addJoinEdge {0} {1} (Some sample_isa) None
     (addNode (sample_relation 1) (addNode (sample_relation 0) (new_graph 2))))"

lemma mixed_equality_lost:
  "predicates (fold apply_edge (joins sample_mixed) (start_join sample_mixed {0} {1} p q)) = [sample_isa]
    \<and> op_holds f sample_isa [0 \<mapsto> Null, 1 \<mapsto> Null] \<and> \<not> op_holds f (sample_filter 0 1) [0 \<mapsto> Null, 1 \<mapsto> Null]"
proof -
  let ?e = "\<lambda>op. \<lparr>je_op = Some op, je_right = {1}, je_left = {0}, je_selectivity = one, createdNode = None,
     equality = Some (0, 1)\<rparr> :: join_edge"
  have ana: "analyzePredicate sample_isa = Some (0, 1)" "analyzePredicate (sample_filter 0 1) = Some (0, 1)"
    "op_kind sample_isa = SelectionOp" "op_kind (sample_filter 0 1) = SelectionOp"
    by (simp_all add: analyzePredicate_def sample_isa_def sample_filter_def getDefiningOp_def column_of_def)
  have joins: "joins sample_mixed = [?e sample_isa, ?e (sample_filter 0 1)]"
    by (simp add: sample_mixed_def addJoinEdge_plain append_edge_def addNode_def new_graph_def ana ana[simplified])
  have "predicates (fold apply_edge (joins sample_mixed) (start_join sample_mixed {0} {1} p q)) = [sample_isa]"
    unfolding joins
    by (simp add: joins start_join_def equal_columns_def je_connects_def apply_edge_def use_operator_def ana Let_def
        isEquivalent_def unionSets_def insert_pred_def)
  then show ?thesis
    by (simp add: op_holds_def sample_isa_def sample_filter_def eval_block_def sql_eq_def)
qed

end
