(* ===== verification/Spec2Isabelle.thy ===== *)
theory Spec2Isabelle
  imports Append_Array Matrix_Correct Fill_Correct Print_Correct Array_Runtime Top_K_Heap Like_Correct Segment_Tree Runtime_Helpers Scalar_Runtime Hash_Table Hash_Multi_Map Join_Tables Hash_Index Entry_Lock Pre_Aggregation DPHyp_Optimal Join_Order
begin

text \<open>
  LingoDB compiles SQL queries. A query is a tree of relational operators (an MLIR dialect); the
  optimizer reorders its joins, further lowerings turn it into machine code, and that code calls a
  runtime library for what it does not do inline: hash tables, sorting, strings, numbers, arrays. This
  development models the logic that is written in C++ and carries the meaning of a query: the join
  optimizer, and the runtime with its arrays, strings, buffers and hash tables.

  \<^bold>\<open>Common ground.\<close> \<open>Prelude\<close> has the results of fallible code (an error or a value; \<open>Undefined\<close>
  is a step without meaning in C++), the combinators for statements and loops, and 32-bit arithmetic;
  \<open>Byte_Buffer\<close>, \<open>Null_Bits\<close>, \<open>Std_Strings\<close> and \<open>IEEE_Float\<close> model byte strings with checked
  reads and writes, bit strings, the C++ string functions and binary floating point. Numbers keep the
  width the code gives them: the wrap-around is written out, or values are words.

  \<^bold>\<open>Join ordering\<close> (\<^verbatim>\<open>src/lib/RelAlg/Transforms/OptimizeJoinOrder.cpp\<close>, \<^verbatim>\<open>queryopt/\<close>). The pass takes a tree
  whose leaves are already optimized, builds its query graph, estimates row counts and selectivities,
  counts the connected subgraphs, runs dynamic programming when they are fewer than 1000 and a greedy
  algorithm otherwise, and realizes the plan as a tree.

  \<^item> \<open>RelAlg_Operators\<close>: kinds of operators and the reordering tables (\<^verbatim>\<open>RelAlgOpsInterfaces.h\<close>,
    \<^verbatim>\<open>OperatorInterfaceImpl.cpp\<close>). \<open>Operator_Tree\<close>, \<open>Query_Tree\<close>: predicates evaluated operation by
    operation with SQL's NULL, trees and the bags of tuples they compute, and the normal form of trees
    of selections, inner joins and cross products.
  \<^item> \<open>Node_Set\<close> (\<^verbatim>\<open>utils.h\<close>, \<^verbatim>\<open>utils.cpp\<close>): bit sets, and the enumeration of all subsets in the order of
    their numbers. \<open>Query_Graph\<close> (\<^verbatim>\<open>QueryGraph.h\<close>): nodes, hyperedges, pseudo nodes, neighbourhoods; every
    step that builds a graph keeps it well-formed.
  \<^item> \<open>Query_Graph_Builder\<close> (\<^verbatim>\<open>QueryGraphBuilder.cpp\<close>): the whole builder, with its caches, the conflict
    rules of outer, semi and mark joins and the loop that connects the graph; every graph it makes is
    well-formed. \<open>Plain_Building\<close>: on selections, inner joins and cross products it always ends, with
    exactly the predicates of the tree.
  \<^item> \<open>Join_Plan\<close> (\<^verbatim>\<open>QueryGraph.cpp\<close>, \<^verbatim>\<open>Plan::joinPlans\<close>): estimates and costs in binary64, joining two plans.
    Its locale \<open>plan_invariant\<close> is the interface between joining and solving: a statement about plans
    that initial plans have and joining keeps. \<open>DPHyp\<close> (\<^verbatim>\<open>DPhyp.cpp\<close>) and \<open>GOO\<close> (\<^verbatim>\<open>GOO.cpp\<close>) prove once that
    all their plans have such a statement; the interpretations are \<open>covering\<close> (a plan joins each relation
    of its problem once, and its cost is the model's) and \<open>evaluating\<close> (it evaluates every predicate).
  \<^item> \<open>Csg_Enumeration\<close>, \<open>DPHyp_Optimal\<close>: on graphs whose edges join two relations the dynamic programming
    meets every connected subgraph and every way to split it, its final table is optimal among them,
    and the count the pass decides by is exact below its bound.
  \<^item> \<open>Join_Predicates\<close>: no predicate is lost by either solver, save equalities that follow from others.
    \<open>Plan_Realization\<close> (\<^verbatim>\<open>Plan::realizePlan\<close>): plans back to trees. \<open>Join_Order\<close>: the pass as a whole; the
    tree it returns computes the bag the input computes. With both kinds of equality (\<^verbatim>\<open>eq\<close> and \<^verbatim>\<open>isa\<close>) in one
    query it does not: the lemma \<open>mixed_equality_lost\<close> holds the counterexample.

  \<^bold>\<open>Arrays\<close> (\<^verbatim>\<open>src/lib/runtime/Array\<close>, \<^verbatim>\<open>src/include/runtime/Array.h\<close>, \<^verbatim>\<open>Array.tpp\<close>). An array is a byte string
  in the array processable format; every operation reads such a string through an object of
  \<^verbatim>\<open>runtime::Array\<close> and builds a new one.

  \<^item> \<open>Array_Object\<close>: the object and its accessors, every load checked. \<open>Array_Layout\<close>: the content of an
    array (\<open>flat\<close>), its bytes (\<open>encode\<close>) and what every accessor returns, proved in the locale
    \<open>array_layout\<close> and interpreted on the encoded arrays; \<open>Array_Content\<close>: the values of an array.
  \<^item> The operations: \<open>Array_Append\<close>, \<open>Elem_Values\<close>, \<open>Array_Arith\<close>, \<open>Array_Cast\<close>, \<open>Array_Fill\<close>, \<open>Array_Slice\<close>,
    \<open>Array_Transpose\<close>, \<open>Array_Print\<close>, \<open>Array_Parse\<close>, and \<open>Array_Runtime\<close>, the functions compiled code calls
    (\<^verbatim>\<open>ArrayRuntime.cpp\<close>).
  \<^item> What they compute: \<open>Append_Correct\<close>, \<open>Append_Array\<close>, \<open>Arith_Correct\<close> (one proof for the four operators,
    in the locale \<open>binary_operator\<close>), \<open>Matrix_Correct\<close>, \<open>Cast_Correct\<close>, \<open>Fill_Correct\<close>, \<open>Print_Correct\<close>: from the bytes of a
    well-formed array the code builds exactly the bytes of the array its specification names, never
    reading or writing outside a buffer.

  \<^bold>\<open>Strings and numbers.\<close> \<open>String_Runtime\<close> (\<^verbatim>\<open>StringRuntime.cpp\<close>, the generator for constant patterns in
  \<^verbatim>\<open>RuntimeFunctions.cpp\<close>) and \<open>Like_Correct\<close>, both implementations of \<^verbatim>\<open>LIKE\<close> against SQL's;
  \<open>Runtime_Helpers\<close> (\<^verbatim>\<open>helpers.h\<close>), strings in 16 bytes and tagged pointers; \<open>Scalar_Runtime\<close>
  (\<^verbatim>\<open>IntegerRuntime.cpp\<close>, \<^verbatim>\<open>DecimalRuntime.cpp\<close>, \<^verbatim>\<open>DateRuntime.cpp\<close>); \<open>Comparators\<close>, the comparison functions a query
  hands to the runtime, as the locale \<open>strict_weak_order\<close>.

  \<^bold>\<open>States of compiled queries.\<close> \<open>Top_K_Heap\<close> (\<^verbatim>\<open>Heap.cpp\<close>), \<open>Segment_Tree\<close> (\<^verbatim>\<open>SegmentTreeView.cpp\<close>, over the
  locale \<open>associative_combine\<close>), \<open>Flexible_Buffer\<close> (\<^verbatim>\<open>Buffer.h\<close>, \<^verbatim>\<open>GrowingBuffer.cpp\<close>), \<open>Hash_Table\<close> (\<^verbatim>\<open>Hashtable.cpp\<close>),
  \<open>Hash_Multi_Map\<close> (\<^verbatim>\<open>HashMultiMap.cpp\<close>), \<open>Join_Tables\<close> (\<^verbatim>\<open>LazyJoinHashtable.cpp\<close>), \<open>Hash_Index\<close> (\<^verbatim>\<open>HashIndex.cpp\<close>,
  \<^verbatim>\<open>RecordBatchInfo.cpp\<close>: a lookup in the index of a relation yields exactly the rows with the hash),
  \<open>Entry_Lock\<close> and \<open>Pre_Aggregation\<close> (\<^verbatim>\<open>PreAggregationHashtable.cpp\<close>).
  Concurrent code is a sequence of atomic steps of any number of threads; statements about it hold
  for every interleaving. The memory of the hash tables is an explicit map from addresses to entries.

  \<^bold>\<open>Parameters.\<close> Code that is not in the repository is an argument of the definitions: \<^verbatim>\<open>malloc\<close>, the BLAS
  routine, the exponential function, the parsers and tables of Apache Arrow, the estimate from a sample, the
  functions a compiled query hands to the runtime, the order in which an \<^verbatim>\<open>unordered_set\<close> is
  iterated, the leader of the union of two LLVM equivalence classes. What a theorem relies on of them is
  a hypothesis with a name.

  \<^bold>\<open>Fuel and loops.\<close> The recursive enumerations of \<open>DPHyp\<close> carry fuel, the number of nodes plus one. It is
  enough: every call excludes at least one node more (\<open>dphyp_plans\<close>, \<open>countSubGraphs_returns\<close>). Loops
  whose end is not plain from the code are partial functions with the value \<open>None\<close> when they do not
  return, and the theorems about them prove that they do (the subset loop, the search in a hash chain,
  the connecting loop of the builder, the heap and the segment tree).

  \<^bold>\<open>Not modelled.\<close> The other passes over the relational and the sub-operator dialect and the lowerings
  rewrite MLIR operations in place; stating that they keep the meaning of a program takes a semantics
  of values, blocks and regions of every dialect involved, of which the development has the part the
  join ordering reads. Of the join ordering, the row counts that \<^verbatim>\<open>estimateUnsupported\<close> hands on, printing, and
  the moves that keep operations in dominance order are left out; \<open>optimizeJoins\<close> is the branch of
  \<^verbatim>\<open>optimize\<close> for operators it supports. The SQL front end translates the syntax trees of a vendored parser;
  the execution engine drives LLVM and Cranelift; tables and the catalog are calls of Apache Arrow
  and the file system. Vendored code, tools, bindings and tests are no part of the model.
\<close>

end
